(* ===== verification/Ael_Prelude.thy ===== *)
theory Ael_Prelude
  imports Main "HOL-Library.Word"
begin

text \<open>
  Shared vocabulary of the libael development: bytes, error numbers, C++ exceptions as values,
  the composition of fallible steps, the log levels (they decide whether the message of a log
  statement is evaluated), the compile-time configuration, and the generic lemmas that the
  component theories use.
\<close>

unbundle bit_operations_syntax

subsection \<open>Bytes, error numbers, exceptions\<close>

type_synonym byte = "8 word"
type_synonym bytes = "byte list"
type_synonym fd = int

text \<open>
  The error numbers that some \<open>switch (errno)\<close> of the library names, and every other one.
  The labels of a C++ switch are pairwise distinct values, so a datatype loses nothing.
\<close>

datatype errno =
    EAGAIN | EBADF | EFAULT | EINVAL | ENOTCONN | ENOTSOCK | EDESTADDRREQ | EMSGSIZE
  | ENOMEM | EOPNOTSUPP | EMFILE | ENFILE | ENOBUFS | EINPROGRESS | EAFNOSUPPORT
  | EALREADY | EISCONN | Eother nat

text \<open>
  What the library throws: \<open>std::system_error\<close>, a string literal, \<open>std::out_of_range\<close>,
  the allocation error of \<open>new[]\<close> with a negative size.  \<open>Undefined\<close> stands for undefined
  behaviour that a run may hit (dereferencing a null pointer, reading outside a block,
  freeing a block that is not live).
\<close>

datatype exn =
    System_error errno string
  | Thrown string
  | Out_of_range string
  | Bad_array_length
  | Undefined string

subsection \<open>Composing fallible steps\<close>

definition bindE :: "'e + 'a \<Rightarrow> ('a \<Rightarrow> 'e + 'b) \<Rightarrow> 'e + 'b" where
  "bindE m f = (case m of Inl e \<Rightarrow> Inl e | Inr x \<Rightarrow> f x)"

lemma bindE_simps [simp]:
  "bindE (Inl e) f = Inl e"
  "bindE (Inr x) f = f x"
  by (simp_all add: bindE_def)

lemma bindE_eq_Inr [simp]: "bindE m f = Inr y \<longleftrightarrow> (\<exists>x. m = Inr x \<and> f x = Inr y)"
  by (cases m) auto

lemma Inr_eq_bindE [simp]: "Inr y = bindE m f \<longleftrightarrow> (\<exists>x. m = Inr x \<and> f x = Inr y)"
  by (cases m) auto

lemma bindE_assoc: "bindE (bindE m f) g = bindE m (\<lambda>x. bindE (f x) g)"
  by (cases m) auto

lemma bindE_cong [fundef_cong]:
  "m = m' \<Longrightarrow> (\<And>x. m' = Inr x \<Longrightarrow> f x = f' x) \<Longrightarrow> bindE m f = bindE m' f'"
  by (cases m') auto

subsection \<open>Log levels\<close>

datatype log_level = LTrace | LDebug | LInfo | LWarn | LError | LCritical | LNone

fun level_num :: "log_level \<Rightarrow> nat" where
  "level_num LTrace = 0"
| "level_num LDebug = 1"
| "level_num LInfo = 2"
| "level_num LWarn = 3"
| "level_num LError = 4"
| "level_num LCritical = 5"
| "level_num LNone = 6"

lemma level_num_inj: "level_num a = level_num b \<Longrightarrow> a = b"
  by (cases a; cases b) simp_all

instantiation log_level :: linorder
begin

definition less_eq_log_level :: "log_level \<Rightarrow> log_level \<Rightarrow> bool" where
  "less_eq_log_level a b \<longleftrightarrow> level_num a \<le> level_num b"

definition less_log_level :: "log_level \<Rightarrow> log_level \<Rightarrow> bool" where
  "less_log_level a b \<longleftrightarrow> level_num a < level_num b"

instance
  by standard (auto simp: less_eq_log_level_def less_log_level_def level_num_inj)

end

text \<open>
  The log sink of the process: absent, or present with a threshold.  The macro
  \<open>LOG_LEVEL\<close> evaluates its message exactly when a sink is set and the level reaches it.
\<close>

record log_sink =
  sink_set :: bool
  threshold :: log_level

definition log_enabled :: "log_sink \<Rightarrow> log_level \<Rightarrow> bool" where
  "log_enabled sink l \<longleftrightarrow> sink_set sink \<and> threshold sink \<le> l"

definition default_sink :: log_sink where
  "default_sink = \<lparr>sink_set = False, threshold = LNone\<rparr>"

lemma log_enabled_default [simp]: "\<not> log_enabled default_sink l"
  by (simp add: log_enabled_def default_sink_def)

lemma log_enabled_mono: "log_enabled s a \<Longrightarrow> a \<le> b \<Longrightarrow> log_enabled s b"
  by (auto simp: log_enabled_def)

subsection \<open>Configuration\<close>

record config =
  listen_backlog :: int
  listen_starvation_limit :: int
  read_starvation_limit :: int
  write_starvation_limit :: int
  interval_occurrences_limit :: "32 word"

definition global_config :: config where
  "global_config =
     \<lparr>listen_backlog = 128,
      listen_starvation_limit = 50,
      read_starvation_limit = 1048576,
      write_starvation_limit = 1048576,
      interval_occurrences_limit = 10\<rparr>"

subsection \<open>Lists and options\<close>

text \<open>The bytes of a possibly absent data view.\<close>

definition opt_bytes :: "bytes option \<Rightarrow> bytes" where
  "opt_bytes d = (case d of None \<Rightarrow> [] | Some bs \<Rightarrow> bs)"

lemma opt_bytes_simps [simp]:
  "opt_bytes None = []"
  "opt_bytes (Some bs) = bs"
  by (simp_all add: opt_bytes_def)

lemma take_drop_slice:
  "i + n \<le> length xs \<Longrightarrow> k \<le> n \<Longrightarrow> drop k (take n (drop i xs)) = take (n - k) (drop (i + k) xs)"
  by (simp add: drop_take add.commute)

lemma last_butlast_update:
  "xs \<noteq> [] \<Longrightarrow> xs[length xs - 1 := f (last xs)] = butlast xs @ [f (last xs)]"
  by (induction xs) (auto simp: Suc_diff_le gr0_conv_Suc neq_Nil_conv split: nat.splits)

lemma nth_last_index: "xs \<noteq> [] \<Longrightarrow> xs ! (length xs - 1) = last xs"
  by (simp add: last_conv_nth)

text \<open>Runs are evaluated move by move.\<close>

lemma replicate_unfold: "replicate (numeral k) a = a # replicate (pred_numeral k) a"
  by (simp add: numeral_eq_Suc)

end
