(* ===== verification/Data_View.thy ===== *)
theory Data_View
  imports Ael_Prelude
begin

text \<open>
  The class \<open>DataView\<close> of \<open>include/data_view.h\<close> and \<open>lib/data_view.cc\<close>: a pointer, a signed
  32-bit length and a flag that says whether the view owns its bytes.  Memory is an explicit
  store of blocks, because what the class promises is about sharing: a plain view aliases the
  caller's bytes, \<open>Save\<close> makes a private copy, and only the destructor of a saved view frees.
  A read outside a live block, and freeing a block that is not live, are \<open>Undefined\<close>.
\<close>

subsection \<open>Memory and views\<close>

datatype ptr = Null | Ptr nat nat \<comment> \<open>block and offset\<close>

record memory =
  blocks :: "nat \<rightharpoonup> bytes"
  fresh_block :: nat

record data_view =
  dv_data :: ptr
  dv_length :: int
  dv_saved :: bool

text \<open>Narrowing a \<open>size_t\<close> to \<open>int\<close>: two's complement, 32 bits.\<close>

definition narrow_int :: "nat \<Rightarrow> int" where
  "narrow_int n = signed_take_bit 31 (int n)"

definition mem_alloc :: "bytes \<Rightarrow> memory \<Rightarrow> ptr \<times> memory" where
  "mem_alloc bs m =
     (Ptr (fresh_block m) 0,
      m\<lparr>blocks := (blocks m)(fresh_block m \<mapsto> bs), fresh_block := Suc (fresh_block m)\<rparr>)"

definition mem_read :: "memory \<Rightarrow> ptr \<Rightarrow> nat \<Rightarrow> exn + bytes" where
  "mem_read m p n =
     (if n = 0 then Inr []
      else case p of
        Null \<Rightarrow> Inl (Undefined ''null read'')
      | Ptr b i \<Rightarrow>
          (case blocks m b of
             None \<Rightarrow> Inl (Undefined ''read of a freed block'')
           | Some bs \<Rightarrow>
               if i + n \<le> length bs then Inr (take n (drop i bs))
               else Inl (Undefined ''read past the block'')))"

definition mem_free :: "memory \<Rightarrow> ptr \<Rightarrow> exn + memory" where
  "mem_free m p =
     (case p of
        Ptr b 0 \<Rightarrow>
          if blocks m b = None then Inl (Undefined ''double free'')
          else Inr (m\<lparr>blocks := (blocks m)(b := None)\<rparr>)
      | _ \<Rightarrow> Inl (Undefined ''free of a pointer new did not return''))"

subsection \<open>Constructors\<close>

definition dv_default :: data_view where
  "dv_default = \<lparr>dv_data = Null, dv_length = 0, dv_saved = False\<rparr>"

definition dv_copy :: "data_view \<Rightarrow> data_view" where
  "dv_copy v = \<lparr>dv_data = dv_data v, dv_length = dv_length v, dv_saved = False\<rparr>"

definition dv_of_buffer :: "ptr \<Rightarrow> int \<Rightarrow> data_view" where
  "dv_of_buffer p n = \<lparr>dv_data = p, dv_length = n, dv_saved = False\<rparr>"

text \<open>A string of \<open>n\<close> characters whose buffer starts at \<open>p\<close>.\<close>

definition dv_of_string :: "ptr \<Rightarrow> nat \<Rightarrow> data_view" where
  "dv_of_string p n = \<lparr>dv_data = p, dv_length = narrow_int n, dv_saved = False\<rparr>"

subsection \<open>Operations\<close>

definition ptr_plus :: "ptr \<Rightarrow> nat \<Rightarrow> ptr" where
  "ptr_plus p k = (case p of Null \<Rightarrow> Null | Ptr b i \<Rightarrow> Ptr b (i + k))"

definition dv_slice :: "data_view \<Rightarrow> int \<Rightarrow> exn + data_view" where
  "dv_slice v k =
     (if k < 0 \<or> k > dv_length v
      then Inl (Out_of_range ''the suffix index is larger than data length'')
      else if k = dv_length v then Inr dv_default
      else Inr (dv_of_buffer (ptr_plus (dv_data v) (nat k)) (dv_length v - k)))"

definition dv_save :: "data_view \<Rightarrow> memory \<Rightarrow> exn + data_view \<times> memory" where
  "dv_save v m =
     (if dv_saved v then Inr (v, m)
      else if dv_length v < 0 then Inl Bad_array_length
      else bindE (mem_read m (dv_data v) (nat (dv_length v))) (\<lambda>bs.
        let (p, m') = mem_alloc bs m
        in Inr (\<lparr>dv_data = p, dv_length = dv_length v, dv_saved = True\<rparr>, m')))"

definition dv_append :: "data_view \<Rightarrow> memory \<Rightarrow> bytes \<Rightarrow> exn + bytes" where
  "dv_append v m str =
     (if dv_length v \<le> 0 then Inr str
      else bindE (mem_read m (dv_data v) (nat (dv_length v))) (\<lambda>bs. Inr (str @ bs)))"

definition dv_destroy :: "data_view \<Rightarrow> memory \<Rightarrow> exn + memory" where
  "dv_destroy v m =
     (if dv_saved v \<and> dv_data v \<noteq> Null then mem_free m (dv_data v) else Inr m)"

subsection \<open>What a view denotes\<close>

definition denotes :: "memory \<Rightarrow> data_view \<Rightarrow> bytes \<Rightarrow> bool" where
  "denotes m v bs \<longleftrightarrow> dv_length v = int (length bs) \<and> mem_read m (dv_data v) (length bs) = Inr bs"

definition mem_wf :: "memory \<Rightarrow> bool" where
  "mem_wf m \<longleftrightarrow> (\<forall>b. fresh_block m \<le> b \<longrightarrow> blocks m b = None)"

lemma mem_read_Inr_length: "mem_read m p n = Inr bs \<Longrightarrow> length bs = n"
  by (auto simp: mem_read_def split: if_splits ptr.splits option.splits)

lemma denotes_fun: "denotes m v bs \<Longrightarrow> denotes m v cs \<Longrightarrow> bs = cs"
  by (simp add: denotes_def)

lemma denotes_length: "denotes m v bs \<Longrightarrow> dv_length v = int (length bs)"
  by (simp add: denotes_def)

lemma denotes_copy [simp]: "denotes m (dv_copy v) bs \<longleftrightarrow> denotes m v bs"
  by (simp add: denotes_def dv_copy_def)

lemma denotes_append: "denotes m v bs \<Longrightarrow> dv_append v m str = Inr (str @ bs)"
  by (auto simp: denotes_def dv_append_def)

lemma mem_read_drop:
  assumes "mem_read m p n = Inr bs" and "k < n"
  shows "mem_read m (ptr_plus p k) (n - k) = Inr (drop k bs)"
  using assms
  by (auto simp: mem_read_def ptr_plus_def take_drop_slice drop_take add.commute
      split: if_splits ptr.splits option.splits)

lemma denotes_slice:
  assumes "denotes m v bs" and "k \<le> length bs"
  shows "\<exists>w. dv_slice v (int k) = Inr w \<and> denotes m w (drop k bs) \<and> \<not> dv_saved w"
proof (cases "k = length bs")
  case True
  with assms show ?thesis
    by (simp add: denotes_def dv_slice_def dv_default_def mem_read_def)
next
  case False
  with assms have "k < length bs" by simp
  with assms mem_read_drop [of m "dv_data v" "length bs" bs k] show ?thesis
    by (auto simp: denotes_def dv_slice_def dv_of_buffer_def)
qed

lemma mem_alloc_read:
  "mem_alloc bs m = (p, m') \<Longrightarrow> mem_read m' p (length bs) = Inr bs"
  by (auto simp: mem_alloc_def mem_read_def)

lemma denotes_save:
  assumes "denotes m v bs" and "\<not> dv_saved v"
  shows "\<exists>m'. dv_save v m =
           Inr (\<lparr>dv_data = Ptr (fresh_block m) 0, dv_length = dv_length v, dv_saved = True\<rparr>, m')
         \<and> m' = m\<lparr>blocks := (blocks m)(fresh_block m \<mapsto> bs), fresh_block := Suc (fresh_block m)\<rparr>"
  using assms by (auto simp: denotes_def dv_save_def mem_alloc_def)

subsection \<open>Lifetimes: programs over view objects\<close>

text \<open>
  A program that uses the class: it owns buffers of its own (which it may overwrite and free at
  any time), and creates, copies, slices, saves and destroys views.  An object is destroyed when
  its last reference goes; saving a saved view returns a reference to the same object
  (\<open>shared_from_this\<close>), so it changes nothing here.
\<close>

record view_state =
  vmem :: memory
  vobjs :: "nat \<rightharpoonup> data_view"
  vnext :: nat
  caller_blocks :: "nat list"

datatype view_op =
    Caller_new bytes
  | Caller_write nat bytes
  | Caller_free nat
  | View_buffer nat
  | View_copy nat
  | View_slice nat int
  | View_save nat
  | View_destroy nat

definition view_add :: "data_view \<Rightarrow> view_state \<Rightarrow> view_state" where
  "view_add v s = s\<lparr>vobjs := (vobjs s)(vnext s \<mapsto> v), vnext := Suc (vnext s)\<rparr>"

definition view_get :: "nat \<Rightarrow> view_state \<Rightarrow> exn + data_view" where
  "view_get i s = (case vobjs s i of None \<Rightarrow> Inl (Undefined ''no such object'') | Some v \<Rightarrow> Inr v)"

fun view_step :: "view_op \<Rightarrow> view_state \<Rightarrow> exn + view_state" where
  "view_step (Caller_new bs) s =
     (let (p, m') = mem_alloc bs (vmem s)
      in Inr (s\<lparr>vmem := m', caller_blocks := fresh_block (vmem s) # caller_blocks s\<rparr>))"
| "view_step (Caller_write b bs) s =
     (if b \<in> set (caller_blocks s) \<and> map_option length (blocks (vmem s) b) = Some (length bs)
      then Inr (s\<lparr>vmem := (vmem s)\<lparr>blocks := (blocks (vmem s))(b \<mapsto> bs)\<rparr>\<rparr>)
      else Inl (Undefined ''write to a block the caller does not own''))"
| "view_step (Caller_free b) s =
     (if b \<in> set (caller_blocks s)
      then bindE (mem_free (vmem s) (Ptr b 0)) (\<lambda>m'. Inr (s\<lparr>vmem := m'\<rparr>))
      else Inl (Undefined ''free of a block the caller does not own''))"
| "view_step (View_buffer b) s =
     (case (if b \<in> set (caller_blocks s) then blocks (vmem s) b else None) of
        None \<Rightarrow> Inl (Undefined ''no such buffer'')
      | Some bs \<Rightarrow> Inr (view_add (dv_of_string (Ptr b 0) (length bs)) s))"
| "view_step (View_copy i) s = bindE (view_get i s) (\<lambda>v. Inr (view_add (dv_copy v) s))"
| "view_step (View_slice i k) s =
     bindE (view_get i s) (\<lambda>v. bindE (dv_slice v k) (\<lambda>w. Inr (view_add w s)))"
| "view_step (View_save i) s =
     bindE (view_get i s) (\<lambda>v.
       if dv_saved v then Inr s
       else bindE (dv_save v (vmem s)) (\<lambda>(w, m'). Inr (view_add w (s\<lparr>vmem := m'\<rparr>))))"
| "view_step (View_destroy i) s =
     bindE (view_get i s) (\<lambda>v.
       bindE (dv_destroy v (vmem s)) (\<lambda>m'. Inr (s\<lparr>vmem := m', vobjs := (vobjs s)(i := None)\<rparr>)))"

fun view_run :: "view_op list \<Rightarrow> view_state \<Rightarrow> exn + view_state" where
  "view_run [] s = Inr s"
| "view_run (x # xs) s = bindE (view_step x s) (view_run xs)"

definition view_init :: view_state where
  "view_init =
     \<lparr>vmem = \<lparr>blocks = Map.empty, fresh_block = 0\<rparr>, vobjs = Map.empty, vnext = 0, caller_blocks = []\<rparr>"

text \<open>
  Ownership: a saved view points to the start of a live block that no other saved view and no
  caller buffer shares, and whose size is its length.
\<close>

definition owns :: "view_state \<Rightarrow> nat \<Rightarrow> nat \<Rightarrow> bool" where
  "owns s i b \<longleftrightarrow> (\<exists>v. vobjs s i = Some v \<and> dv_saved v \<and> dv_data v = Ptr b 0)"

definition view_inv :: "view_state \<Rightarrow> bool" where
  "view_inv s \<longleftrightarrow>
     mem_wf (vmem s)
   \<and> (\<forall>i. vnext s \<le> i \<longrightarrow> vobjs s i = None)
   \<and> (\<forall>b \<in> set (caller_blocks s). b < fresh_block (vmem s))
   \<and> (\<forall>i v. vobjs s i = Some v \<longrightarrow> dv_saved v \<longrightarrow>
        (\<exists>b bs. dv_data v = Ptr b 0 \<and> blocks (vmem s) b = Some bs \<and> dv_length v = int (length bs)
           \<and> b \<notin> set (caller_blocks s)))
   \<and> (\<forall>i j b. owns s i b \<longrightarrow> owns s j b \<longrightarrow> i = j)"

lemma view_inv_init: "view_inv view_init"
  by (simp add: view_inv_def view_init_def mem_wf_def owns_def)

lemma owns_view_add:
  "vobjs s (vnext s) = None \<Longrightarrow>
   owns (view_add v s) i b \<longleftrightarrow>
     (if i = vnext s then dv_saved v \<and> dv_data v = Ptr b 0 else owns s i b)"
  by (auto simp: owns_def view_add_def)

lemma view_inv_add_plain:
  assumes "view_inv s" and "\<not> dv_saved v"
  shows "view_inv (view_add v s)"
  using assms unfolding view_inv_def
  by (intro conjI) (auto simp: view_add_def owns_def)

lemma view_inv_mem:
  assumes "view_inv s" and "mem_wf m'"
    and "\<And>i b. owns s i b \<Longrightarrow> map_option length (blocks m' b) = map_option length (blocks (vmem s) b)"
    and "fresh_block (vmem s) \<le> fresh_block m'"
    and "\<And>b. b \<in> set cb \<Longrightarrow> b < fresh_block m'"
    and "\<And>i b. owns s i b \<Longrightarrow> b \<notin> set cb"
  shows "view_inv (s\<lparr>vmem := m', caller_blocks := cb\<rparr>)"
proof -
  have own: "owns (s\<lparr>vmem := m', caller_blocks := cb\<rparr>) i b \<longleftrightarrow> owns s i b" for i b
    by (simp add: owns_def)
  have "\<exists>b bs. dv_data v = Ptr b 0 \<and> blocks m' b = Some bs \<and> dv_length v = int (length bs)
          \<and> b \<notin> set cb"
    if v: "vobjs s i = Some v" "dv_saved v" for i v
  proof -
    from assms(1) v obtain b bs where b: "dv_data v = Ptr b 0" "blocks (vmem s) b = Some bs"
      "dv_length v = int (length bs)"
      unfolding view_inv_def by blast
    with v have "owns s i b" by (auto simp: owns_def)
    with assms(3,6) b show ?thesis by (fastforce simp: map_option_case split: option.splits)
  qed
  with assms own show ?thesis by (auto simp: view_inv_def)
qed


lemma owned_block:
  assumes "view_inv s" and "owns s i b"
  shows "b < fresh_block (vmem s)" and "b \<notin> set (caller_blocks s)" and "\<exists>bs. blocks (vmem s) b = Some bs"
proof -
  from assms obtain v bs where v: "vobjs s i = Some v" "dv_saved v" "dv_data v = Ptr b 0"
      and bs: "blocks (vmem s) b = Some bs" "b \<notin> set (caller_blocks s)"
    unfolding view_inv_def owns_def by (metis ptr.inject)
  from assms(1) bs(1) show "b < fresh_block (vmem s)"
    by (metis view_inv_def mem_wf_def option.distinct(1) leI)
  from bs show "b \<notin> set (caller_blocks s)" and "\<exists>bs. blocks (vmem s) b = Some bs" by auto
qed

lemma view_inv_caller_new:
  assumes "view_inv s" and "mem_alloc bs (vmem s) = (p, m')"
  shows "view_inv (s\<lparr>vmem := m', caller_blocks := fresh_block (vmem s) # caller_blocks s\<rparr>)"
proof (rule view_inv_mem [OF assms(1)])
  have m': "m' = (vmem s)\<lparr>blocks := (blocks (vmem s))(fresh_block (vmem s) \<mapsto> bs),
                          fresh_block := Suc (fresh_block (vmem s))\<rparr>"
    using assms(2) by (auto simp: mem_alloc_def)
  show "mem_wf m'" using assms(1) by (auto simp: m' view_inv_def mem_wf_def)
  show "fresh_block (vmem s) \<le> fresh_block m'" by (simp add: m')
  show "b < fresh_block m'" if "b \<in> set (fresh_block (vmem s) # caller_blocks s)" for b
    using that assms(1) by (auto simp: m' view_inv_def less_Suc_eq)
  show "map_option length (blocks m' b) = map_option length (blocks (vmem s) b)" if "owns s i b" for i b
    using owned_block(1) [OF assms(1) that] by (simp add: m')
  show "b \<notin> set (fresh_block (vmem s) # caller_blocks s)" if "owns s i b" for i b
    using owned_block [OF assms(1) that] by auto
qed

lemma view_inv_caller_blocks:
  assumes "view_inv s" and "b \<in> set (caller_blocks s)"
  shows "view_inv (s\<lparr>vmem := (vmem s)\<lparr>blocks := (blocks (vmem s))(b := x)\<rparr>\<rparr>)"
proof -
  have wf: "mem_wf ((vmem s)\<lparr>blocks := (blocks (vmem s))(b := x)\<rparr>)"
    using assms by (fastforce simp: view_inv_def mem_wf_def)
  have "view_inv (s\<lparr>vmem := (vmem s)\<lparr>blocks := (blocks (vmem s))(b := x)\<rparr>,
                    caller_blocks := caller_blocks s\<rparr>)"
    by (rule view_inv_mem [OF assms(1) wf])
       (use assms owned_block [OF assms(1)] in \<open>auto simp: view_inv_def\<close>)
  then show ?thesis by simp
qed

lemma view_inv_save:
  assumes inv: "view_inv s" and "\<not> dv_saved v" and sv: "dv_save v (vmem s) = Inr (w, m')"
  shows "view_inv (view_add w (s\<lparr>vmem := m'\<rparr>))"
proof -
  let ?f = "fresh_block (vmem s)"
  from assms obtain bs where bs: "mem_read (vmem s) (dv_data v) (nat (dv_length v)) = Inr bs"
    and len: "0 \<le> dv_length v"
    and w: "w = \<lparr>dv_data = Ptr ?f 0, dv_length = dv_length v, dv_saved = True\<rparr>"
    and m': "m' = (vmem s)\<lparr>blocks := (blocks (vmem s))(?f \<mapsto> bs), fresh_block := Suc ?f\<rparr>"
    by (auto simp: dv_save_def mem_alloc_def split: if_splits)
  have wlen: "dv_length v = int (length bs)"
    using mem_read_Inr_length [OF bs] len by simp
  have old: "i < vnext s" if "owns s i b" for i b
    using inv that unfolding view_inv_def owns_def by (metis leI option.distinct(1))
  have own: "owns (view_add w (s\<lparr>vmem := m'\<rparr>)) i b \<longleftrightarrow>
      (if i = vnext s then b = ?f else owns s i b)" for i b
    by (auto simp: owns_def view_add_def w)
  have inj: "i = j" if "owns (view_add w (s\<lparr>vmem := m'\<rparr>)) i b" "owns (view_add w (s\<lparr>vmem := m'\<rparr>)) j b" for i j b
    using that inv owned_block(1) [OF inv] by (fastforce simp: own view_inv_def split: if_splits)
  have blk: "\<exists>b bs. dv_data u = Ptr b 0 \<and> blocks m' b = Some bs \<and> dv_length u = int (length bs)
              \<and> b \<notin> set (caller_blocks s)"
    if u: "vobjs s i = Some u" "dv_saved u" for i u
  proof -
    from inv u obtain b bs where b: "dv_data u = Ptr b 0" "blocks (vmem s) b = Some bs"
      "dv_length u = int (length bs)" "b \<notin> set (caller_blocks s)"
      unfolding view_inv_def by blast
    with u have "owns s i b" by (auto simp: owns_def)
    from owned_block(1) [OF inv this] b show ?thesis by (auto simp: m')
  qed
  show ?thesis
    unfolding view_inv_def
  proof (intro conjI)
    show "mem_wf (vmem (view_add w (s\<lparr>vmem := m'\<rparr>)))"
      using inv by (auto simp: view_inv_def mem_wf_def view_add_def m')
    show "\<forall>i. vnext (view_add w (s\<lparr>vmem := m'\<rparr>)) \<le> i \<longrightarrow> vobjs (view_add w (s\<lparr>vmem := m'\<rparr>)) i = None"
      using inv by (auto simp: view_inv_def view_add_def)
    show "\<forall>b\<in>set (caller_blocks (view_add w (s\<lparr>vmem := m'\<rparr>))).
        b < fresh_block (vmem (view_add w (s\<lparr>vmem := m'\<rparr>)))"
      using inv by (auto simp: view_inv_def view_add_def m' less_Suc_eq)
    show "\<forall>i j b. owns (view_add w (s\<lparr>vmem := m'\<rparr>)) i b \<longrightarrow>
        owns (view_add w (s\<lparr>vmem := m'\<rparr>)) j b \<longrightarrow> i = j"
      using inj by blast
    show "\<forall>i u. vobjs (view_add w (s\<lparr>vmem := m'\<rparr>)) i = Some u \<longrightarrow> dv_saved u \<longrightarrow>
        (\<exists>b bs. dv_data u = Ptr b 0 \<and> blocks (vmem (view_add w (s\<lparr>vmem := m'\<rparr>))) b = Some bs \<and>
           dv_length u = int (length bs) \<and> b \<notin> set (caller_blocks (view_add w (s\<lparr>vmem := m'\<rparr>))))"
      using blk wlen inv by (auto simp: view_add_def w m' view_inv_def)
  qed
qed

lemma view_inv_destroy:
  assumes inv: "view_inv s" and v: "vobjs s i = Some v" and d: "dv_destroy v (vmem s) = Inr m'"
  shows "view_inv (s\<lparr>vmem := m', vobjs := (vobjs s)(i := None)\<rparr>)"
proof -
  let ?t = "s\<lparr>vmem := m', vobjs := (vobjs s)(i := None)\<rparr>"
  have m': "m' = vmem s \<or> (\<exists>b. owns s i b \<and> m' = (vmem s)\<lparr>blocks := (blocks (vmem s))(b := None)\<rparr>)"
    using d v by (auto simp: dv_destroy_def mem_free_def owns_def split: if_splits ptr.splits nat.splits)
  have own: "owns ?t j b \<longleftrightarrow> j \<noteq> i \<and> owns s j b" for j b
    by (auto simp: owns_def)
  have inj: "\<And>j k b. owns s j b \<Longrightarrow> owns s k b \<Longrightarrow> j = k"
    using inv by (auto simp: view_inv_def)
  have blk: "\<exists>b bs. dv_data u = Ptr b 0 \<and> blocks m' b = Some bs \<and> dv_length u = int (length bs)
              \<and> b \<notin> set (caller_blocks s)"
    if u: "vobjs s j = Some u" "dv_saved u" "j \<noteq> i" for j u
  proof -
    from inv u obtain b bs where b: "dv_data u = Ptr b 0" "blocks (vmem s) b = Some bs"
      "dv_length u = int (length bs)" "b \<notin> set (caller_blocks s)"
      unfolding view_inv_def by blast
    with u have "owns s j b" by (auto simp: owns_def)
    with inj u(3) m' b show ?thesis by auto
  qed
  have fr: "fresh_block m' = fresh_block (vmem s)" and wf: "mem_wf m'"
    using m' inv by (auto simp: view_inv_def mem_wf_def)
  from inv own blk fr wf inj show ?thesis by (auto simp: view_inv_def)
qed


lemma view_get_Inr [simp]: "view_get i s = Inr v \<longleftrightarrow> vobjs s i = Some v"
  by (simp add: view_get_def split: option.splits)

lemma dv_slice_unsaved: "dv_slice v k = Inr w \<Longrightarrow> \<not> dv_saved w"
  by (auto simp: dv_slice_def dv_default_def dv_of_buffer_def split: if_splits)

lemma view_step_inv: "view_step x s = Inr t \<Longrightarrow> view_inv s \<Longrightarrow> view_inv t"
proof (cases x)
  case (Caller_free b)
  assume "view_step x s = Inr t" and "view_inv s"
  with Caller_free show ?thesis
    by (auto simp: mem_free_def split: if_splits intro: view_inv_caller_blocks)
qed (auto simp: dv_of_string_def dv_copy_def Let_def
      split: if_splits option.splits prod.splits
      intro: view_inv_caller_new view_inv_caller_blocks view_inv_add_plain view_inv_save
        view_inv_destroy dest: dv_slice_unsaved)

lemma view_run_inv: "view_run xs s = Inr t \<Longrightarrow> view_inv s \<Longrightarrow> view_inv t"
  by (induction xs arbitrary: s) (auto dest: view_step_inv)

lemma view_inv_destroy_ok:
  assumes "view_inv s" and "vobjs s i = Some v"
  shows "\<exists>t. view_step (View_destroy i) s = Inr t"
proof (cases "dv_saved v")
  case True
  with assms obtain b bs where "dv_data v = Ptr b 0" "blocks (vmem s) b = Some bs"
    unfolding view_inv_def by blast
  with assms(2) show ?thesis by (simp add: dv_destroy_def mem_free_def)
next
  case False
  with assms(2) show ?thesis by (simp add: dv_destroy_def)
qed

lemma view_step_keeps_saved:
  assumes "view_inv s" and "vobjs s i = Some v" and "dv_saved v" and "denotes (vmem s) v bs"
    and "view_step x s = Inr t" and "x \<noteq> View_destroy i"
  shows "vobjs t i = Some v \<and> denotes (vmem t) v bs"
proof -
  obtain b where b: "owns s i b" "dv_data v = Ptr b 0"
    using assms(1-3) unfolding view_inv_def owns_def by blast
  have i: "i < vnext s" using assms(1,2) unfolding view_inv_def by (metis leI option.distinct(1))
  have inj: "\<And>j. owns s j b \<Longrightarrow> j = i" using assms(1) b(1) by (auto simp: view_inv_def)
  have blk: "blocks (vmem t) b = blocks (vmem s) b"
  proof (cases x)
    case (View_destroy j)
    with assms(2,5,6) inj show ?thesis
      by (auto simp: dv_destroy_def mem_free_def owns_def split: if_splits ptr.splits nat.splits)
  next
    case (View_save j)
    with assms(5) owned_block(1) [OF assms(1) b(1)] show ?thesis
      by (auto simp: dv_save_def mem_alloc_def view_add_def split: if_splits)
  qed (use assms(5) owned_block [OF assms(1) b(1)] in
        \<open>auto simp: mem_alloc_def mem_free_def view_add_def split: if_splits option.splits\<close>)
  have "vobjs t i = Some v"
    using assms(2,5,6) i
    by (cases x) (auto simp: view_add_def mem_alloc_def split: if_splits option.splits)
  moreover have "denotes (vmem t) v bs"
    using assms(4) blk b(2) by (auto simp: denotes_def mem_read_def)
  ultimately show ?thesis by blast
qed

lemma view_run_keeps_saved:
  "view_run xs s = Inr t \<Longrightarrow> view_inv s \<Longrightarrow> vobjs s i = Some v \<Longrightarrow> dv_saved v \<Longrightarrow>
   denotes (vmem s) v bs \<Longrightarrow> View_destroy i \<notin> set xs \<Longrightarrow>
   vobjs t i = Some v \<and> denotes (vmem t) v bs"
proof (induction xs arbitrary: s)
  case Nil
  then show ?case by simp
next
  case (Cons x xs)
  then obtain u where u: "view_step x s = Inr u" "view_run xs u = Inr t" by auto
  from Cons.prems have "x \<noteq> View_destroy i" by auto
  with view_step_keeps_saved [OF Cons.prems(2-5) u(1)]
  have "vobjs u i = Some v" "denotes (vmem u) v bs" by blast+
  with Cons.IH [OF u(2) view_step_inv [OF u(1) Cons.prems(2)]] Cons.prems show ?case by simp
qed

subsection \<open>Properties\<close>

text \<open>
  C35: in a program over views that has not itself run into undefined behaviour, the destructor
  of any view object, saved or not, never frees twice and never frees a block it does not own.
\<close>

theorem view_destroy_safe:
  assumes "view_run xs view_init = Inr s" and "vobjs s i = Some v"
  shows "\<exists>t. view_step (View_destroy i) s = Inr t"
  using view_inv_destroy_ok view_run_inv [OF assms(1) view_inv_init] assms(2) by blast

theorem view_destroy_safe_witness:
  "\<exists>s t. view_run [Caller_new [1, 2, 3], View_buffer 0, View_save 0, View_copy 1] view_init = Inr s
     \<and> view_step (View_destroy 1) s = Inr t"
proof -
  let ?p = "[Caller_new [1, 2, 3], View_buffer 0, View_save 0, View_copy 1]"
  obtain s where s: "view_run ?p view_init = Inr s"
    and o1: "\<exists>v. vobjs s 1 = Some v"
    by (simp add: view_init_def mem_alloc_def view_get_def view_add_def dv_of_string_def
        narrow_int_def dv_save_def mem_read_def)
  from o1 obtain v where "vobjs s 1 = Some v" ..
  from view_destroy_safe [OF s this] s show ?thesis by blast
qed

text \<open>
  \<open>Save\<close> of a plain view makes a private copy: a new object with the same bytes, which keeps
  exactly those bytes whatever the program does afterwards (overwriting or freeing the buffer the
  view came from, saving, copying, slicing, destroying other views) until it is destroyed itself.
\<close>

lemma save_is_private:
  assumes "view_run xs view_init = Inr s" and "vobjs s i = Some v" and "\<not> dv_saved v"
    and "denotes (vmem s) v bs"
  shows "\<exists>s' w. view_step (View_save i) s = Inr s' \<and> vobjs s' (vnext s) = Some w \<and> dv_saved w
     \<and> (\<forall>ys t. view_run ys s' = Inr t \<longrightarrow> View_destroy (vnext s) \<notin> set ys \<longrightarrow>
          vobjs t (vnext s) = Some w \<and> denotes (vmem t) w bs)"
proof -
  let ?w = "\<lparr>dv_data = Ptr (fresh_block (vmem s)) 0, dv_length = dv_length v, dv_saved = True\<rparr>"
  from denotes_save [OF assms(4,3)] obtain m' where sv: "dv_save v (vmem s) = Inr (?w, m')"
    and m': "m' = (vmem s)\<lparr>blocks := (blocks (vmem s))(fresh_block (vmem s) \<mapsto> bs),
      fresh_block := Suc (fresh_block (vmem s))\<rparr>" by blast
  let ?s = "view_add ?w (s\<lparr>vmem := m'\<rparr>)"
  have step: "view_step (View_save i) s = Inr ?s"
    using assms(2,3) sv by (simp add: view_get_def)
  have obj: "vobjs ?s (vnext s) = Some ?w" by (simp add: view_add_def)
  have inv: "view_inv ?s"
    using view_step_inv [OF step view_run_inv [OF assms(1) view_inv_init]] .
  have den: "denotes (vmem ?s) ?w bs"
    using assms(4) by (simp add: denotes_def mem_read_def view_add_def m')
  have "vobjs t (vnext s) = Some ?w \<and> denotes (vmem t) ?w bs"
    if "view_run ys ?s = Inr t" "View_destroy (vnext s) \<notin> set ys" for ys t
    using view_run_keeps_saved [OF that(1) inv obj _ den that(2)] by simp
  with step obj show ?thesis by (intro exI [of _ ?s] exI [of _ ?w]) simp
qed
lemma save_is_private_witness:
  "\<exists>s w. view_run [Caller_new [7, 8], View_buffer 0, View_save 0, Caller_write 0 [0, 0], Caller_free 0]
       view_init = Inr s \<and> vobjs s 1 = Some w \<and> denotes (vmem s) w [7, 8]"
proof -
  obtain s where s: "view_run [Caller_new [7, 8], View_buffer 0] view_init = Inr s"
    and v: "vobjs s 0 = Some (dv_of_string (Ptr 0 0) 2)" "vnext s = 1"
    and d: "denotes (vmem s) (dv_of_string (Ptr 0 0) 2) [7, 8]"
    by (simp add: view_init_def mem_alloc_def view_get_def view_add_def dv_of_string_def
        narrow_int_def mem_read_def denotes_def)
  have "\<not> dv_saved (dv_of_string (Ptr 0 0) 2)" by (simp add: dv_of_string_def)
  from save_is_private [OF s v(1) this d] obtain s' w where s': "view_step (View_save 0) s = Inr s'"
    and later: "\<And>ys t. view_run ys s' = Inr t \<Longrightarrow> View_destroy 1 \<notin> set ys \<Longrightarrow>
      vobjs t 1 = Some w \<and> denotes (vmem t) w [7, 8]"
    unfolding v(2) by blast
  obtain t where t: "view_run [Caller_new [7, 8], View_buffer 0, View_save 0, Caller_write 0 [0, 0], Caller_free 0]
      view_init = Inr t"
    by (simp add: view_init_def mem_alloc_def view_get_def view_add_def dv_of_string_def
        narrow_int_def dv_save_def mem_read_def mem_free_def)
  with s s' have "view_run [Caller_write 0 [0, 0], Caller_free 0] s' = Inr t"
    by (simp del: view_step.simps) (metis Inr_inject)
  then have "vobjs t 1 = Some w \<and> denotes (vmem t) w [7, 8]" by (rule later) simp
  with t show ?thesis by blast
qed


text \<open>
  \<open>Slice(k)\<close> throws \<open>out_of_range\<close> exactly when \<open>k\<close> is negative or beyond the length; otherwise
  appending the slice to a string appends exactly the bytes from \<open>k\<close> on.  So slicing where a
  partial send stopped loses and repeats nothing.
\<close>

lemma slice_append:
  assumes "denotes m v bs"
  shows "dv_slice v k =
      (if k < 0 \<or> k > int (length bs)
       then Inl (Out_of_range ''the suffix index is larger than data length'')
       else Inr (if k = int (length bs) then dv_default
                 else dv_of_buffer (ptr_plus (dv_data v) (nat k)) (int (length bs) - k)))
    \<and> (\<forall>w str. dv_slice v k = Inr w \<longrightarrow> dv_append w m str = Inr (str @ drop (nat k) bs))"
proof (intro conjI allI impI)
  show "dv_slice v k =
      (if k < 0 \<or> k > int (length bs)
       then Inl (Out_of_range ''the suffix index is larger than data length'')
       else Inr (if k = int (length bs) then dv_default
                 else dv_of_buffer (ptr_plus (dv_data v) (nat k)) (int (length bs) - k)))"
    using denotes_length [OF assms] by (simp add: dv_slice_def)
  fix w str
  assume w: "dv_slice v k = Inr w"
  with denotes_length [OF assms] have "0 \<le> k" "nat k \<le> length bs"
    by (auto simp: dv_slice_def split: if_splits)
  with denotes_slice [OF assms, of "nat k"] w show "dv_append w m str = Inr (str @ drop (nat k) bs)"
    by (auto intro: denotes_append)
qed

lemma slice_append_witness:
  "\<exists>m v w. denotes m v [1, 2, 3] \<and> dv_slice v 2 = Inr w \<and> dv_append w m [9] = Inr [9, 3]"
proof -
  let ?m = "\<lparr>blocks = [0 \<mapsto> [1, 2, 3]], fresh_block = 1\<rparr>"
  let ?v = "dv_of_buffer (Ptr 0 0) 3"
  have d: "denotes ?m ?v [1, 2, 3]" by (simp add: denotes_def dv_of_buffer_def mem_read_def)
  from slice_append [OF d, of 2] obtain w where "dv_slice ?v 2 = Inr w"
    "dv_append w ?m [9] = Inr [9, 3]" by auto
  with d show ?thesis by blast
qed

lemma narrow_int_small: "n < 2 ^ 31 \<Longrightarrow> narrow_int n = int n"
  by (simp add: narrow_int_def signed_take_bit_int_eq_self)

lemma narrow_int_wrap:
  assumes "2 ^ 31 \<le> n" and "n < 2 ^ 32"
  shows "narrow_int n = int n - 2 ^ 32"
proof -
  have "int n + 2 ^ 31 = (int n - 2 ^ 31) + 2 ^ 32" by simp
  then have "(int n + 2 ^ 31) mod 2 ^ 32 = (int n - 2 ^ 31) mod 2 ^ 32"
    by (metis mod_add_self2)
  also have "\<dots> = int n - 2 ^ 31"
    using assms by (intro mod_pos_pos_trivial) simp_all
  finally show ?thesis
    by (simp add: narrow_int_def signed_take_bit_eq_take_bit_shift take_bit_eq_mod)
qed

text \<open>
  A view over a \<open>std::string\<close> is exact below 2^31 bytes.  From 2^31 to 2^32 - 1 bytes the
  narrowing of \<open>size()\<close> to \<open>int\<close> makes the length negative: appending the view adds nothing,
  silently, and saving it throws.
\<close>

lemma string_view_narrowing:
  assumes "n < 2 ^ 32"
  shows "dv_length (dv_of_string p n) = (if n < 2 ^ 31 then int n else int n - 2 ^ 32)
    \<and> (2 ^ 31 \<le> n \<longrightarrow> dv_append (dv_of_string p n) m str = Inr str
         \<and> dv_save (dv_of_string p n) m = Inl Bad_array_length)"
  using assms narrow_int_small [of n] narrow_int_wrap [of n]
  by (auto simp: dv_of_string_def dv_append_def dv_save_def)
lemma string_view_narrowing_witness:
  "dv_length (dv_of_string (Ptr 0 0) (2 ^ 31)) = - (2 ^ 31)
   \<and> dv_append (dv_of_string (Ptr 0 0) (2 ^ 31)) (vmem view_init) [1] = Inr [1]"
  using string_view_narrowing [of "2 ^ 31" "Ptr 0 0" "vmem view_init" "[1]"] by simp

end
