(* ===== verification/Event_Masks.thy ===== *)
theory Event_Masks
  imports Ael_Prelude
begin

text \<open>
  The bit masks of class \<open>Events\<close> (\<open>include/event.h\<close>) and their translation to and from epoll
  masks (\<open>GetEPollEventsFromEvents\<close> and \<open>GetEventsFromEpollEvents\<close> of \<open>lib/epoll.cc\<close>).  The
  values of the \<open>EPOLL*\<close> macros belong to the system's headers, so they are a parameter; what
  the code needs of them is that they are distinct non-zero bits (\<open>abi_ok\<close>).
\<close>

unbundle bit_operations_syntax

type_synonym mask = "32 word"

subsection \<open>The masks of class Events\<close>

definition Ev_Read :: mask where "Ev_Read = 0x1"
definition Ev_Write :: mask where "Ev_Write = 0x2"
definition Ev_Close :: mask where "Ev_Close = 0x4"
definition Ev_Error :: mask where "Ev_Error = 0x8"
definition Ev_Stream :: mask where "Ev_Stream = 0x16"

lemmas ev_defs = Ev_Read_def Ev_Write_def Ev_Close_def Ev_Error_def Ev_Stream_def

text \<open>The C++ test \<open>events & Events::X\<close> in a condition.\<close>

definition has :: "mask \<Rightarrow> mask \<Rightarrow> bool" where
  "has events x \<longleftrightarrow> events AND x \<noteq> 0"

subsection \<open>The epoll masks\<close>

record epoll_abi =
  EPOLLIN :: mask
  EPOLLOUT :: mask
  EPOLLRDHUP :: mask
  EPOLLHUP :: mask
  EPOLLERR :: mask
  EPOLLET :: mask

definition abi_masks :: "epoll_abi \<Rightarrow> mask list" where
  "abi_masks A = [EPOLLIN A, EPOLLOUT A, EPOLLRDHUP A, EPOLLHUP A, EPOLLERR A, EPOLLET A]"

definition abi_ok :: "epoll_abi \<Rightarrow> bool" where
  "abi_ok A \<longleftrightarrow> list_all (\<lambda>x. x \<noteq> 0) (abi_masks A)
     \<and> sorted_wrt (\<lambda>x y. x AND y = 0) (abi_masks A)"

text \<open>The values of Linux, as an instance of the parameter.\<close>

definition linux_abi :: epoll_abi where
  "linux_abi = \<lparr>EPOLLIN = 0x1, EPOLLOUT = 0x4, EPOLLRDHUP = 0x2000, EPOLLHUP = 0x10,
     EPOLLERR = 0x8, EPOLLET = 0x80000000\<rparr>"

lemma linux_abi_ok: "abi_ok linux_abi"
  by (simp add: abi_ok_def abi_masks_def linux_abi_def)

subsection \<open>Translation\<close>

definition epoll_of_events :: "epoll_abi \<Rightarrow> mask \<Rightarrow> mask" where
  "epoll_of_events A events =
     (if has events Ev_Close then EPOLLIN A OR EPOLLOUT A OR EPOLLRDHUP A
      else
        (let e = 0;
             e = (if has events Ev_Read then e OR EPOLLIN A else e);
             e = (if has events Ev_Write then e OR EPOLLOUT A else e);
             e = (if has events Ev_Stream then e OR EPOLLRDHUP A else e)
         in e))"

definition events_of_epoll :: "epoll_abi \<Rightarrow> mask \<Rightarrow> mask" where
  "events_of_epoll A ee =
     (let e = 0;
          e = (if has ee (EPOLLIN A) then e OR Ev_Read else e);
          e = (if has ee (EPOLLOUT A) then e OR Ev_Write else e);
          e = (if has ee (EPOLLRDHUP A) \<or> has ee (EPOLLHUP A) then e OR Ev_Close else e);
          e = (if has ee (EPOLLERR A) then e OR Ev_Error else e)
      in e)"

lemma has_zero [simp]: "\<not> has 0 x" "\<not> has x 0"
  by (simp_all add: has_def)

lemma has_or [simp]: "has (a OR b) x \<longleftrightarrow> has a x \<or> has b x"
  by (simp add: has_def bit.conj_disj_distrib2 or_eq_0_iff)

lemma has_consts [simp]:
  "has Ev_Read Ev_Read" "has Ev_Write Ev_Write" "has Ev_Close Ev_Close" "has Ev_Error Ev_Error"
  "\<not> has Ev_Read Ev_Write" "\<not> has Ev_Read Ev_Close" "\<not> has Ev_Read Ev_Error"
  "\<not> has Ev_Write Ev_Read" "\<not> has Ev_Write Ev_Close" "\<not> has Ev_Write Ev_Error"
  "\<not> has Ev_Close Ev_Read" "\<not> has Ev_Close Ev_Write" "\<not> has Ev_Close Ev_Error"
  "\<not> has Ev_Error Ev_Read" "\<not> has Ev_Error Ev_Write" "\<not> has Ev_Error Ev_Close"
  "\<not> has Ev_Read Ev_Stream" "\<not> has Ev_Error Ev_Stream"
  "has Ev_Write Ev_Stream" "has Ev_Close Ev_Stream" "has Ev_Stream Ev_Stream"
  "has Ev_Stream Ev_Write" "has Ev_Stream Ev_Close"
  "\<not> has Ev_Stream Ev_Read" "\<not> has Ev_Stream Ev_Error"
  by (simp_all add: has_def ev_defs)

lemma abi_has [simp]:
  assumes "abi_ok A"
  shows "has (EPOLLIN A) (EPOLLIN A)" "has (EPOLLOUT A) (EPOLLOUT A)" "has (EPOLLRDHUP A) (EPOLLRDHUP A)"
    "\<not> has (EPOLLIN A) (EPOLLOUT A)" "\<not> has (EPOLLIN A) (EPOLLRDHUP A)" "\<not> has (EPOLLIN A) (EPOLLHUP A)"
    "\<not> has (EPOLLIN A) (EPOLLERR A)"
    "\<not> has (EPOLLOUT A) (EPOLLIN A)" "\<not> has (EPOLLOUT A) (EPOLLRDHUP A)" "\<not> has (EPOLLOUT A) (EPOLLHUP A)"
    "\<not> has (EPOLLOUT A) (EPOLLERR A)"
    "\<not> has (EPOLLRDHUP A) (EPOLLIN A)" "\<not> has (EPOLLRDHUP A) (EPOLLOUT A)"
    "\<not> has (EPOLLRDHUP A) (EPOLLHUP A)" "\<not> has (EPOLLRDHUP A) (EPOLLERR A)"
    "\<not> has (EPOLLET A) (EPOLLIN A)" "\<not> has (EPOLLET A) (EPOLLOUT A)"
    "\<not> has (EPOLLET A) (EPOLLRDHUP A)" "\<not> has (EPOLLET A) (EPOLLHUP A)" "\<not> has (EPOLLET A) (EPOLLERR A)"
  using assms by (simp_all add: abi_ok_def abi_masks_def has_def and.commute)

lemma events_of_epoll_has [simp]:
  "has (events_of_epoll A ee) Ev_Read \<longleftrightarrow> has ee (EPOLLIN A)"
  "has (events_of_epoll A ee) Ev_Write \<longleftrightarrow> has ee (EPOLLOUT A)"
  "has (events_of_epoll A ee) Ev_Close \<longleftrightarrow> has ee (EPOLLRDHUP A) \<or> has ee (EPOLLHUP A)"
  "has (events_of_epoll A ee) Ev_Error \<longleftrightarrow> has ee (EPOLLERR A)"
  by (simp_all add: events_of_epoll_def)

lemma epoll_of_events_has:
  assumes "abi_ok A"
  shows "has (epoll_of_events A ev) (EPOLLIN A) \<longleftrightarrow> has ev Ev_Read \<or> has ev Ev_Close"
    and "has (epoll_of_events A ev) (EPOLLOUT A) \<longleftrightarrow> has ev Ev_Write \<or> has ev Ev_Close"
    and "has (epoll_of_events A ev) (EPOLLRDHUP A) \<longleftrightarrow> has ev Ev_Stream \<or> has ev Ev_Close"
    and "\<not> has (epoll_of_events A ev) (EPOLLHUP A)"
    and "\<not> has (epoll_of_events A ev) (EPOLLERR A)"
  using assms by (simp_all add: epoll_of_events_def Let_def)

subsection \<open>Properties\<close>

text \<open>
  C36: registering a mask and reading it back when the kernel reports every registered condition.  \<open>Close\<close> registers
  everything; else \<open>Read\<close> and \<open>Write\<close> are reported as their bits were requested, and \<open>Close\<close> when a bit of \<open>Stream\<close> was; an error never.
  The bits overlap (\<open>Stream\<close> is \<open>0x16\<close>, the bits of \<open>Write\<close> and \<open>Close\<close> and one more): so \<open>Write\<close> alone reports \<open>Close\<close> too, and
  any mask with \<open>Stream\<close>, as both of \<open>StreamBufferFilter::GetEvents\<close>, before and after the connection, reports
  \<open>Read\<close>, \<open>Write\<close> and \<open>Close\<close>, requested or not.
\<close>

theorem events_epoll_roundtrip:
  assumes "abi_ok A"
  shows "events_of_epoll A (EPOLLET A OR epoll_of_events A ev) =
      (if has ev Ev_Close then Ev_Read OR Ev_Write OR Ev_Close
       else (if has ev Ev_Read then Ev_Read else 0) OR (if has ev Ev_Write then Ev_Write else 0)
         OR (if has ev Ev_Stream then Ev_Close else 0))
    \<and> events_of_epoll A (EPOLLET A OR epoll_of_events A Ev_Read) = Ev_Read
    \<and> events_of_epoll A (EPOLLET A OR epoll_of_events A Ev_Write) = Ev_Write OR Ev_Close
    \<and> (\<forall>ev. ev AND Ev_Stream = Ev_Stream \<longrightarrow>
         events_of_epoll A (EPOLLET A OR epoll_of_events A ev) = Ev_Read OR Ev_Write OR Ev_Close)"
proof -
  have e: "events_of_epoll A (EPOLLET A OR epoll_of_events A ev) =
      (if has ev Ev_Close then Ev_Read OR Ev_Write OR Ev_Close
       else (if has ev Ev_Read then Ev_Read else 0) OR (if has ev Ev_Write then Ev_Write else 0)
         OR (if has ev Ev_Stream then Ev_Close else 0))" for ev
    using assms by (simp add: events_of_epoll_def epoll_of_events_has Let_def or.assoc)
  have "has ev Ev_Close" if "ev AND Ev_Stream = Ev_Stream" for ev
  proof -
    have "ev AND Ev_Close = (ev AND Ev_Stream) AND Ev_Close" by (simp add: ev_defs and.assoc)
    then show ?thesis unfolding that by (simp add: has_def ev_defs)
  qed
  then show ?thesis unfolding e by (simp add: has_def ev_defs)
qed

theorem events_epoll_roundtrip_witness:
  "events_of_epoll linux_abi (EPOLLET linux_abi OR epoll_of_events linux_abi (Ev_Write OR Ev_Stream)) = Ev_Read OR Ev_Write OR Ev_Close"
proof -
  have "(Ev_Write OR Ev_Stream) AND Ev_Stream = Ev_Stream" by (simp add: ev_defs)
  with events_epoll_roundtrip [OF linux_abi_ok] show ?thesis by blast
qed

end
