(* ===== verification/Handles.thy ===== *)
theory Handles
  imports Ael_Prelude
begin

text \<open>
  Class \<open>Handle\<close> (\<open>include/handle.h\<close>, \<open>lib/handle.cc\<close>): descriptors and their factories, for
  timers, listening sockets and connecting sockets.  The system calls are a parameter; what their
  documentation promises about open descriptors is the predicate \<open>net_ok\<close>.  A factory yields its
  result or exception together with the kernel it leaves behind, so a descriptor that an exception
  leaves open stays visible.
\<close>

unbundle bit_operations_syntax

subsection \<open>Descriptors\<close>

definition no_handle :: fd where "no_handle = -1"

text \<open>\<open>explicit operator bool\<close>.\<close>

definition handle_valid :: "fd \<Rightarrow> bool" where "handle_valid h \<longleftrightarrow> h \<ge> 0"

subsection \<open>The system calls\<close>

record timespec =
  tv_sec :: int
  tv_nsec :: int

record itimerspec =
  it_interval :: timespec
  it_value :: timespec

datatype domain = AF_INET | AF_INET6

text \<open>\<open>sockaddr_in\<close> and \<open>sockaddr_in6\<close>: the port in network order and the address.\<close>

record sock_addr =
  sa_domain :: domain
  sa_port :: "byte list"
  sa_addr :: bytes

record 'k net_calls =
  nc_timerfd_create :: "'k \<Rightarrow> (errno + fd) \<times> 'k"
  nc_timerfd_settime :: "fd \<Rightarrow> itimerspec \<Rightarrow> 'k \<Rightarrow> errno option \<times> 'k"
  nc_inet_pton :: "domain \<Rightarrow> string \<Rightarrow> bytes option"
  nc_socket :: "domain \<Rightarrow> 'k \<Rightarrow> (errno + fd) \<times> 'k"
  nc_bind :: "fd \<Rightarrow> sock_addr \<Rightarrow> 'k \<Rightarrow> errno option \<times> 'k"
  nc_listen :: "fd \<Rightarrow> int \<Rightarrow> 'k \<Rightarrow> errno option \<times> 'k"
  nc_connect :: "fd \<Rightarrow> sock_addr \<Rightarrow> 'k \<Rightarrow> errno option \<times> 'k"
  nc_close :: "fd \<Rightarrow> 'k \<Rightarrow> 'k"
  obs_open :: "'k \<Rightarrow> fd set"

text \<open>
  A call that creates a descriptor yields a valid one that was not open, and opens just that; when
  it fails, and in the calls that only configure a descriptor, the open descriptors stay; \<open>close\<close>
  closes one.
\<close>

definition creates :: "('k \<Rightarrow> fd set) \<Rightarrow> ('k \<Rightarrow> (errno + fd) \<times> 'k) \<Rightarrow> bool" where
  "creates op c \<longleftrightarrow> (\<forall>k r k'. c k = (r, k') \<longrightarrow>
     (case r of Inl e \<Rightarrow> op k' = op k | Inr h \<Rightarrow> handle_valid h \<and> h \<notin> op k \<and> op k' = insert h (op k)))"

definition configures :: "('k \<Rightarrow> fd set) \<Rightarrow> ('k \<Rightarrow> errno option \<times> 'k) \<Rightarrow> bool" where
  "configures op c \<longleftrightarrow> (\<forall>k. op (snd (c k)) = op k)"

definition net_ok :: "('k, 'z) net_calls_scheme \<Rightarrow> bool" where
  "net_ok K \<longleftrightarrow>
     creates (obs_open K) (nc_timerfd_create K)
   \<and> (\<forall>d. creates (obs_open K) (nc_socket K d))
   \<and> (\<forall>h x. configures (obs_open K) (nc_timerfd_settime K h x))
   \<and> (\<forall>h x. configures (obs_open K) (nc_bind K h x))
   \<and> (\<forall>h x. configures (obs_open K) (nc_listen K h x))
   \<and> (\<forall>h x. configures (obs_open K) (nc_connect K h x))
   \<and> (\<forall>h k. obs_open K (nc_close K h k) = obs_open K k - {h})"

subsection \<open>The code\<close>

text \<open>\<open>duration_cast\<close> to seconds rounds towards zero; counts are in nanoseconds.\<close>

definition to_time_spec :: "int \<Rightarrow> timespec" where
  "to_time_spec tm =
     (let seconds = (if 0 \<le> tm then tm div 1000000000 else - ((- tm) div 1000000000));
          nanoseconds = tm - seconds * 1000000000
      in \<lparr>tv_sec = seconds, tv_nsec = nanoseconds\<rparr>)"

text \<open>\<open>CreateTimerHandle\<close> comes to this unless both durations are zero, which it rejects.\<close>

definition timer_spec :: "int \<Rightarrow> int \<Rightarrow> itimerspec" where
  "timer_spec interval val =
     (let its = \<lparr>it_interval = to_time_spec interval, it_value = to_time_spec val\<rparr>
      in if tv_nsec (it_value its) = 0 \<and> tv_sec (it_value its) = 0
         then its\<lparr>it_value := (it_value its)\<lparr>tv_nsec := 1\<rparr>\<rparr> else its)"

definition create_timer_handle ::
  "('k, 'z) net_calls_scheme \<Rightarrow> int \<Rightarrow> int \<Rightarrow> 'k \<Rightarrow> (exn + fd) \<times> 'k" where
  "create_timer_handle K interval val k =
     (case nc_timerfd_create K k of
        (Inl e, k) \<Rightarrow> (Inl (System_error e ''timerfd_create - failed''), k)
      | (Inr fd, k) \<Rightarrow>
          if interval = 0 \<and> val = 0
          then (Inl (Thrown ''invalid interval values (both zero nanoseconds)''), k)
          else case nc_timerfd_settime K fd (timer_spec interval val) k of
                 (Some e, k) \<Rightarrow> (Inl (System_error e ''timerfd_settime - failed''), nc_close K fd k)
               | (None, k) \<Rightarrow> (Inr fd, k))"

definition htons :: "16 word \<Rightarrow> byte list" where
  "htons p = [ucast (drop_bit 8 p), ucast p]"

definition get_sock_addr ::
  "('k, 'z) net_calls_scheme \<Rightarrow> string \<Rightarrow> 16 word \<Rightarrow> exn + sock_addr" where
  "get_sock_addr K ip_addr port =
     (case nc_inet_pton K AF_INET ip_addr of
        Some a \<Rightarrow> Inr \<lparr>sa_domain = AF_INET, sa_port = htons port, sa_addr = a\<rparr>
      | None \<Rightarrow>
          (case nc_inet_pton K AF_INET6 ip_addr of
             Some a \<Rightarrow> Inr \<lparr>sa_domain = AF_INET6, sa_port = htons port, sa_addr = a\<rparr>
           | None \<Rightarrow> Inl (Thrown ''invalid host - inet_pton failed for both IPv4 and IPv6'')))"

definition create_stream_listener_handle ::
  "('k, 'z) net_calls_scheme \<Rightarrow> config \<Rightarrow> string \<Rightarrow> 16 word \<Rightarrow> 'k \<Rightarrow> (exn + fd) \<times> 'k" where
  "create_stream_listener_handle K cfg ip_addr port k =
     (case get_sock_addr K ip_addr port of
        Inl e \<Rightarrow> (Inl e, k)
      | Inr addr \<Rightarrow>
          (case nc_socket K (sa_domain addr) k of
             (Inl e, k) \<Rightarrow> (Inl (System_error e ''socket failed''), k)
           | (Inr fd, k) \<Rightarrow>
               (case nc_bind K fd addr k of
                  (Some e, k) \<Rightarrow> (Inl (System_error e ''bind failed''), k)
                | (None, k) \<Rightarrow>
                    (case nc_listen K fd (listen_backlog cfg) k of
                       (Some e, k) \<Rightarrow> (Inl (System_error e ''listen failed''), k)
                     | (None, k) \<Rightarrow> (Inr fd, k)))))"

text \<open>The result carries the out parameter \<open>is_connected\<close>.\<close>

definition create_stream_handle ::
  "('k, 'z) net_calls_scheme \<Rightarrow> string \<Rightarrow> 16 word \<Rightarrow> 'k \<Rightarrow> (exn + fd \<times> bool) \<times> 'k" where
  "create_stream_handle K ip_addr port k =
     (case get_sock_addr K ip_addr port of
        Inl e \<Rightarrow> (Inl e, k)
      | Inr addr \<Rightarrow>
          (case nc_socket K (sa_domain addr) k of
             (Inl e, k) \<Rightarrow> (Inl (System_error e ''socket failed''), k)
           | (Inr fd, k) \<Rightarrow>
               (case nc_connect K fd addr k of
                  (None, k) \<Rightarrow> (Inr (fd, True), k)
                | (Some e, k) \<Rightarrow>
                    if e = EINPROGRESS then (Inr (fd, False), k)
                    else if e \<in> {EAFNOSUPPORT, EALREADY, EBADF, EFAULT, EISCONN, ENOTSOCK}
                    then (Inl (System_error e ''connect failed''), k)
                    else (Inr (fd, False), k))))"

definition handle_close :: "('k, 'z) net_calls_scheme \<Rightarrow> fd \<Rightarrow> 'k \<Rightarrow> 'k" where
  "handle_close K h k = nc_close K h k"

subsection \<open>Facts\<close>

lemma net_ok_timerfd: "net_ok K \<Longrightarrow> nc_timerfd_create K k = (Inr h, k') \<Longrightarrow>
    handle_valid h \<and> h \<notin> obs_open K k \<and> obs_open K k' = insert h (obs_open K k)"
  unfolding net_ok_def creates_def by fastforce

lemma net_ok_timerfd_fail: "net_ok K \<Longrightarrow> nc_timerfd_create K k = (Inl e, k') \<Longrightarrow> obs_open K k' = obs_open K k"
  unfolding net_ok_def creates_def by fastforce

lemma net_ok_socket: "net_ok K \<Longrightarrow> nc_socket K d k = (Inr h, k') \<Longrightarrow>
    handle_valid h \<and> h \<notin> obs_open K k \<and> obs_open K k' = insert h (obs_open K k)"
  unfolding net_ok_def creates_def by fastforce

lemma net_ok_socket_fail: "net_ok K \<Longrightarrow> nc_socket K d k = (Inl e, k') \<Longrightarrow> obs_open K k' = obs_open K k"
  unfolding net_ok_def creates_def by fastforce

lemma configures_eq: "configures op c \<Longrightarrow> c k = (r, k') \<Longrightarrow> op k' = op k"
  unfolding configures_def by (metis snd_conv)

lemma net_ok_conf:
  assumes "net_ok K"
  shows "nc_timerfd_settime K h x k = (r, k') \<Longrightarrow> obs_open K k' = obs_open K k"
    and "nc_bind K h a k = (r, k') \<Longrightarrow> obs_open K k' = obs_open K k"
    and "nc_listen K h n k = (r, k') \<Longrightarrow> obs_open K k' = obs_open K k"
    and "nc_connect K h a k = (r, k') \<Longrightarrow> obs_open K k' = obs_open K k"
    and "obs_open K (nc_close K h k) = obs_open K k - {h}"
proof -
  have "configures (obs_open K) (nc_timerfd_settime K h x)" "configures (obs_open K) (nc_bind K h a)"
    "configures (obs_open K) (nc_listen K h n)" "configures (obs_open K) (nc_connect K h a)"
    using assms by (simp_all add: net_ok_def)
  note c = this [THEN configures_eq]
  show "nc_timerfd_settime K h x k = (r, k') \<Longrightarrow> obs_open K k' = obs_open K k"
    "nc_bind K h a k = (r, k') \<Longrightarrow> obs_open K k' = obs_open K k"
    "nc_listen K h n k = (r, k') \<Longrightarrow> obs_open K k' = obs_open K k"
    "nc_connect K h a k = (r, k') \<Longrightarrow> obs_open K k' = obs_open K k"
    by (erule c)+
  show "obs_open K (nc_close K h k) = obs_open K k - {h}" using assms by (simp add: net_ok_def)
qed

lemma htons_bytes:
  "map unat (htons p) = [unat p div 256, unat p mod 256]"
proof -
  have "unat p < 2 ^ LENGTH(16)" by (rule unsigned_less)
  then have "unat p < 65536" by simp
  then have "unat p div 256 mod 256 = unat p div 256" by simp
  then show ?thesis
    by (simp add: htons_def unat_drop_bit_eq drop_bit_eq_div take_bit_eq_mod unsigned_ucast_eq
        unsigned_drop_bit_eq unat_div_distrib)
qed

subsection \<open>A kernel to evaluate\<close>

text \<open>
  Descriptors are numbered upwards from the open ones; the answers to the calls that configure
  are scripted, \<open>inet_pton\<close> accepts the text \<open>''::1''\<close> for IPv6 and everything else but the empty
  text for IPv4.
\<close>

record net_script =
  open_fds :: "fd list"
  answers :: "errno option list"

definition next_fd :: "net_script \<Rightarrow> fd" where
  "next_fd k = Max (insert 2 (set (open_fds k))) + 1"

definition script_create :: "net_script \<Rightarrow> (errno + fd) \<times> net_script" where
  "script_create k = (Inr (next_fd k), k\<lparr>open_fds := next_fd k # open_fds k\<rparr>)"

definition script_answer :: "net_script \<Rightarrow> errno option \<times> net_script" where
  "script_answer k =
     (case answers k of [] \<Rightarrow> (None, k) | a # as \<Rightarrow> (a, k\<lparr>answers := as\<rparr>))"

definition net_scripted :: "net_script net_calls" where
  "net_scripted =
     \<lparr>nc_timerfd_create = script_create, nc_timerfd_settime = (\<lambda>h x. script_answer),
      nc_inet_pton = (\<lambda>d s. if d = AF_INET then (if s = '''' \<or> s = ''::1'' then None else Some [127, 0, 0, 1])
        else if s = ''::1'' then Some [0, 1] else None),
      nc_socket = (\<lambda>d. script_create), nc_bind = (\<lambda>h a. script_answer),
      nc_listen = (\<lambda>h n. script_answer), nc_connect = (\<lambda>h a. script_answer),
      nc_close = (\<lambda>h k. k\<lparr>open_fds := removeAll h (open_fds k)\<rparr>),
      obs_open = (\<lambda>k. set (open_fds k))\<rparr>"

lemma next_fd_fresh: "next_fd k \<notin> set (open_fds k)" "0 \<le> next_fd k"
proof -
  have "\<And>h. h \<in> insert 2 (set (open_fds k)) \<Longrightarrow> h \<le> Max (insert 2 (set (open_fds k)))"
    by (rule Max_ge) simp_all
  then show "next_fd k \<notin> set (open_fds k)" "0 \<le> next_fd k"
    unfolding next_fd_def by (fastforce, metis add_increasing2 insertI1 order.trans zero_le_numeral zero_le_one)
qed

lemma net_scripted_ok: "net_ok net_scripted"
  using next_fd_fresh
  by (auto simp: net_ok_def net_scripted_def creates_def configures_def script_create_def
      script_answer_def handle_valid_def split: list.splits)

subsection \<open>Properties\<close>

text \<open>
  C40: the timer specification.  For durations that are not negative and not both zero, the
  interval and the first expiry are split into seconds and nanoseconds exactly (less than a second
  of nanoseconds), and the first expiry is never zero, which would disarm the timer: a zero delay
  becomes one nanosecond.
\<close>

theorem timer_spec_exact:
  assumes "0 \<le> interval" and "0 \<le> val"
  shows "tv_sec (it_interval (timer_spec interval val)) * 1000000000 + tv_nsec (it_interval (timer_spec interval val)) = interval
    \<and> tv_sec (it_value (timer_spec interval val)) * 1000000000 + tv_nsec (it_value (timer_spec interval val)) = max 1 val
    \<and> (let its = timer_spec interval val in
        0 \<le> tv_nsec (it_interval its) \<and> tv_nsec (it_interval its) < 1000000000
      \<and> 0 \<le> tv_nsec (it_value its) \<and> tv_nsec (it_value its) < 1000000000)"
proof -
  have ts: "tv_sec (to_time_spec t) = t div 1000000000" "tv_nsec (to_time_spec t) = t mod 1000000000"
    if "0 \<le> t" for t
    using that by (simp_all add: to_time_spec_def minus_div_mult_eq_mod)
  have z: "t div 1000000000 * 1000000000 + t mod 1000000000 = t" for t :: int by simp
  have nz: "0 < val" if "val mod 1000000000 \<noteq> 0 \<or> val div 1000000000 \<noteq> 0"
    using that assms(2) by (cases "val = 0") auto
  have zz: "val = 0" if "val mod 1000000000 = 0" "val div 1000000000 = 0"
    using z [of val] that by simp
  show ?thesis
    using assms nz zz z [of val] z [of interval]
    by (auto simp: timer_spec_def ts Let_def max_def)
qed

theorem timer_spec_exact_witness:
  "tv_sec (it_value (timer_spec 5 2500000000)) * 1000000000 + tv_nsec (it_value (timer_spec 5 2500000000)) = 2500000000"
  using timer_spec_exact [of 5 2500000000] by simp

text \<open>
  What the timer factory leaves open.  On success exactly the returned descriptor is new;
  when arming fails nothing is left open; but a request with both durations zero is rejected only
  after the descriptor was created, and leaves it open.
\<close>

lemma timer_handle_open:
  assumes "net_ok K" and "create_timer_handle K interval val k = (r, k')"
  shows "(\<forall>h. r = Inr h \<longrightarrow> handle_valid h \<and> h \<notin> obs_open K k \<and> obs_open K k' = insert h (obs_open K k))
    \<and> (interval \<noteq> 0 \<or> val \<noteq> 0 \<longrightarrow> (\<exists>e. r = Inl e) \<longrightarrow> obs_open K k' = obs_open K k)
    \<and> (interval = 0 \<and> val = 0 \<longrightarrow> r = Inl (Thrown ''invalid interval values (both zero nanoseconds)'') \<longrightarrow>
         (\<exists>h. h \<notin> obs_open K k \<and> obs_open K k' = insert h (obs_open K k)))"
  using assms(2) net_ok_conf [OF assms(1)]
  by (auto simp: create_timer_handle_def split: prod.splits sum.splits option.splits if_splits
      dest!: net_ok_timerfd [OF assms(1)] net_ok_timerfd_fail [OF assms(1)])

lemma timer_handle_open_witness:
  "(\<exists>h. h \<notin> {} \<and> obs_open net_scripted (snd (create_timer_handle net_scripted 0 0 \<lparr>open_fds = [], answers = []\<rparr>)) = insert h {})
   \<and> obs_open net_scripted
       (snd (create_timer_handle net_scripted 5 0 \<lparr>open_fds = [], answers = [Some EINVAL]\<rparr>)) = {}"
  using timer_handle_open [OF net_scripted_ok, of 0 0 "\<lparr>open_fds = [], answers = []\<rparr>"]
    timer_handle_open [OF net_scripted_ok, of 5 0 "\<lparr>open_fds = [], answers = [Some EINVAL]\<rparr>"]
  by (auto simp: create_timer_handle_def net_scripted_def script_create_def script_answer_def)

text \<open>
  What the listener factory leaves open.  On success exactly the returned descriptor is new;
  when \<open>bind\<close> or \<open>listen\<close> fails, the socket it created stays open and nobody holds it.
\<close>

lemma listener_handle_open:
  assumes "net_ok K" and "create_stream_listener_handle K cfg ip port k = (r, k')"
  shows "(\<forall>h. r = Inr h \<longrightarrow> handle_valid h \<and> h \<notin> obs_open K k \<and> obs_open K k' = insert h (obs_open K k))
    \<and> (\<forall>e. r = Inl (System_error e ''bind failed'') \<or> r = Inl (System_error e ''listen failed'') \<longrightarrow>
         (\<exists>h. h \<notin> obs_open K k \<and> obs_open K k' = insert h (obs_open K k)))"
  using assms(2) net_ok_conf [OF assms(1)]
  by (auto simp: create_stream_listener_handle_def get_sock_addr_def
      split: prod.splits sum.splits option.splits if_splits
      dest!: net_ok_socket [OF assms(1)] net_ok_socket_fail [OF assms(1)])

lemma listener_handle_open_witness:
  "\<exists>h. h \<notin> {} \<and> obs_open net_scripted (snd (create_stream_listener_handle net_scripted global_config
     ''127.0.0.1'' 80 \<lparr>open_fds = [], answers = [Some (Eother 98)]\<rparr>)) = insert h {}"
  using listener_handle_open [OF net_scripted_ok, of global_config "''127.0.0.1''" 80
      "\<lparr>open_fds = [], answers = [Some (Eother 98)]\<rparr>"]
  by (auto simp: create_stream_listener_handle_def get_sock_addr_def net_scripted_def script_create_def
      script_answer_def)

text \<open>
  Addresses: a text is taken as an IPv4 address when it is one, otherwise as an IPv6 address,
  otherwise it is refused; the two bytes of the port are in network order.
\<close>

lemma sock_addr_families:
  "(case get_sock_addr K ip port of
      Inl e \<Rightarrow> e = Thrown ''invalid host - inet_pton failed for both IPv4 and IPv6''
        \<and> nc_inet_pton K AF_INET ip = None \<and> nc_inet_pton K AF_INET6 ip = None
    | Inr a \<Rightarrow> nc_inet_pton K (sa_domain a) ip = Some (sa_addr a)
        \<and> (sa_domain a = AF_INET6) = (nc_inet_pton K AF_INET ip = None)
        \<and> map unat (sa_port a) = [unat port div 256, unat port mod 256])"
  by (auto simp: get_sock_addr_def htons_bytes split: option.splits)

text \<open>
  The connecting factory.  On success exactly the returned descriptor is new, and the flag says
  whether \<open>connect\<close> completed at once; a delayed or a refused connection yields the flag false, and
  only the errors that are bugs of the caller throw, with the socket left open; an address that
  is refused leaves the kernel alone.
\<close>

lemma stream_handle_connects:
  assumes "net_ok K" and "create_stream_handle K ip port k = (r, k')"
  shows "(\<forall>h c. r = Inr (h, c) \<longrightarrow> handle_valid h \<and> h \<notin> obs_open K k \<and> obs_open K k' = insert h (obs_open K k)
         \<and> (\<exists>a k0 x. get_sock_addr K ip port = Inr a \<and> nc_connect K h a k0 = (x, k') \<and> (c \<longleftrightarrow> x = None)))
    \<and> (\<forall>e. get_sock_addr K ip port = Inl e \<longrightarrow> r = Inl e \<and> k' = k)
    \<and> (\<forall>e. r = Inl (System_error e ''connect failed'') \<longrightarrow>
         (\<exists>h. h \<notin> obs_open K k \<and> obs_open K k' = insert h (obs_open K k)))"
proof (cases "get_sock_addr K ip port")
  case (Inl e)
  then show ?thesis using assms(2)
    by (auto simp: create_stream_handle_def get_sock_addr_def split: option.splits)
next
  case (Inr a)
  show ?thesis
    using assms(2) net_ok_conf(4) [OF assms(1)] Inr
    by (auto simp: create_stream_handle_def split: prod.splits sum.splits option.splits if_splits
        dest!: net_ok_socket [OF assms(1)] net_ok_socket_fail [OF assms(1)])
qed

lemma stream_handle_connects_witness:
  "\<exists>h. obs_open net_scripted (snd (create_stream_handle net_scripted ''127.0.0.1'' 80
     \<lparr>open_fds = [], answers = [Some EBADF]\<rparr>)) = insert h {}"
  using stream_handle_connects [OF net_scripted_ok, of "''127.0.0.1''" 80
      "\<lparr>open_fds = [], answers = [Some EBADF]\<rparr>"]
  by (auto simp: create_stream_handle_def get_sock_addr_def net_scripted_def script_create_def script_answer_def)

end
