(* ===== verification/Stream_Listener.thy ===== *)
theory Stream_Listener
  imports Handles Event_Masks
begin

text \<open>
  Class \<open>StreamListener\<close> (\<open>include/stream_listener.h\<close>, \<open>lib/stream_listener.cc\<close>): the accept loop
  of \<open>HandleEvents\<close>, its bound, and what becomes of the accepted descriptors.  \<open>accept4\<close> is a
  parameter; the application's \<open>HandleNewConnection\<close> is a function that may throw.
\<close>

subsection \<open>State\<close>

datatype lobs = Ob_new_connection fd | Ob_ready_read

record ('k, 'h) listener =
  l_handler_alive :: bool
  l_has_event :: bool
  l_kernel :: 'k
  l_app :: 'h
  l_trace :: "lobs list"

text \<open>\<open>Create\<close>: the listening descriptor first, then the object around it.\<close>

definition listener_create ::
  "('k, 'z) net_calls_scheme \<Rightarrow> config \<Rightarrow> bool \<Rightarrow> string \<Rightarrow> 16 word \<Rightarrow> 'h \<Rightarrow> 'k \<Rightarrow> (exn + fd \<times> ('k, 'h) listener) \<times> 'k" where
  "listener_create K cfg alive ip_addr port h k =
     (case create_stream_listener_handle K cfg ip_addr port k of
        (Inl e, k) \<Rightarrow> (Inl e, k)
      | (Inr fd, k) \<Rightarrow>
          (Inr (fd, \<lparr>l_handler_alive = alive, l_has_event = False, l_kernel = k, l_app = h, l_trace = []\<rparr>), k))"

definition listener_get_events :: mask where
  "listener_get_events = Ev_Read"

subsection \<open>The event handler\<close>

text \<open>The errors of \<open>accept4\<close> that the listener takes for bugs or exhaustion, and throws.\<close>

definition accept_fatal :: "errno set" where
  "accept_fatal = {EBADF, EFAULT, EINVAL, EMFILE, ENFILE, ENOBUFS, ENOMEM, ENOTSOCK}"

text \<open>
  The loop over the next \<open>n\<close> turns; the flag of the result says that the bound was reached.  An
  accepted descriptor is given to the handler; when the handler is gone, nobody gets it.
\<close>

fun accept_loop ::
  "('k \<Rightarrow> (errno + fd) \<times> 'k) \<Rightarrow> (fd \<Rightarrow> 'h \<Rightarrow> exn + 'h) \<Rightarrow> nat \<Rightarrow> ('k, 'h) listener
     \<Rightarrow> exn + bool \<times> ('k, 'h) listener" where
  "accept_loop accept on_new 0 s = Inr (True, s)"
| "accept_loop accept on_new (Suc n) s =
     (let (ret, k') = accept (l_kernel s); s = s\<lparr>l_kernel := k'\<rparr>
      in case ret of
           Inl e \<Rightarrow>
             if e = EAGAIN then Inr (False, s)
             else if e \<in> accept_fatal then Inl (System_error e ''accept failed'')
             else accept_loop accept on_new n s
         | Inr new_fd \<Rightarrow>
             if l_handler_alive s
             then bindE (on_new new_fd (l_app s)) (\<lambda>h.
               accept_loop accept on_new n
                 (s\<lparr>l_app := h, l_trace := l_trace s @ [Ob_new_connection new_fd]\<rparr>))
             else accept_loop accept on_new n s)"

definition listener_handle_events ::
  "config \<Rightarrow> ('k \<Rightarrow> (errno + fd) \<times> 'k) \<Rightarrow> (fd \<Rightarrow> 'h \<Rightarrow> exn + 'h) \<Rightarrow> mask \<Rightarrow> ('k, 'h) listener
     \<Rightarrow> exn + ('k, 'h) listener" where
  "listener_handle_events cfg accept on_new events s =
     (if \<not> has events Ev_Read then Inr s
      else bindE (accept_loop accept on_new (nat (listen_starvation_limit cfg)) s) (\<lambda>(limit, s).
        if limit \<and> l_has_event s then Inr (s\<lparr>l_trace := l_trace s @ [Ob_ready_read]\<rparr>) else Inr s))"

subsection \<open>Facts\<close>

text \<open>
  The backlog: the descriptors that \<open>accept4\<close> is going to return, of which the first is returned
  by the next call; without one it is \<open>EAGAIN\<close>.
\<close>

definition accept_ok :: "('k \<Rightarrow> fd list) \<Rightarrow> ('k \<Rightarrow> (errno + fd) \<times> 'k) \<Rightarrow> bool" where
  "accept_ok backlog accept \<longleftrightarrow>
     (\<forall>k r k'. accept k = (r, k') \<longrightarrow>
        (case r of
           Inl e \<Rightarrow> backlog k' = backlog k \<and> (e = EAGAIN \<longrightarrow> backlog k = [])
         | Inr h \<Rightarrow> backlog k = h # backlog k'))"

fun new_connections :: "lobs list \<Rightarrow> fd list" where
  "new_connections [] = []"
| "new_connections (Ob_new_connection h # xs) = h # new_connections xs"
| "new_connections (Ob_ready_read # xs) = new_connections xs"

lemma new_connections_append [simp]: "new_connections (xs @ ys) = new_connections xs @ new_connections ys"
  by (induction xs rule: new_connections.induct) auto

lemma accept_ok_cases:
  assumes "accept_ok backlog accept" and "accept k = (r, k')"
  shows "r = Inl e \<Longrightarrow> backlog k' = backlog k" and "r = Inl EAGAIN \<Longrightarrow> backlog k = []"
    and "r = Inr h \<Longrightarrow> backlog k = h # backlog k'"
  using assms unfolding accept_ok_def by (fastforce split: sum.splits)+

lemma accept_loop_spec:
  assumes "accept_ok backlog accept" and "accept_loop accept on_new n s = Inr (limit, t)"
  shows "(\<exists>xs. l_trace t = l_trace s @ xs \<and> Ob_ready_read \<notin> set xs \<and> length xs \<le> n
        \<and> (l_handler_alive s \<longrightarrow> backlog (l_kernel s) = new_connections xs @ backlog (l_kernel t))
        \<and> (\<not> l_handler_alive s \<longrightarrow> xs = []))
    \<and> (\<not> limit \<longrightarrow> backlog (l_kernel t) = [])
    \<and> (\<exists>hs. backlog (l_kernel s) = hs @ backlog (l_kernel t) \<and> length hs \<le> n)
    \<and> l_handler_alive t = l_handler_alive s \<and> l_has_event t = l_has_event s"
  using assms(2)
proof (induction n arbitrary: s)
  case (Suc n)
  obtain r k' where a: "accept (l_kernel s) = (r, k')" by fastforce
  note ok = accept_ok_cases [OF assms(1) a]
  show ?case
  proof (cases r)
    case (Inl e)
    show ?thesis
    proof (cases "e = EAGAIN")
      case True
      with Suc.prems a Inl have "t = s\<lparr>l_kernel := k'\<rparr>" "\<not> limit" by auto
      with ok(1,2) Inl True show ?thesis by auto
    next
      case False
      with Suc.prems a Inl have "accept_loop accept on_new n (s\<lparr>l_kernel := k'\<rparr>) = Inr (limit, t)"
        by (auto split: if_splits)
      from Suc.IH [OF this] ok(1) Inl show ?thesis by fastforce
    qed
  next
    case (Inr h)
    note b = ok(3) [OF Inr]
    show ?thesis
    proof (cases "l_handler_alive s")
      case True
      with Suc.prems a Inr obtain x where
        "accept_loop accept on_new n (s\<lparr>l_kernel := k', l_app := x, l_trace := l_trace s @ [Ob_new_connection h]\<rparr>)
          = Inr (limit, t)" by auto
      from Suc.IH [OF this] obtain xs hs where
        "l_trace t = (l_trace s @ [Ob_new_connection h]) @ xs" "Ob_ready_read \<notin> set xs" "length xs \<le> n"
        "backlog k' = new_connections xs @ backlog (l_kernel t)"
        "\<not> limit \<longrightarrow> backlog (l_kernel t) = []" "backlog k' = hs @ backlog (l_kernel t)" "length hs \<le> n"
        "l_handler_alive t = l_handler_alive s" "l_has_event t = l_has_event s"
        using True by fastforce
      with b True show ?thesis
        by (intro conjI exI [of _ "Ob_new_connection h # xs"] exI [of _ "h # hs"]) simp_all
    next
      case False
      with Suc.prems a Inr have "accept_loop accept on_new n (s\<lparr>l_kernel := k'\<rparr>) = Inr (limit, t)" by simp
      from Suc.IH [OF this] obtain xs hs where
        "l_trace t = l_trace s @ xs" "xs = []" "\<not> limit \<longrightarrow> backlog (l_kernel t) = []"
        "backlog k' = hs @ backlog (l_kernel t)" "length hs \<le> n"
        "l_handler_alive t = l_handler_alive s" "l_has_event t = l_has_event s"
        using False by fastforce
      with b False show ?thesis
        by (intro conjI exI [of _ "[]"] exI [of _ "h # hs"]) simp_all
    qed
  qed
qed simp

subsection \<open>Properties\<close>

text \<open>
  No connection waits unseen.  After the handling of a \<open>Read\<close> event that does not throw, the
  backlog is empty, or the listener has made itself ready again; what left the backlog is, with a
  live handler, exactly what the handler was given, in order, at most 50 descriptors at a time.
\<close>

lemma listener_drains_or_rearms:
  assumes "accept_ok backlog accept" and "has events Ev_Read" and "l_has_event s"
    and "listener_handle_events global_config accept on_new events s = Inr t"
  shows "(backlog (l_kernel t) = [] \<or> last (l_trace t) = Ob_ready_read)
    \<and> (l_handler_alive s \<longrightarrow> (\<exists>hs. length hs \<le> 50
         \<and> backlog (l_kernel s) = hs @ backlog (l_kernel t)
         \<and> new_connections (l_trace t) = new_connections (l_trace s) @ hs))"
proof -
  from assms(2,4) have "bindE (accept_loop accept on_new 50 s) (\<lambda>(limit, s).
      if limit \<and> l_has_event s then Inr (s\<lparr>l_trace := l_trace s @ [Ob_ready_read]\<rparr>) else Inr s) = Inr t"
    by (simp add: listener_handle_events_def global_config_def del: bindE_eq_Inr)
  then obtain limit u where u: "accept_loop accept on_new 50 s = Inr (limit, u)"
    and t0: "(if limit \<and> l_has_event u then Inr (u\<lparr>l_trace := l_trace u @ [Ob_ready_read]\<rparr>) else Inr u)
      = (Inr t :: exn + ('a, 'b) listener)"
    by (auto simp del: if_split)
  from t0 have t: "t = (if limit \<and> l_has_event u then u\<lparr>l_trace := l_trace u @ [Ob_ready_read]\<rparr> else u)"
    by (cases "limit \<and> l_has_event u") auto
  note sp = accept_loop_spec [OF assms(1) u]
  have "backlog (l_kernel t) = [] \<or> last (l_trace t) = Ob_ready_read"
    using sp t assms(3) by auto
  moreover have "\<exists>hs. length hs \<le> 50 \<and> backlog (l_kernel s) = hs @ backlog (l_kernel t)
         \<and> new_connections (l_trace t) = new_connections (l_trace s) @ hs" if alive: "l_handler_alive s"
  proof -
    from sp alive obtain xs where xs: "l_trace u = l_trace s @ xs" "length xs \<le> 50"
      "backlog (l_kernel s) = new_connections xs @ backlog (l_kernel u)" by auto
    have "length (new_connections xs) \<le> length xs" by (induction xs rule: new_connections.induct) auto
    with xs t show ?thesis by (intro exI [of _ "new_connections xs"]) (auto split: if_splits)
  qed
  ultimately show ?thesis by blast
qed

text \<open>A backlog that is a list, as an instance of the parameter.\<close>

fun list_accept :: "fd list \<Rightarrow> (errno + fd) \<times> fd list" where
  "list_accept [] = (Inl EAGAIN, [])"
| "list_accept (h # hs) = (Inr h, hs)"

lemma list_accept_ok: "accept_ok (\<lambda>k. k) list_accept"
  unfolding accept_ok_def
proof (intro allI impI)
  fix k r k'
  assume "list_accept k = (r, k')"
  then show "case r of Inl e \<Rightarrow> k' = k \<and> (e = EAGAIN \<longrightarrow> k = []) | Inr h \<Rightarrow> k = h # k'"
    by (cases k) auto
qed

definition busy_listener :: "bool \<Rightarrow> fd list \<Rightarrow> (fd list, unit) listener" where
  "busy_listener alive hs =
     \<lparr>l_handler_alive = alive, l_has_event = True, l_kernel = hs, l_app = (), l_trace = []\<rparr>"

lemma accept_two:
  "listener_handle_events global_config list_accept (\<lambda>h. Inr) Ev_Read (busy_listener True [8, 9])
     = Inr ((busy_listener True [])\<lparr>l_trace := [Ob_new_connection 8, Ob_new_connection 9]\<rparr>)"
  by (simp add: listener_handle_events_def busy_listener_def global_config_def numeral_eq_Suc)

lemma listener_drains_or_rearms_witness:
  "\<exists>hs. length hs \<le> 50 \<and> [8, 9] = hs @ ([] :: fd list)"
  using listener_drains_or_rearms [OF list_accept_ok _ _ accept_two] by (simp add: busy_listener_def)

text \<open>
  Accepted descriptors without an owner.  When the connection handler is gone, the listener
  keeps accepting, gives the descriptors to nobody and does not close them: the backlog shrinks
  while the history of the listener shows no connection.
\<close>

lemma listener_drops_descriptors:
  assumes "accept_ok backlog accept" and "has events Ev_Read" and "\<not> l_handler_alive s"
    and "length (backlog (l_kernel s)) \<le> 50" and "\<And>k e k'. accept k = (Inl e, k') \<Longrightarrow> e = EAGAIN"
  shows "\<exists>t. listener_handle_events global_config accept on_new events s = Inr t
    \<and> backlog (l_kernel t) = [] \<and> new_connections (l_trace t) = new_connections (l_trace s)"
proof -
  have "\<exists>limit u. accept_loop accept on_new n s = Inr (limit, u) \<and> l_trace u = l_trace s
      \<and> backlog (l_kernel u) = []" if "length (backlog (l_kernel s)) \<le> n" "\<not> l_handler_alive s" for n
    using that
  proof (induction n arbitrary: s)
    case (Suc n)
    obtain r k' where a: "accept (l_kernel s) = (r, k')" by fastforce
    show ?case
    proof (cases r)
      case (Inl e)
      with assms(5) a have "e = EAGAIN" by simp
      with a Inl accept_ok_cases [OF assms(1) a] show ?thesis
        by (intro exI [of _ False] exI [of _ "s\<lparr>l_kernel := k'\<rparr>"]) simp
    next
      case (Inr h)
      from accept_ok_cases(3) [OF assms(1) a Inr] Suc.prems
      have "length (backlog (l_kernel (s\<lparr>l_kernel := k'\<rparr>))) \<le> n" "\<not> l_handler_alive (s\<lparr>l_kernel := k'\<rparr>)" by simp_all
      from Suc.IH [OF this] a Inr Suc.prems(2) show ?thesis by simp
    qed
  qed (auto intro: exI [of _ True])
  from this [OF assms(4,3)] obtain limit u where
    u: "accept_loop accept on_new 50 s = Inr (limit, u)" "l_trace u = l_trace s" "backlog (l_kernel u) = []" by blast
  then show ?thesis using assms(2)
    by (auto simp: listener_handle_events_def global_config_def)
qed

lemma listener_drops_descriptors_witness:
  "\<exists>t. listener_handle_events global_config list_accept (\<lambda>h. Inr) Ev_Read (busy_listener False [8, 9]) = Inr t
    \<and> l_kernel t = [] \<and> new_connections (l_trace t) = []"
proof -
  have "e = EAGAIN" if "list_accept k = (Inl e, k')" for k e k' using that by (cases k) auto
  from listener_drops_descriptors [OF list_accept_ok, where events = Ev_Read and s = "busy_listener False [8, 9]",
      OF _ _ _ this] show ?thesis by (simp add: busy_listener_def)
qed

end
