(* ===== verification/Timer_Handler.thy ===== *)
theory Timer_Handler
  imports Handles Event_Masks
begin

text \<open>
  \<open>EventLoop::TimerHandler\<close> (\<open>include/event_loop.h\<close>, \<open>lib/event_loop.cc\<close>): its creation by the
  four \<open>Execute...\<close> functions, its event handler and \<open>Cancel\<close>.  The result of reading the timer
  descriptor is an input of the handler; the function it runs is a parameter that may throw and
  that may cancel the very timer it runs in.  Durations are nanoseconds.
\<close>

subsection \<open>State\<close>

datatype tobs = Ob_func | Ob_close_timer

record 'h timer =
  tm_run_once :: bool
  tm_canceled :: bool
  tm_instance_alive :: bool
  tm_has_event :: bool
  tm_app :: 'h
  tm_trace :: "tobs list"

definition timer_new :: "bool \<Rightarrow> 'h \<Rightarrow> 'h timer" where
  "timer_new run_once h =
     \<lparr>tm_run_once = run_once, tm_canceled = False, tm_instance_alive = True, tm_has_event = False,
      tm_app = h, tm_trace = []\<rparr>"

definition timer_create ::
  "('k, 'z) net_calls_scheme \<Rightarrow> int \<Rightarrow> int \<Rightarrow> 'h \<Rightarrow> 'k \<Rightarrow> (exn + fd \<times> 'h timer) \<times> 'k" where
  "timer_create K interval execute_in h k =
     (case create_timer_handle K interval execute_in k of
        (Inl e, k) \<Rightarrow> (Inl e, k)
      | (Inr fd, k) \<Rightarrow> (Inr (fd, timer_new (interval = 0) h), k))"

definition execute_once_in ::
  "('k, 'z) net_calls_scheme \<Rightarrow> int \<Rightarrow> 'h \<Rightarrow> 'k \<Rightarrow> (exn + fd \<times> 'h timer) \<times> 'k" where
  "execute_once_in K execute_in h k = timer_create K 0 execute_in h k"

definition execute_interval ::
  "('k, 'z) net_calls_scheme \<Rightarrow> int \<Rightarrow> 'h \<Rightarrow> 'k \<Rightarrow> (exn + fd \<times> 'h timer) \<times> 'k" where
  "execute_interval K interval h k = timer_create K interval 0 h k"

definition execute_interval_in ::
  "('k, 'z) net_calls_scheme \<Rightarrow> int \<Rightarrow> int \<Rightarrow> 'h \<Rightarrow> 'k \<Rightarrow> (exn + fd \<times> 'h timer) \<times> 'k" where
  "execute_interval_in K interval execute_in h k = timer_create K interval execute_in h k"

definition timer_get_events :: mask where
  "timer_get_events = Ev_Read"

subsection \<open>Events\<close>

definition timer_close_event :: "'h timer \<Rightarrow> 'h timer" where
  "timer_close_event s = (if tm_has_event s then s\<lparr>tm_trace := tm_trace s @ [Ob_close_timer]\<rparr> else s)"

definition timer_cancel :: "'h timer \<Rightarrow> 'h timer" where
  "timer_cancel s = timer_close_event (s\<lparr>tm_canceled := True\<rparr>)"

text \<open>One call of \<open>func_\<close>: it may throw, or return whether it cancelled the timer.\<close>

definition timer_call :: "('h \<Rightarrow> exn + bool \<times> 'h) \<Rightarrow> 'h timer \<Rightarrow> exn + 'h timer" where
  "timer_call func s =
     bindE (func (tm_app s)) (\<lambda>(cancelled, h).
       let s = s\<lparr>tm_app := h, tm_trace := tm_trace s @ [Ob_func]\<rparr>
       in Inr (if cancelled then timer_cancel s else s))"

fun timer_calls :: "('h \<Rightarrow> exn + bool \<times> 'h) \<Rightarrow> nat \<Rightarrow> 'h timer \<Rightarrow> exn + 'h timer" where
  "timer_calls func 0 s = Inr s"
| "timer_calls func (Suc n) s = bindE (timer_call func s) (timer_calls func n)"

text \<open>
  \<open>HandleEvents\<close>; \<open>ret\<close> is what \<open>read\<close> of the descriptor yields, the 64-bit number of expirations
  or the error of a read that did not return eight bytes.
\<close>

definition timer_handle_events ::
  "config \<Rightarrow> ('h \<Rightarrow> exn + bool \<times> 'h) \<Rightarrow> mask \<Rightarrow> errno + 64 word \<Rightarrow> 'h timer \<Rightarrow> exn + 'h timer" where
  "timer_handle_events cfg func events ret s =
     (if tm_canceled s then Inr s
      else if \<not> has events Ev_Read then Inr s
      else case ret of
             Inl e \<Rightarrow> if e = EAGAIN then Inr s else Inl (System_error e ''timerfd read - failed'')
           | Inr occurrences \<Rightarrow>
               if \<not> tm_instance_alive s then Inr (timer_close_event s)
               else
                 let limit = (ucast (interval_occurrences_limit cfg) :: 64 word);
                     occurrences = (if occurrences > limit then limit else occurrences)
                 in bindE (timer_calls func (unat occurrences) s) (\<lambda>s.
                      Inr (if tm_run_once s then timer_cancel s else s)))"

text \<open>What happens to a timer from outside and from the loop, in any order.\<close>

datatype timer_move = Tm_attach | Tm_cancel | Tm_instance_gone | Tm_event mask "errno + 64 word"

fun timer_step :: "config \<Rightarrow> ('h \<Rightarrow> exn + bool \<times> 'h) \<Rightarrow> timer_move \<Rightarrow> 'h timer \<Rightarrow> exn + 'h timer" where
  "timer_step cfg func Tm_attach s = Inr (s\<lparr>tm_has_event := True\<rparr>)"
| "timer_step cfg func Tm_cancel s = Inr (timer_cancel s)"
| "timer_step cfg func Tm_instance_gone s = Inr (s\<lparr>tm_instance_alive := False\<rparr>)"
| "timer_step cfg func (Tm_event events ret) s = timer_handle_events cfg func events ret s"

fun timer_run :: "config \<Rightarrow> ('h \<Rightarrow> exn + bool \<times> 'h) \<Rightarrow> timer_move list \<Rightarrow> 'h timer \<Rightarrow> exn + 'h timer" where
  "timer_run cfg func [] s = Inr s"
| "timer_run cfg func (m # ms) s = bindE (timer_step cfg func m s) (timer_run cfg func ms)"

subsection \<open>Facts\<close>

definition runs :: "'h timer \<Rightarrow> nat" where
  "runs s = count_list (tm_trace s) Ob_func"

lemma timer_cancel_simps [simp]:
  "tm_canceled (timer_cancel s)" "tm_run_once (timer_cancel s) = tm_run_once s"
  "tm_has_event (timer_cancel s) = tm_has_event s" "tm_app (timer_cancel s) = tm_app s"
  "runs (timer_cancel s) = runs s" "tm_instance_alive (timer_cancel s) = tm_instance_alive s"
  by (simp_all add: timer_cancel_def timer_close_event_def runs_def)

lemma timer_close_simps [simp]:
  "tm_canceled (timer_close_event s) = tm_canceled s" "runs (timer_close_event s) = runs s"
  by (simp_all add: timer_close_event_def runs_def)

lemma timer_call_facts:
  assumes "timer_call func s = Inr t"
  shows "runs t = Suc (runs s) \<and> tm_run_once t = tm_run_once s \<and> tm_has_event t = tm_has_event s
    \<and> (tm_canceled s \<longrightarrow> tm_canceled t)"
  using assms by (auto simp: timer_call_def Let_def runs_def timer_cancel_def timer_close_event_def split: if_splits)

lemma timer_calls_facts:
  "timer_calls func n s = Inr t \<Longrightarrow>
   runs t = runs s + n \<and> tm_run_once t = tm_run_once s \<and> tm_has_event t = tm_has_event s
    \<and> (tm_canceled s \<longrightarrow> tm_canceled t)"
proof (induction n arbitrary: s)
  case (Suc n)
  then obtain u where u: "timer_call func s = Inr u" "timer_calls func n u = Inr t" by auto
  from timer_call_facts [OF u(1)] Suc.IH [OF u(2)] show ?case by auto
qed simp

lemma timer_calls_total:
  "(\<And>h. \<exists>r. func h = Inr r) \<Longrightarrow> \<exists>t. timer_calls func n s = Inr t"
proof (induction n arbitrary: s)
  case (Suc n)
  from Suc.prems obtain r where r: "func (tm_app s) = Inr r" by blast
  obtain c h where rc: "r = (c, h)" by (cases r)
  show ?case using Suc.IH [OF Suc.prems] r rc by (simp add: timer_call_def Let_def)
qed simp

lemma occurrences_bound:
  "unat (if occ > (ucast (interval_occurrences_limit global_config) :: 64 word)
     then ucast (interval_occurrences_limit global_config) else occ) = min (unat occ) 10"
  by (auto simp: global_config_def min_def word_less_nat_alt)

lemma timer_step_canceled:
  "timer_step cfg func m s = Inr t \<Longrightarrow> tm_canceled s \<Longrightarrow> tm_canceled t \<and> runs t = runs s"
  by (cases m) (auto simp: timer_handle_events_def runs_def timer_cancel_def timer_close_event_def)

lemma timer_handle_runs:
  assumes "\<not> tm_canceled s" and "has events Ev_Read" and "tm_instance_alive s" and "\<And>h. \<exists>r. func h = Inr r"
  shows "\<exists>t. timer_handle_events global_config func events (Inr occ) s = Inr t
    \<and> runs t = runs s + min (unat occ) 10 \<and> (tm_run_once s \<longrightarrow> tm_canceled t)"
proof -
  from timer_calls_total [of func "min (unat occ) 10" s] assms(4) obtain u where
    u: "timer_calls func (min (unat occ) 10) s = Inr u" by blast
  with timer_calls_facts [OF u] assms(1-3) show ?thesis
    unfolding timer_handle_events_def Let_def by (auto simp: occurrences_bound)
qed

subsection \<open>Properties\<close>

text \<open>
  How often a timer runs.  An expiration event of a live timer whose function does not throw
  runs the function as often as the timer has expired since the last event, but at most ten times;
  a timer without an interval is cancelled after it.
\<close>

lemma timer_runs_bounded:
  assumes "\<not> tm_canceled s" and "has events Ev_Read" and "tm_instance_alive s" and "\<And>h. \<exists>r. func h = Inr r"
  shows "\<exists>t. timer_handle_events global_config func events (Inr occ) s = Inr t
    \<and> runs t = runs s + min (unat occ) 10 \<and> (tm_run_once s \<longrightarrow> tm_canceled t)"
  by (rule timer_handle_runs [OF assms])

lemma timer_runs_bounded_witness:
  "\<exists>t. timer_handle_events global_config (\<lambda>h. Inr (False, h)) Ev_Read (Inr 1000) (timer_new False ()) = Inr t
    \<and> runs t = 10"
  using timer_runs_bounded [of "timer_new False ()" Ev_Read "\<lambda>h. Inr (False, h)" 1000]
  by (auto simp: timer_new_def runs_def)

text \<open>
  A cancelled timer is silent.  After \<open>Cancel\<close>, no sequence of further events, calls of
  \<open>Cancel\<close> or other moves runs the function again or throws.
\<close>

lemma timer_cancel_silences:
  "\<exists>t. timer_run cfg func ms (timer_cancel s) = Inr t \<and> tm_canceled t \<and> runs t = runs s"
proof -
  have "\<exists>t. timer_run cfg func ms s = Inr t \<and> tm_canceled t \<and> runs t = runs s" if "tm_canceled s" for s
    using that
  proof (induction ms arbitrary: s)
    case (Cons m ms)
    from Cons.prems obtain u where u: "timer_step cfg func m s = Inr u"
      by (cases m) (auto simp: timer_handle_events_def)
    from timer_step_canceled [OF u Cons.prems] Cons.IH [of u] u show ?case by auto
  qed simp
  from this [of "timer_cancel s"] show ?thesis by simp
qed

text \<open>
  Cancelling from inside.  A function that cancels its own timer is still run for all the
  expirations of the event at hand: the flag is read before the loop only.
\<close>

lemma timer_cancel_inside_continues:
  assumes "\<not> tm_canceled s" and "has events Ev_Read" and "tm_instance_alive s"
    and "\<And>h. \<exists>h'. func h = Inr (True, h')" and "1 < unat occ"
  shows "\<exists>u t. timer_call func s = Inr u \<and> tm_canceled u
    \<and> timer_handle_events global_config func events (Inr occ) s = Inr t
    \<and> runs t = runs u + (min (unat occ) 10 - 1) \<and> runs u < runs t"
proof -
  from assms(4) obtain h' where "func (tm_app s) = Inr (True, h')" by blast
  then obtain u where u: "timer_call func s = Inr u" "tm_canceled u" by (simp add: timer_call_def)
  have tot: "\<exists>r. func h = Inr r" for h using assms(4) by blast
  from timer_handle_runs [where func = func and occ = occ, OF assms(1-3) tot] obtain t where
    "timer_handle_events global_config func events (Inr occ) s = Inr t" "runs t = runs s + min (unat occ) 10" by blast
  with u timer_call_facts [OF u(1)] assms(5) show ?thesis
    by (intro exI [of _ u] exI [of _ t]) auto
qed

lemma timer_cancel_inside_continues_witness:
  "\<exists>u t. timer_call (\<lambda>h. Inr (True, h)) (timer_new False ()) = Inr u \<and> tm_canceled u
    \<and> timer_handle_events global_config (\<lambda>h. Inr (True, h)) Ev_Read (Inr 5) (timer_new False ()) = Inr t
    \<and> runs t = runs u + 4 \<and> runs u < runs t"
  using timer_cancel_inside_continues [of "timer_new False ()" Ev_Read "\<lambda>h. Inr (True, h)" 5]
  by (auto simp: timer_new_def)

text \<open>
  Running once at once:  \<open>ExecuteOnceIn\<close> with a delay of zero asks for a timer with both
  durations zero, which the timer factory refuses: unless the kernel is out of descriptors, it
  throws, and one descriptor more is open than before.
\<close>

lemma execute_once_in_zero:
  assumes "net_ok K" and "nc_timerfd_create K k = (Inr fd, k1)"
  shows "fst (execute_once_in K 0 h k) = Inl (Thrown ''invalid interval values (both zero nanoseconds)'')
    \<and> obs_open K (snd (execute_once_in K 0 h k)) = insert fd (obs_open K k) \<and> fd \<notin> obs_open K k"
  using assms net_ok_timerfd [OF assms]
  by (simp add: execute_once_in_def timer_create_def create_timer_handle_def)

end
