(* ===== verification/Filter_Base.thy ===== *)
theory Filter_Base
  imports Event_Masks
begin

text \<open>
  \<open>StreamBufferFilter\<close> (\<open>include/stream_buffer.h\<close>, \<open>lib/stream_buffer.cc\<close>): the result classes of
  the virtual functions, the base-class fields of a filter, and its three loops, \<open>Write\<close>, \<open>Read\<close>
  and \<open>Close\<close>.  The virtual functions of the filters are a table indexed by the position of the
  filter in the chain; they act on a world \<open>'w\<close> that holds the derived objects and the sockets.
  A saved \<open>DataView\<close> is its bytes (\<open>Data_View\<close> shows that they never change), the null pointer
  that \<open>Out\<close> leaves behind is \<open>None\<close>.
\<close>

subsection \<open>Results of the virtual functions\<close>

text \<open>\<open>OutResult\<close> and \<open>ShutdownResult\<close> hold one flag: close, and complete.\<close>

record out_result =
  should_close_write :: bool

record shutdown_result =
  is_complete :: bool

record in_result =
  should_close_read :: bool
  in_data :: "bytes option"

datatype connect_result = Connect_pending | Connect_failed | Connect_success

definition out_ok :: out_result where "out_ok = \<lparr>should_close_write = False\<rparr>"
definition out_should_close :: out_result where "out_should_close = \<lparr>should_close_write = True\<rparr>"
definition in_nothing :: in_result where
  "in_nothing = \<lparr>should_close_read = False, in_data = None\<rparr>"
definition in_bytes :: "bytes \<Rightarrow> in_result" where
  "in_bytes bs = \<lparr>should_close_read = False, in_data = Some bs\<rparr>"
definition in_should_close :: in_result where
  "in_should_close = \<lparr>should_close_read = True, in_data = None\<rparr>"

definition has_data :: "in_result \<Rightarrow> bool" where
  "has_data r \<longleftrightarrow> (case in_data r of None \<Rightarrow> False | Some bs \<Rightarrow> length bs > 0)"

lemmas result_defs = out_ok_def out_should_close_def in_nothing_def in_bytes_def in_should_close_def

lemma has_data_simps [simp]:
  "\<not> has_data in_nothing" "\<not> has_data in_should_close" "has_data (in_bytes bs) \<longleftrightarrow> bs \<noteq> []"
  by (simp_all add: has_data_def result_defs)

lemma result_simps [simp]:
  "\<not> should_close_write out_ok" "should_close_write out_should_close"
  "\<not> should_close_read in_nothing" "\<not> should_close_read (in_bytes bs)"
  "should_close_read in_should_close"
  "in_data (in_bytes bs) = Some bs" "in_data in_nothing = None" "in_data in_should_close = None"
  by (simp_all add: result_defs)

subsection \<open>Virtual functions and base-class fields\<close>

record 'w vtable =
  v_in :: "nat \<Rightarrow> 'w \<Rightarrow> exn + in_result \<times> 'w"
  v_out :: "nat \<Rightarrow> bytes \<Rightarrow> 'w \<Rightarrow> exn + (out_result \<times> bytes option) \<times> 'w"
  v_shutdown :: "nat \<Rightarrow> 'w \<Rightarrow> exn + shutdown_result \<times> 'w"
  v_connect :: "nat \<Rightarrow> 'w \<Rightarrow> exn + connect_result \<times> 'w"
  v_accept :: "nat \<Rightarrow> 'w \<Rightarrow> exn + connect_result \<times> 'w"

record filt =
  connected :: bool
  read_closed :: bool
  write_closed :: bool
  prev_ix :: "nat option"
  next_ix :: "nat option"
  order_no :: "32 word"
  pending_out :: "bytes list"

definition new_filter :: filt where
  "new_filter =
     \<lparr>connected = False, read_closed = False, write_closed = False,
      prev_ix = None, next_ix = None, order_no = NOT 1, pending_out = []\<rparr>"

definition filter_closed :: "filt \<Rightarrow> bool" where
  "filter_closed f \<longleftrightarrow> read_closed f \<and> write_closed f"

definition filter_get_events :: "filt \<Rightarrow> mask" where
  "filter_get_events f =
     (if connected f \<or> order_no f > 0 then Ev_Read OR Ev_Write OR Ev_Stream
      else Ev_Write OR Ev_Stream)"

subsection \<open>Write and Close\<close>

text \<open>
  The loop that \<open>Write\<close> and \<open>Close\<close> share: take the first pending view, hand it to \<open>Out\<close>; stop when
  the write side has to close (the view just taken is gone) or when \<open>Out\<close> kept a rest (it goes
  back to the front).  The result is whether to close, and what is still pending.
\<close>

fun flush_out ::
  "(bytes \<Rightarrow> 'w \<Rightarrow> exn + (out_result \<times> bytes option) \<times> 'w) \<Rightarrow> bytes list \<Rightarrow> 'w
     \<Rightarrow> exn + (bool \<times> bytes list) \<times> 'w" where
  "flush_out out [] w = Inr ((False, []), w)"
| "flush_out out (d # ds) w =
     bindE (out d w) (\<lambda>((r, d'), w').
       if should_close_write r then Inr ((True, ds), w')
       else case d' of
              Some rest \<Rightarrow> Inr ((False, rest # ds), w')
            | None \<Rightarrow> flush_out out ds w')"

definition filter_write ::
  "'w vtable \<Rightarrow> nat \<Rightarrow> bytes list \<Rightarrow> filt \<Rightarrow> 'w \<Rightarrow> exn + filt \<times> 'w" where
  "filter_write vt i write_list f w =
     bindE (flush_out (v_out vt i) (pending_out f @ write_list) w) (\<lambda>((close, rest), w').
       Inr (f\<lparr>write_closed := write_closed f \<or> close, pending_out := rest\<rparr>, w'))"

definition filter_shutdown :: "'w vtable \<Rightarrow> nat \<Rightarrow> filt \<Rightarrow> 'w \<Rightarrow> exn + filt \<times> 'w" where
  "filter_shutdown vt i f w =
     bindE (v_shutdown vt i w) (\<lambda>(r, w').
       Inr (if is_complete r then f\<lparr>read_closed := True, write_closed := True\<rparr> else f, w'))"

definition filter_close :: "'w vtable \<Rightarrow> nat \<Rightarrow> filt \<Rightarrow> 'w \<Rightarrow> exn + filt \<times> 'w" where
  "filter_close vt i f w =
     (if pending_out f = [] \<or> write_closed f then filter_shutdown vt i f w
      else bindE (flush_out (v_out vt i) (pending_out f) w) (\<lambda>((close, rest), w').
        let f' = f\<lparr>write_closed := write_closed f \<or> close, pending_out := rest\<rparr>
        in if pending_out f' = [] \<or> write_closed f' then filter_shutdown vt i f' w'
           else Inr (f', w')))"

subsection \<open>Read\<close>

text \<open>
  \<open>Read\<close> has no bound: it calls \<open>In\<close> until it reports close or no data, and hands every piece of
  data to the stream buffer's handler in between.  \<open>None\<close> is a run that never ends.  The flag of
  the result tells whether the read side has to close.
\<close>

partial_function (option) read_loop ::
  "('s \<Rightarrow> exn + in_result \<times> 's) \<Rightarrow> (bytes \<Rightarrow> 's \<Rightarrow> exn + 's) \<Rightarrow> 's \<Rightarrow> (exn + bool \<times> 's) option" where
  "read_loop in_fn deliver s =
     (case in_fn s of
        Inl e \<Rightarrow> Some (Inl e)
      | Inr (r, s1) \<Rightarrow>
          if should_close_read r then Some (Inr (True, s1))
          else if \<not> has_data r then Some (Inr (False, s1))
          else case deliver (opt_bytes (in_data r)) s1 of
                 Inl e \<Rightarrow> Some (Inl e)
               | Inr s2 \<Rightarrow> read_loop in_fn deliver s2)"

declare read_loop.simps [code]

text \<open>Partial correctness of \<open>Read\<close>: an invariant \<open>P\<close> of every round, and \<open>Q\<close> where it stops.\<close>

lemma read_loop_rule:
  assumes ret: "read_loop in_fn deliver s = Some (Inr (c, t))" and P: "P s"
    and stop: "\<And>s r s1. P s \<Longrightarrow> in_fn s = Inr (r, s1) \<Longrightarrow> should_close_read r \<or> \<not> has_data r \<Longrightarrow>
      Q (should_close_read r) s1"
    and step: "\<And>s r s1 s2. P s \<Longrightarrow> in_fn s = Inr (r, s1) \<Longrightarrow> \<not> should_close_read r \<Longrightarrow> has_data r \<Longrightarrow>
      deliver (opt_bytes (in_data r)) s1 = Inr s2 \<Longrightarrow> P s2"
  shows "Q c t"
proof -
  have "res = Inr (c, t) \<longrightarrow> in_fn = in_fn0 \<longrightarrow> deliver = deliver0 \<longrightarrow> P s \<longrightarrow> Q c t"
    if "read_loop in_fn deliver s = Some res" and "in_fn0 = in_fn" "deliver0 = deliver"
    for res in_fn0 deliver0
  proof (rule read_loop.raw_induct [where
        P = "\<lambda>i d s res. res = Inr (c, t) \<longrightarrow> i = in_fn0 \<longrightarrow> d = deliver0 \<longrightarrow> P s \<longrightarrow> Q c t",
        OF _ that(1)], goal_cases)
    case (1 f i d s res)
    show ?case
    proof (intro impI)
      assume a: "res = Inr (c, t)" "i = in_fn0" "d = deliver0" "P s"
      show "Q c t"
      proof (cases "in_fn s")
        case (Inl e)
        with 1(2) a that show ?thesis by simp
      next
        case (Inr p)
        obtain r s1 where p: "p = (r, s1)" by (cases p)
        show ?thesis
        proof (cases "should_close_read r \<or> \<not> has_data r")
          case True
          with 1(2) a that Inr p have "c = should_close_read r" "t = s1"
            by (auto split: if_splits)
          with stop [OF a(4) Inr [unfolded p] True] show ?thesis by simp
        next
          case False
          with 1(2) a that Inr p obtain s2 where s2: "deliver (opt_bytes (in_data r)) s1 = Inr s2"
            and "f in_fn deliver s2 = Some (Inr (c, t))"
            by (auto split: sum.splits)
          with 1(1) [OF this(2)] step [OF a(4) Inr [unfolded p] _ _ s2] False that show ?thesis
            by simp
        qed
      qed
    qed
  qed
  from this [OF ret refl refl] P show ?thesis by simp
qed

subsection \<open>What Out promises to the loops\<close>

abbreviation no_empty :: "bytes list \<Rightarrow> bool" where
  "no_empty ds \<equiv> list_all (\<lambda>d. d \<noteq> []) ds"

text \<open>
  The contract between \<open>Write\<close>/\<open>Close\<close> and a filter's \<open>Out\<close>, in an environment \<open>k\<close> that behaves
  (\<open>ok k\<close>): \<open>accepted\<close> is what the filter has taken over so far.  Out takes over a prefix of the
  view and keeps exactly the rest, never an empty rest; when it asks to close, it took a prefix.
\<close>

locale out_channel =
  fixes ok :: "'k \<Rightarrow> bool"
    and out :: "'k \<Rightarrow> bytes \<Rightarrow> 'w \<Rightarrow> exn + (out_result \<times> bytes option) \<times> 'w"
    and accepted :: "'k \<Rightarrow> 'w \<Rightarrow> bytes"
  assumes out_takes_prefix:
      "ok k \<Longrightarrow> out k d w = Inr ((r, d'), w') \<Longrightarrow>
       \<exists>n. accepted k w' = accepted k w @ take n d
         \<and> (\<not> should_close_write r \<longrightarrow> opt_bytes d' = drop n d)"
    and out_rest_nonempty:
      "ok k \<Longrightarrow> d \<noteq> [] \<Longrightarrow> out k d w = Inr ((r, d'), w') \<Longrightarrow> d' \<noteq> Some []"
begin

lemma out_conserves:
  "ok k \<Longrightarrow> out k d w = Inr ((r, d'), w') \<Longrightarrow> \<not> should_close_write r \<Longrightarrow>
   accepted k w' @ opt_bytes d' = accepted k w @ d"
  by (drule (1) out_takes_prefix) auto

lemma flush_conserves:
  "ok k \<Longrightarrow> flush_out (out k) ds w = Inr ((False, rest), w') \<Longrightarrow>
   accepted k w' @ concat rest = accepted k w @ concat ds"
proof (induction ds arbitrary: w)
  case Nil
  then show ?case by simp
next
  case (Cons d ds)
  then obtain r d' w1 where o: "out k d w = Inr ((r, d'), w1)" and r: "\<not> should_close_write r"
    by (auto split: if_splits)
  note c = out_conserves [OF Cons.prems(1) o r]
  show ?case
  proof (cases d')
    case None
    with Cons.prems(2) o r have "flush_out (out k) ds w1 = Inr ((False, rest), w')" by simp
    from Cons.IH [OF Cons.prems(1) this] c None show ?thesis by simp
  next
    case (Some x)
    with Cons.prems(2) o r have "rest = x # ds" "w' = w1" by auto
    then show ?thesis using c Some by (metis append.assoc concat.simps(2) opt_bytes_simps(2))
  qed
qed

lemma flush_prefix:
  "ok k \<Longrightarrow> flush_out (out k) ds w = Inr ((close, rest), w') \<Longrightarrow>
   \<exists>n. accepted k w' = accepted k w @ take n (concat ds)"
proof (induction ds arbitrary: w)
  case Nil
  then show ?case by simp
next
  case (Cons d ds)
  then obtain r d' w1 where o: "out k d w = Inr ((r, d'), w1)" by auto
  from out_takes_prefix [OF Cons.prems(1) o] obtain n where
    n: "accepted k w1 = accepted k w @ take n d" "\<not> should_close_write r \<Longrightarrow> opt_bytes d' = drop n d"
    by blast
  show ?case
  proof (cases "should_close_write r \<or> d' \<noteq> None")
    case True
    with Cons.prems(2) o have "w' = w1" by (auto split: if_splits)
    with n(1) have "accepted k w' = accepted k w @ take (min n (length d)) (concat (d # ds))"
      by (simp add: min_def)
    then show ?thesis by blast
  next
    case False
    with Cons.prems(2) o have "flush_out (out k) ds w1 = Inr ((close, rest), w')" by simp
    from Cons.IH [OF Cons.prems(1) this] obtain m where
      "accepted k w' = accepted k w1 @ take m (concat ds)" by blast
    with n False have "accepted k w' = accepted k w @ take (length d + m) (concat (d # ds))" by simp
    then show ?thesis by blast
  qed
qed

lemma flush_rest_nonempty:
  "ok k \<Longrightarrow> no_empty ds \<Longrightarrow> flush_out (out k) ds w = Inr ((close, rest), w') \<Longrightarrow>
   no_empty rest"
proof (induction ds arbitrary: w)
  case Nil
  then show ?case by simp
next
  case (Cons d ds)
  then obtain r d' w1 where o: "out k d w = Inr ((r, d'), w1)" and d: "d \<noteq> []" by auto
  from out_rest_nonempty [OF Cons.prems(1) d o] Cons o show ?case
    by (auto split: if_splits option.splits)
qed

end

text \<open>
  The contract between \<open>Read\<close> and a filter's \<open>In\<close>: \<open>arrived\<close> is what the filter has taken from below
  (for the bottom filter, from the peer) so far.  In returns exactly what it newly took.
\<close>

locale in_channel =
  fixes ok :: "'k \<Rightarrow> bool"
    and inp :: "'k \<Rightarrow> 'w \<Rightarrow> exn + in_result \<times> 'w"
    and arrived :: "'k \<Rightarrow> 'w \<Rightarrow> bytes"
  assumes in_arrives:
      "ok k \<Longrightarrow> inp k w = Inr (r, w') \<Longrightarrow> arrived k w' = arrived k w @ opt_bytes (in_data r)"
    and in_close_no_data:
      "ok k \<Longrightarrow> inp k w = Inr (r, w') \<Longrightarrow> should_close_read r \<Longrightarrow> opt_bytes (in_data r) = []"
begin

lemma read_delivers:
  assumes k: "ok k" and ret: "read_loop in_fn deliver s = Some (Inr (c, t))" and J: "J s"
    and inf: "\<And>s r s1. J s \<Longrightarrow> in_fn s = Inr (r, s1) \<Longrightarrow>
      inp k (wd s) = Inr (r, wd s1) \<and> got s1 = got s \<and> J s1"
    and del: "\<And>d s s1. J s \<Longrightarrow> deliver d s = Inr s1 \<Longrightarrow> wd s1 = wd s \<and> got s1 = got s @ d \<and> J s1"
  shows "\<exists>bs. arrived k (wd t) = arrived k (wd s) @ bs \<and> got t = got s @ bs"
proof (rule read_loop_rule [OF ret, where
      P = "\<lambda>t. J t \<and> (\<exists>bs. arrived k (wd t) = arrived k (wd s) @ bs \<and> got t = got s @ bs)"], goal_cases)
  case 1
  show ?case using J by simp
next
  case (2 u r s1)
  from inf [OF _ 2(2)] 2(1) have i: "inp k (wd u) = Inr (r, wd s1)" and g: "got s1 = got u" by auto
  have "opt_bytes (in_data r) = []"
    using in_close_no_data [OF k i] 2(3) by (auto simp: has_data_def split: option.splits)
  with in_arrives [OF k i] g 2(1) show ?case by simp
next
  case (3 u r s1 s2)
  from inf [OF _ 3(2)] 3(1) have i: "inp k (wd u) = Inr (r, wd s1)" and g: "got s1 = got u"
    and j: "J s1" by auto
  from in_arrives [OF k i] del [OF j 3(5)] g 3(1) show ?case by auto
qed

end

end
