(* ===== verification/Tcp_Filter.thy ===== *)
theory Tcp_Filter
  imports Filter_Base
begin

text \<open>
  \<open>TCPStreamBufferFilter\<close> (\<open>lib/tcp_stream_buffer_filter.h\<close>, \<open>lib/tcp_stream_buffer_filter.cc\<close>):
  the bottom filter of every chain.  The system calls are a parameter (a record of functions on a
  kernel state), and what their documentation promises is the predicate \<open>socket_ok\<close> over two
  observations of the kernel: the bytes it took from \<open>send\<close> and those it handed out through \<open>recv\<close>.
\<close>

subsection \<open>The system calls\<close>

text \<open>
  A call that returns -1 is \<open>Inl\<close> with the error number.  \<open>recv\<close> is told the buffer size and yields
  the bytes it put there; \<open>getsockopt(SO_ERROR)\<close> yields the pending error, if any.
\<close>

record 'k socket_calls =
  sc_recv :: "fd \<Rightarrow> nat \<Rightarrow> 'k \<Rightarrow> (errno + bytes) \<times> 'k"
  sc_send :: "fd \<Rightarrow> bytes \<Rightarrow> 'k \<Rightarrow> (errno + int) \<times> 'k"
  sc_so_error :: "fd \<Rightarrow> 'k \<Rightarrow> (errno + errno option) \<times> 'k"
  obs_sent :: "'k \<Rightarrow> bytes"
  obs_received :: "'k \<Rightarrow> bytes"

definition socket_ok :: "('k, 'z) socket_calls_scheme \<Rightarrow> bool" where
  "socket_ok K \<longleftrightarrow>
     (\<forall>h d k r k'. sc_send K h d k = (r, k') \<longrightarrow> obs_received K k' = obs_received K k \<and>
        (case r of
           Inl e \<Rightarrow> obs_sent K k' = obs_sent K k
         | Inr n \<Rightarrow> 0 \<le> n \<and> n \<le> int (length d) \<and> obs_sent K k' = obs_sent K k @ take (nat n) d))
   \<and> (\<forall>h m k r k'. sc_recv K h m k = (r, k') \<longrightarrow> obs_sent K k' = obs_sent K k \<and>
        (case r of
           Inl e \<Rightarrow> obs_received K k' = obs_received K k
         | Inr bs \<Rightarrow> length bs \<le> m \<and> obs_received K k' = obs_received K k @ bs))
   \<and> (\<forall>h k r k'. sc_so_error K h k = (r, k') \<longrightarrow>
        obs_sent K k' = obs_sent K k \<and> obs_received K k' = obs_received K k)"

subsection \<open>The filter\<close>

text \<open>
  The state of the derived object, and the kernel beside it.  A record extension of it carries
  the derived state of the filters that an application stacks on top.
\<close>

record 'k tcp =
  tcp_handle :: fd
  pending_connect :: bool
  kernel :: 'k

text \<open>\<open>Create\<close> names its flag \<open>connected\<close> and keeps it in \<open>pending_connect_\<close>.\<close>

definition tcp_create :: "fd \<Rightarrow> bool \<Rightarrow> 'k \<Rightarrow> 'k tcp" where
  [simp]: "tcp_create handle conn k = \<lparr>tcp_handle = handle, pending_connect = conn, kernel = k\<rparr>"

definition tcp_buf_size :: nat where "tcp_buf_size = 100000"

definition tcp_in ::
  "('k, 'z) socket_calls_scheme \<Rightarrow> ('k, 'x) tcp_scheme \<Rightarrow> exn + in_result \<times> ('k, 'x) tcp_scheme" where
  "tcp_in K w =
     (let (ret, k') = sc_recv K (tcp_handle w) tcp_buf_size (kernel w); w' = w\<lparr>kernel := k'\<rparr>
      in case ret of
           Inr bs \<Rightarrow> if bs = [] then Inr (in_should_close, w') else Inr (in_bytes bs, w')
         | Inl e \<Rightarrow>
             if e = EAGAIN then Inr (in_nothing, w')
             else if e \<in> {EFAULT, EINVAL, ENOTCONN, ENOTSOCK, EBADF}
             then Inl (System_error e ''read failed'')
             else Inr (in_should_close, w'))"

text \<open>
  After a partial write the code replaces the view by the saved rest, and its trace message then
  reads the length of \<open>suffix_data_view\<close>, a pointer that is null there: with tracing on, that is
  a null dereference.
\<close>

definition tcp_out ::
  "log_sink \<Rightarrow> ('k, 'z) socket_calls_scheme \<Rightarrow> bytes \<Rightarrow> ('k, 'x) tcp_scheme
     \<Rightarrow> exn + (out_result \<times> bytes option) \<times> ('k, 'x) tcp_scheme" where
  "tcp_out sink K d w =
     (let (ret, k') = sc_send K (tcp_handle w) d (kernel w); w' = w\<lparr>kernel := k'\<rparr>
      in case ret of
           Inl e \<Rightarrow>
             if e = EAGAIN then Inr ((out_ok, Some d), w')
             else if e \<in> {EBADF, EDESTADDRREQ, EFAULT, EINVAL, EMSGSIZE, ENOMEM, ENOTCONN,
                          ENOTSOCK, EOPNOTSUPP}
             then Inl (System_error e ''write failed'')
             else Inr ((out_should_close, Some d), w')
         | Inr n \<Rightarrow>
             if n = 0 then Inl (Thrown ''write return 0 (kernel bug?)'')
             else if n < int (length d)
             then (if log_enabled sink LTrace then Inl (Undefined ''null suffix_data_view'')
                   else Inr ((out_ok, Some (drop (nat n) d)), w'))
             else Inr ((out_ok, None), w'))"

definition tcp_accept ::
  "('k, 'x) tcp_scheme \<Rightarrow> exn + connect_result \<times> ('k, 'x) tcp_scheme" where
  "tcp_accept w =
     (if pending_connect w then Inr (Connect_success, w)
      else Inl (Thrown ''unexpected use case - connection should already be accepted''))"

definition tcp_connect ::
  "('k, 'z) socket_calls_scheme \<Rightarrow> ('k, 'x) tcp_scheme
     \<Rightarrow> exn + connect_result \<times> ('k, 'x) tcp_scheme" where
  "tcp_connect K w =
     (if pending_connect w then Inr (Connect_success, w)
      else let (ret, k') = sc_so_error K (tcp_handle w) (kernel w); w' = w\<lparr>kernel := k'\<rparr>
           in case ret of
                Inl e \<Rightarrow> Inl (System_error e ''getsockopt failed'')
              | Inr (Some _) \<Rightarrow> Inr (Connect_failed, w')
              | Inr None \<Rightarrow> Inr (Connect_success, w'))"

definition tcp_shutdown ::
  "('k, 'x) tcp_scheme \<Rightarrow> exn + shutdown_result \<times> ('k, 'x) tcp_scheme" where
  "tcp_shutdown w = Inr (\<lparr>is_complete = True\<rparr>, w)"

text \<open>
  Virtual dispatch of a chain: position 0 is the TCP filter, the others are the application's
  filters (the parameter \<open>up\<close>), which reach the one below through \<open>PrevIn\<close> and \<open>PrevOut\<close>.
\<close>

definition stack_vt ::
  "log_sink \<Rightarrow> ('k, 'z) socket_calls_scheme \<Rightarrow> (('k, 'x) tcp_scheme) vtable
     \<Rightarrow> (('k, 'x) tcp_scheme) vtable" where
  "stack_vt sink K up =
     \<lparr>v_in = (\<lambda>i w. if i = 0 then tcp_in K w else v_in up i w),
      v_out = (\<lambda>i d w. if i = 0 then tcp_out sink K d w else v_out up i d w),
      v_shutdown = (\<lambda>i w. if i = 0 then tcp_shutdown w else v_shutdown up i w),
      v_connect = (\<lambda>i w. if i = 0 then tcp_connect K w else v_connect up i w),
      v_accept = (\<lambda>i w. if i = 0 then tcp_accept w else v_accept up i w)\<rparr>"

lemma stack_vt_0 [simp]:
  "v_in (stack_vt sink K up) 0 = tcp_in K"
  "v_out (stack_vt sink K up) 0 = tcp_out sink K"
  "v_shutdown (stack_vt sink K up) 0 = tcp_shutdown"
  "v_connect (stack_vt sink K up) 0 = tcp_connect K"
  "v_accept (stack_vt sink K up) 0 = tcp_accept"
  by (auto simp: stack_vt_def)

subsection \<open>Facts\<close>

definition tcp_sent :: "('k, 'z) socket_calls_scheme \<Rightarrow> ('k, 'x) tcp_scheme \<Rightarrow> bytes" where
  "tcp_sent K w = obs_sent K (kernel w)"

definition tcp_received :: "('k, 'z) socket_calls_scheme \<Rightarrow> ('k, 'x) tcp_scheme \<Rightarrow> bytes" where
  "tcp_received K w = obs_received K (kernel w)"

lemma socket_ok_send:
  assumes "socket_ok K" and "sc_send K h d k = (r, k')"
  shows "obs_received K k' = obs_received K k"
    and "r = Inl e \<Longrightarrow> obs_sent K k' = obs_sent K k"
    and "r = Inr n \<Longrightarrow> 0 \<le> n \<and> n \<le> int (length d) \<and> obs_sent K k' = obs_sent K k @ take (nat n) d"
  using assms unfolding socket_ok_def by (fastforce split: sum.splits)+

lemma socket_ok_recv:
  assumes "socket_ok K" and "sc_recv K h m k = (r, k')"
  shows "obs_sent K k' = obs_sent K k"
    and "r = Inl e \<Longrightarrow> obs_received K k' = obs_received K k"
    and "r = Inr bs \<Longrightarrow> length bs \<le> m \<and> obs_received K k' = obs_received K k @ bs"
  using assms unfolding socket_ok_def by (fastforce split: sum.splits)+

lemma tcp_out_cases:
  assumes "socket_ok K" and "tcp_out sink K d w = Inr ((r, d'), w')"
  shows "\<exists>n. tcp_sent K w' = tcp_sent K w @ take n d
         \<and> (\<not> should_close_write r \<longrightarrow> opt_bytes d' = drop n d)"
proof -
  obtain ret k' where s: "sc_send K (tcp_handle w) d (kernel w) = (ret, k')" by fastforce
  note ok = socket_ok_send [OF assms(1) s]
  show ?thesis
  proof (cases ret)
    case (Inl e)
    with assms(2) s ok(2) [OF Inl] have "tcp_sent K w' = tcp_sent K w @ take 0 d"
      "\<not> should_close_write r \<longrightarrow> opt_bytes d' = drop 0 d"
      by (auto simp: tcp_out_def tcp_sent_def Let_def split: if_splits)
    then show ?thesis by blast
  next
    case (Inr n)
    with assms(2) s ok(3) [OF Inr] have "tcp_sent K w' = tcp_sent K w @ take (nat n) d"
      "opt_bytes d' = drop (nat n) d"
      by (auto simp: tcp_out_def tcp_sent_def Let_def split: if_splits)
    then show ?thesis by blast
  qed
qed

lemma tcp_out_rest_nonempty:
  assumes "socket_ok K" and "d \<noteq> []" and "tcp_out sink K d w = Inr ((r, d'), w')"
  shows "d' \<noteq> Some []"
proof
  have "1 \<le> length d" using assms(2) by (simp add: Suc_leI)
  moreover assume "d' = Some []"
  ultimately show False
    using assms(2,3) by (auto simp: tcp_out_def Let_def split: prod.splits sum.splits if_splits)
qed

interpretation tcp_chan: out_channel
  "\<lambda>(sink, K). socket_ok K"
  "\<lambda>(sink, K). tcp_out sink K"
  "\<lambda>(sink, K). tcp_sent K"
  by unfold_locales (auto dest: tcp_out_cases tcp_out_rest_nonempty)

lemma tcp_in_arrives:
  assumes "socket_ok K" and "tcp_in K w = Inr (r, w')"
  shows "tcp_received K w' = tcp_received K w @ opt_bytes (in_data r)"
    and "should_close_read r \<Longrightarrow> opt_bytes (in_data r) = []"
proof -
  obtain ret k' where s: "sc_recv K (tcp_handle w) tcp_buf_size (kernel w) = (ret, k')" by fastforce
  note ok = socket_ok_recv [OF assms(1) s]
  show "tcp_received K w' = tcp_received K w @ opt_bytes (in_data r)"
    using assms(2) s ok(2,3)
    by (cases ret) (auto simp: tcp_in_def tcp_received_def Let_def split: if_splits)
  show "should_close_read r \<Longrightarrow> opt_bytes (in_data r) = []"
    using assms(2) s by (cases ret) (auto simp: tcp_in_def Let_def split: if_splits)
qed

interpretation tcp_src: in_channel socket_ok tcp_in tcp_received
  by unfold_locales (auto dest: tcp_in_arrives)

lemma tcp_out_received: "socket_ok K \<Longrightarrow> tcp_out sink K d w = Inr (x, w') \<Longrightarrow> tcp_received K w' = tcp_received K w"
  by (auto simp: tcp_out_def tcp_received_def Let_def socket_ok_send(1)
      split: prod.splits sum.splits if_splits)

lemma tcp_in_sent: "socket_ok K \<Longrightarrow> tcp_in K w = Inr (r, w') \<Longrightarrow> tcp_sent K w' = tcp_sent K w"
  by (auto simp: tcp_in_def tcp_sent_def Let_def socket_ok_recv(1)
      split: prod.splits sum.splits if_splits)

lemma tcp_connect_frame:
  assumes "socket_ok K" and "tcp_connect K w = Inr (r, w')"
  shows "tcp_sent K w' = tcp_sent K w" and "tcp_received K w' = tcp_received K w"
    and "r \<noteq> Connect_pending"
  using assms unfolding socket_ok_def
  by (auto simp: tcp_connect_def tcp_sent_def tcp_received_def Let_def
      split: prod.splits sum.splits option.splits if_splits)

end
