(* ===== verification/Scripted_Kernel.thy ===== *)
theory Scripted_Kernel
  imports Tcp_Filter
begin

text \<open>
  A kernel that follows a script, as an instance of the socket parameter: the answers to
  \<open>recv\<close> and to \<open>send\<close> are lists, an exhausted list answers \<open>EAGAIN\<close>.  It keeps its promises
  (\<open>socket_ok\<close>), so the theorems about every kernel hold of it; the concrete runs of the
  development use it.
\<close>

record script =
  recv_script :: "(errno + bytes) list"
  send_script :: "(errno + nat) list"
  so_script :: "errno option"
  sc_taken :: bytes
  sc_handed :: bytes

fun script_recv :: "fd \<Rightarrow> nat \<Rightarrow> script \<Rightarrow> (errno + bytes) \<times> script" where
  "script_recv h m k =
     (case recv_script k of
        [] \<Rightarrow> (Inl EAGAIN, k)
      | Inl e # rs \<Rightarrow> (Inl e, k\<lparr>recv_script := rs\<rparr>)
      | Inr bs # rs \<Rightarrow>
          (Inr (take m bs), k\<lparr>recv_script := rs, sc_handed := sc_handed k @ take m bs\<rparr>))"

fun script_send :: "fd \<Rightarrow> bytes \<Rightarrow> script \<Rightarrow> (errno + int) \<times> script" where
  "script_send h d k =
     (case send_script k of
        [] \<Rightarrow> (Inl EAGAIN, k)
      | Inl e # rs \<Rightarrow> (Inl e, k\<lparr>send_script := rs\<rparr>)
      | Inr n # rs \<Rightarrow>
          (Inr (int (min n (length d))),
           k\<lparr>send_script := rs, sc_taken := sc_taken k @ take (min n (length d)) d\<rparr>))"

definition scripted :: "script socket_calls" where
  "scripted =
     \<lparr>sc_recv = script_recv, sc_send = script_send, sc_so_error = (\<lambda>h k. (Inr (so_script k), k)),
      obs_sent = sc_taken, obs_received = sc_handed\<rparr>"

definition script_start :: "(errno + bytes) list \<Rightarrow> (errno + nat) list \<Rightarrow> script" where
  "script_start r s =
     \<lparr>recv_script = r, send_script = s, so_script = None, sc_taken = [], sc_handed = []\<rparr>"

lemma scripted_ok: "socket_ok scripted"
  by (auto simp: socket_ok_def scripted_def split: list.splits sum.splits)

end
