(* ===== verification/Stream_Buffer.thy ===== *)
theory Stream_Buffer
  imports Tcp_Filter "HOL-Library.Sublist"
begin

text \<open>
  The class \<open>StreamBuffer\<close> (\<open>include/stream_buffer.h\<close>, \<open>lib/stream_buffer.cc\<close>): the object, its
  public operations, and the event handler with its steps \<open>DoRead\<close>, \<open>DoWrite\<close>, \<open>DoClose\<close>,
  \<open>DoConnect\<close> and \<open>DoFinalize\<close>.  The application's \<open>StreamBufferHandler\<close> is a parameter: each
  callback answers with the calls it makes on the stream buffer.  What the object does to the
  outside is recorded in \<open>trace\<close>, oldest first: its calls on the event (\<open>Ob_ready\<close>,
  \<open>Ob_close_event\<close>, \<open>Ob_modify_event\<close>), on the handler (\<open>Ob_data\<close>, \<open>Ob_connected\<close>, \<open>Ob_eof\<close>), and
  the views that \<open>Write\<close> took over (\<open>Ob_queued\<close>).
\<close>

subsection \<open>State\<close>

datatype mode = SERVER_MODE | CLIENT_MODE

datatype obs =
    Ob_ready mask
  | Ob_close_event
  | Ob_modify_event
  | Ob_data bytes
  | Ob_connected
  | Ob_eof
  | Ob_queued bytes

text \<open>What an application callback may do with the stream buffer.\<close>

datatype action = Act_write bytes | Act_close | Act_add_filter

record 'h app =
  on_data :: "bytes \<Rightarrow> 'h \<Rightarrow> action list \<times> 'h"
  on_connected :: "'h \<Rightarrow> action list \<times> 'h"
  on_eof :: "'h \<Rightarrow> action list \<times> 'h"

record ('w, 'h) sbuf =
  handler_alive :: bool
  stream_filters :: "filt list"
  pending_writes :: "bytes list"
  add_filter_allowed :: bool
  eof_called :: bool
  should_close :: bool
  sb_mode :: mode
  has_event :: bool
  world :: 'w
  app_state :: 'h
  trace :: "obs list"

definition sb_new :: "bool \<Rightarrow> mode \<Rightarrow> 'w \<Rightarrow> 'h \<Rightarrow> ('w, 'h) sbuf" where
  "sb_new alive m w h =
     \<lparr>handler_alive = alive, stream_filters = [], pending_writes = [], add_filter_allowed = True,
      eof_called = False, should_close = False, sb_mode = m, has_event = False,
      world = w, app_state = h, trace = []\<rparr>"

definition emit :: "obs \<Rightarrow> ('w, 'h) sbuf \<Rightarrow> ('w, 'h) sbuf" where
  "emit x s = s\<lparr>trace := trace s @ [x]\<rparr>"

definition set_filter :: "nat \<Rightarrow> filt \<Rightarrow> ('w, 'h) sbuf \<Rightarrow> ('w, 'h) sbuf" where
  "set_filter i f s = s\<lparr>stream_filters := (stream_filters s)[i := f]\<rparr>"

definition top_ix :: "('w, 'h) sbuf \<Rightarrow> nat" where
  "top_ix s = length (stream_filters s) - 1"

abbreviation top_filter :: "('w, 'h) sbuf \<Rightarrow> filt" where
  "top_filter s \<equiv> stream_filters s ! top_ix s"

text \<open>The protected calls of \<open>EventHandler\<close>: nothing happens before the object is attached.\<close>

definition ready_event :: "mask \<Rightarrow> ('w, 'h) sbuf \<Rightarrow> ('w, 'h) sbuf" where
  "ready_event m s = (if has_event s then emit (Ob_ready m) s else s)"

definition close_event :: "('w, 'h) sbuf \<Rightarrow> ('w, 'h) sbuf" where
  "close_event s = (if has_event s then emit Ob_close_event s else s)"

definition modify_event :: "('w, 'h) sbuf \<Rightarrow> ('w, 'h) sbuf" where
  "modify_event s = (if has_event s then emit Ob_modify_event s else s)"

subsection \<open>Public operations\<close>

definition sb_add_filter :: "filt \<Rightarrow> ('w, 'h) sbuf \<Rightarrow> exn + ('w, 'h) sbuf" where
  "sb_add_filter f s =
     (if \<not> add_filter_allowed s then Inl (Thrown ''filter added when it is not allowed'')
      else
        let fs = stream_filters s; n = length fs
        in if fs \<noteq> []
           then let prev = last fs
                in Inr (s\<lparr>add_filter_allowed := False,
                          stream_filters := butlast fs @ [prev\<lparr>next_ix := Some n\<rparr>,
                            f\<lparr>prev_ix := Some (n - 1), order_no := order_no prev + 1\<rparr>]\<rparr>)
           else Inr (s\<lparr>add_filter_allowed := False, stream_filters := [f\<lparr>order_no := 0\<rparr>]\<rparr>))"

definition sb_write :: "bytes \<Rightarrow> ('w, 'h) sbuf \<Rightarrow> ('w, 'h) sbuf" where
  "sb_write d s =
     (if length d = 0 then s
      else if should_close s then s
      else
        let send_write_ready = (pending_writes s = []);
            s = emit (Ob_queued d) (s\<lparr>pending_writes := pending_writes s @ [d]\<rparr>)
        in if send_write_ready then ready_event Ev_Write s else s)"

definition sb_close :: "('w, 'h) sbuf \<Rightarrow> ('w, 'h) sbuf" where
  "sb_close s = ready_event Ev_Close (s\<lparr>should_close := True\<rparr>)"

fun run_action :: "action \<Rightarrow> ('w, 'h) sbuf \<Rightarrow> exn + ('w, 'h) sbuf" where
  "run_action (Act_write d) s = Inr (sb_write d s)"
| "run_action Act_close s = Inr (sb_close s)"
| "run_action Act_add_filter s = sb_add_filter new_filter s"

fun run_actions :: "action list \<Rightarrow> ('w, 'h) sbuf \<Rightarrow> exn + ('w, 'h) sbuf" where
  "run_actions [] s = Inr s"
| "run_actions (a # as) s = bindE (run_action a s) (run_actions as)"

text \<open>A callback: it is recorded, the application's state moves on, its calls are carried out.\<close>

definition callback ::
  "obs \<Rightarrow> ('h \<Rightarrow> action list \<times> 'h) \<Rightarrow> ('w, 'h) sbuf \<Rightarrow> exn + ('w, 'h) sbuf" where
  "callback ob f s =
     (let (as, h') = f (app_state s) in run_actions as (emit ob (s\<lparr>app_state := h'\<rparr>)))"

definition sb_create :: "bool \<Rightarrow> mode \<Rightarrow> 'w \<Rightarrow> 'h \<Rightarrow> exn + ('w, 'h) sbuf" where
  "sb_create alive m w h = sb_add_filter new_filter (sb_new alive m w h)"

text \<open>
  \<open>CreateForServer\<close> and the first \<open>CreateForClient\<close> get a connected handle; the second
  \<open>CreateForClient\<close> gets the handle and the flag of \<open>Handle::CreateStreamHandle\<close>.
\<close>

definition create_for_server :: "bool \<Rightarrow> fd \<Rightarrow> 'k \<Rightarrow> 'h \<Rightarrow> exn + ('k tcp, 'h) sbuf" where
  "create_for_server alive h k a =
     sb_create alive SERVER_MODE (tcp_create h True k) a"

definition create_for_client :: "bool \<Rightarrow> fd \<Rightarrow> 'k \<Rightarrow> 'h \<Rightarrow> exn + ('k tcp, 'h) sbuf" where
  "create_for_client alive h k a =
     sb_create alive CLIENT_MODE (tcp_create h True k) a"

definition create_for_client_addr ::
  "bool \<Rightarrow> fd \<times> bool \<Rightarrow> 'k \<Rightarrow> 'h \<Rightarrow> exn + ('k tcp, 'h) sbuf" where
  "create_for_client_addr alive hc k a =
     (let (h, is_connected) = hc
      in sb_create alive CLIENT_MODE (tcp_create h is_connected k) a)"

subsection \<open>The state queries\<close>

definition is_connected :: "('w, 'h) sbuf \<Rightarrow> bool" where
  "is_connected s \<longleftrightarrow> connected (top_filter s)"

fun all_read_closed :: "filt list \<Rightarrow> bool" where
  "all_read_closed [] = True"
| "all_read_closed (f # fs) = (if \<not> read_closed f then False else all_read_closed fs)"

fun all_write_closed :: "filt list \<Rightarrow> bool" where
  "all_write_closed [] = True"
| "all_write_closed (f # fs) = (if \<not> write_closed f then False else all_write_closed fs)"

definition is_read_closed :: "('w, 'h) sbuf \<Rightarrow> bool" where
  "is_read_closed s = all_read_closed (rev (stream_filters s))"

definition is_write_closed :: "('w, 'h) sbuf \<Rightarrow> bool" where
  "is_write_closed s = all_write_closed (stream_filters s)"

definition sb_get_events :: "('w, 'h) sbuf \<Rightarrow> mask" where
  "sb_get_events s = filter_get_events (top_filter s)"

subsection \<open>The steps of the event handler\<close>

text \<open>Lifting the functions of the filter at position \<open>i\<close> to the object.\<close>

definition on_filter ::
  "nat \<Rightarrow> (filt \<Rightarrow> 'w \<Rightarrow> exn + filt \<times> 'w) \<Rightarrow> ('w, 'h) sbuf \<Rightarrow> exn + ('w, 'h) sbuf" where
  "on_filter i g s =
     bindE (g (stream_filters s ! i) (world s)) (\<lambda>(f, w). Inr (set_filter i f (s\<lparr>world := w\<rparr>)))"

definition filter_in ::
  "'w vtable \<Rightarrow> nat \<Rightarrow> ('w, 'h) sbuf \<Rightarrow> exn + in_result \<times> ('w, 'h) sbuf" where
  "filter_in vt i s = bindE (v_in vt i (world s)) (\<lambda>(r, w). Inr (r, s\<lparr>world := w\<rparr>))"

definition handle_data :: "'h app \<Rightarrow> bytes \<Rightarrow> ('w, 'h) sbuf \<Rightarrow> exn + ('w, 'h) sbuf" where
  "handle_data app d s =
     (if \<not> handler_alive s then Inr s else callback (Ob_data d) (on_data app d) s)"

definition do_read :: "'w vtable \<Rightarrow> 'h app \<Rightarrow> ('w, 'h) sbuf \<Rightarrow> (exn + ('w, 'h) sbuf) option" where
  "do_read vt app s =
     (let i = top_ix s
      in if read_closed (stream_filters s ! i) then Some (Inr s)
         else map_option
           (\<lambda>res. bindE res (\<lambda>(close, s').
              Inr (if close then set_filter i ((stream_filters s' ! i)\<lparr>read_closed := True\<rparr>) s' else s')))
           (read_loop (filter_in vt i) (handle_data app) s))"

definition do_write :: "'w vtable \<Rightarrow> ('w, 'h) sbuf \<Rightarrow> exn + ('w, 'h) sbuf" where
  "do_write vt s =
     (let i = top_ix s
      in if write_closed (stream_filters s ! i) then Inr s
         else
           let swap = pending_writes s; s = s\<lparr>pending_writes := []\<rparr>
           in if swap \<noteq> [] then on_filter i (filter_write vt i swap) s else Inr s)"

text \<open>The loop of \<open>DoClose\<close>, from the top filter down, over the lowest \<open>n\<close> positions.\<close>

fun close_down :: "'w vtable \<Rightarrow> nat \<Rightarrow> ('w, 'h) sbuf \<Rightarrow> exn + ('w, 'h) sbuf" where
  "close_down vt 0 s = Inr s"
| "close_down vt (Suc i) s =
     bindE
       (if \<not> filter_closed (stream_filters s ! i) then on_filter i (filter_close vt i) s else Inr s)
       (\<lambda>s'. if \<not> filter_closed (stream_filters s' ! i) then Inr s' else close_down vt i s')"

definition do_close :: "'w vtable \<Rightarrow> ('w, 'h) sbuf \<Rightarrow> exn + ('w, 'h) sbuf" where
  "do_close vt s =
     (let should_flush = list_all (\<lambda>f. \<not> write_closed f) (stream_filters s)
      in bindE (if should_flush then do_write vt s else Inr s)
           (\<lambda>s. close_down vt (length (stream_filters s)) s))"

definition do_connect :: "'w vtable \<Rightarrow> 'h app \<Rightarrow> ('w, 'h) sbuf \<Rightarrow> exn + ('w, 'h) sbuf" where
  "do_connect vt app s =
     (let i = top_ix s
      in bindE (if sb_mode s = CLIENT_MODE then v_connect vt i (world s) else v_accept vt i (world s))
        (\<lambda>(r, w).
          let s = s\<lparr>world := w\<rparr>; f = stream_filters s ! i
          in case r of
               Connect_failed \<Rightarrow> Inr (set_filter i (f\<lparr>read_closed := True, write_closed := True\<rparr>) s)
             | Connect_success \<Rightarrow>
                 bindE
                   (callback Ob_connected (on_connected app)
                      ((set_filter i (f\<lparr>connected := True\<rparr>) s)\<lparr>add_filter_allowed := True\<rparr>))
                   (\<lambda>s. Inr (modify_event (s\<lparr>add_filter_allowed := False\<rparr>)))
             | Connect_pending \<Rightarrow> Inr s))"

definition do_finalize :: "'w vtable \<Rightarrow> 'h app \<Rightarrow> ('w, 'h) sbuf \<Rightarrow> exn + ('w, 'h) sbuf" where
  "do_finalize vt app s =
     bindE
       (if \<not> should_close s \<and> read_closed (top_filter s)
        then do_close vt (s\<lparr>should_close := True\<rparr>) else Inr s)
       (\<lambda>s. if is_read_closed s \<and> is_write_closed s
            then (if \<not> eof_called s
                  then bindE (callback Ob_eof (on_eof app) (s\<lparr>eof_called := True\<rparr>))
                         (\<lambda>s. Inr (close_event s))
                  else Inr s)
            else Inr s)"

text \<open>\<open>HandleEvents\<close>: \<open>None\<close> is a call that does not return (an endless read).\<close>

definition handle_events ::
  "'w vtable \<Rightarrow> 'h app \<Rightarrow> ('w, 'h) sbuf \<Rightarrow> (exn + ('w, 'h) sbuf) option" where
  "handle_events vt app s =
     (if \<not> handler_alive s then Some (Inr (close_event s))
      else if should_close s
      then Some (bindE (do_close vt s) (do_finalize vt app))
      else if \<not> is_connected s
      then Some (bindE (do_connect vt app s) (do_finalize vt app))
      else map_option
        (\<lambda>res. bindE res (\<lambda>s. bindE (do_write vt s) (do_finalize vt app)))
        (do_read vt app s))"

end
