(* ===== verification/Stream_Buffer_Facts.thy ===== *)
theory Stream_Buffer_Facts
  imports Stream_Buffer
begin

text \<open>
  What every operation of a stream buffer preserves: the order in which its flags can change
  (\<open>evolves\<close>), the shape of the filter chain, the single end-of-file callback.
\<close>

subsection \<open>Projections\<close>

lemma emit_simps [simp]:
  "handler_alive (emit x s) = handler_alive s" "stream_filters (emit x s) = stream_filters s"
  "pending_writes (emit x s) = pending_writes s" "add_filter_allowed (emit x s) = add_filter_allowed s"
  "eof_called (emit x s) = eof_called s" "should_close (emit x s) = should_close s"
  "sb_mode (emit x s) = sb_mode s" "has_event (emit x s) = has_event s" "world (emit x s) = world s"
  "app_state (emit x s) = app_state s" "trace (emit x s) = trace s @ [x]"
  by (simp_all add: emit_def)

lemma set_filter_simps [simp]:
  "handler_alive (set_filter i f s) = handler_alive s"
  "stream_filters (set_filter i f s) = (stream_filters s)[i := f]"
  "pending_writes (set_filter i f s) = pending_writes s"
  "add_filter_allowed (set_filter i f s) = add_filter_allowed s"
  "eof_called (set_filter i f s) = eof_called s" "should_close (set_filter i f s) = should_close s"
  "sb_mode (set_filter i f s) = sb_mode s" "has_event (set_filter i f s) = has_event s"
  "world (set_filter i f s) = world s" "app_state (set_filter i f s) = app_state s"
  "trace (set_filter i f s) = trace s"
  by (simp_all add: set_filter_def)

lemma ev_call_simps [simp]:
  "handler_alive (ready_event m s) = handler_alive s" "stream_filters (ready_event m s) = stream_filters s"
  "pending_writes (ready_event m s) = pending_writes s"
  "add_filter_allowed (ready_event m s) = add_filter_allowed s"
  "eof_called (ready_event m s) = eof_called s" "should_close (ready_event m s) = should_close s"
  "sb_mode (ready_event m s) = sb_mode s" "has_event (ready_event m s) = has_event s"
  "world (ready_event m s) = world s" "app_state (ready_event m s) = app_state s"
  "handler_alive (close_event s) = handler_alive s" "stream_filters (close_event s) = stream_filters s"
  "pending_writes (close_event s) = pending_writes s"
  "add_filter_allowed (close_event s) = add_filter_allowed s"
  "eof_called (close_event s) = eof_called s" "should_close (close_event s) = should_close s"
  "sb_mode (close_event s) = sb_mode s" "has_event (close_event s) = has_event s"
  "world (close_event s) = world s" "app_state (close_event s) = app_state s"
  "handler_alive (modify_event s) = handler_alive s" "stream_filters (modify_event s) = stream_filters s"
  "pending_writes (modify_event s) = pending_writes s"
  "add_filter_allowed (modify_event s) = add_filter_allowed s"
  "eof_called (modify_event s) = eof_called s" "should_close (modify_event s) = should_close s"
  "sb_mode (modify_event s) = sb_mode s" "has_event (modify_event s) = has_event s"
  "world (modify_event s) = world s" "app_state (modify_event s) = app_state s"
  by (simp_all add: ready_event_def close_event_def modify_event_def)

lemma ev_call_trace:
  "trace (ready_event m s) = trace s @ (if has_event s then [Ob_ready m] else [])"
  "trace (close_event s) = trace s @ (if has_event s then [Ob_close_event] else [])"
  "trace (modify_event s) = trace s @ (if has_event s then [Ob_modify_event] else [])"
  by (simp_all add: ready_event_def close_event_def modify_event_def)

lemma top_ix_less [simp]: "stream_filters s \<noteq> [] \<Longrightarrow> top_ix s < length (stream_filters s)"
  by (simp add: top_ix_def)

lemma top_ix_cong: "length (stream_filters t) = length (stream_filters s) \<Longrightarrow> top_ix t = top_ix s"
  by (simp add: top_ix_def)

lemma is_read_closed_iff: "is_read_closed s \<longleftrightarrow> list_all read_closed (stream_filters s)"
proof -
  have "all_read_closed fs \<longleftrightarrow> list_all read_closed fs" for fs
    by (induction fs) auto
  then show ?thesis by (simp add: is_read_closed_def list_all_iff)
qed

lemma is_write_closed_iff: "is_write_closed s \<longleftrightarrow> list_all write_closed (stream_filters s)"
proof -
  have "all_write_closed fs \<longleftrightarrow> list_all write_closed fs" for fs
    by (induction fs) auto
  then show ?thesis by (simp add: is_write_closed_def)
qed

subsection \<open>Evolution: what no step ever undoes\<close>

definition filt_le :: "filt \<Rightarrow> filt \<Rightarrow> bool" where
  "filt_le f g \<longleftrightarrow>
     (connected f \<longrightarrow> connected g) \<and> (read_closed f \<longrightarrow> read_closed g)
   \<and> (write_closed f \<longrightarrow> write_closed g) \<and> order_no g = order_no f \<and> prev_ix g = prev_ix f"

definition evolves :: "('w, 'h) sbuf \<Rightarrow> ('w, 'h) sbuf \<Rightarrow> bool" where
  "evolves s t \<longleftrightarrow>
     length (stream_filters s) \<le> length (stream_filters t)
   \<and> (\<forall>i < length (stream_filters s). filt_le (stream_filters s ! i) (stream_filters t ! i))
   \<and> (eof_called s \<longrightarrow> eof_called t) \<and> (should_close s \<longrightarrow> should_close t)
   \<and> prefix (trace s) (trace t)
   \<and> handler_alive t = handler_alive s \<and> has_event t = has_event s \<and> sb_mode t = sb_mode s"

lemma filt_le_refl [simp, intro!]: "filt_le f f"
  by (simp add: filt_le_def)

lemma filt_le_trans: "filt_le f g \<Longrightarrow> filt_le g h \<Longrightarrow> filt_le f h"
  by (simp add: filt_le_def)

lemma evolves_refl [simp, intro!]: "evolves s s"
  by (simp add: evolves_def)

lemma evolves_trans [trans]: "evolves s t \<Longrightarrow> evolves t u \<Longrightarrow> evolves s u"
  unfolding evolves_def by (auto intro: filt_le_trans)

lemma evolves_set_filter:
  assumes "filt_le (stream_filters s ! i) f"
  shows "evolves s (set_filter i f s)"
proof -
  have "filt_le (stream_filters s ! j) ((stream_filters s)[i := f] ! j)"
    if "j < length (stream_filters s)" for j
    using assms that by (cases "j = i") auto
  then show ?thesis by (simp add: evolves_def)
qed

lemma evolves_same:
  "stream_filters t = stream_filters s \<Longrightarrow> (eof_called s \<Longrightarrow> eof_called t) \<Longrightarrow>
   (should_close s \<Longrightarrow> should_close t) \<Longrightarrow> prefix (trace s) (trace t) \<Longrightarrow>
   handler_alive t = handler_alive s \<Longrightarrow> has_event t = has_event s \<Longrightarrow> sb_mode t = sb_mode s \<Longrightarrow>
   evolves s t"
  by (auto simp: evolves_def)

lemma evolves_ev_calls [intro]:
  "evolves s (ready_event m s)" "evolves s (close_event s)" "evolves s (modify_event s)" "evolves s (emit x s)"
  by (rule evolves_same, simp_all add: ev_call_trace)+

lemma sb_write_simps [simp]:
  "handler_alive (sb_write d s) = handler_alive s" "stream_filters (sb_write d s) = stream_filters s"
  "add_filter_allowed (sb_write d s) = add_filter_allowed s"
  "eof_called (sb_write d s) = eof_called s" "should_close (sb_write d s) = should_close s"
  "sb_mode (sb_write d s) = sb_mode s" "has_event (sb_write d s) = has_event s"
  "world (sb_write d s) = world s" "app_state (sb_write d s) = app_state s"
  by (simp_all add: sb_write_def Let_def)

lemma sb_write_pending:
  "pending_writes (sb_write d s) =
     (if d = [] \<or> should_close s then pending_writes s else pending_writes s @ [d])"
  by (simp add: sb_write_def Let_def)

lemma sb_write_trace:
  "trace (sb_write d s) =
     (if d = [] \<or> should_close s then trace s
      else trace s @ Ob_queued d # (if pending_writes s = [] \<and> has_event s then [Ob_ready Ev_Write] else []))"
  by (simp add: sb_write_def Let_def ev_call_trace)

lemma sb_close_simps [simp]:
  "handler_alive (sb_close s) = handler_alive s" "stream_filters (sb_close s) = stream_filters s"
  "pending_writes (sb_close s) = pending_writes s"
  "add_filter_allowed (sb_close s) = add_filter_allowed s"
  "eof_called (sb_close s) = eof_called s" "should_close (sb_close s)"
  "sb_mode (sb_close s) = sb_mode s" "has_event (sb_close s) = has_event s"
  "world (sb_close s) = world s" "app_state (sb_close s) = app_state s"
  "trace (sb_close s) = trace s @ (if has_event s then [Ob_ready Ev_Close] else [])"
  by (simp_all add: sb_close_def ev_call_trace)

lemma sb_write_evolves: "evolves s (sb_write d s)"
  by (rule evolves_same) (simp_all add: sb_write_trace)

lemma sb_close_evolves: "evolves s (sb_close s)"
  by (rule evolves_same) simp_all

lemma sb_add_filter_evolves:
  assumes "sb_add_filter f s = Inr t"
  shows "evolves s t"
proof (cases "stream_filters s" rule: rev_cases)
  case Nil
  with assms show ?thesis by (auto simp: sb_add_filter_def evolves_def split: if_splits)
next
  case (snoc fs g)
  with assms show ?thesis
    by (auto simp: sb_add_filter_def evolves_def nth_append filt_le_def less_Suc_eq split: if_splits)
qed

lemma run_action_evolves: "run_action a s = Inr t \<Longrightarrow> evolves s t"
  by (cases a) (auto intro: sb_write_evolves sb_close_evolves sb_add_filter_evolves)

lemma run_actions_evolves: "run_actions as s = Inr t \<Longrightarrow> evolves s t"
  by (induction as arbitrary: s) (auto intro: evolves_trans dest: run_action_evolves)

lemma callback_evolves:
  assumes "callback ob f s = Inr t"
  shows "evolves s t"
proof -
  obtain as h where "f (app_state s) = (as, h)" by fastforce
  with assms have "run_actions as (emit ob (s\<lparr>app_state := h\<rparr>)) = Inr t" by (simp add: callback_def)
  from run_actions_evolves [OF this] show ?thesis
    by (rule evolves_trans [rotated]) (rule evolves_same, simp_all)
qed

lemma on_filter_evolves:
  assumes "on_filter i g s = Inr t"
    and "\<And>w f w'. g (stream_filters s ! i) w = Inr (f, w') \<Longrightarrow> filt_le (stream_filters s ! i) f"
  shows "evolves s t"
proof -
  from assms(1) obtain f w where g: "g (stream_filters s ! i) (world s) = Inr (f, w)"
    and t: "t = set_filter i f (s\<lparr>world := w\<rparr>)" by (auto simp: on_filter_def)
  have "evolves s (s\<lparr>world := w\<rparr>)" by (rule evolves_same) simp_all
  also have "evolves (s\<lparr>world := w\<rparr>) t"
    unfolding t by (rule evolves_set_filter) (simp add: assms(2) [OF g])
  finally show ?thesis .
qed

lemma filter_write_le: "filter_write vt i ds f w = Inr (g, w') \<Longrightarrow> filt_le f g"
  by (auto simp: filter_write_def filt_le_def)

lemma filter_shutdown_le: "filter_shutdown vt i f w = Inr (g, w') \<Longrightarrow> filt_le f g"
  by (auto simp: filter_shutdown_def filt_le_def)

lemma filter_close_le:
  assumes "filter_close vt i f w = Inr (g, w')"
  shows "filt_le f g"
proof (cases "pending_out f = [] \<or> write_closed f")
  case True
  with assms show ?thesis by (auto simp: filter_close_def intro: filter_shutdown_le)
next
  case False
  with assms obtain c rest w1 where
    "(if rest = [] \<or> write_closed f \<or> c
      then filter_shutdown vt i (f\<lparr>write_closed := write_closed f \<or> c, pending_out := rest\<rparr>) w1
      else Inr (f\<lparr>write_closed := write_closed f \<or> c, pending_out := rest\<rparr>, w1)) = Inr (g, w')"
    by (auto simp: filter_close_def Let_def)
  moreover have "filt_le f (f\<lparr>write_closed := write_closed f \<or> c, pending_out := rest\<rparr>)"
    by (simp add: filt_le_def)
  ultimately show ?thesis by (auto split: if_splits dest: filter_shutdown_le intro: filt_le_trans)
qed


lemma handle_data_evolves: "handle_data app d s = Inr t \<Longrightarrow> evolves s t"
  by (auto simp: handle_data_def split: if_splits intro: callback_evolves)

lemma world_evolves: "evolves s (s\<lparr>world := w\<rparr>)"
  by (rule evolves_same) simp_all

lemma pending_evolves: "evolves s (s\<lparr>pending_writes := ds\<rparr>)"
  by (rule evolves_same) simp_all

lemma filter_in_evolves: "filter_in vt i s = Inr (r, t) \<Longrightarrow> evolves s t"
  by (auto simp: filter_in_def intro: world_evolves)

lemma read_loop_evolves:
  assumes "read_loop (filter_in vt i) (handle_data app) s = Some (Inr (c, t))"
  shows "evolves s t"
  by (rule read_loop_rule [OF assms, where P = "\<lambda>t. evolves s t" and Q = "\<lambda>_ t. evolves s t"])
     (auto intro: evolves_trans dest: filter_in_evolves handle_data_evolves)

subsection \<open>Case analysis of the steps\<close>

lemma do_read_elim:
  assumes "do_read vt app s = Some (Inr t)"
  obtains (closed) "read_closed (top_filter s)" "t = s"
  | (read) c u where "\<not> read_closed (top_filter s)"
      "read_loop (filter_in vt (top_ix s)) (handle_data app) s = Some (Inr (c, u))"
      "t = (if c then set_filter (top_ix s) ((stream_filters u ! top_ix s)\<lparr>read_closed := True\<rparr>) u else u)"
proof (cases "read_closed (top_filter s)")
  case True
  with assms show ?thesis by (simp add: do_read_def closed)
next
  case False
  with assms obtain x where
    x: "read_loop (filter_in vt (top_ix s)) (handle_data app) s = Some x"
    and b: "bindE x (\<lambda>(close, s').
              Inr (if close then set_filter (top_ix s) ((stream_filters s' ! top_ix s)\<lparr>read_closed := True\<rparr>) s' else s'))
            = Inr t"
    by (auto simp: do_read_def Let_def simp del: bindE_eq_Inr)
  from b obtain c u where "x = Inr (c, u)"
    "t = (if c then set_filter (top_ix s) ((stream_filters u ! top_ix s)\<lparr>read_closed := True\<rparr>) u else u)"
    by auto
  with False x show ?thesis by (auto intro: read)
qed

lemma pending_writes_nil:
  assumes "pending_writes s = []"
  shows "s\<lparr>pending_writes := []\<rparr> = s"
proof -
  have "s\<lparr>pending_writes := pending_writes s\<rparr> = s" by simp
  then show ?thesis unfolding assms .
qed

lemma do_write_elim:
  assumes "do_write vt s = Inr t"
  obtains (closed) "write_closed (top_filter s)" "t = s"
  | (nothing) "\<not> write_closed (top_filter s)" "pending_writes s = []" "t = s"
  | (writing) f w where "\<not> write_closed (top_filter s)" "pending_writes s \<noteq> []"
      "filter_write vt (top_ix s) (pending_writes s) (top_filter s) (world s) = Inr (f, w)"
      "t = set_filter (top_ix s) f (s\<lparr>pending_writes := [], world := w\<rparr>)"
proof (cases "write_closed (top_filter s)")
  case True
  from assms True have "t = s" by (simp add: do_write_def)
  with True show ?thesis by (rule closed)
next
  case False
  show ?thesis
  proof (cases "pending_writes s = []")
    case True
    then have id: "s\<lparr>pending_writes := []\<rparr> = s" by (rule pending_writes_nil)
    from assms False True have "t = s\<lparr>pending_writes := []\<rparr>" by (simp add: do_write_def Let_def)
    then have "t = s" unfolding id .
    with False True show ?thesis by (rule nothing)
  next
    case nonempty: False
    with assms False obtain f w where
      "filter_write vt (top_ix s) (pending_writes s) (top_filter s) (world s) = Inr (f, w)"
      "t = set_filter (top_ix s) f (s\<lparr>pending_writes := [], world := w\<rparr>)"
      by (auto simp: do_write_def on_filter_def Let_def)
    with False nonempty show ?thesis by (rule writing)
  qed
qed

lemma do_connect_elim:
  assumes "do_connect vt app s = Inr t"
  obtains (pending) w where "t = s\<lparr>world := w\<rparr>"
      "(if sb_mode s = CLIENT_MODE then v_connect vt (top_ix s) (world s)
        else v_accept vt (top_ix s) (world s)) = Inr (Connect_pending, w)"
  | (failed) w where
      "t = set_filter (top_ix s) ((top_filter s)\<lparr>read_closed := True, write_closed := True\<rparr>) (s\<lparr>world := w\<rparr>)"
      "(if sb_mode s = CLIENT_MODE then v_connect vt (top_ix s) (world s)
        else v_accept vt (top_ix s) (world s)) = Inr (Connect_failed, w)"
  | (success) w v where
      "callback Ob_connected (on_connected app)
         (set_filter (top_ix s) ((top_filter s)\<lparr>connected := True\<rparr>)
            (s\<lparr>world := w, add_filter_allowed := True\<rparr>)) = Inr v"
      "t = modify_event (v\<lparr>add_filter_allowed := False\<rparr>)"
      "(if sb_mode s = CLIENT_MODE then v_connect vt (top_ix s) (world s)
        else v_accept vt (top_ix s) (world s)) = Inr (Connect_success, w)"
proof -
  from assms obtain r w where
    r: "(if sb_mode s = CLIENT_MODE then v_connect vt (top_ix s) (world s)
         else v_accept vt (top_ix s) (world s)) = Inr (r, w)"
    by (cases "if sb_mode s = CLIENT_MODE then v_connect vt (top_ix s) (world s)
        else v_accept vt (top_ix s) (world s)") (auto simp: do_connect_def Let_def)
  have comm: "(set_filter i f u)\<lparr>add_filter_allowed := b\<rparr> = set_filter i f (u\<lparr>add_filter_allowed := b\<rparr>)"
    for i f b and u :: "('a, 'b) sbuf"
    by (simp add: set_filter_def)
  show ?thesis
    using assms r pending failed success
    by (cases r) (auto simp: do_connect_def Let_def comm)
qed

lemma do_finalize_elim:
  assumes "do_finalize vt app s = Inr t"
  obtains u where
    "(if \<not> should_close s \<and> read_closed (top_filter s)
      then do_close vt (s\<lparr>should_close := True\<rparr>) else Inr s) = Inr u"
    "if is_read_closed u \<and> is_write_closed u \<and> \<not> eof_called u
     then \<exists>v. callback Ob_eof (on_eof app) (u\<lparr>eof_called := True\<rparr>) = Inr v \<and> t = close_event v
     else t = u"
proof -
  from assms obtain u where u: "(if \<not> should_close s \<and> read_closed (top_filter s)
        then do_close vt (s\<lparr>should_close := True\<rparr>) else Inr s) = Inr u"
    by (cases "if \<not> should_close s \<and> read_closed (top_filter s)
        then do_close vt (s\<lparr>should_close := True\<rparr>) else Inr s") (simp_all add: do_finalize_def)
  with assms show ?thesis
    by (intro that [OF u]) (auto simp: do_finalize_def split: if_splits)
qed

lemma handle_events_elim:
  assumes "handle_events vt app s = Some (Inr t)"
  obtains (dead) "\<not> handler_alive s" "t = close_event s"
  | (closing) u where "handler_alive s" "should_close s" "do_close vt s = Inr u" "do_finalize vt app u = Inr t"
  | (connecting) u where "handler_alive s" "\<not> should_close s" "\<not> is_connected s"
      "do_connect vt app s = Inr u" "do_finalize vt app u = Inr t"
  | (open_io) u v where "handler_alive s" "\<not> should_close s" "is_connected s"
      "do_read vt app s = Some (Inr u)" "do_write vt u = Inr v" "do_finalize vt app v = Inr t"
proof -
  have o: thesis if "handler_alive s" "\<not> should_close s" "is_connected s"
      "map_option (\<lambda>res. bindE res (\<lambda>s. bindE (do_write vt s) (do_finalize vt app))) (do_read vt app s)
        = Some (Inr t)"
    using that open_io by (auto simp: map_option_case split: option.splits)
  show ?thesis
    using assms dead closing connecting o
    by (auto simp: handle_events_def split: if_splits simp del: map_option_eq_Some)
qed

subsection \<open>Every step evolves\<close>

lemma do_read_evolves: "do_read vt app s = Some (Inr t) \<Longrightarrow> evolves s t"
proof (erule do_read_elim)
  fix c u
  assume "read_loop (filter_in vt (top_ix s)) (handle_data app) s = Some (Inr (c, u))"
    and t: "t = (if c then set_filter (top_ix s) ((stream_filters u ! top_ix s)\<lparr>read_closed := True\<rparr>) u else u)"
  then have "evolves s u" by (intro read_loop_evolves)
  also have "evolves u t" unfolding t by (auto intro!: evolves_set_filter simp: filt_le_def)
  finally show "evolves s t" .
qed simp

lemma do_write_evolves: "do_write vt s = Inr t \<Longrightarrow> evolves s t"
proof (erule do_write_elim)
  fix f w
  assume f: "filter_write vt (top_ix s) (pending_writes s) (top_filter s) (world s) = Inr (f, w)"
    and t: "t = set_filter (top_ix s) f (s\<lparr>pending_writes := [], world := w\<rparr>)"
  have "evolves s (s\<lparr>pending_writes := [], world := w\<rparr>)" by (rule evolves_same) simp_all
  also have "evolves (s\<lparr>pending_writes := [], world := w\<rparr>) t"
    unfolding t by (rule evolves_set_filter) (use filter_write_le [OF f] in simp)
  finally show "evolves s t" .
qed simp_all

lemma close_down_evolves: "close_down vt n s = Inr t \<Longrightarrow> evolves s t"
proof (induction n arbitrary: s)
  case 0
  then show ?case by simp
next
  case (Suc i)
  then obtain u where u: "(if \<not> filter_closed (stream_filters s ! i)
       then on_filter i (filter_close vt i) s else Inr s) = Inr u"
    and t: "(if \<not> filter_closed (stream_filters u ! i) then Inr u else close_down vt i u) = Inr t"
    by auto
  have "evolves s u"
    using u by (auto split: if_splits intro: on_filter_evolves dest: filter_close_le)
  moreover have "evolves u t" using t Suc.IH by (auto split: if_splits)
  ultimately show ?case by (rule evolves_trans)
qed

lemma do_close_evolves: "do_close vt s = Inr t \<Longrightarrow> evolves s t"
  by (auto simp: do_close_def split: if_splits intro: evolves_trans
      dest: do_write_evolves close_down_evolves)

lemma do_connect_evolves: "do_connect vt app s = Inr t \<Longrightarrow> evolves s t"
proof (erule do_connect_elim)
  fix w
  assume "t = s\<lparr>world := w\<rparr>"
  then show "evolves s t" by (simp add: world_evolves)
next
  fix w
  assume t: "t = set_filter (top_ix s) ((top_filter s)\<lparr>read_closed := True, write_closed := True\<rparr>) (s\<lparr>world := w\<rparr>)"
  show "evolves s t"
    unfolding t by (rule evolves_trans [OF world_evolves evolves_set_filter]) (simp add: filt_le_def)
next
  fix w v
  let ?u = "set_filter (top_ix s) ((top_filter s)\<lparr>connected := True\<rparr>)
      (s\<lparr>world := w, add_filter_allowed := True\<rparr>)"
  assume v: "callback Ob_connected (on_connected app) ?u = Inr v"
    and t: "t = modify_event (v\<lparr>add_filter_allowed := False\<rparr>)"
  have "evolves s (s\<lparr>world := w, add_filter_allowed := True\<rparr>)" by (rule evolves_same) simp_all
  also have "evolves (s\<lparr>world := w, add_filter_allowed := True\<rparr>) ?u"
    by (rule evolves_set_filter) (simp add: filt_le_def)
  also have "evolves ?u v" using v by (rule callback_evolves)
  also have "evolves v (v\<lparr>add_filter_allowed := False\<rparr>)" by (rule evolves_same) simp_all
  also have "evolves (v\<lparr>add_filter_allowed := False\<rparr>) t" unfolding t by blast
  finally show "evolves s t" .
qed

lemma do_finalize_evolves: "do_finalize vt app s = Inr t \<Longrightarrow> evolves s t"
proof (erule do_finalize_elim)
  fix u
  assume u: "(if \<not> should_close s \<and> read_closed (top_filter s)
      then do_close vt (s\<lparr>should_close := True\<rparr>) else Inr s) = Inr u"
    and t: "if is_read_closed u \<and> is_write_closed u \<and> \<not> eof_called u
     then \<exists>v. callback Ob_eof (on_eof app) (u\<lparr>eof_called := True\<rparr>) = Inr v \<and> t = close_event v
     else t = u"
  have "evolves s (s\<lparr>should_close := True\<rparr>)" by (rule evolves_same) simp_all
  with u have "evolves s u" by (auto split: if_splits dest: do_close_evolves intro: evolves_trans)
  moreover have "evolves u (u\<lparr>eof_called := True\<rparr>)" by (rule evolves_same) simp_all
  with t have "evolves u t"
    by (auto split: if_splits dest!: callback_evolves intro: evolves_trans)
  ultimately show "evolves s t" by (rule evolves_trans)
qed

lemma handle_events_evolves: "handle_events vt app s = Some (Inr t) \<Longrightarrow> evolves s t"
  by (erule handle_events_elim)
     (auto intro: evolves_trans
      dest!: do_close_evolves do_connect_evolves do_finalize_evolves do_read_evolves do_write_evolves)


subsection \<open>The filter chain\<close>

definition chain_ok :: "filt list \<Rightarrow> bool" where
  "chain_ok fs \<longleftrightarrow>
     (\<forall>i < length fs.
        prev_ix (fs ! i) = (if i = 0 then None else Some (i - 1))
      \<and> next_ix (fs ! i) = (if Suc i < length fs then Some (Suc i) else None)
      \<and> order_no (fs ! i) = of_nat i
      \<and> (Suc i < length fs \<longrightarrow> connected (fs ! i)))"

definition chain_inv :: "('w, 'h) sbuf \<Rightarrow> bool" where
  "chain_inv s \<longleftrightarrow>
     stream_filters s \<noteq> [] \<and> chain_ok (stream_filters s)
   \<and> (add_filter_allowed s \<longrightarrow> connected (last (stream_filters s)))
   \<and> no_empty (pending_writes s)"

definition eofs :: "('w, 'h) sbuf \<Rightarrow> nat" where
  "eofs s = count_list (trace s) Ob_eof"

definition same_links :: "filt \<Rightarrow> filt \<Rightarrow> bool" where
  "same_links f g \<longleftrightarrow> prev_ix g = prev_ix f \<and> next_ix g = next_ix f \<and> order_no g = order_no f
     \<and> (connected f \<longrightarrow> connected g)"

definition keeps :: "('w, 'h) sbuf \<Rightarrow> ('w, 'h) sbuf \<Rightarrow> bool" where
  "keeps s t \<longleftrightarrow>
     eof_called t = eof_called s \<and> eofs t = eofs s \<and> (chain_inv s \<longrightarrow> chain_inv t)
   \<and> (\<not> add_filter_allowed s \<longrightarrow>
        \<not> add_filter_allowed t \<and> length (stream_filters t) = length (stream_filters s))"

lemma keeps_refl [simp, intro!]: "keeps s s"
  by (simp add: keeps_def)

lemma keeps_trans [trans]: "keeps s t \<Longrightarrow> keeps t u \<Longrightarrow> keeps s u"
  unfolding keeps_def by metis

lemma chain_ok_update:
  assumes "chain_ok fs" and "same_links (fs ! i) f"
  shows "chain_ok (fs[i := f])"
  unfolding chain_ok_def
proof (intro allI impI)
  fix j
  assume "j < length (fs[i := f])"
  with assms show "prev_ix (fs[i := f] ! j) = (if j = 0 then None else Some (j - 1))
      \<and> next_ix (fs[i := f] ! j) = (if Suc j < length (fs[i := f]) then Some (Suc j) else None)
      \<and> order_no (fs[i := f] ! j) = of_nat j
      \<and> (Suc j < length (fs[i := f]) \<longrightarrow> connected (fs[i := f] ! j))"
    by (cases "j = i") (auto simp: chain_ok_def same_links_def)
qed

lemma last_list_update_conn:
  "fs \<noteq> [] \<Longrightarrow> connected (last fs) \<Longrightarrow> same_links (fs ! i) f \<Longrightarrow> connected (last (fs[i := f]))"
  by (cases "i = length fs - 1") (auto simp: last_conv_nth same_links_def)

lemma keeps_set_filter:
  assumes "same_links (stream_filters s ! i) f"
  shows "keeps s (set_filter i f s)"
  using assms chain_ok_update [of "stream_filters s" i f] last_list_update_conn [of "stream_filters s" i f]
  by (auto simp: keeps_def eofs_def chain_inv_def)

lemma keeps_same:
  "stream_filters t = stream_filters s \<Longrightarrow> eof_called t = eof_called s \<Longrightarrow>
   trace t = trace s @ xs \<Longrightarrow> Ob_eof \<notin> set xs \<Longrightarrow>
   (no_empty (pending_writes s) \<Longrightarrow> no_empty (pending_writes t)) \<Longrightarrow>
   add_filter_allowed t = add_filter_allowed s \<Longrightarrow> keeps s t"
  by (auto simp: keeps_def eofs_def chain_inv_def)

lemma chain_ok_snoc:
  assumes "chain_ok (fs @ [g])" and "connected g"
  shows "chain_ok (fs @ [g\<lparr>next_ix := Some (Suc (length fs))\<rparr>,
    f\<lparr>prev_ix := Some (length fs), next_ix := None, order_no := order_no g + 1\<rparr>])"
  unfolding chain_ok_def
proof (intro allI impI)
  fix i
  let ?n = "length fs"
  let ?gs = "fs @ [g\<lparr>next_ix := Some (Suc ?n)\<rparr>,
    f\<lparr>prev_ix := Some ?n, next_ix := None, order_no := order_no g + 1\<rparr>]"
  have old: "\<And>i. i < Suc ?n \<Longrightarrow>
      prev_ix ((fs @ [g]) ! i) = (if i = 0 then None else Some (i - 1))
    \<and> next_ix ((fs @ [g]) ! i) = (if Suc i < Suc ?n then Some (Suc i) else None)
    \<and> order_no ((fs @ [g]) ! i) = of_nat i \<and> (Suc i < Suc ?n \<longrightarrow> connected ((fs @ [g]) ! i))"
    using assms(1) by (auto simp: chain_ok_def)
  assume "i < length ?gs"
  then consider "i < ?n" | "i = ?n" | "i = Suc ?n" by fastforce
  then show "prev_ix (?gs ! i) = (if i = 0 then None else Some (i - 1))
      \<and> next_ix (?gs ! i) = (if Suc i < length ?gs then Some (Suc i) else None)
      \<and> order_no (?gs ! i) = of_nat i \<and> (Suc i < length ?gs \<longrightarrow> connected (?gs ! i))"
    using old [of i] old [of ?n] assms(2)
    by cases (auto simp: nth_append)
qed

lemma new_filter_next [simp]: "new_filter\<lparr>prev_ix := p, next_ix := None, order_no := k\<rparr> = new_filter\<lparr>prev_ix := p, order_no := k\<rparr>"
  by (simp add: new_filter_def)

lemma sb_add_filter_keeps:
  assumes "sb_add_filter new_filter s = Inr t" and "stream_filters s \<noteq> []"
  shows "keeps s t"
proof -
  obtain fs g where fs: "stream_filters s = fs @ [g]"
    using assms(2) by (cases "stream_filters s" rule: rev_cases) auto
  from assms fs have t: "t = s\<lparr>add_filter_allowed := False, stream_filters := fs @
      [g\<lparr>next_ix := Some (Suc (length fs))\<rparr>, new_filter\<lparr>prev_ix := Some (length fs), order_no := order_no g + 1\<rparr>]\<rparr>"
    and a: "add_filter_allowed s"
    by (auto simp: sb_add_filter_def split: if_splits)
  have "chain_inv s \<longrightarrow> chain_inv t"
    using chain_ok_snoc [of fs g new_filter] a by (auto simp: chain_inv_def t fs)
  then show ?thesis using a by (simp add: keeps_def t eofs_def)
qed

lemma sb_write_keeps: "keeps s (sb_write d s)"
proof (rule keeps_same)
  show "trace (sb_write d s) = trace s @ drop (length (trace s)) (trace (sb_write d s))"
    by (auto simp: sb_write_trace)
qed (auto simp: sb_write_trace sb_write_pending)

lemma sb_close_keeps: "keeps s (sb_close s)"
  by (rule keeps_same) auto

lemma run_action_keeps: "run_action a s = Inr t \<Longrightarrow> stream_filters s \<noteq> [] \<Longrightarrow> keeps s t"
  by (cases a) (auto intro: sb_write_keeps sb_close_keeps sb_add_filter_keeps)

lemma evolves_nonempty: "evolves s t \<Longrightarrow> stream_filters s \<noteq> [] \<Longrightarrow> stream_filters t \<noteq> []"
  by (auto simp: evolves_def)

lemma run_actions_keeps: "run_actions as s = Inr t \<Longrightarrow> stream_filters s \<noteq> [] \<Longrightarrow> keeps s t"
proof (induction as arbitrary: s)
  case (Cons a as)
  then obtain u where u: "run_action a s = Inr u" "run_actions as u = Inr t" by auto
  from evolves_nonempty [OF run_action_evolves [OF u(1)] Cons.prems(2)] Cons.IH [OF u(2)]
    run_action_keeps [OF u(1) Cons.prems(2)]
  show ?case by (blast intro: keeps_trans)
qed simp

lemma callback_elim:
  assumes "callback ob f s = Inr t"
  obtains as h where "f (app_state s) = (as, h)" "run_actions as (emit ob (s\<lparr>app_state := h\<rparr>)) = Inr t"
  using assms by (auto simp: callback_def split: prod.splits)

lemma callback_keeps:
  assumes "callback ob f s = Inr t" and "ob \<noteq> Ob_eof" and "stream_filters s \<noteq> []"
  shows "keeps s t"
proof -
  from assms(1) obtain as h where r: "run_actions as (emit ob (s\<lparr>app_state := h\<rparr>)) = Inr t"
    by (rule callback_elim)
  have "keeps s (emit ob (s\<lparr>app_state := h\<rparr>))" using assms(2) by (intro keeps_same) auto
  also have "keeps \<dots> t" using run_actions_keeps [OF r] assms(3) by simp
  finally show ?thesis .
qed


lemma world_keeps: "keeps s (s\<lparr>world := w\<rparr>)"
  by (rule keeps_same) auto

lemma filter_write_links: "filter_write vt i ds f w = Inr (g, w') \<Longrightarrow> same_links f g"
  by (auto simp: filter_write_def same_links_def)

lemma filter_shutdown_links: "filter_shutdown vt i f w = Inr (g, w') \<Longrightarrow> same_links f g"
  by (auto simp: filter_shutdown_def same_links_def)

lemma filter_close_links:
  assumes "filter_close vt i f w = Inr (g, w')"
  shows "same_links f g"
proof (cases "pending_out f = [] \<or> write_closed f")
  case True
  with assms show ?thesis by (auto simp: filter_close_def intro: filter_shutdown_links)
next
  case False
  with assms obtain c rest w1 where
    "(if rest = [] \<or> write_closed f \<or> c
      then filter_shutdown vt i (f\<lparr>write_closed := write_closed f \<or> c, pending_out := rest\<rparr>) w1
      else Inr (f\<lparr>write_closed := write_closed f \<or> c, pending_out := rest\<rparr>, w1)) = Inr (g, w')"
    by (auto simp: filter_close_def Let_def)
  then show ?thesis
    by (auto simp: same_links_def split: if_splits dest: filter_shutdown_links)
qed

lemma on_filter_keeps:
  assumes "on_filter i g s = Inr t"
    and "\<And>w f w'. g (stream_filters s ! i) w = Inr (f, w') \<Longrightarrow> same_links (stream_filters s ! i) f"
  shows "keeps s t"
proof -
  from assms(1) obtain f w where g: "g (stream_filters s ! i) (world s) = Inr (f, w)"
    and t: "t = set_filter i f (s\<lparr>world := w\<rparr>)" by (auto simp: on_filter_def)
  have "keeps (s\<lparr>world := w\<rparr>) t"
    unfolding t by (rule keeps_set_filter) (simp add: assms(2) [OF g])
  with world_keeps show ?thesis by (rule keeps_trans)
qed

lemma handle_data_keeps:
  "handle_data app d s = Inr t \<Longrightarrow> stream_filters s \<noteq> [] \<Longrightarrow> keeps s t"
  by (auto simp: handle_data_def split: if_splits intro: callback_keeps)

lemma filter_in_keeps: "filter_in vt i s = Inr (r, t) \<Longrightarrow> keeps s t"
  by (auto simp: filter_in_def intro: world_keeps)

lemma read_loop_keeps:
  assumes "read_loop (filter_in vt i) (handle_data app) s = Some (Inr (c, t))"
    and "stream_filters s \<noteq> []"
  shows "keeps s t"
proof (rule read_loop_rule [OF assms(1), where
      P = "\<lambda>t. keeps s t \<and> stream_filters t \<noteq> []" and Q = "\<lambda>_ t. keeps s t"])
  show "keeps s s \<and> stream_filters s \<noteq> []" using assms(2) by simp
next
  fix u r s1
  assume "keeps s u \<and> stream_filters u \<noteq> []" "filter_in vt i u = Inr (r, s1)"
  then show "keeps s s1" by (auto intro: keeps_trans dest: filter_in_keeps)
next
  fix u r s1 s2
  assume u: "keeps s u \<and> stream_filters u \<noteq> []" "filter_in vt i u = Inr (r, s1)"
    "handle_data app (opt_bytes (in_data r)) s1 = Inr s2"
  have ne: "stream_filters s1 \<noteq> []" using evolves_nonempty [OF filter_in_evolves [OF u(2)]] u(1) by blast
  have "keeps s s1" using u(1) filter_in_keeps [OF u(2)] by (blast intro: keeps_trans)
  then have "keeps s s2" using handle_data_keeps [OF u(3) ne] by (rule keeps_trans)
  moreover have "stream_filters s2 \<noteq> []"
    using evolves_nonempty [OF handle_data_evolves [OF u(3)] ne] .
  ultimately show "keeps s s2 \<and> stream_filters s2 \<noteq> []" ..
qed

lemma do_read_keeps:
  assumes "do_read vt app s = Some (Inr t)" and "stream_filters s \<noteq> []"
  shows "keeps s t"
  using assms(1)
proof (cases rule: do_read_elim)
  case (read c u)
  note read_loop_keeps [OF read(2) assms(2)]
  also have "keeps u t"
    unfolding read(3) by (auto intro!: keeps_set_filter simp: same_links_def)
  finally show ?thesis .
qed simp

lemma do_write_keeps:
  assumes "do_write vt s = Inr t"
  shows "keeps s t"
  using assms
proof (cases rule: do_write_elim)
  case (writing f w)
  have "keeps s (s\<lparr>pending_writes := [], world := w\<rparr>)" by (rule keeps_same) auto
  also have "keeps (s\<lparr>pending_writes := [], world := w\<rparr>) t"
    unfolding writing(4) by (rule keeps_set_filter) (use filter_write_links [OF writing(3)] in simp)
  finally show ?thesis .
qed simp_all

lemma close_down_keeps: "close_down vt n s = Inr t \<Longrightarrow> keeps s t"
proof (induction n arbitrary: s)
  case 0
  then show ?case by simp
next
  case (Suc i)
  then obtain u where u: "(if \<not> filter_closed (stream_filters s ! i)
       then on_filter i (filter_close vt i) s else Inr s) = Inr u"
    and t: "(if \<not> filter_closed (stream_filters u ! i) then Inr u else close_down vt i u) = Inr t"
    by auto
  have "keeps s u"
    using u by (auto split: if_splits intro: on_filter_keeps dest: filter_close_links)
  moreover have "keeps u t" using t Suc.IH by (auto split: if_splits)
  ultimately show ?case by (rule keeps_trans)
qed

lemma do_close_keeps: "do_close vt s = Inr t \<Longrightarrow> keeps s t"
  by (auto simp: do_close_def split: if_splits intro: keeps_trans
      dest: do_write_keeps close_down_keeps)

lemma do_connect_chain:
  assumes "do_connect vt app s = Inr t" and "chain_inv s" and "\<not> add_filter_allowed s"
  shows "chain_inv t \<and> \<not> add_filter_allowed t \<and> eof_called t = eof_called s \<and> eofs t = eofs s"
  using assms(1)
proof (cases rule: do_connect_elim)
  case (pending w)
  with assms(2,3) world_keeps [of s w] show ?thesis by (auto simp: keeps_def)
next
  case (failed w)
  have "keeps s (s\<lparr>world := w\<rparr>)" by (rule world_keeps)
  also have "keeps (s\<lparr>world := w\<rparr>) t"
    unfolding failed(1) by (rule keeps_set_filter) (simp add: same_links_def)
  finally show ?thesis using assms(2,3) by (simp add: keeps_def)
next
  case (success w v)
  let ?u = "set_filter (top_ix s) ((top_filter s)\<lparr>connected := True\<rparr>)
      (s\<lparr>world := w, add_filter_allowed := True\<rparr>)"
  have ne: "stream_filters s \<noteq> []" using assms(2) by (simp add: chain_inv_def)
  have "chain_inv ?u"
    using assms(2) ne chain_ok_update [of "stream_filters s" "top_ix s" "(top_filter s)\<lparr>connected := True\<rparr>"]
    by (auto simp: chain_inv_def same_links_def top_ix_def last_list_update)
  moreover have "eofs ?u = eofs s" by (simp add: eofs_def)
  moreover have "keeps ?u v" using callback_keeps [OF success(1)] ne by simp
  ultimately have v: "chain_inv v" "eof_called v = eof_called s" "eofs v = eofs s"
    by (simp_all add: keeps_def)
  from v(1) have "chain_inv (v\<lparr>add_filter_allowed := False\<rparr>)" by (simp add: chain_inv_def)
  moreover have "keeps (v\<lparr>add_filter_allowed := False\<rparr>) t"
    unfolding success(2) by (rule keeps_same) (auto simp: ev_call_trace)
  ultimately show ?thesis using v by (simp add: keeps_def eofs_def)
qed

subsection \<open>The invariant of a stream buffer between two calls\<close>

definition sb_inv :: "('w, 'h) sbuf \<Rightarrow> bool" where
  "sb_inv s \<longleftrightarrow>
     chain_inv s \<and> \<not> add_filter_allowed s
   \<and> eofs s = (if eof_called s then 1 else 0)
   \<and> (eof_called s \<longrightarrow> should_close s \<and> list_all filter_closed (stream_filters s))"

lemma all_closed_mono:
  assumes "evolves s t" and "length (stream_filters t) = length (stream_filters s)"
    and "list_all filter_closed (stream_filters s)"
  shows "list_all filter_closed (stream_filters t)"
  using assms by (auto simp: evolves_def list_all_length filter_closed_def filt_le_def)

lemma sb_inv_step:
  assumes "evolves s t" and "keeps s t" and "sb_inv s"
  shows "sb_inv t"
  using assms all_closed_mono [OF assms(1)] by (auto simp: sb_inv_def keeps_def evolves_def)

lemma sb_write_inv: "sb_inv s \<Longrightarrow> sb_inv (sb_write d s)"
  by (rule sb_inv_step [OF sb_write_evolves sb_write_keeps])

lemma sb_close_inv: "sb_inv s \<Longrightarrow> sb_inv (sb_close s)"
  by (rule sb_inv_step [OF sb_close_evolves sb_close_keeps])

lemma sb_create_inv:
  "sb_create alive m w h = Inr s \<Longrightarrow> sb_inv s \<and> stream_filters s = [new_filter\<lparr>order_no := 0\<rparr>]"
  by (auto simp: sb_create_def sb_add_filter_def sb_new_def sb_inv_def chain_inv_def chain_ok_def
      eofs_def new_filter_def)

lemma do_finalize_inv:
  assumes "do_finalize vt app s = Inr t" and "sb_inv s"
  shows "sb_inv t"
proof (rule do_finalize_elim [OF assms(1)])
  fix u
  assume u: "(if \<not> should_close s \<and> read_closed (top_filter s)
      then do_close vt (s\<lparr>should_close := True\<rparr>) else Inr s) = Inr u"
    and t: "if is_read_closed u \<and> is_write_closed u \<and> \<not> eof_called u
     then \<exists>v. callback Ob_eof (on_eof app) (u\<lparr>eof_called := True\<rparr>) = Inr v \<and> t = close_event v
     else t = u"
  have sc: "evolves s (s\<lparr>should_close := True\<rparr>)" "keeps s (s\<lparr>should_close := True\<rparr>)"
    by (rule evolves_same, simp_all) (rule keeps_same, auto)
  with u have su: "evolves s u" "keeps s u"
    by (auto split: if_splits dest: do_close_evolves do_close_keeps intro: evolves_trans keeps_trans)
  then have iu: "sb_inv u" using assms(2) by (rule sb_inv_step)
  show "sb_inv t"
  proof (cases "is_read_closed u \<and> is_write_closed u \<and> \<not> eof_called u")
    case False
    with t iu show ?thesis by simp
  next
    case True
    with t obtain v where v: "callback Ob_eof (on_eof app) (u\<lparr>eof_called := True\<rparr>) = Inr v"
      and tv: "t = close_event v" by auto
    have closed: "list_all filter_closed (stream_filters u)"
      using True by (auto simp: is_read_closed_iff is_write_closed_iff list_all_iff filter_closed_def)
    have ne: "stream_filters u \<noteq> []" using iu by (simp add: sb_inv_def chain_inv_def)
    have uc: "should_close u"
    proof (rule ccontr)
      assume n: "\<not> should_close u"
      with u have "u = s" "\<not> should_close s" "\<not> read_closed (top_filter s)"
        by (auto split: if_splits dest!: do_close_evolves simp: evolves_def)
      moreover have "read_closed (top_filter u)" using closed ne top_ix_less [OF ne]
        by (auto simp: list_all_length filter_closed_def)
      ultimately show False by simp
    qed
    obtain as h where r: "run_actions as (emit Ob_eof (u\<lparr>eof_called := True, app_state := h\<rparr>)) = Inr v"
      using v by (auto elim: callback_elim)
    let ?w = "emit Ob_eof (u\<lparr>eof_called := True, app_state := h\<rparr>)"
    have "sb_inv ?w" using iu closed uc True by (auto simp: sb_inv_def chain_inv_def eofs_def)
    moreover have "evolves ?w v" "keeps ?w v"
      using run_actions_evolves [OF r] run_actions_keeps [OF r] ne by simp_all
    moreover have "evolves v t" "keeps v t"
      unfolding tv by blast (rule keeps_same, auto simp: ev_call_trace)
    ultimately show ?thesis by (metis sb_inv_step)
  qed
qed

lemma handle_events_inv:
  assumes "handle_events vt app s = Some (Inr t)" and "sb_inv s"
  shows "sb_inv t"
  using assms(1)
proof (cases rule: handle_events_elim)
  case dead
  have "keeps s t" unfolding dead(2) by (rule keeps_same) (auto simp: ev_call_trace)
  with handle_events_evolves [OF assms(1)] show ?thesis using assms(2) by (rule sb_inv_step)
next
  case (closing u)
  with sb_inv_step [OF do_close_evolves do_close_keeps assms(2)] show ?thesis
    by (blast intro: do_finalize_inv)
next
  case (connecting u)
  have "chain_inv s" "\<not> add_filter_allowed s" using assms(2) by (simp_all add: sb_inv_def)
  from do_connect_chain [OF connecting(4) this] assms(2) connecting(2)
  have "sb_inv u" by (auto simp: sb_inv_def)
  with connecting(5) show ?thesis by (rule do_finalize_inv)
next
  case (open_io u v)
  have "stream_filters s \<noteq> []" using assms(2) by (simp add: sb_inv_def chain_inv_def)
  with sb_inv_step [OF do_read_evolves do_read_keeps assms(2)] open_io(4) have "sb_inv u" by blast
  with sb_inv_step [OF do_write_evolves do_write_keeps] open_io(5) have "sb_inv v" by blast
  with open_io(6) show ?thesis by (rule do_finalize_inv)
qed

end
