(* ===== verification/Stream_Buffer_Io.thy ===== *)
theory Stream_Buffer_Io
  imports Stream_Buffer_Facts
begin

text \<open>
  The bytes that pass through a stream buffer whose chain is the TCP filter alone: what was
  queued by \<open>Write\<close> against what the kernel took, and what the kernel handed out against what
  the handler was given.
\<close>

subsection \<open>Histories\<close>

fun queued_bytes :: "obs list \<Rightarrow> bytes" where
  "queued_bytes [] = []"
| "queued_bytes (Ob_queued d # xs) = d @ queued_bytes xs"
| "queued_bytes (_ # xs) = queued_bytes xs"

fun delivered_bytes :: "obs list \<Rightarrow> bytes" where
  "delivered_bytes [] = []"
| "delivered_bytes (Ob_data d # xs) = d @ delivered_bytes xs"
| "delivered_bytes (_ # xs) = delivered_bytes xs"

lemma queued_append [simp]: "queued_bytes (xs @ ys) = queued_bytes xs @ queued_bytes ys"
  by (induction xs rule: queued_bytes.induct) auto

lemma delivered_append [simp]: "delivered_bytes (xs @ ys) = delivered_bytes xs @ delivered_bytes ys"
  by (induction xs rule: delivered_bytes.induct) auto

abbreviation queued :: "('w, 'h) sbuf \<Rightarrow> bytes" where
  "queued s \<equiv> queued_bytes (trace s)"

abbreviation delivered :: "('w, 'h) sbuf \<Rightarrow> bytes" where
  "delivered s \<equiv> delivered_bytes (trace s)"

definition unsent :: "('w, 'h) sbuf \<Rightarrow> bytes" where
  "unsent s = concat (pending_out (hd (stream_filters s))) @ concat (pending_writes s)"

text \<open>
  Nothing is lost, or the write side is closed after an error and what was sent is a prefix of
  what was queued; \<open>b\<close> are the bytes sent at the start.  On the way in, what was delivered is what
  was received; \<open>c\<close> are the bytes received at the start.
\<close>

definition out_inv ::
  "('k, 'z) socket_calls_scheme \<Rightarrow> bytes \<Rightarrow> (('k, 'x) tcp_scheme, 'h) sbuf \<Rightarrow> bool" where
  "out_inv K b s \<longleftrightarrow>
     stream_filters s \<noteq> []
   \<and> (tcp_sent K (world s) @ unsent s = b @ queued s
      \<or> write_closed (hd (stream_filters s)) \<and> prefix (tcp_sent K (world s)) (b @ queued s))"

definition in_inv ::
  "('k, 'z) socket_calls_scheme \<Rightarrow> bytes \<Rightarrow> (('k, 'x) tcp_scheme, 'h) sbuf \<Rightarrow> bool" where
  "in_inv K c s \<longleftrightarrow> tcp_received K (world s) = c @ delivered s"

lemma hd_list_update: "fs \<noteq> [] \<Longrightarrow> hd (fs[i := f]) = (if i = 0 then f else hd fs)"
  by (cases fs; cases i) auto

lemma out_inv_same:
  assumes "out_inv K b s" and "stream_filters t = stream_filters s"
    and "pending_writes t = pending_writes s"
    and "tcp_sent K (world t) = tcp_sent K (world s)"
    and "queued t = queued s"
  shows "out_inv K b t"
  using assms by (simp add: out_inv_def unsent_def)

lemma out_inv_set_filter:
  assumes "out_inv K b s"
    and "pending_out f = pending_out (stream_filters s ! i)"
    and "write_closed (stream_filters s ! i) \<longrightarrow> write_closed f"
  shows "out_inv K b (set_filter i f s)"
  using assms by (cases i) (auto simp: out_inv_def unsent_def hd_list_update hd_conv_nth)

lemma sb_write_out: "out_inv K b s \<Longrightarrow> out_inv K b (sb_write d s)"
  by (auto simp: out_inv_def unsent_def sb_write_trace sb_write_pending
      intro: prefix_order.trans [OF _ prefixI])

lemma sb_close_out: "out_inv K b s \<Longrightarrow> out_inv K b (sb_close s)"
  by (rule out_inv_same) simp_all

lemma sb_add_filter_out:
  assumes "sb_add_filter f s = Inr t" and "out_inv K b s"
  shows "out_inv K b t"
proof -
  obtain fs g where fs: "stream_filters s = fs @ [g]"
    using assms(2) by (cases "stream_filters s" rule: rev_cases) (auto simp: out_inv_def)
  with assms have "world t = world s" "trace t = trace s" "pending_writes t = pending_writes s"
    "pending_out (hd (stream_filters t)) = pending_out (hd (stream_filters s))"
    "write_closed (hd (stream_filters t)) = write_closed (hd (stream_filters s))"
    "stream_filters t \<noteq> []"
    by (cases fs; auto simp: sb_add_filter_def split: if_splits)+
  with assms(2) show ?thesis by (simp add: out_inv_def unsent_def)
qed

lemma run_action_out: "run_action a s = Inr t \<Longrightarrow> out_inv K b s \<Longrightarrow> out_inv K b t"
  by (cases a) (auto intro: sb_write_out sb_close_out sb_add_filter_out)

lemma run_actions_out: "run_actions as s = Inr t \<Longrightarrow> out_inv K b s \<Longrightarrow> out_inv K b t"
  by (induction as arbitrary: s) (auto dest: run_action_out)

lemma callback_out:
  assumes "callback ob f s = Inr t" and "\<And>d. ob \<noteq> Ob_queued d"
    and "out_inv K b s"
  shows "out_inv K b t"
proof -
  from assms(1) obtain as h where r: "run_actions as (emit ob (s\<lparr>app_state := h\<rparr>)) = Inr t"
    by (rule callback_elim)
  have "out_inv K b (emit ob (s\<lparr>app_state := h\<rparr>))"
    using assms(2-) by (cases ob) (auto intro: out_inv_same)
  with r show ?thesis by (rule run_actions_out)
qed

lemma run_actions_frame:
  "run_actions as s = Inr t \<Longrightarrow>
   world t = world s \<and> delivered t = delivered s \<and> handler_alive t = handler_alive s"
proof (induction as arbitrary: s)
  case (Cons a as)
  then obtain u where u: "run_action a s = Inr u" "run_actions as u = Inr t" by auto
  have "world u = world s \<and> delivered u = delivered s \<and> handler_alive u = handler_alive s"
    using u(1) by (cases a) (auto simp: sb_write_trace sb_add_filter_def Let_def split: if_splits)
  with Cons.IH [OF u(2)] show ?case by simp
qed simp

lemma callback_frame:
  assumes "callback ob f s = Inr t"
  shows "world t = world s" and "delivered t = delivered s @ delivered_bytes [ob]"
    and "handler_alive t = handler_alive s"
proof -
  from assms obtain as h where "run_actions as (emit ob (s\<lparr>app_state := h\<rparr>)) = Inr t"
    by (rule callback_elim)
  from run_actions_frame [OF this]
  show "world t = world s" "delivered t = delivered s @ delivered_bytes [ob]"
    "handler_alive t = handler_alive s" by simp_all
qed


lemma flush_out_pred:
  assumes "\<And>d w x w'. P w \<Longrightarrow> out d w = Inr (x, w') \<Longrightarrow> P w'"
  shows "flush_out out ds w = Inr (r, w') \<Longrightarrow> P w \<Longrightarrow> P w'"
proof (induction ds arbitrary: w)
  case (Cons d ds)
  then obtain x d' w1 where o: "out d w = Inr ((x, d'), w1)" by auto
  with assms Cons.prems(2) have "P w1" by blast
  with Cons o show ?case by (auto split: if_splits option.splits)
qed simp

text \<open>One filter in the chain: the position of the top filter is 0.\<close>

abbreviation single :: "('w, 'h) sbuf \<Rightarrow> bool" where
  "single s \<equiv> length (stream_filters s) = 1"

lemma single_top [simp]: "single s \<Longrightarrow> top_ix s = 0"
  by (simp add: top_ix_def)

lemma single_hd: "single s \<Longrightarrow> hd (stream_filters s) = stream_filters s ! 0"
  by (cases "stream_filters s") auto

lemma evolves_single: "evolves s t \<Longrightarrow> single t \<Longrightarrow> stream_filters s \<noteq> [] \<Longrightarrow> single s"
  by (cases "stream_filters s") (auto simp: evolves_def)

lemma out_inv_nonempty: "out_inv K b s \<Longrightarrow> stream_filters s \<noteq> []"
  by (simp add: out_inv_def)

subsection \<open>Output\<close>

lemma tcp_flush_cases:
  assumes "socket_ok K" and "flush_out (tcp_out sink K) ds w = Inr ((c, rest), w')"
  shows "\<not> c \<Longrightarrow> tcp_sent K w' @ concat rest = tcp_sent K w @ concat ds"
    and "prefix (tcp_sent K w') (tcp_sent K w @ concat ds)"
    and "tcp_received K w' = tcp_received K w"
proof -
  note chan = tcp_chan.flush_conserves [of "(sink, K)", simplified, OF assms(1)]
    tcp_chan.flush_prefix [of "(sink, K)", simplified, OF assms]
  show "\<not> c \<Longrightarrow> tcp_sent K w' @ concat rest = tcp_sent K w @ concat ds"
    using chan(1) assms(2) by simp
  show "prefix (tcp_sent K w') (tcp_sent K w @ concat ds)"
    using chan(2) by (metis append_take_drop_id prefixI same_prefix_prefix)
  show "tcp_received K w' = tcp_received K w"
    by (rule flush_out_pred [OF _ assms(2), where P = "\<lambda>v. tcp_received K v = tcp_received K w"])
       (auto dest: tcp_out_received [OF assms(1)])
qed

lemma out_inv_flush:
  assumes "socket_ok K" and "out_inv K b s" and "single s" and "\<not> write_closed (hd (stream_filters s))"
    and "flush_out (tcp_out sink K) (pending_out (hd (stream_filters s)) @ ds) (world s) = Inr ((c, rest), w)"
    and "pending_writes s = ds @ ds'" and "stream_filters t = [f]" and "pending_out f = rest"
    and "c \<longrightarrow> write_closed f" and "pending_writes t = ds'" and "world t = w" and "queued t = queued s"
  shows "out_inv K b t"
proof -
  note fl = tcp_flush_cases [OF assms(1) assms(5)]
  have A: "tcp_sent K (world s) @ concat (pending_out (hd (stream_filters s)) @ ds) @ concat ds' = b @ queued s"
    using assms(2,4,6) by (simp add: out_inv_def unsent_def)
  show ?thesis
  proof (cases c)
    case False
    with fl(1) A assms(7-12) show ?thesis
      by (simp add: out_inv_def unsent_def) (metis append.assoc concat_append)
  next
    case True
    have "b @ queued s =
        (tcp_sent K (world s) @ concat (pending_out (hd (stream_filters s)) @ ds)) @ concat ds'"
      using A by simp
    then have "prefix (tcp_sent K w) (b @ queued s)"
      by (simp only:) (rule prefix_prefix [OF fl(2)])
    with True assms(7-12) show ?thesis by (simp add: out_inv_def)
  qed
qed

lemma do_write_out:
  assumes "socket_ok K" and "single s" and "out_inv K b s" and "do_write (stack_vt sink K up) s = Inr t"
  shows "out_inv K b t \<and> tcp_received K (world t) = tcp_received K (world s) \<and> trace t = trace s"
  using assms(4)
proof (cases rule: do_write_elim)
  case (writing f w)
  from writing(3) assms(2) obtain c rest where
    fl: "flush_out (tcp_out sink K) (pending_out (stream_filters s ! 0) @ pending_writes s) (world s)
        = Inr ((c, rest), w)"
    and f: "f = (stream_filters s ! 0)\<lparr>write_closed := write_closed (stream_filters s ! 0) \<or> c, pending_out := rest\<rparr>"
    by (auto simp: filter_write_def)
  obtain g where g: "stream_filters s = [g]" using assms(2) by (cases "stream_filters s") auto
  have "out_inv K b t"
    by (rule out_inv_flush [OF assms(1,3,2) _ _ _, where ds = "pending_writes s" and ds' = "[]" and f = f])
       (use writing fl f g in \<open>auto simp: single_hd [OF assms(2)] assms(2)\<close>)
  moreover have "tcp_received K (world t) = tcp_received K (world s)"
    using writing(4) tcp_flush_cases(3) [OF assms(1) fl] by simp
  ultimately show ?thesis using writing(4) by simp
qed (use assms in simp_all)

lemma out_inv_close:
  assumes "socket_ok K" and "single s" and "out_inv K b s"
    and "on_filter 0 (filter_close (stack_vt sink K up) 0) s = Inr t"
  shows "out_inv K b t \<and> tcp_received K (world t) = tcp_received K (world s) \<and> trace t = trace s"
proof -
  obtain g where g: "stream_filters s = [g]" using assms(2) by (cases "stream_filters s") auto
  from assms(4) g obtain f w where
    f: "filter_close (stack_vt sink K up) 0 g (world s) = Inr (f, w)"
    and t: "t = set_filter 0 f (s\<lparr>world := w\<rparr>)" by (auto simp: on_filter_def)
  show ?thesis
  proof (cases "pending_out g = [] \<or> write_closed g")
    case True
    with f have "f = g\<lparr>read_closed := True, write_closed := True\<rparr>" "w = world s"
      by (auto simp: filter_close_def filter_shutdown_def tcp_shutdown_def)
    with assms(3) g show ?thesis by (auto simp: t out_inv_def unsent_def)
  next
    case False
    with f obtain c rest where
      fl: "flush_out (tcp_out sink K) (pending_out g @ []) (world s) = Inr ((c, rest), w)"
      and p: "pending_out f = rest" and c: "c \<longrightarrow> write_closed f"
      by (auto simp: filter_close_def filter_shutdown_def tcp_shutdown_def Let_def split: if_splits)
    have "out_inv K b t"
      by (rule out_inv_flush [OF assms(1,3,2) _ _ _, where ds = "[]" and ds' = "pending_writes s" and f = f])
         (use fl p c g False t in auto)
    with t tcp_flush_cases(3) [OF assms(1) fl] show ?thesis by simp
  qed
qed

lemma close_down_out:
  assumes "socket_ok K" and "single s" and "out_inv K b s"
    and "close_down (stack_vt sink K up) (length (stream_filters s)) s = Inr t"
  shows "out_inv K b t \<and> tcp_received K (world t) = tcp_received K (world s) \<and> trace t = trace s"
  using assms out_inv_close [OF assms(1-3)]
  by (auto split: if_splits)

lemma do_close_out:
  assumes "socket_ok K" and "single s" and "out_inv K b s" and "do_close (stack_vt sink K up) s = Inr t"
  shows "out_inv K b t \<and> tcp_received K (world t) = tcp_received K (world s) \<and> trace t = trace s"
proof -
  from assms(4) obtain u where
    u: "(if list_all (\<lambda>f. \<not> write_closed f) (stream_filters s) then do_write (stack_vt sink K up) s
         else Inr s) = Inr u"
    and t: "close_down (stack_vt sink K up) (length (stream_filters u)) u = Inr t"
    by (auto simp: do_close_def)
  have su: "out_inv K b u \<and> tcp_received K (world u) = tcp_received K (world s) \<and> trace u = trace s"
    using u do_write_out [OF assms(1-3)] assms(3) by (auto split: if_splits)
  moreover have "single u"
    using u assms(2) do_write_keeps do_write_evolves
    by (auto split: if_splits elim!: do_write_elim)
  ultimately show ?thesis using close_down_out [OF assms(1) _ _ t] by auto
qed


subsection \<open>Input\<close>

lemma do_read_in:
  assumes "socket_ok K" and "handler_alive s" and "single s"
    and "do_read (stack_vt sink K up) app s = Some (Inr t)"
  shows "\<exists>bs. tcp_received K (world t) = tcp_received K (world s) @ bs \<and> delivered t = delivered s @ bs"
  using assms(4)
proof (cases rule: do_read_elim)
  case (read c u)
  have "\<exists>bs. tcp_received K (world u) = tcp_received K (world s) @ bs \<and> delivered u = delivered s @ bs"
  proof (rule tcp_src.read_delivers [OF assms(1) read(2), where J = handler_alive and wd = world])
    show "handler_alive s" by (rule assms(2))
  next
    fix x r x1
    assume "handler_alive x" "filter_in (stack_vt sink K up) (top_ix s) x = Inr (r, x1)"
    with assms(3) show "tcp_in K (world x) = Inr (r, world x1) \<and> delivered x1 = delivered x \<and> handler_alive x1"
      by (auto simp: filter_in_def)
  next
    fix d x x1
    assume "handler_alive x" "handle_data app d x = Inr x1"
    then show "world x1 = world x \<and> delivered x1 = delivered x @ d \<and> handler_alive x1"
      using callback_frame [of "Ob_data d" "on_data app d" x x1] by (simp add: handle_data_def)
  qed
  with read(3) show ?thesis by auto
qed auto

lemma handle_data_out: "handle_data app d s = Inr t \<Longrightarrow> out_inv K b s \<Longrightarrow> out_inv K b t"
  by (auto simp: handle_data_def split: if_splits intro: callback_out)

lemma do_read_out:
  assumes "socket_ok K" and "single s" and "out_inv K b s"
    and "do_read (stack_vt sink K up) app s = Some (Inr t)"
  shows "out_inv K b t"
  using assms(4)
proof (cases rule: do_read_elim)
  case (read c u)
  have inp: "out_inv K b x1" if "out_inv K b x" "filter_in (stack_vt sink K up) (top_ix s) x = Inr (r, x1)" for x r x1
  proof -
    from that(2) assms(2) obtain w where w: "tcp_in K (world x) = Inr (r, w)" "x1 = x\<lparr>world := w\<rparr>"
      by (auto simp: filter_in_def)
    show ?thesis
      by (rule out_inv_same [OF that(1)]) (use w tcp_in_sent [OF assms(1) w(1)] in simp_all)
  qed
  have "out_inv K b u"
    by (rule read_loop_rule [OF read(2), where P = "out_inv K b" and Q = "\<lambda>_. out_inv K b"])
       (use assms(3) in \<open>auto intro: handle_data_out dest: inp\<close>)
  then show ?thesis unfolding read(3) by (auto intro: out_inv_set_filter)
qed (use assms(3) in auto)

subsection \<open>The event handler\<close>

lemma do_connect_io:
  assumes "socket_ok K" and "single s" and "out_inv K b s"
    and "do_connect (stack_vt sink K up) app s = Inr t"
  shows "out_inv K b t \<and> tcp_received K (world t) = tcp_received K (world s) \<and> delivered t = delivered s"
proof -
  have frame: "tcp_sent K w = tcp_sent K (world s)" "tcp_received K w = tcp_received K (world s)"
    if "(if sb_mode s = CLIENT_MODE then v_connect (stack_vt sink K up) (top_ix s) (world s)
        else v_accept (stack_vt sink K up) (top_ix s) (world s)) = Inr (r, w)" for r w
    using that assms(2) tcp_connect_frame [OF assms(1)]
    by (auto simp: tcp_accept_def split: if_splits)
  from assms(4) show ?thesis
  proof (cases rule: do_connect_elim)
    case (pending w)
    with frame [OF pending(2)] assms(3) show ?thesis by (auto simp: out_inv_def unsent_def)
  next
    case (failed w)
    have "out_inv K b (s\<lparr>world := w\<rparr>)"
      using frame [OF failed(2)] assms(3) by (auto simp: out_inv_def unsent_def)
    then have "out_inv K b t" unfolding failed(1) by (auto intro: out_inv_set_filter)
    with frame [OF failed(2)] failed(1) show ?thesis by simp
  next
    case (success w v)
    have "out_inv K b (s\<lparr>world := w, add_filter_allowed := True\<rparr>)"
      using frame [OF success(3)] assms(3) by (auto simp: out_inv_def unsent_def)
    then have "out_inv K b (set_filter (top_ix s) ((top_filter s)\<lparr>connected := True\<rparr>)
            (s\<lparr>world := w, add_filter_allowed := True\<rparr>))"
      by (rule out_inv_set_filter) simp_all
    from callback_out [OF success(1) _ this] have "out_inv K b v" by simp
    then have "out_inv K b t" unfolding success(2) by (rule out_inv_same) (simp_all add: ev_call_trace)
    with callback_frame [OF success(1)] frame [OF success(3)] success(2) show ?thesis
      by (simp add: ev_call_trace)
  qed
qed

lemma do_finalize_io:
  assumes "socket_ok K" and "single s" and "out_inv K b s"
    and "do_finalize (stack_vt sink K up) app s = Inr t"
  shows "out_inv K b t \<and> tcp_received K (world t) = tcp_received K (world s) \<and> delivered t = delivered s"
proof (rule do_finalize_elim [OF assms(4)])
  fix u
  assume u: "(if \<not> should_close s \<and> read_closed (top_filter s)
      then do_close (stack_vt sink K up) (s\<lparr>should_close := True\<rparr>) else Inr s) = Inr u"
    and t: "if is_read_closed u \<and> is_write_closed u \<and> \<not> eof_called u
     then \<exists>v. callback Ob_eof (on_eof app) (u\<lparr>eof_called := True\<rparr>) = Inr v \<and> t = close_event v
     else t = u"
  have U: "out_inv K b u \<and> tcp_received K (world u) = tcp_received K (world s) \<and> trace u = trace s"
  proof (cases "\<not> should_close s \<and> read_closed (top_filter s)")
    case True
    have this0: "out_inv K b (s\<lparr>should_close := True\<rparr>)" using assms(3) by (rule out_inv_same) simp_all
    from u have "do_close (stack_vt sink K up) (s\<lparr>should_close := True\<rparr>) = Inr u"
      unfolding if_P [OF True] .
    from do_close_out [OF assms(1) _ this0 this] assms(2) show ?thesis by simp
  next
    case False
    have "s = u" using u unfolding if_not_P [OF False] by (simp only: sum.inject)
    with assms(3) show ?thesis by blast
  qed
  show ?thesis
  proof (cases "is_read_closed u \<and> is_write_closed u \<and> \<not> eof_called u")
    case True
    from t [unfolded if_P [OF True]] obtain v where
      v: "callback Ob_eof (on_eof app) (u\<lparr>eof_called := True\<rparr>) = Inr v"
      and tv: "t = close_event v" by blast
    have "out_inv K b (u\<lparr>eof_called := True\<rparr>)" by (rule out_inv_same [OF conjunct1 [OF U]]) simp_all
    from callback_out [OF v _ this] have "out_inv K b v" by simp
    then have "out_inv K b t" unfolding tv by (rule out_inv_same) (simp_all add: ev_call_trace)
    with callback_frame [OF v] U tv show ?thesis by (simp add: ev_call_trace)
  next
    case False
    with t U show ?thesis by auto
  qed
qed

lemma handle_events_io:
  assumes "socket_ok K" and "out_inv K b s" and "in_inv K c s"
    and "handle_events (stack_vt sink K up) app s = Some (Inr t)" and "single t"
  shows "out_inv K b t \<and> in_inv K c t"
proof -
  note ne = out_inv_nonempty [OF assms(2)]
  have s1: "single s" by (rule evolves_single [OF handle_events_evolves [OF assms(4)] assms(5) ne])
  from assms(4) show ?thesis
  proof (cases rule: handle_events_elim)
    case dead
    have "out_inv K b t" unfolding dead(2) using assms(2) by (rule out_inv_same) (simp_all add: ev_call_trace)
    with assms(3) dead(2) show ?thesis by (simp add: in_inv_def ev_call_trace)
  next
    case (closing u)
    from do_close_out [OF assms(1) s1 assms(2) closing(3)]
    have u: "out_inv K b u" "in_inv K c u" using assms(3) by (auto simp: in_inv_def)
    have "single u"
      by (rule evolves_single [OF do_finalize_evolves [OF closing(4)] assms(5) out_inv_nonempty [OF u(1)]])
    from do_finalize_io [OF assms(1) this u(1) closing(4)] u(2) show ?thesis by (simp add: in_inv_def)
  next
    case (connecting u)
    from do_connect_io [OF assms(1) s1 assms(2) connecting(4)]
    have u: "out_inv K b u" "in_inv K c u" using assms(3) by (auto simp: in_inv_def)
    have "single u"
      by (rule evolves_single [OF do_finalize_evolves [OF connecting(5)] assms(5) out_inv_nonempty [OF u(1)]])
    from do_finalize_io [OF assms(1) this u(1) connecting(5)] u(2) show ?thesis by (simp add: in_inv_def)
  next
    case (open_io u v)
    from do_read_in [OF assms(1) open_io(1) s1 open_io(4)] assms(3)
    have u: "out_inv K b u" "in_inv K c u"
      using do_read_out [OF assms(1) s1 assms(2) open_io(4)] by (auto simp: in_inv_def)
    note uv = do_write_evolves [OF open_io(5)]
    note vt = do_finalize_evolves [OF open_io(6)]
    have su: "single u"
      by (rule evolves_single [OF evolves_trans [OF uv vt] assms(5) out_inv_nonempty [OF u(1)]])
    from do_write_out [OF assms(1) su u(1) open_io(5)] u(2)
    have v: "out_inv K b v" "in_inv K c v" by (auto simp: in_inv_def)
    have "single v" by (rule evolves_single [OF vt assms(5) out_inv_nonempty [OF v(1)]])
    from do_finalize_io [OF assms(1) this v(1) open_io(6)] v(2) show ?thesis by (simp add: in_inv_def)
  qed
qed

end
