(* ===== verification/Stream_Buffer_Run.thy ===== *)
theory Stream_Buffer_Run
  imports Stream_Buffer_Io Scripted_Kernel
begin

text \<open>
  A stream buffer over its whole life: the protocol its handler sees (an automaton that the
  trace refines), the step relation of its calls and of the kernel's moves, and the invariants
  of every reachable state.
\<close>

subsection \<open>The protocol of the handler\<close>

text \<open>
  What \<open>StreamBufferHandler\<close> may expect: \<open>HandleConnected\<close> before any \<open>HandleData\<close>, \<open>HandleEOF\<close>
  last and once.  A stream that never connects goes from opening to its end directly.
\<close>

datatype phase = Opening | Streaming | Ended

fun phase_step :: "phase \<Rightarrow> obs \<Rightarrow> phase option" where
  "phase_step Ended Ob_connected = None"
| "phase_step _ Ob_connected = Some Streaming"
| "phase_step Streaming (Ob_data _) = Some Streaming"
| "phase_step _ (Ob_data _) = None"
| "phase_step Ended Ob_eof = None"
| "phase_step _ Ob_eof = Some Ended"
| "phase_step p _ = Some p"

fun phase_run :: "phase \<Rightarrow> obs list \<Rightarrow> phase option" where
  "phase_run p [] = Some p"
| "phase_run p (x # xs) = Option.bind (phase_step p x) (\<lambda>q. phase_run q xs)"

definition phase_of :: "('w, 'h) sbuf \<Rightarrow> phase" where
  "phase_of s = (if eof_called s then Ended else if connected (hd (stream_filters s)) then Streaming
     else Opening)"

definition obeys :: "('w, 'h) sbuf \<Rightarrow> bool" where
  "obeys s \<longleftrightarrow> phase_run Opening (trace s) = Some (phase_of s)"

lemma phase_run_append: "phase_run p (xs @ ys) = Option.bind (phase_run p xs) (\<lambda>q. phase_run q ys)"
  by (induction xs arbitrary: p) (auto split: Option.bind_splits)

lemma phase_run_Ended: "phase_run Ended xs = Some q \<Longrightarrow> q = Ended \<and> Ob_eof \<notin> set xs \<and> Ob_connected \<notin> set xs
    \<and> (\<forall>d. Ob_data d \<notin> set xs)"
proof (induction xs)
  case (Cons x xs)
  then show ?case by (cases x) auto
qed simp

text \<open>Observations that are no callback leave the phase alone.\<close>

fun no_callback :: "obs \<Rightarrow> bool" where
  "no_callback (Ob_data _) = False"
| "no_callback Ob_connected = False"
| "no_callback Ob_eof = False"
| "no_callback _ = True"

lemma phase_run_quiet: "list_all no_callback xs \<Longrightarrow> phase_run p xs = Some p"
proof (induction xs)
  case (Cons x xs)
  then show ?case by (cases x; cases p) auto
qed simp

definition quiet :: "('w, 'h) sbuf \<Rightarrow> ('w, 'h) sbuf \<Rightarrow> bool" where
  "quiet s t \<longleftrightarrow> (\<exists>xs. trace t = trace s @ xs \<and> list_all no_callback xs) \<and> phase_of t = phase_of s"

lemma quiet_obeys: "quiet s t \<Longrightarrow> obeys s \<Longrightarrow> obeys t"
  by (auto simp: quiet_def obeys_def phase_run_append phase_run_quiet)

lemma quiet_refl [simp, intro!]: "quiet s s"
  by (simp add: quiet_def)

lemma quiet_trans [trans]: "quiet s t \<Longrightarrow> quiet t u \<Longrightarrow> quiet s u"
  unfolding quiet_def by (metis append.assoc list_all_append)

lemma quiet_same:
  "trace t = trace s @ xs \<Longrightarrow> list_all no_callback xs \<Longrightarrow> stream_filters t = stream_filters s \<Longrightarrow>
   eof_called t = eof_called s \<Longrightarrow> quiet s t"
  by (auto simp: quiet_def phase_of_def)

lemma quiet_set_filter:
  assumes "connected f = connected (stream_filters s ! i)"
  shows "quiet s (set_filter i f s)"
  using assms by (cases "stream_filters s"; cases i) (auto simp: quiet_def phase_of_def)

lemma quiet_on_filter:
  assumes "on_filter i g s = Inr t"
    and "\<And>w f w'. g (stream_filters s ! i) w = Inr (f, w') \<Longrightarrow> connected f = connected (stream_filters s ! i)"
  shows "quiet s t"
proof -
  from assms(1) obtain f w where g: "g (stream_filters s ! i) (world s) = Inr (f, w)"
    and t: "t = set_filter i f (s\<lparr>world := w\<rparr>)" by (auto simp: on_filter_def)
  have "quiet s (s\<lparr>world := w\<rparr>)" by (rule quiet_same) auto
  also have "quiet (s\<lparr>world := w\<rparr>) t"
    unfolding t by (rule quiet_set_filter) (use assms(2) [OF g] in simp)
  finally show ?thesis .
qed

lemma filter_write_connected: "filter_write vt i ds f w = Inr (g, w') \<Longrightarrow> connected g = connected f"
  by (auto simp: filter_write_def)

lemma filter_close_connected: "filter_close vt i f w = Inr (g, w') \<Longrightarrow> connected g = connected f"
  by (auto simp: filter_close_def filter_shutdown_def Let_def split: if_splits)

lemma sb_write_quiet: "quiet s (sb_write d s)"
  by (rule quiet_same [where xs = "if d = [] \<or> should_close s then [] else
        Ob_queued d # (if pending_writes s = [] \<and> has_event s then [Ob_ready Ev_Write] else [])"])
     (auto simp: sb_write_trace)

lemma sb_close_quiet: "quiet s (sb_close s)"
  by (rule quiet_same [where xs = "if has_event s then [Ob_ready Ev_Close] else []"]) auto

lemma sb_add_filter_quiet:
  assumes "sb_add_filter f s = Inr t" and "stream_filters s \<noteq> []"
  shows "quiet s t"
proof -
  obtain fs g where fs: "stream_filters s = fs @ [g]"
    using assms(2) by (cases "stream_filters s" rule: rev_cases) auto
  with assms(1) show ?thesis
    by (cases fs) (auto simp: quiet_def phase_of_def sb_add_filter_def split: if_splits)
qed

lemma run_actions_quiet: "run_actions as s = Inr t \<Longrightarrow> stream_filters s \<noteq> [] \<Longrightarrow> quiet s t"
proof (induction as arbitrary: s)
  case (Cons a as)
  then obtain u where u: "run_action a s = Inr u" "run_actions as u = Inr t" by auto
  have "quiet s u"
    using u(1) Cons.prems(2) by (cases a) (auto intro: sb_write_quiet sb_close_quiet sb_add_filter_quiet)
  also have "quiet u t"
    using Cons.IH [OF u(2)] evolves_nonempty [OF run_action_evolves [OF u(1)] Cons.prems(2)] by simp
  finally show ?case .
qed simp

text \<open>A callback is one move of the automaton; the calls the application makes in it are silent.\<close>

lemma callback_obeys:
  assumes "callback ob f s = Inr t" and "stream_filters s \<noteq> []"
    and "phase_run Opening (trace s) = Some p" and "phase_step p ob = Some (phase_of s)"
  shows "obeys t" and "phase_of t = phase_of s"
proof -
  from assms(1) obtain as h where r: "run_actions as (emit ob (s\<lparr>app_state := h\<rparr>)) = Inr t"
    by (rule callback_elim)
  let ?u = "emit ob (s\<lparr>app_state := h\<rparr>)"
  have q: "quiet ?u t" using run_actions_quiet [OF r] assms(2) by simp
  have ph: "phase_of ?u = phase_of s" by (simp add: phase_of_def)
  have "obeys ?u" using assms(3,4) by (simp add: obeys_def phase_run_append ph)
  with q show "obeys t" by (rule quiet_obeys)
  show "phase_of t = phase_of s" using q ph by (simp add: quiet_def)
qed

lemma do_write_quiet:
  assumes "do_write vt s = Inr t"
  shows "quiet s t"
  using assms
proof (cases rule: do_write_elim)
  case (writing f w)
  have "quiet s (s\<lparr>pending_writes := [], world := w\<rparr>)" by (rule quiet_same) auto
  also have "quiet (s\<lparr>pending_writes := [], world := w\<rparr>) t"
    unfolding writing(4) by (rule quiet_set_filter) (use filter_write_connected [OF writing(3)] in simp)
  finally show ?thesis .
qed simp_all

lemma close_down_quiet: "close_down vt n s = Inr t \<Longrightarrow> quiet s t"
proof (induction n arbitrary: s)
  case (Suc i)
  then obtain u where u: "(if \<not> filter_closed (stream_filters s ! i)
       then on_filter i (filter_close vt i) s else Inr s) = Inr u"
    and t: "(if \<not> filter_closed (stream_filters u ! i) then Inr u else close_down vt i u) = Inr t"
    by auto
  have "quiet s u"
    using u by (auto split: if_splits intro: quiet_on_filter dest: filter_close_connected)
  also have "quiet u t" using t Suc.IH by (auto split: if_splits)
  finally show ?case .
qed simp

lemma do_close_quiet: "do_close vt s = Inr t \<Longrightarrow> quiet s t"
  by (auto simp: do_close_def split: if_splits intro: quiet_trans
      dest: do_write_quiet close_down_quiet)

lemma top_connected_hd:
  assumes "chain_inv s" and "is_connected s"
  shows "connected (hd (stream_filters s))"
proof (cases "length (stream_filters s) = 1")
  case True
  with assms show ?thesis by (cases "stream_filters s") (auto simp: is_connected_def top_ix_def)
next
  case False
  with assms(1) show ?thesis
    by (cases "stream_filters s") (auto simp: chain_inv_def chain_ok_def)
qed

lemma sb_inv_chain: "sb_inv s \<Longrightarrow> chain_inv s \<and> stream_filters s \<noteq> [] \<and> \<not> add_filter_allowed s"
  by (simp add: sb_inv_def chain_inv_def)

text \<open>What holds of a stream buffer in every round of \<open>Read\<close>.\<close>

definition in_stream :: "('w, 'h) sbuf \<Rightarrow> bool" where
  "in_stream s \<longleftrightarrow> obeys s \<and> phase_of s = Streaming \<and> stream_filters s \<noteq> []"

lemma in_stream_quiet: "in_stream s \<Longrightarrow> quiet s t \<Longrightarrow> stream_filters t \<noteq> [] \<Longrightarrow> in_stream t"
  using quiet_obeys [of s t] by (simp add: in_stream_def quiet_def)

lemma filter_in_quiet: "filter_in vt i s = Inr (r, t) \<Longrightarrow> quiet s t \<and> stream_filters t = stream_filters s"
  by (auto simp: filter_in_def intro: quiet_same)

lemma filter_in_in_stream: "filter_in vt i s = Inr (r, t) \<Longrightarrow> in_stream s \<Longrightarrow> in_stream t"
  using filter_in_quiet [of vt i s r t] in_stream_quiet [of s t] by (simp add: in_stream_def)

lemma handle_data_in_stream:
  assumes "handle_data app d s = Inr t" and "in_stream s"
  shows "in_stream t"
proof (cases "handler_alive s")
  case True
  with assms(1) have cb: "callback (Ob_data d) (on_data app d) s = Inr t" by (simp add: handle_data_def)
  from assms(2) have px: "phase_run Opening (trace s) = Some Streaming"
    "phase_step Streaming (Ob_data d) = Some (phase_of s)" "stream_filters s \<noteq> []" "phase_of s = Streaming"
    by (simp_all add: in_stream_def obeys_def)
  from callback_obeys [OF cb px(3,1,2)] px(4) evolves_nonempty [OF callback_evolves [OF cb] px(3)]
  show ?thesis by (simp add: in_stream_def)
next
  case False
  with assms show ?thesis by (simp add: handle_data_def)
qed

lemma read_closing_quiet: "quiet s (set_filter i ((stream_filters s ! i)\<lparr>read_closed := True\<rparr>) s)"
  by (rule quiet_set_filter) simp

lemma do_read_obeys:
  assumes "do_read vt app s = Some (Inr t)" and "obeys s" and "phase_of s = Streaming"
    and "stream_filters s \<noteq> []"
  shows "obeys t \<and> phase_of t = Streaming"
  using assms(1)
proof (cases rule: do_read_elim)
  case (read c u)
  have "in_stream u"
    by (rule read_loop_rule [OF read(2), where P = in_stream and Q = "\<lambda>_. in_stream"])
       (use assms(2-4) in \<open>auto simp: in_stream_def [of s] dest: filter_in_in_stream handle_data_in_stream\<close>)
  moreover have "quiet u t"
    unfolding read(3) by (simp add: read_closing_quiet)
  ultimately show ?thesis using quiet_obeys [of u t] by (simp add: in_stream_def quiet_def)
qed (use assms in simp)

lemma do_connect_obeys:
  assumes "do_connect vt app s = Inr t" and "obeys s" and "chain_inv s" and "\<not> eof_called s"
  shows "obeys t"
proof -
  have ne: "stream_filters s \<noteq> []" using assms(3) by (simp add: chain_inv_def)
  from assms(1) show ?thesis
  proof (cases rule: do_connect_elim)
    case (pending w)
    have "quiet s t" unfolding pending(1) by (rule quiet_same) auto
    then show ?thesis using assms(2) by (rule quiet_obeys)
  next
    case (failed w)
    have "quiet s (s\<lparr>world := w\<rparr>)" by (rule quiet_same) auto
    also have "quiet (s\<lparr>world := w\<rparr>) t" unfolding failed(1) by (rule quiet_set_filter) simp
    finally show ?thesis using assms(2) by (rule quiet_obeys)
  next
    case (success w v)
    let ?u = "set_filter (top_ix s) ((top_filter s)\<lparr>connected := True\<rparr>)
         (s\<lparr>world := w, add_filter_allowed := True\<rparr>)"
    have up: "phase_of ?u = Streaming"
    proof (cases "top_ix s = 0")
      case True
      with ne assms(4) show ?thesis by (cases "stream_filters s") (auto simp: phase_of_def)
    next
      case False
      have "connected (stream_filters s ! 0)"
        using assms(3) False by (auto simp: chain_inv_def chain_ok_def top_ix_def)
      with ne False assms(4) show ?thesis
        by (cases "stream_filters s"; cases "top_ix s") (auto simp: phase_of_def)
    qed
    have step: "phase_step (phase_of s) Ob_connected = Some (phase_of ?u)"
      using assms(4) unfolding up by (auto simp: phase_of_def)
    have "obeys v"
      by (rule callback_obeys [OF success(1) _ _ step]) (use assms(2) ne in \<open>simp_all add: obeys_def\<close>)
    moreover have "quiet v t"
      unfolding success(2)
      by (rule quiet_same [where xs = "if has_event v then [Ob_modify_event] else []"])
         (auto simp: ev_call_trace)
    ultimately show ?thesis by (auto intro: quiet_obeys)
  qed
qed

lemma do_finalize_obeys:
  assumes "do_finalize vt app s = Inr t" and "obeys s" and "stream_filters s \<noteq> []"
  shows "obeys t"
proof (rule do_finalize_elim [OF assms(1)])
  fix u
  assume u: "(if \<not> should_close s \<and> read_closed (top_filter s)
      then do_close vt (s\<lparr>should_close := True\<rparr>) else Inr s) = Inr u"
    and t: "if is_read_closed u \<and> is_write_closed u \<and> \<not> eof_called u
     then \<exists>v. callback Ob_eof (on_eof app) (u\<lparr>eof_called := True\<rparr>) = Inr v \<and> t = close_event v
     else t = u"
  have "quiet s (s\<lparr>should_close := True\<rparr>)" by (rule quiet_same) auto
  with u have su: "quiet s u" by (auto split: if_splits dest: do_close_quiet intro: quiet_trans)
  then have ou: "obeys u" using assms(2) by (rule quiet_obeys)
  have "evolves s (s\<lparr>should_close := True\<rparr>)" by (rule evolves_same) simp_all
  with u have "evolves s u" by (auto split: if_splits dest: do_close_evolves intro: evolves_trans)
  then have ne: "stream_filters u \<noteq> []" using assms(3) by (rule evolves_nonempty)
  show "obeys t"
  proof (cases "is_read_closed u \<and> is_write_closed u \<and> \<not> eof_called u")
    case False
    with t ou show ?thesis by simp
  next
    case True
    with t obtain v where v: "callback Ob_eof (on_eof app) (u\<lparr>eof_called := True\<rparr>) = Inr v"
      and tv: "t = close_event v" by auto
    have step: "phase_step (phase_of u) Ob_eof = Some (phase_of (u\<lparr>eof_called := True\<rparr>))"
      using True by (auto simp: phase_of_def)
    have "obeys v"
      by (rule callback_obeys [OF v _ _ step]) (use ou ne in \<open>simp_all add: obeys_def\<close>)
    moreover have "quiet v t"
      unfolding tv
      by (rule quiet_same [where xs = "if has_event v then [Ob_close_event] else []"])
         (auto simp: ev_call_trace)
    ultimately show ?thesis by (auto intro: quiet_obeys)
  qed
qed

lemma handle_events_obeys:
  assumes "handle_events vt app s = Some (Inr t)" and "obeys s" and "sb_inv s"
  shows "obeys t"
  using assms(1)
proof (cases rule: handle_events_elim)
  case dead
  have "quiet s t"
    unfolding dead(2)
    by (rule quiet_same [where xs = "if has_event s then [Ob_close_event] else []"]) (auto simp: ev_call_trace)
  then show ?thesis using assms(2) by (rule quiet_obeys)
next
  case (closing u)
  from quiet_obeys [OF do_close_quiet [OF closing(3)] assms(2)]
    evolves_nonempty [OF do_close_evolves [OF closing(3)]] sb_inv_chain [OF assms(3)]
  show ?thesis by (auto intro: do_finalize_obeys [OF closing(4)])
next
  case (connecting u)
  have "\<not> eof_called s" using connecting(2) assms(3) by (auto simp: sb_inv_def)
  with do_connect_obeys [OF connecting(4) assms(2)] sb_inv_chain [OF assms(3)]
    evolves_nonempty [OF do_connect_evolves [OF connecting(4)]]
  show ?thesis by (auto intro: do_finalize_obeys [OF connecting(5)])
next
  case (open_io u v)
  have c: "chain_inv s" "stream_filters s \<noteq> []" using sb_inv_chain [OF assms(3)] by simp_all
  have "phase_of s = Streaming"
    using top_connected_hd [OF c(1) open_io(3)] open_io(2) assms(3) by (auto simp: phase_of_def sb_inv_def)
  from do_read_obeys [OF open_io(4) assms(2) this c(2)] have "obeys u" by simp
  with do_write_quiet [OF open_io(5)] have "obeys v" by (rule quiet_obeys)
  moreover have "stream_filters v \<noteq> []"
    using evolves_trans [OF do_read_evolves [OF open_io(4)] do_write_evolves [OF open_io(5)]] c(2)
    by (rule evolves_nonempty)
  ultimately show ?thesis using open_io(6) by (blast intro: do_finalize_obeys)
qed


subsection \<open>Reachable states\<close>

text \<open>
  The moves of a stream buffer: \<open>Attach\<close>, the public calls, an event, the destruction of the
  handler, and a move of the world outside (the relation \<open>env\<close>).  A call that throws or does not
  return is no move.  Calls from several threads are taken one after the other.
\<close>

inductive sb_step ::
  "'w vtable \<Rightarrow> 'h app \<Rightarrow> ('w \<Rightarrow> 'w \<Rightarrow> bool) \<Rightarrow> ('w, 'h) sbuf \<Rightarrow> ('w, 'h) sbuf \<Rightarrow> bool"
  for vt app env where
  attach: "\<not> has_event s \<Longrightarrow> sb_step vt app env s (s\<lparr>has_event := True\<rparr>)"
| user_write: "sb_step vt app env s (sb_write d s)"
| user_close: "sb_step vt app env s (sb_close s)"
| event: "handle_events vt app s = Some (Inr t) \<Longrightarrow> sb_step vt app env s t"
| handler_gone: "sb_step vt app env s (s\<lparr>handler_alive := False\<rparr>)"
| outside: "env (world s) w \<Longrightarrow> sb_step vt app env s (s\<lparr>world := w\<rparr>)"

inductive_cases sb_stepE: "sb_step vt app env s t"

inductive sb_reach ::
  "'w vtable \<Rightarrow> 'h app \<Rightarrow> ('w \<Rightarrow> 'w \<Rightarrow> bool) \<Rightarrow> ('w, 'h) sbuf \<Rightarrow> ('w, 'h) sbuf \<Rightarrow> bool"
  for vt app env s0 where
  start: "sb_reach vt app env s0 s0"
| move: "sb_reach vt app env s0 s \<Longrightarrow> sb_step vt app env s t \<Longrightarrow> sb_reach vt app env s0 t"

lemma sb_inv_same:
  assumes "sb_inv s" and "stream_filters t = stream_filters s" and "trace t = trace s"
    and "pending_writes t = pending_writes s" and "add_filter_allowed t = add_filter_allowed s"
    and "eof_called t = eof_called s" and "should_close t = should_close s"
  shows "sb_inv t"
  using assms by (simp add: sb_inv_def chain_inv_def eofs_def)

text \<open>A move is a public call, an event, or leaves everything but its own field alone.\<close>

lemma sb_step_split:
  assumes "sb_step vt app env s t"
  obtains (api) d where "t = sb_write d s \<or> t = sb_close s"
  | (handled) "handle_events vt app s = Some (Inr t)"
  | (frame) "stream_filters t = stream_filters s" "trace t = trace s" "pending_writes t = pending_writes s"
      "add_filter_allowed t = add_filter_allowed s" "eof_called t = eof_called s"
      "should_close t = should_close s" "sb_mode t = sb_mode s" "app_state t = app_state s"
      "world t = world s \<or> env (world s) (world t)"
  using assms
proof (cases rule: sb_step.cases)
  case attach
  then show ?thesis by (intro frame) simp_all
next
  case (user_write d)
  then show ?thesis by (rule api [OF disjI1])
next
  case user_close
  then show ?thesis by (rule api [OF disjI2])
next
  case event
  then show ?thesis by (rule handled)
next
  case handler_gone
  then show ?thesis by (intro frame) simp_all
next
  case (outside w)
  then show ?thesis by (intro frame) simp_all
qed

lemma sb_step_inv:
  assumes "sb_step vt app env s t" and "sb_inv s"
  shows "sb_inv t"
  using assms(1)
proof (cases rule: sb_step_split)
  case (api d)
  with assms(2) show ?thesis by (auto intro: sb_write_inv sb_close_inv)
next
  case handled
  then show ?thesis using assms(2) by (rule handle_events_inv)
next
  case frame
  show ?thesis by (rule sb_inv_same [OF assms(2) frame(1-6)])
qed

lemma sb_reach_inv: "sb_reach vt app env s0 s \<Longrightarrow> sb_inv s0 \<Longrightarrow> sb_inv s"
  by (induction rule: sb_reach.induct) (auto intro: sb_step_inv)

lemma obeys_same:
  "obeys s \<Longrightarrow> stream_filters t = stream_filters s \<Longrightarrow> trace t = trace s \<Longrightarrow>
   eof_called t = eof_called s \<Longrightarrow> obeys t"
  by (simp add: obeys_def phase_of_def)

lemma sb_step_obeys:
  assumes "sb_step vt app env s t" and "obeys s" and "sb_inv s"
  shows "obeys t"
  using assms(1)
proof (cases rule: sb_step_split)
  case (api d)
  with assms(2) show ?thesis by (auto intro: quiet_obeys [OF sb_write_quiet] quiet_obeys [OF sb_close_quiet])
next
  case handled
  then show ?thesis using assms(2,3) by (rule handle_events_obeys)
next
  case frame
  show ?thesis by (rule obeys_same [OF assms(2) frame(1,2,5)])
qed

lemma sb_reach_obeys: "sb_reach vt app env s0 s \<Longrightarrow> obeys s0 \<Longrightarrow> sb_inv s0 \<Longrightarrow> obeys s"
  by (induction rule: sb_reach.induct) (auto intro: sb_step_obeys sb_reach_inv)

lemma sb_create_start:
  assumes "sb_create alive m w h = Inr s"
  shows "s = \<lparr>handler_alive = alive, stream_filters = [new_filter\<lparr>order_no := 0\<rparr>], pending_writes = [],
     add_filter_allowed = False, eof_called = False, should_close = False, sb_mode = m,
     has_event = False, world = w, app_state = h, trace = []\<rparr>"
  using assms by (simp add: sb_create_def sb_add_filter_def sb_new_def)

lemma sb_create_obeys: "sb_create alive m w h = Inr s \<Longrightarrow> obeys s"
  by (auto dest!: sb_create_start simp: obeys_def phase_of_def new_filter_def)

text \<open>Flags that are once set stay set, whatever happens.\<close>

definition grows :: "('w, 'h) sbuf \<Rightarrow> ('w, 'h) sbuf \<Rightarrow> bool" where
  "grows s t \<longleftrightarrow>
     length (stream_filters s) \<le> length (stream_filters t)
   \<and> (\<forall>i < length (stream_filters s). filt_le (stream_filters s ! i) (stream_filters t ! i))
   \<and> (eof_called s \<longrightarrow> eof_called t) \<and> (should_close s \<longrightarrow> should_close t)
   \<and> prefix (trace s) (trace t) \<and> sb_mode t = sb_mode s"

lemma evolves_grows: "evolves s t \<Longrightarrow> grows s t"
  by (simp add: evolves_def grows_def)

lemma grows_trans: "grows s t \<Longrightarrow> grows t u \<Longrightarrow> grows s u"
  unfolding grows_def
  by (auto intro: filt_le_trans prefix_order.trans)

lemma grows_same:
  "stream_filters t = stream_filters s \<Longrightarrow> eof_called t = eof_called s \<Longrightarrow>
   should_close t = should_close s \<Longrightarrow> trace t = trace s \<Longrightarrow> sb_mode t = sb_mode s \<Longrightarrow> grows s t"
  by (simp add: grows_def)

lemma sb_step_grows:
  assumes "sb_step vt app env s t"
  shows "grows s t"
  using assms
proof (cases rule: sb_step_split)
  case (api d)
  then show ?thesis by (auto intro: evolves_grows sb_write_evolves sb_close_evolves)
next
  case handled
  then show ?thesis by (intro evolves_grows handle_events_evolves)
next
  case frame
  show ?thesis by (rule grows_same [OF frame(1,5,6,2,7)])
qed

lemma sb_reach_grows: "sb_reach vt app env s0 s \<Longrightarrow> grows s0 s"
  by (induction rule: sb_reach.induct) (auto intro: grows_trans sb_step_grows grows_same)


subsection \<open>Runs that compute\<close>

text \<open>The moves as data, so that a concrete run can be evaluated.\<close>

datatype move = M_attach | M_write bytes | M_close | M_event | M_gone

fun run_moves ::
  "'w vtable \<Rightarrow> 'h app \<Rightarrow> move list \<Rightarrow> ('w, 'h) sbuf \<Rightarrow> (exn + ('w, 'h) sbuf) option" where
  "run_moves vt app [] s = Some (Inr s)"
| "run_moves vt app (M_attach # ms) s =
     (if has_event s then run_moves vt app ms s else run_moves vt app ms (s\<lparr>has_event := True\<rparr>))"
| "run_moves vt app (M_write d # ms) s = run_moves vt app ms (sb_write d s)"
| "run_moves vt app (M_close # ms) s = run_moves vt app ms (sb_close s)"
| "run_moves vt app (M_gone # ms) s = run_moves vt app ms (s\<lparr>handler_alive := False\<rparr>)"
| "run_moves vt app (M_event # ms) s =
     (case handle_events vt app s of
        None \<Rightarrow> None
      | Some (Inl e) \<Rightarrow> Some (Inl e)
      | Some (Inr t) \<Rightarrow> run_moves vt app ms t)"

lemma sb_reach_trans: "sb_reach vt app env s t \<Longrightarrow> sb_reach vt app env t u \<Longrightarrow> sb_reach vt app env s u"
  by (rotate_tac, induction rule: sb_reach.induct) (auto intro: sb_reach.intros)

lemma run_moves_reach: "run_moves vt app ms s = Some (Inr t) \<Longrightarrow> sb_reach vt app env s t"
proof (induction vt app ms s rule: run_moves.induct)
  case (2 vt app ms s)
  then show ?case
    by (cases "has_event s")
       (auto intro: sb_reach_trans [OF move [OF start attach]] sb_step.attach)
next
  case (3 vt app d ms s)
  then show ?case by (auto intro: sb_reach_trans [OF move [OF start user_write]])
next
  case (4 vt app ms s)
  then show ?case by (auto intro: sb_reach_trans [OF move [OF start user_close]])
next
  case (5 vt app ms s)
  then show ?case by (auto intro: sb_reach_trans [OF move [OF start handler_gone]])
next
  case (6 vt app ms s)
  then show ?case
    by (auto split: option.splits sum.splits intro: sb_reach_trans [OF move [OF start event]])
qed (auto intro: sb_reach.start)

lemmas stream_eval =
  handle_events_def do_read_def do_write_def do_close_def do_connect_def do_finalize_def on_filter_def
  filter_in_def handle_data_def callback_def is_connected_def top_ix_def is_read_closed_def
  is_write_closed_def sb_write_def sb_close_def sb_add_filter_def emit_def set_filter_def
  ready_event_def close_event_def modify_event_def Let_def bindE_def filter_closed_def
  filter_write_def filter_close_def filter_shutdown_def has_data_def result_defs
  tcp_in_def tcp_out_def tcp_connect_def tcp_accept_def tcp_shutdown_def tcp_buf_size_def
  scripted_def script_start_def read_loop.simps

text \<open>An application that only listens, a chain of the TCP filter alone, and one run of it.\<close>

definition listener_app :: "unit app" where
  "listener_app = \<lparr>on_data = (\<lambda>d h. ([], h)), on_connected = (\<lambda>h. ([], h)), on_eof = (\<lambda>h. ([], h))\<rparr>"

definition no_upper :: "script tcp vtable" where
  "no_upper =
     \<lparr>v_in = (\<lambda>i w. Inr (in_nothing, w)), v_out = (\<lambda>i d w. Inr ((out_ok, Some d), w)),
      v_shutdown = (\<lambda>i w. Inr (\<lparr>is_complete = False\<rparr>, w)),
      v_connect = (\<lambda>i w. Inr (Connect_pending, w)), v_accept = (\<lambda>i w. Inr (Connect_pending, w))\<rparr>"

definition tcp_only :: "script tcp vtable" where
  "tcp_only = stack_vt default_sink scripted no_upper"

definition fresh_client :: "script \<Rightarrow> (script tcp, unit) sbuf" where
  "fresh_client k = projr (create_for_client True 7 k ())"

lemma fresh_client_create:
  "sb_create True CLIENT_MODE \<lparr>tcp_handle = 7, pending_connect = True, kernel = k\<rparr> () = Inr (fresh_client k)"
  by (simp add: fresh_client_def create_for_client_def sb_create_def sb_add_filter_def sb_new_def)

definition script_a :: script where
  "script_a = script_start [Inr [1, 2], Inl EAGAIN] [Inr 2, Inr 5]"

definition moves_a :: "move list" where
  "moves_a = [M_attach, M_event, M_write [10, 20, 30], M_event, M_close, M_event]"

definition run_a :: "(script tcp, unit) sbuf" where
  "run_a = projr (the (run_moves tcp_only listener_app moves_a (fresh_client script_a)))"

lemma run_a_value:
  "run_moves tcp_only listener_app moves_a (fresh_client script_a) = Some (Inr run_a)
   \<and> trace run_a = [Ob_connected, Ob_modify_event, Ob_queued [10, 20, 30], Ob_ready Ev_Write, Ob_data [1, 2],
       Ob_ready Ev_Close, Ob_eof, Ob_close_event]
   \<and> sc_taken (kernel (world run_a)) = [10, 20, 30]"
  unfolding run_a_def moves_a_def fresh_client_def create_for_client_def sb_create_def
  by (simp add: stream_eval sb_new_def new_filter_def tcp_only_def listener_app_def script_a_def)


lemmas run_a_reach = run_moves_reach [OF conjunct1 [OF run_a_value]]

subsection \<open>Bytes on the way\<close>

text \<open>
  What the world may do between two calls without touching the history of the socket: the kernel
  changes state (data arrives, buffers drain), but neither takes nor hands out bytes.
\<close>

definition silent_env ::
  "('k, 'z) socket_calls_scheme \<Rightarrow> (('k, 'x) tcp_scheme \<Rightarrow> ('k, 'x) tcp_scheme \<Rightarrow> bool) \<Rightarrow> bool" where
  "silent_env K env \<longleftrightarrow>
     (\<forall>w w'. env w w' \<longrightarrow> tcp_sent K w' = tcp_sent K w \<and> tcp_received K w' = tcp_received K w)"

lemma silent_nothing: "silent_env K (\<lambda>_ _. False)"
  by (simp add: silent_env_def)

lemma sb_step_io:
  assumes "socket_ok K" and "silent_env K env" and "sb_step (stack_vt sink K up) app env s t"
    and "single t" and "out_inv K b s" and "in_inv K c s"
  shows "out_inv K b t \<and> in_inv K c t"
  using assms(3)
proof (cases rule: sb_step_split)
  case (api d)
  have "in_inv K c (sb_write d s)" "in_inv K c (sb_close s)"
    using assms(6) by (auto simp: in_inv_def sb_write_trace)
  with api assms(5) show ?thesis by (auto intro: sb_write_out sb_close_out)
next
  case handled
  from handle_events_io [OF assms(1,5,6) this assms(4)] show ?thesis .
next
  case frame
  have w: "tcp_sent K (world t) = tcp_sent K (world s)" "tcp_received K (world t) = tcp_received K (world s)"
    using frame(9) assms(2) by (auto simp: silent_env_def)
  have "out_inv K b t" by (rule out_inv_same [OF assms(5) frame(1,3) w(1)]) (simp add: frame(2))
  moreover have "in_inv K c t" using assms(6) w(2) frame(2) by (simp add: in_inv_def)
  ultimately show ?thesis by simp
qed

lemma grows_single: "grows s t \<Longrightarrow> single t \<Longrightarrow> stream_filters s \<noteq> [] \<Longrightarrow> single s"
  by (cases "stream_filters s") (auto simp: grows_def)

lemma sb_reach_io:
  assumes "sb_reach (stack_vt sink K up) app env s0 s" and "socket_ok K" and "silent_env K env"
    and "sb_inv s0" and "out_inv K b s0" and "in_inv K c s0" and "single s"
  shows "out_inv K b s \<and> in_inv K c s"
  using assms(1,7)
proof (induction rule: sb_reach.induct)
  case start
  with assms(5,6) show ?case by simp
next
  case (move s t)
  have "stream_filters s \<noteq> []" using sb_inv_chain [OF sb_reach_inv [OF move.hyps(1) assms(4)]] by simp
  with grows_single [OF sb_step_grows [OF move.hyps(2)] move.prems] have "single s" by simp
  with move.IH sb_step_io [OF assms(2,3) move.hyps(2) move.prems] show ?case by blast
qed

lemma sb_create_io:
  assumes "sb_create alive m w h = Inr s"
  shows "out_inv K (tcp_sent K w) s \<and> in_inv K (tcp_received K w) s"
  using sb_create_start [OF assms] by (simp add: out_inv_def in_inv_def unsent_def new_filter_def)

subsection \<open>Properties\<close>

text \<open>
  The handler's protocol.  In every reachable state of a stream buffer, for every kernel,
  every chain of filters and every application, the callbacks made so far are a run of the
  automaton: \<open>HandleConnected\<close> before any data, \<open>HandleEOF\<close> at most once and nothing after it;
  the automaton's state is the one the object's flags stand for.
\<close>

lemma stream_protocol:
  assumes "sb_create alive m w h = Inr s0" and "sb_reach vt app env s0 s"
  shows "phase_run Opening (trace s) = Some (phase_of s)"
  using sb_reach_obeys [OF assms(2) sb_create_obeys [OF assms(1)]] sb_create_inv [OF assms(1)]
  by (simp add: obeys_def)

lemma stream_protocol_witness:
  "phase_run Opening (trace run_a) = Some (phase_of run_a) \<and> Ob_eof \<in> set (trace run_a)"
  using stream_protocol [OF fresh_client_create run_a_reach] run_a_value by simp

text \<open>
  The end of a stream.  \<open>HandleEOF\<close> has been called exactly when the flag says so, once, and
  only when every filter of the chain is closed for reading and for writing and the object is
  closing; the links and the order numbers of the chain are intact, and no filter can be added.
\<close>

lemma stream_end_closed:
  assumes "sb_create alive m w h = Inr s0" and "sb_reach vt app env s0 s"
  shows "count_list (trace s) Ob_eof = (if eof_called s then 1 else 0)
    \<and> (eof_called s \<longrightarrow> should_close s \<and> list_all filter_closed (stream_filters s))
    \<and> chain_ok (stream_filters s) \<and> stream_filters s \<noteq> []
    \<and> sb_add_filter f s = Inl (Thrown ''filter added when it is not allowed'')"
  using sb_reach_inv [OF assms(2)] sb_create_inv [OF assms(1)]
  by (auto simp: sb_inv_def chain_inv_def eofs_def sb_add_filter_def)

lemma stream_end_closed_witness:
  "count_list (trace run_a) Ob_eof = 1 \<and> list_all filter_closed (stream_filters run_a)"
proof -
  have "count_list (trace run_a) Ob_eof = 1" using run_a_value by simp
  with stream_end_closed [OF fresh_client_create run_a_reach] show ?thesis by (auto split: if_splits)
qed

text \<open>
  Nothing is undone.  Whatever happens to a stream buffer, its filters stay connected, closed
  for reading and closed for writing once they are, the EOF and close flags stay set, and what it
  did to the outside is only ever appended to.
\<close>

lemma stream_monotone:
  assumes "sb_reach vt app env s t"
  shows "(\<forall>i < length (stream_filters s). filt_le (stream_filters s ! i) (stream_filters t ! i))
    \<and> (eof_called s \<longrightarrow> eof_called t) \<and> (should_close s \<longrightarrow> should_close t) \<and> prefix (trace s) (trace t)"
  using sb_reach_grows [OF assms] by (simp add: grows_def)

lemma stream_monotone_witness:
  "prefix (trace (fresh_client script_a)) (trace run_a)
   \<and> filt_le (stream_filters (fresh_client script_a) ! 0) (stream_filters run_a ! 0)"
  using stream_monotone [OF run_a_reach [where env = "\<lambda>_ _. False"]] fresh_client_create [of script_a]
  by (auto dest!: sb_create_start simp: new_filter_def)

text \<open>
  The order and the integrity of output.  In every reachable state of a TCP stream, what the
  kernel has taken followed by what is still held (first in the filter, then in the object) is
  exactly what \<open>Write\<close> accepted, in that order; after a write error, what the kernel has taken
  is a prefix of it.
\<close>

lemma stream_output_fifo:
  assumes "socket_ok K" and "silent_env K env" and "sb_create alive m w h = Inr s0"
    and "sb_reach (stack_vt sink K up) app env s0 s" and "length (stream_filters s) = 1"
  shows "tcp_sent K (world s) @ unsent s = tcp_sent K w @ queued_bytes (trace s)
    \<or> write_closed (hd (stream_filters s))
      \<and> prefix (tcp_sent K (world s)) (tcp_sent K w @ queued_bytes (trace s))"
  using sb_reach_io [OF assms(4,1,2) _ conjunct1 conjunct2, OF _ sb_create_io sb_create_io]
    sb_create_inv [OF assms(3)] assms(3,5)
  by (auto simp: out_inv_def)

text \<open>
  The integrity of input.  What the kernel handed out is exactly what the handler was given
  in \<open>HandleData\<close>, in that order.
\<close>

lemma stream_input_intact:
  assumes "socket_ok K" and "silent_env K env" and "sb_create alive m w h = Inr s0"
    and "sb_reach (stack_vt sink K up) app env s0 s" and "length (stream_filters s) = 1"
  shows "tcp_received K (world s) = tcp_received K w @ delivered_bytes (trace s)"
  using sb_reach_io [OF assms(4,1,2) _ conjunct1 conjunct2, OF _ sb_create_io sb_create_io]
    sb_create_inv [OF assms(3)] assms(3,5)
  by (auto simp: in_inv_def)

lemma run_a_single: "length (stream_filters run_a) = 1"
  unfolding run_a_def moves_a_def fresh_client_def create_for_client_def sb_create_def
  by (simp add: stream_eval sb_new_def new_filter_def tcp_only_def listener_app_def script_a_def)

lemmas run_a_facts = scripted_ok silent_nothing [of scripted] fresh_client_create [of script_a]
  run_a_reach [where env = "\<lambda>_ _. False", unfolded tcp_only_def] run_a_single

lemma stream_output_fifo_witness:
  "prefix (tcp_sent scripted (world run_a)) (queued_bytes (trace run_a))
   \<and> tcp_sent scripted (world run_a) = [10, 20, 30]"
  using stream_output_fifo [OF run_a_facts] run_a_value
  by (auto simp: tcp_sent_def scripted_def script_a_def script_start_def)

lemma stream_input_intact_witness:
  "tcp_received scripted (world run_a) = [1, 2]"
  using stream_input_intact [OF run_a_facts] run_a_value
  by (auto simp: tcp_received_def scripted_def script_a_def script_start_def)

end
