(* ===== verification/Stream_Buffer_Close.thy ===== *)
theory Stream_Buffer_Close
  imports Stream_Buffer_Run
begin

text \<open>
  Closing and failing: a graceful \<open>Close\<close> sends everything that was accepted before it and ends,
  the read loop ends when the kernel runs dry (and only then), a failed connect ends the stream,
  and output that the kernel took only in part waits for a \<open>Write\<close> or a \<open>Close\<close>.
\<close>

subsection \<open>Kernels without failures\<close>

text \<open>\<open>send\<close> fails at most with \<open>EAGAIN\<close>, and a pending connection has no error.\<close>

definition never_fails :: "('k, 'z) socket_calls_scheme \<Rightarrow> bool" where
  "never_fails K \<longleftrightarrow>
     (\<forall>h d k e k'. sc_send K h d k = (Inl e, k') \<longrightarrow> e = EAGAIN)
   \<and> (\<forall>h k e k'. sc_so_error K h k \<noteq> (Inr (Some e), k'))"

text \<open>\<open>send\<close> of a non-empty buffer takes at least one byte.\<close>

definition takes_some :: "('k, 'z) socket_calls_scheme \<Rightarrow> bool" where
  "takes_some K \<longleftrightarrow> (\<forall>h d k. d \<noteq> [] \<longrightarrow> (\<exists>n k'. sc_send K h d k = (Inr n, k') \<and> 1 \<le> n))"

lemma never_fails_send: "never_fails K \<Longrightarrow> sc_send K h d k = (Inl e, k') \<Longrightarrow> e = EAGAIN"
  unfolding never_fails_def by blast

lemma tcp_out_never_closes:
  "never_fails K \<Longrightarrow> tcp_out sink K d w = Inr ((r, d'), w') \<Longrightarrow> \<not> should_close_write r"
  by (auto simp: tcp_out_def Let_def dest: never_fails_send split: prod.splits sum.splits if_splits)

lemma flush_never_closes:
  "never_fails K \<Longrightarrow> flush_out (tcp_out sink K) ds w = Inr ((c, rest), w') \<Longrightarrow> \<not> c"
proof (induction ds arbitrary: w)
  case (Cons d ds)
  then obtain r d' w1 where o: "tcp_out sink K d w = Inr ((r, d'), w1)" by auto
  with tcp_out_never_closes [OF Cons.prems(1) o] Cons show ?case by (auto split: option.splits)
qed simp

lemma tcp_connect_never_fails:
  "never_fails K \<Longrightarrow> tcp_connect K w \<noteq> Inr (Connect_failed, w')"
  by (auto simp: tcp_connect_def never_fails_def Let_def split: prod.splits sum.splits option.splits if_splits)

subsection \<open>A closed write side has sent everything\<close>

definition sealed ::
  "('k, 'z) socket_calls_scheme \<Rightarrow> bytes \<Rightarrow> (('k, 'x) tcp_scheme, 'h) sbuf \<Rightarrow> bool" where
  "sealed K b s \<longleftrightarrow>
     (write_closed (hd (stream_filters s)) \<longrightarrow>
        should_close s \<and> unsent s = [] \<and> tcp_sent K (world s) = b @ queued s)"

lemma sealed_same:
  assumes "sealed K b s" and "stream_filters t = stream_filters s"
    and "pending_writes t = pending_writes s" and "tcp_sent K (world t) = tcp_sent K (world s)"
    and "queued t = queued s" and "should_close s \<Longrightarrow> should_close t"
  shows "sealed K b t"
  using assms by (simp add: sealed_def unsent_def)

lemma run_action_sealed:
  assumes "run_action a s = Inr t" and "sealed K b s" and "stream_filters s \<noteq> []"
  shows "sealed K b t"
proof (cases a)
  case (Act_write d)
  with assms(1,2) show ?thesis by (auto simp: sealed_def unsent_def sb_write_trace sb_write_pending)
next
  case Act_close
  with assms(1) have "t = sb_close s" by simp
  with assms(2) show ?thesis by (auto intro: sealed_same)
next
  case Act_add_filter
  obtain fs g where fs: "stream_filters s = fs @ [g]"
    using assms(3) by (cases "stream_filters s" rule: rev_cases) auto
  with Act_add_filter assms(1) have "world t = world s" "trace t = trace s" "pending_writes t = pending_writes s"
    "pending_out (hd (stream_filters t)) = pending_out (hd (stream_filters s))"
    "write_closed (hd (stream_filters t)) = write_closed (hd (stream_filters s))" "should_close t = should_close s"
    by (cases fs; auto simp: sb_add_filter_def split: if_splits)+
  with assms(2) show ?thesis by (simp add: sealed_def unsent_def)
qed

lemma run_actions_sealed:
  "run_actions as s = Inr t \<Longrightarrow> sealed K b s \<Longrightarrow> stream_filters s \<noteq> [] \<Longrightarrow> sealed K b t"
proof (induction as arbitrary: s)
  case (Cons a as)
  then obtain u where u: "run_action a s = Inr u" "run_actions as u = Inr t" by auto
  from run_action_sealed [OF u(1) Cons.prems(2,3)] evolves_nonempty [OF run_action_evolves [OF u(1)] Cons.prems(3)]
  show ?case by (rule Cons.IH [OF u(2)])
qed simp

lemma callback_sealed:
  assumes "callback ob f s = Inr t" and "\<And>d. ob \<noteq> Ob_queued d" and "sealed K b s" and "stream_filters s \<noteq> []"
  shows "sealed K b t"
proof -
  from assms(1) obtain as h where r: "run_actions as (emit ob (s\<lparr>app_state := h\<rparr>)) = Inr t"
    by (rule callback_elim)
  have "sealed K b (emit ob (s\<lparr>app_state := h\<rparr>))"
    using assms(2,3) by (cases ob) (auto intro: sealed_same)
  with r show ?thesis by (rule run_actions_sealed) (use assms(4) in simp)
qed

lemma sealed_set_filter:
  assumes "sealed K b s" and "pending_out f = pending_out (stream_filters s ! i)"
    and "write_closed f = write_closed (stream_filters s ! i)"
  shows "sealed K b (set_filter i f s)"
  using assms by (cases "stream_filters s"; cases i) (auto simp: sealed_def unsent_def)

lemma do_read_sealed:
  fixes s :: "(('k, 'x) tcp_scheme, 'h) sbuf"
  assumes "socket_ok K" and "single s" and "sealed K b s"
    and "do_read (stack_vt sink K up) app s = Some (Inr t)"
  shows "sealed K b t"
  using assms(4)
proof (cases rule: do_read_elim)
  case (read c u)
  define P :: "(('k, 'x) tcp_scheme, 'h) sbuf \<Rightarrow> bool" where "P x \<longleftrightarrow> sealed K b x \<and> stream_filters x \<noteq> []" for x
  have inp: "P x1" if "P x" "filter_in (stack_vt sink K up) (top_ix s) x = Inr (r, x1)" for x r x1
  proof -
    from that(2) assms(2) obtain w where w: "tcp_in K (world x) = Inr (r, w)" "x1 = x\<lparr>world := w\<rparr>"
      by (auto simp: filter_in_def)
    have "sealed K b x1"
      by (rule sealed_same [OF conjunct1 [OF that(1) [unfolded P_def]]])
         (use w tcp_in_sent [OF assms(1) w(1)] in simp_all)
    with that(1) w(2) show ?thesis by (simp add: P_def)
  qed
  have del: "P x1" if "P x" "handle_data app d x = Inr x1" for x d x1
    using that evolves_nonempty [OF handle_data_evolves [OF that(2)]]
    by (auto simp: P_def handle_data_def split: if_splits intro: callback_sealed)
  have "P u"
    by (rule read_loop_rule [OF read(2), where P = P and Q = "\<lambda>_. P"])
       (use assms(2,3) in \<open>auto simp: P_def [of s] dest: inp del\<close>)
  then show ?thesis unfolding read(3) by (auto simp: P_def intro: sealed_set_filter)
qed (use assms in simp)

lemma do_write_sealed:
  assumes "never_fails K" and "single s" and "sealed K b s"
    and "do_write (stack_vt sink K up) s = Inr t"
  shows "sealed K b t"
  using assms(4)
proof (cases rule: do_write_elim)
  case (writing f w)
  from writing(3) assms(2) obtain c rest where
    fl: "flush_out (tcp_out sink K) (pending_out (stream_filters s ! 0) @ pending_writes s) (world s)
        = Inr ((c, rest), w)"
    and f: "f = (stream_filters s ! 0)\<lparr>write_closed := write_closed (stream_filters s ! 0) \<or> c, pending_out := rest\<rparr>"
    by (auto simp: filter_write_def)
  obtain g where g: "stream_filters s = [g]" using assms(2) by (cases "stream_filters s") auto
  from flush_never_closes [OF assms(1) fl] writing(1) f g have "\<not> write_closed f" by (simp add: top_ix_def)
  with writing(4) g assms(2) show ?thesis by (simp add: sealed_def)
qed (use assms in simp_all)

lemma filter_close_flushing:
  assumes "filter_close (stack_vt sink K up) 0 g w0 = Inr (f, w)" and "pending_out g \<noteq> []" and "\<not> write_closed g"
  obtains c rest where "flush_out (tcp_out sink K) (pending_out g) w0 = Inr ((c, rest), w)"
    "f = (if rest = [] \<or> c then g\<lparr>read_closed := True, write_closed := True, pending_out := rest\<rparr>
          else g\<lparr>pending_out := rest\<rparr>)"
proof -
  from assms obtain c rest w1 where
    fl: "flush_out (tcp_out sink K) (pending_out g) w0 = Inr ((c, rest), w1)"
    by (auto simp: filter_close_def)
  have wc: "g\<lparr>write_closed := False, pending_out := rest\<rparr> = g\<lparr>pending_out := rest\<rparr>"
    using assms(3) by (cases g) simp
  show ?thesis
    using assms fl wc
    by (intro that [of c rest])
       (auto simp: filter_close_def filter_shutdown_def tcp_shutdown_def Let_def split: if_splits)
qed

lemma do_close_sealed:
  assumes "socket_ok K" and "never_fails K" and "single s" and "out_inv K b s" and "sealed K b s"
    and "should_close s" and "do_close (stack_vt sink K up) s = Inr t"
  shows "sealed K b t"
proof -
  from assms(7) obtain u where
    u: "(if list_all (\<lambda>f. \<not> write_closed f) (stream_filters s) then do_write (stack_vt sink K up) s
         else Inr s) = Inr u"
    and t: "close_down (stack_vt sink K up) (length (stream_filters u)) u = Inr t"
    by (auto simp: do_close_def)
  obtain g where g: "stream_filters s = [g]" using assms(3) by (cases "stream_filters s") auto
  have su: "out_inv K b u" "sealed K b u"
    using u do_write_out [OF assms(1,3,4)] do_write_sealed [OF assms(2,3,5)] assms(4,5)
    by (auto split: if_splits)
  have "evolves s u" using u by (auto split: if_splits dest: do_write_evolves)
  then have uc: "should_close u" using assms(6) by (auto simp: evolves_def)
  obtain h where h: "stream_filters u = [h]"
    using u g by (auto split: if_splits elim!: do_write_elim)
  have pw: "write_closed h \<or> pending_writes u = []"
    using u g h by (auto split: if_splits elim!: do_write_elim simp: top_ix_def)
  show ?thesis
  proof (cases "filter_closed h")
    case True
    with t h su(2) show ?thesis by simp
  next
    case False
    with t h obtain f w where f: "filter_close (stack_vt sink K up) 0 h (world u) = Inr (f, w)"
      and tf: "t = set_filter 0 f (u\<lparr>world := w\<rparr>)"
      by (auto simp: on_filter_def split: if_splits)
    show ?thesis
    proof (cases "pending_out h = [] \<or> write_closed h")
      case True
      with f have "f = h\<lparr>read_closed := True, write_closed := True\<rparr>" "w = world u"
        by (auto simp: filter_close_def filter_shutdown_def tcp_shutdown_def)
      with su True pw uc h tf show ?thesis by (auto simp: sealed_def unsent_def out_inv_def)
    next
      case nonempty: False
      with f obtain c rest where
        fl: "flush_out (tcp_out sink K) (pending_out h) (world u) = Inr ((c, rest), w)"
        and ff: "f = (if rest = [] \<or> c then h\<lparr>read_closed := True, write_closed := True, pending_out := rest\<rparr>
          else h\<lparr>pending_out := rest\<rparr>)"
        by (auto elim!: filter_close_flushing)
      from ff nonempty have p: "pending_out f = rest" and c: "write_closed f \<longrightarrow> c \<or> rest = []"
        by (auto split: if_splits)
      from flush_never_closes [OF assms(2) fl] have nc: "\<not> c" .
      from tcp_flush_cases(1) [OF assms(1) fl nc] su(1) nonempty pw h
      have "tcp_sent K w @ concat rest = b @ queued u" by (simp add: out_inv_def unsent_def)
      with c nc p uc pw nonempty h tf show ?thesis by (auto simp: sealed_def unsent_def)
    qed
  qed
qed


lemma do_connect_sealed:
  assumes "socket_ok K" and "never_fails K" and "single s" and "sealed K b s"
    and "do_connect (stack_vt sink K up) app s = Inr t"
  shows "sealed K b t"
proof -
  have ne: "stream_filters s \<noteq> []" using assms(3) by auto
  have frame: "tcp_sent K w = tcp_sent K (world s)" "r \<noteq> Connect_failed"
    if "(if sb_mode s = CLIENT_MODE then v_connect (stack_vt sink K up) (top_ix s) (world s)
        else v_accept (stack_vt sink K up) (top_ix s) (world s)) = Inr (r, w)" for r w
    using that assms(3) tcp_connect_frame [OF assms(1)] tcp_connect_never_fails [OF assms(2), of "world s" w]
    by (auto simp: tcp_accept_def split: if_splits)
  from assms(5) show ?thesis
  proof (cases rule: do_connect_elim)
    case (pending w)
    with frame [OF pending(2)] assms(4) show ?thesis by (auto intro: sealed_same)
  next
    case (failed w)
    with frame [OF failed(2)] show ?thesis by simp
  next
    case (success w v)
    have "sealed K b (s\<lparr>world := w, add_filter_allowed := True\<rparr>)"
      by (rule sealed_same [OF assms(4)]) (use frame [OF success(3)] in simp_all)
    then have "sealed K b (set_filter (top_ix s) ((top_filter s)\<lparr>connected := True\<rparr>)
            (s\<lparr>world := w, add_filter_allowed := True\<rparr>))"
      by (rule sealed_set_filter) simp_all
    from callback_sealed [OF success(1) _ this] ne have "sealed K b v" by simp
    then show ?thesis unfolding success(2) by (rule sealed_same) (simp_all add: ev_call_trace)
  qed
qed

lemma do_finalize_sealed:
  assumes "socket_ok K" and "never_fails K" and "single s" and "out_inv K b s" and "sealed K b s"
    and "do_finalize (stack_vt sink K up) app s = Inr t"
  shows "sealed K b t"
proof (rule do_finalize_elim [OF assms(6)])
  fix u
  assume u: "(if \<not> should_close s \<and> read_closed (top_filter s)
      then do_close (stack_vt sink K up) (s\<lparr>should_close := True\<rparr>) else Inr s) = Inr u"
    and t: "if is_read_closed u \<and> is_write_closed u \<and> \<not> eof_called u
     then \<exists>v. callback Ob_eof (on_eof app) (u\<lparr>eof_called := True\<rparr>) = Inr v \<and> t = close_event v
     else t = u"
  have U: "sealed K b u \<and> stream_filters u \<noteq> []"
  proof (cases "\<not> should_close s \<and> read_closed (top_filter s)")
    case True
    have o: "out_inv K b (s\<lparr>should_close := True\<rparr>)" using assms(4) by (rule out_inv_same) simp_all
    have q: "sealed K b (s\<lparr>should_close := True\<rparr>)" using assms(5) by (rule sealed_same) simp_all
    from u have c: "do_close (stack_vt sink K up) (s\<lparr>should_close := True\<rparr>) = Inr u"
      unfolding if_P [OF True] .
    from do_close_sealed [OF assms(1,2) _ o q _ c] assms(3)
      evolves_nonempty [OF do_close_evolves [OF c]] show ?thesis by fastforce
  next
    case False
    have "s = u" using u unfolding if_not_P [OF False] by (simp only: sum.inject)
    with assms(3,5) show ?thesis by auto
  qed
  show ?thesis
  proof (cases "is_read_closed u \<and> is_write_closed u \<and> \<not> eof_called u")
    case True
    from t [unfolded if_P [OF True]] obtain v where
      v: "callback Ob_eof (on_eof app) (u\<lparr>eof_called := True\<rparr>) = Inr v"
      and tv: "t = close_event v" by blast
    have "sealed K b (u\<lparr>eof_called := True\<rparr>)" by (rule sealed_same [OF conjunct1 [OF U]]) simp_all
    from callback_sealed [OF v _ this] U have "sealed K b v" by simp
    then show ?thesis unfolding tv by (rule sealed_same) (simp_all add: ev_call_trace)
  next
    case False
    with t U show ?thesis by auto
  qed
qed

lemma handle_events_sealed:
  assumes "socket_ok K" and "never_fails K" and "out_inv K b s" and "sealed K b s"
    and "handle_events (stack_vt sink K up) app s = Some (Inr t)" and "single t"
  shows "sealed K b t"
proof -
  note ne = out_inv_nonempty [OF assms(3)]
  have s1: "single s" by (rule evolves_single [OF handle_events_evolves [OF assms(5)] assms(6) ne])
  have fin: "sealed K b t" if "do_finalize (stack_vt sink K up) app u = Inr t" "out_inv K b u" "sealed K b u" for u
  proof -
    have "single u" by (rule evolves_single [OF do_finalize_evolves [OF that(1)] assms(6) out_inv_nonempty [OF that(2)]])
    from do_finalize_sealed [OF assms(1,2) this that(2,3,1)] show ?thesis .
  qed
  from assms(5) show ?thesis
  proof (cases rule: handle_events_elim)
    case dead
    show ?thesis unfolding dead(2) using assms(4) by (rule sealed_same) (simp_all add: ev_call_trace)
  next
    case (closing u)
    from do_close_out [OF assms(1) s1 assms(3) closing(3)]
      do_close_sealed [OF assms(1,2) s1 assms(3,4) closing(2,3)] show ?thesis by (auto intro: fin closing(4))
  next
    case (connecting u)
    from do_connect_io [OF assms(1) s1 assms(3) connecting(4)]
      do_connect_sealed [OF assms(1,2) s1 assms(4) connecting(4)] show ?thesis by (auto intro: fin connecting(5))
  next
    case (open_io u v)
    note u = do_read_out [OF assms(1) s1 assms(3) open_io(4)] do_read_sealed [OF assms(1) s1 assms(4) open_io(4)]
    have su: "single u"
      by (rule evolves_single [OF evolves_trans [OF do_write_evolves [OF open_io(5)] do_finalize_evolves [OF open_io(6)]]
            assms(6) out_inv_nonempty [OF u(1)]])
    from do_write_out [OF assms(1) su u(1) open_io(5)] do_write_sealed [OF assms(2) su u(2) open_io(5)]
    show ?thesis by (auto intro: fin open_io(6))
  qed
qed

lemma sb_step_sealed:
  assumes "socket_ok K" and "silent_env K env" and "never_fails K"
    and "sb_step (stack_vt sink K up) app env s t" and "single t" and "out_inv K b s" and "sealed K b s"
  shows "sealed K b t"
  using assms(4)
proof (cases rule: sb_step_split)
  case (api d)
  have "run_action (Act_write d) s = Inr (sb_write d s)" "run_action Act_close s = Inr (sb_close s)" by simp_all
  with api run_action_sealed [OF _ assms(7) out_inv_nonempty [OF assms(6)]] show ?thesis by blast
next
  case handled
  from handle_events_sealed [OF assms(1,3,6,7) this assms(5)] show ?thesis .
next
  case frame
  have "tcp_sent K (world t) = tcp_sent K (world s)" using frame(9) assms(2) by (auto simp: silent_env_def)
  with frame show ?thesis by (intro sealed_same [OF assms(7)]) simp_all
qed

lemma sb_reach_sealed:
  assumes "sb_reach (stack_vt sink K up) app env s0 s" and "socket_ok K" and "silent_env K env" and "never_fails K"
    and "sb_inv s0" and "out_inv K b s0" and "in_inv K c s0" and "sealed K b s0" and "single s"
  shows "sealed K b s"
  using assms(1,9)
proof (induction rule: sb_reach.induct)
  case start
  with assms(8) show ?case by simp
next
  case (move s t)
  have "stream_filters s \<noteq> []" using sb_inv_chain [OF sb_reach_inv [OF move.hyps(1) assms(5)]] by simp
  with grows_single [OF sb_step_grows [OF move.hyps(2)] move.prems] have s1: "single s" by simp
  from sb_reach_io [OF move.hyps(1) assms(2,3,5,6,7) s1] have "out_inv K b s" by simp
  from sb_step_sealed [OF assms(2,3,4) move.hyps(2) move.prems this] move.IH [OF s1] show ?case by simp
qed

lemma sb_create_sealed: "sb_create alive m w h = Inr s \<Longrightarrow> sealed K b s"
  by (auto dest!: sb_create_start simp: sealed_def new_filter_def)

subsection \<open>Properties of closing\<close>

text \<open>
  A graceful end loses nothing.  On a TCP stream whose kernel reports no write error and no
  failed connection, when the handler is told EOF (after the application's \<open>Close\<close> or the peer's),
  everything that \<open>Write\<close> ever accepted has been sent, in order, and nothing is left behind.
\<close>

lemma eof_after_flush:
  assumes "socket_ok K" and "silent_env K env" and "never_fails K" and "sb_create alive m w h = Inr s0"
    and "sb_reach (stack_vt sink K up) app env s0 s" and "length (stream_filters s) = 1" and "eof_called s"
  shows "tcp_sent K (world s) = tcp_sent K w @ queued_bytes (trace s) \<and> unsent s = []"
proof -
  have inv: "sb_inv s0" using sb_create_inv [OF assms(4)] by simp
  from sb_reach_sealed [OF assms(5,1,2,3) inv _ _ sb_create_sealed [OF assms(4)] assms(6)]
    sb_create_io [OF assms(4), of K]
  have "sealed K (tcp_sent K w) s" by blast
  moreover have "write_closed (hd (stream_filters s))"
    using sb_reach_inv [OF assms(5) inv] assms(6,7)
    by (cases "stream_filters s") (auto simp: sb_inv_def filter_closed_def)
  ultimately show ?thesis by (simp add: sealed_def)
qed

definition calm :: "script socket_calls" where
  "calm = scripted\<lparr>sc_send := \<lambda>h d k.
     if d = [] then (Inr 0, k)
     else (Inr (int (min 2 (length d))), k\<lparr>sc_taken := sc_taken k @ take 2 d\<rparr>),
     sc_so_error := \<lambda>h k. (Inr None, k)\<rparr>"

lemma calm_ok: "socket_ok calm" "never_fails calm" "takes_some calm"
  by (auto simp: socket_ok_def never_fails_def takes_some_def calm_def scripted_def min_def Suc_le_eq split: list.splits sum.splits)

definition calm_vt :: "script tcp vtable" where
  "calm_vt = stack_vt default_sink calm no_upper"

definition moves_b :: "move list" where
  "moves_b = [M_attach, M_event, M_write [1, 2, 3, 4, 5], M_close, M_event, M_event]"

definition run_b :: "(script tcp, unit) sbuf" where
  "run_b = projr (the (run_moves calm_vt listener_app moves_b (fresh_client (script_start [] []))))"

lemma run_b_value:
  "run_moves calm_vt listener_app moves_b (fresh_client (script_start [] [])) = Some (Inr run_b)
   \<and> queued_bytes (trace run_b) = [1, 2, 3, 4, 5] \<and> eof_called run_b \<and> length (stream_filters run_b) = 1"
  unfolding run_b_def moves_b_def fresh_client_def create_for_client_def sb_create_def
  by (simp add: stream_eval sb_new_def new_filter_def calm_vt_def calm_def listener_app_def)

lemma eof_after_flush_witness:
  "tcp_sent calm (world run_b) = [1, 2, 3, 4, 5]"
  using eof_after_flush [OF calm_ok(1) silent_nothing calm_ok(2) fresh_client_create
      run_moves_reach [OF conjunct1 [OF run_b_value], unfolded calm_vt_def]] run_b_value
  by (simp add: tcp_sent_def calm_def scripted_def script_start_def)


subsection \<open>No empty view is ever held\<close>

abbreviation gap_free :: "('w, 'h) sbuf \<Rightarrow> bool" where
  "gap_free s \<equiv> no_empty (pending_out (hd (stream_filters s)))"

lemma run_actions_hd:
  "run_actions as s = Inr t \<Longrightarrow> stream_filters s \<noteq> [] \<Longrightarrow>
   pending_out (hd (stream_filters t)) = pending_out (hd (stream_filters s))"
proof (induction as arbitrary: s)
  case (Cons a as)
  then obtain u where u: "run_action a s = Inr u" "run_actions as u = Inr t" by auto
  have "pending_out (hd (stream_filters u)) = pending_out (hd (stream_filters s))"
  proof (cases a)
    case Act_add_filter
    obtain fs g where "stream_filters s = fs @ [g]"
      using Cons.prems(2) by (cases "stream_filters s" rule: rev_cases) auto
    with Act_add_filter u(1) show ?thesis by (cases fs) (auto simp: sb_add_filter_def split: if_splits)
  qed (use u(1) in auto)
  with Cons.IH [OF u(2)] evolves_nonempty [OF run_action_evolves [OF u(1)] Cons.prems(2)] show ?case by simp
qed simp

lemma callback_hd:
  "callback ob f s = Inr t \<Longrightarrow> stream_filters s \<noteq> [] \<Longrightarrow>
   pending_out (hd (stream_filters t)) = pending_out (hd (stream_filters s))"
  by (erule callback_elim) (auto dest: run_actions_hd)

lemma gap_free_update:
  "no_empty (pending_out (hd fs)) \<Longrightarrow> pending_out f = pending_out (fs ! i) \<Longrightarrow>
   no_empty (pending_out (hd (fs[i := f])))"
  by (cases fs; cases i) auto

lemma tcp_flush_gap_free:
  "socket_ok K \<Longrightarrow> no_empty ds \<Longrightarrow> flush_out (tcp_out sink K) ds w = Inr ((c, rest), w') \<Longrightarrow> no_empty rest"
  using tcp_chan.flush_rest_nonempty [of "(sink, K)"] by simp

lemma do_read_gap:
  assumes "do_read vt app s = Some (Inr t)" and "gap_free s" and "stream_filters s \<noteq> []"
  shows "gap_free t"
  using assms(1)
proof (cases rule: do_read_elim)
  case (read c u)
  define P :: "('a, 'b) sbuf \<Rightarrow> bool" where "P x \<longleftrightarrow> gap_free x \<and> stream_filters x \<noteq> []" for x
  have inp: "P x1" if "P x" "filter_in vt (top_ix s) x = Inr (r, x1)" for x r x1
    using that by (auto simp: P_def filter_in_def)
  have del: "P x1" if "P x" "handle_data app d x = Inr x1" for x d x1
    using that evolves_nonempty [OF handle_data_evolves [OF that(2)]] callback_hd [of _ _ x x1]
    by (auto simp: P_def handle_data_def split: if_splits)
  have "P u"
    by (rule read_loop_rule [OF read(2), where P = P and Q = "\<lambda>_. P"])
       (use assms(2,3) in \<open>auto simp: P_def [of s] dest: inp del\<close>)
  then show ?thesis unfolding read(3) by (auto simp: P_def intro: gap_free_update)
qed (use assms in simp)

lemma do_write_gap:
  assumes "socket_ok K" and "single s" and "chain_inv s" and "gap_free s"
    and "do_write (stack_vt sink K up) s = Inr t"
  shows "gap_free t"
  using assms(5)
proof (cases rule: do_write_elim)
  case (writing f w)
  from writing(3) assms(2) obtain c rest where
    fl: "flush_out (tcp_out sink K) (pending_out (stream_filters s ! 0) @ pending_writes s) (world s)
        = Inr ((c, rest), w)" and f: "pending_out f = rest"
    by (auto simp: filter_write_def)
  have "no_empty (pending_out (stream_filters s ! 0) @ pending_writes s)"
    using assms(3,4) by (simp add: chain_inv_def single_hd [OF assms(2)])
  from tcp_flush_gap_free [OF assms(1) this fl] f assms(2,4) writing(4) show ?thesis
    by (cases "stream_filters s") auto
qed (use assms in simp_all)

lemma do_close_gap:
  assumes "socket_ok K" and "single s" and "chain_inv s" and "gap_free s"
    and "do_close (stack_vt sink K up) s = Inr t"
  shows "gap_free t"
proof -
  from assms(5) obtain u where
    u: "(if list_all (\<lambda>f. \<not> write_closed f) (stream_filters s) then do_write (stack_vt sink K up) s
         else Inr s) = Inr u"
    and t: "close_down (stack_vt sink K up) (length (stream_filters u)) u = Inr t"
    by (auto simp: do_close_def)
  have gu: "gap_free u" using u do_write_gap [OF assms(1-4)] assms(4) by (auto split: if_splits)
  obtain g where g: "stream_filters s = [g]" using assms(2) by (cases "stream_filters s") auto
  obtain h where h: "stream_filters u = [h]"
    using u g by (auto split: if_splits elim!: do_write_elim)
  show ?thesis
  proof (cases "filter_closed h")
    case True
    with t h gu show ?thesis by simp
  next
    case False
    with t h obtain f w where f: "filter_close (stack_vt sink K up) 0 h (world u) = Inr (f, w)"
      and tf: "t = set_filter 0 f (u\<lparr>world := w\<rparr>)"
      by (auto simp: on_filter_def split: if_splits)
    show ?thesis
    proof (cases "pending_out h = [] \<or> write_closed h")
      case True
      with f have "pending_out f = pending_out h"
        by (auto simp: filter_close_def filter_shutdown_def tcp_shutdown_def)
      with tf h gu show ?thesis by simp
    next
      case False
      with f obtain c rest where fl: "flush_out (tcp_out sink K) (pending_out h) (world u) = Inr ((c, rest), w)"
        and "pending_out f = rest"
        by (elim filter_close_flushing) (auto split: if_splits)
      with tcp_flush_gap_free [OF assms(1) _ fl] tf h gu show ?thesis by simp
    qed
  qed
qed

lemma do_finalize_gap:
  assumes "socket_ok K" and "single s" and "chain_inv s" and "gap_free s"
    and "do_finalize (stack_vt sink K up) app s = Inr t"
  shows "gap_free t"
proof (rule do_finalize_elim [OF assms(5)])
  fix u
  assume u: "(if \<not> should_close s \<and> read_closed (top_filter s)
      then do_close (stack_vt sink K up) (s\<lparr>should_close := True\<rparr>) else Inr s) = Inr u"
    and t: "if is_read_closed u \<and> is_write_closed u \<and> \<not> eof_called u
     then \<exists>v. callback Ob_eof (on_eof app) (u\<lparr>eof_called := True\<rparr>) = Inr v \<and> t = close_event v
     else t = u"
  have "chain_inv (s\<lparr>should_close := True\<rparr>)" using assms(3) by (simp add: chain_inv_def)
  with u do_close_gap [OF assms(1), of "s\<lparr>should_close := True\<rparr>"] assms(2,4)
  have gu: "gap_free u" by (auto split: if_splits)
  have "evolves s (s\<lparr>should_close := True\<rparr>)" by (rule evolves_same) simp_all
  with u have "evolves s u" by (auto split: if_splits dest: do_close_evolves intro: evolves_trans)
  then have ne: "stream_filters u \<noteq> []" by (rule evolves_nonempty) (use assms(2) in auto)
  from t gu ne show ?thesis by (auto split: if_splits dest: callback_hd)
qed

lemma do_connect_gap:
  assumes "do_connect vt app s = Inr t" and "gap_free s" and "stream_filters s \<noteq> []"
  shows "gap_free t"
  using assms(1)
proof (cases rule: do_connect_elim)
  case (success w v)
  from callback_hd [OF success(1)] assms(2,3) have "gap_free v"
    by (cases "stream_filters s"; cases "top_ix s") auto
  then show ?thesis unfolding success(2) by simp
qed (use assms(2) in \<open>simp, auto intro!: gap_free_update\<close>)

lemma handle_events_gap:
  assumes "socket_ok K" and "sb_inv s" and "gap_free s"
    and "handle_events (stack_vt sink K up) app s = Some (Inr t)" and "single t"
  shows "gap_free t"
proof -
  have ne: "stream_filters s \<noteq> []" and ci: "chain_inv s" using sb_inv_chain [OF assms(2)] by simp_all
  have s1: "single s" by (rule evolves_single [OF handle_events_evolves [OF assms(4)] assms(5) ne])
  have fin: "gap_free t" if "do_finalize (stack_vt sink K up) app u = Inr t" "chain_inv u" "gap_free u" for u
  proof -
    have "single u"
      by (rule evolves_single [OF do_finalize_evolves [OF that(1)] assms(5)]) (use that(2) in \<open>simp add: chain_inv_def\<close>)
    from do_finalize_gap [OF assms(1) this that(2,3,1)] show ?thesis .
  qed
  from assms(4) show ?thesis
  proof (cases rule: handle_events_elim)
    case dead
    with assms(3) show ?thesis by simp
  next
    case (closing u)
    from do_close_keeps [OF closing(3)] ci have "chain_inv u" by (simp add: keeps_def)
    with do_close_gap [OF assms(1) s1 ci assms(3) closing(3)] show ?thesis by (intro fin [OF closing(4)])
  next
    case (connecting u)
    from do_connect_chain [OF connecting(4) ci] sb_inv_chain [OF assms(2)] have "chain_inv u" by blast
    with do_connect_gap [OF connecting(4) assms(3) ne] show ?thesis by (intro fin [OF connecting(5)])
  next
    case (open_io u v)
    note gu = do_read_gap [OF open_io(4) assms(3) ne]
    have cu: "chain_inv u" using do_read_keeps [OF open_io(4) ne] ci by (simp add: keeps_def)
    have cv: "chain_inv v" using do_write_keeps [OF open_io(5)] cu by (simp add: keeps_def)
    have su: "single u"
      by (rule evolves_single [OF evolves_trans [OF do_write_evolves [OF open_io(5)] do_finalize_evolves [OF open_io(6)]]
            assms(5)]) (use cu in \<open>simp add: chain_inv_def\<close>)
    from do_write_gap [OF assms(1) su cu gu open_io(5)] cv show ?thesis by (intro fin [OF open_io(6)])
  qed
qed

lemma sb_reach_gap:
  assumes "sb_reach (stack_vt sink K up) app env s0 s" and "socket_ok K" and "sb_inv s0" and "gap_free s0" and "single s"
  shows "gap_free s"
  using assms(1,5)
proof (induction rule: sb_reach.induct)
  case start
  with assms(4) show ?case by simp
next
  case (move s t)
  have iv: "sb_inv s" by (rule sb_reach_inv [OF move.hyps(1) assms(3)])
  with sb_inv_chain have "stream_filters s \<noteq> []" by blast
  with grows_single [OF sb_step_grows [OF move.hyps(2)] move.prems] have g: "gap_free s"
    by (intro move.IH)
  from move.hyps(2) show ?case
  proof (cases rule: sb_step_split)
    case (api d)
    with g show ?thesis by auto
  next
    case handled
    from handle_events_gap [OF assms(2) iv g this move.prems] show ?thesis .
  next
    case frame
    with g show ?thesis by simp
  qed
qed


subsection \<open>Progress\<close>

lemma tcp_out_progress:
  assumes "socket_ok K" and "takes_some K" and "\<not> log_enabled sink LTrace" and "d \<noteq> []"
  shows "\<exists>d' w'. tcp_out sink K d w = Inr ((out_ok, d'), w') \<and> length (opt_bytes d') < length d"
proof -
  from assms(2,4) obtain n k' where s: "sc_send K (tcp_handle w) d (kernel w) = (Inr n, k')" and n: "1 \<le> n"
    unfolding takes_some_def by blast
  from socket_ok_send(3) [OF assms(1) s refl] have "n \<le> int (length d)" by simp
  with s n assms(3,4) show ?thesis by (auto simp: tcp_out_def Let_def)
qed

lemma flush_progress:
  assumes "socket_ok K" and "takes_some K" and "\<not> log_enabled sink LTrace"
  shows "no_empty ds \<Longrightarrow> \<exists>rest w'. flush_out (tcp_out sink K) ds w = Inr ((False, rest), w')
     \<and> length (concat rest) \<le> length (concat ds) \<and> (ds \<noteq> [] \<longrightarrow> length (concat rest) < length (concat ds))"
proof (induction ds arbitrary: w)
  case (Cons d ds)
  from tcp_out_progress [OF assms, of d w] Cons.prems obtain d' w1 where
    o: "tcp_out sink K d w = Inr ((out_ok, d'), w1)" "length (opt_bytes d') < length d" by auto
  show ?case
  proof (cases d')
    case None
    from Cons.IH [of w1] Cons.prems obtain rest w' where
      "flush_out (tcp_out sink K) ds w1 = Inr ((False, rest), w')" "length (concat rest) \<le> length (concat ds)" by auto
    with o None Cons.prems show ?thesis
      by (auto intro!: exI [of _ rest] simp: add_strict_increasing)
  qed (use o in auto)
qed simp

lemma run_actions_total: "Act_add_filter \<notin> set as \<Longrightarrow> \<exists>t. run_actions as s = Inr t"
proof (induction as arbitrary: s)
  case (Cons a as)
  then show ?case by (cases a) auto
qed simp

lemma callback_total: "Act_add_filter \<notin> set (fst (f (app_state s))) \<Longrightarrow> \<exists>t. callback ob f s = Inr t"
  using run_actions_total by (auto simp: callback_def split: prod.splits)

lemma do_write_progress:
  assumes "socket_ok K" and "takes_some K" and "\<not> log_enabled sink LTrace"
    and "stream_filters s = [g]" and "no_empty (pending_out g)" and "no_empty (pending_writes s)" and "\<not> write_closed g"
  shows "\<exists>t h. do_write (stack_vt sink K up) s = Inr t \<and> stream_filters t = [h] \<and> pending_writes t = []
     \<and> no_empty (pending_out h) \<and> \<not> write_closed h \<and> length (unsent t) \<le> length (unsent s)"
proof (cases "pending_writes s = []")
  case True
  have "do_write (stack_vt sink K up) s = Inr (s\<lparr>pending_writes := []\<rparr>)"
    using True assms(4,7) by (simp add: do_write_def top_ix_def Let_def)
  then show ?thesis using assms(4,5,7) True by (simp add: unsent_def)
next
  case False
  from flush_progress [OF assms(1-3), of "pending_out g @ pending_writes s" "world s"] assms(5,6)
  obtain rest w where fl: "flush_out (tcp_out sink K) (pending_out g @ pending_writes s) (world s) = Inr ((False, rest), w)"
    "length (concat rest) \<le> length (concat (pending_out g @ pending_writes s))" by auto
  have ne: "no_empty rest" by (rule tcp_flush_gap_free [OF assms(1) _ fl(1)]) (use assms(5,6) in simp)
  let ?h = "g\<lparr>write_closed := False, pending_out := rest\<rparr>"
  have "do_write (stack_vt sink K up) s = Inr (set_filter 0 ?h (s\<lparr>pending_writes := [], world := w\<rparr>))"
    using False assms(4,7) fl(1)
    by (simp add: do_write_def top_ix_def Let_def on_filter_def filter_write_def)
  then show ?thesis using assms(4) ne fl(2) by (simp add: unsent_def)
qed

lemma do_close_progress:
  assumes "socket_ok K" and "takes_some K" and "\<not> log_enabled sink LTrace"
    and "stream_filters s = [g]" and "no_empty (pending_out g)" and "no_empty (pending_writes s)"
  shows "\<exists>t h. do_close (stack_vt sink K up) s = Inr t \<and> stream_filters t = [h]
     \<and> (filter_closed h \<or> length (unsent t) < length (unsent s))"
proof (cases "write_closed g")
  case True
  show ?thesis
  proof (cases "read_closed g")
    case False
    let ?h = "g\<lparr>read_closed := True, write_closed := True\<rparr>"
    have "do_close (stack_vt sink K up) s = Inr (set_filter 0 ?h (s\<lparr>world := world s\<rparr>))"
      using True False assms(4)
      by (simp add: do_close_def filter_closed_def on_filter_def filter_close_def filter_shutdown_def tcp_shutdown_def)
    then show ?thesis using assms(4) by (simp add: filter_closed_def)
  qed (use True assms(4) in \<open>simp add: do_close_def filter_closed_def\<close>)
next
  case False
  from do_write_progress [OF assms False] obtain u h where
    u: "do_write (stack_vt sink K up) s = Inr u" "stream_filters u = [h]" "pending_writes u = []"
      "no_empty (pending_out h)" "\<not> write_closed h" "length (unsent u) \<le> length (unsent s)" by blast
  have dc: "do_close (stack_vt sink K up) s = close_down (stack_vt sink K up) 1 u"
    using u(1,2) False assms(4) by (simp add: do_close_def)
  show ?thesis
  proof (cases "pending_out h = []")
    case True
    let ?h = "h\<lparr>read_closed := True, write_closed := True\<rparr>"
    have "do_close (stack_vt sink K up) s = Inr (set_filter 0 ?h (u\<lparr>world := world u\<rparr>))"
      using True u(2,5) unfolding dc
      by (simp add: filter_closed_def on_filter_def filter_close_def filter_shutdown_def tcp_shutdown_def)
    then show ?thesis using u(2) by (simp add: filter_closed_def)
  next
    case nonempty: False
    from flush_progress [OF assms(1-3) u(4), of "world u"] nonempty obtain rest w where
      fl: "flush_out (tcp_out sink K) (pending_out h) (world u) = Inr ((False, rest), w)"
      "length (concat rest) < length (concat (pending_out h))" by auto
    let ?h = "if rest = [] then h\<lparr>pending_out := [], read_closed := True, write_closed := True\<rparr>
       else h\<lparr>write_closed := False, pending_out := rest\<rparr>"
    have "do_close (stack_vt sink K up) s = Inr (set_filter 0 ?h (u\<lparr>world := w\<rparr>))"
      using nonempty u(2,5) fl(1) unfolding dc
      by (simp add: filter_closed_def on_filter_def filter_close_def filter_shutdown_def tcp_shutdown_def Let_def)
    then show ?thesis using u(2,3,6) fl(2)
      by (auto simp: filter_closed_def unsent_def)
  qed
qed

lemma closing_progress:
  assumes "socket_ok K" and "takes_some K" and "\<not> log_enabled sink LTrace"
    and "\<And>h. Act_add_filter \<notin> set (fst (on_eof app h))"
    and "stream_filters s = [g]" and "no_empty (pending_out g)" and "no_empty (pending_writes s)"
    and "handler_alive s" and "should_close s" and "\<not> eof_called s"
  shows "\<exists>t. handle_events (stack_vt sink K up) app s = Some (Inr t)
     \<and> (eof_called t \<or> single t \<and> length (unsent t) < length (unsent s))"
proof -
  from do_close_progress [OF assms(1-3,5-7)] obtain u h where
    u: "do_close (stack_vt sink K up) s = Inr u" "stream_filters u = [h]"
      "filter_closed h \<or> length (unsent u) < length (unsent s)" by blast
  have eu: "should_close u" "\<not> eof_called u"
    using do_close_evolves [OF u(1)] do_close_keeps [OF u(1)] assms(9,10) by (auto simp: evolves_def keeps_def)
  have he: "handle_events (stack_vt sink K up) app s = Some (do_finalize (stack_vt sink K up) app u)"
    using assms(8,9) u(1) by (simp add: handle_events_def)
  show ?thesis
  proof (cases "filter_closed h")
    case True
    from callback_total [of "on_eof app" "u\<lparr>eof_called := True\<rparr>" Ob_eof] assms(4) obtain v where
      v: "callback Ob_eof (on_eof app) (u\<lparr>eof_called := True\<rparr>) = Inr v" by auto
    have "do_finalize (stack_vt sink K up) app u = Inr (close_event v)"
      using True u(2) eu v
      by (simp add: do_finalize_def is_read_closed_iff is_write_closed_iff filter_closed_def)
    moreover have "eof_called v" using callback_evolves [OF v] by (simp add: evolves_def)
    ultimately show ?thesis using he by simp
  next
    case False
    then have "do_finalize (stack_vt sink K up) app u = Inr u"
      using u(2) eu by (auto simp: do_finalize_def is_read_closed_iff is_write_closed_iff filter_closed_def)
    with he False u show ?thesis by auto
  qed
qed

text \<open>
  C25: closing ends.  When the kernel takes at least one byte of every \<open>send\<close> (and the trace log,
  whose message would dereference a null pointer, is off), a TCP stream that is closing reaches
  EOF after at most one event per byte that it still holds, and one more.
\<close>

theorem close_completes:
  assumes "socket_ok K" and "takes_some K" and "\<not> log_enabled sink LTrace"
    and "\<And>h. Act_add_filter \<notin> set (fst (on_eof app h))"
    and "sb_create alive m w h0 = Inr s0" and "sb_reach (stack_vt sink K up) app env s0 s"
    and "length (stream_filters s) = 1" and "handler_alive s" and "should_close s"
  shows "\<exists>n \<le> Suc (length (unsent s)). \<exists>t.
     run_moves (stack_vt sink K up) app (replicate n M_event) s = Some (Inr t) \<and> eof_called t"
  using assms(6-9)
proof (induction "length (unsent s)" arbitrary: s rule: less_induct)
  case less
  show ?case
  proof (cases "eof_called s")
    case True
    then show ?thesis by (intro exI [of _ 0]) simp
  next
    case False
    have iv: "sb_inv s0" and g0: "gap_free s0"
      using sb_create_inv [OF assms(5)] sb_create_start [OF assms(5)] by (simp_all add: new_filter_def)
    obtain g where g: "stream_filters s = [g]" using less.prems(2) by (cases "stream_filters s") auto
    have "no_empty (pending_out g)" "no_empty (pending_writes s)"
      using sb_reach_gap [OF less.prems(1) assms(1) iv g0 less.prems(2)] g
        sb_inv_chain [OF sb_reach_inv [OF less.prems(1) iv]] by (simp_all add: chain_inv_def)
    from closing_progress [OF assms(1-3) assms(4) g this less.prems(3,4) False] obtain t where
      t: "handle_events (stack_vt sink K up) app s = Some (Inr t)"
        "eof_called t \<or> single t \<and> length (unsent t) < length (unsent s)" by blast
    show ?thesis
    proof (cases "eof_called t")
      case True
      with t(1) show ?thesis by (intro exI [of _ 1]) simp
    next
      case False
      have et: "handler_alive t" "should_close t"
        using handle_events_evolves [OF t(1)] less.prems(3,4) by (auto simp: evolves_def)
      have rt: "sb_reach (stack_vt sink K up) app env s0 t" by (rule move [OF less.prems(1) event [OF t(1)]])
      from less.hyps [OF _ rt _ et] t(2) False obtain n v where
        "n \<le> Suc (length (unsent t))"
        "run_moves (stack_vt sink K up) app (replicate n M_event) t = Some (Inr v) \<and> eof_called v" by auto
      with t False show ?thesis by (intro exI [of _ "Suc n"]) auto
    qed
  qed
qed


definition moves_c :: "move list" where
  "moves_c = [M_attach, M_event, M_write [1, 2, 3, 4, 5], M_close]"

definition run_c :: "(script tcp, unit) sbuf" where
  "run_c = projr (the (run_moves calm_vt listener_app moves_c (fresh_client (script_start [] []))))"

lemma run_c_value:
  "run_moves calm_vt listener_app moves_c (fresh_client (script_start [] [])) = Some (Inr run_c)
   \<and> length (stream_filters run_c) = 1 \<and> handler_alive run_c \<and> should_close run_c \<and> length (unsent run_c) = 5"
  unfolding run_c_def moves_c_def fresh_client_def create_for_client_def sb_create_def
  by (simp add: stream_eval sb_new_def new_filter_def calm_vt_def calm_def listener_app_def unsent_def)

theorem close_completes_witness:
  "\<exists>n \<le> 6. \<exists>t. run_moves calm_vt listener_app (replicate n M_event) run_c = Some (Inr t) \<and> eof_called t"
  unfolding calm_vt_def
  using close_completes [OF calm_ok(1,3) log_enabled_default [of LTrace] _ fresh_client_create
      run_moves_reach [OF conjunct1 [OF run_c_value], unfolded calm_vt_def, where env = "\<lambda>_ _. False"]]
    run_c_value
  by (simp add: listener_app_def)

subsection \<open>Reading\<close>

lemma read_loop_returns:
  assumes "\<And>s. J s \<Longrightarrow> (case in_fn s of Inl e \<Rightarrow> True
      | Inr (r, s1) \<Rightarrow> should_close_read r \<or> \<not> has_data r
          \<or> (\<forall>s2. deliver (opt_bytes (in_data r)) s1 = Inr s2 \<longrightarrow> J s2 \<and> (m s2 :: nat) < m s))"
  shows "J s \<Longrightarrow> \<exists>res. read_loop in_fn deliver s = Some res"
proof (induction "m s" arbitrary: s rule: less_induct)
  case less
  from assms [OF less.prems] less.hyps show ?case
    by (subst read_loop.simps) (auto split: sum.splits)
qed

lemma read_loop_endless:
  assumes "\<And>s. J s \<Longrightarrow> \<exists>r s1 s2. in_fn s = Inr (r, s1) \<and> \<not> should_close_read r \<and> has_data r
      \<and> deliver (opt_bytes (in_data r)) s1 = Inr s2 \<and> J s2" and "J s"
  shows "read_loop in_fn deliver s = None"
proof (rule ccontr)
  assume "read_loop in_fn deliver s \<noteq> None"
  then obtain res where res: "read_loop in_fn deliver s = Some res" by auto
  have "i = in_fn \<longrightarrow> d = deliver \<longrightarrow> \<not> J s" if "read_loop i d s = Some res" for i d s res
  proof (rule read_loop.raw_induct [OF _ that, where P = "\<lambda>i d s res. i = in_fn \<longrightarrow> d = deliver \<longrightarrow> \<not> J s"], goal_cases)
    case (1 f i d s res)
    show ?case
    proof (intro impI notI)
      assume e: "i = in_fn" "d = deliver" and j: "J s"
      from assms(1) [OF j] obtain r s1 s2 where "in_fn s = Inr (r, s1)" "\<not> should_close_read r" "has_data r"
        "deliver (opt_bytes (in_data r)) s1 = Inr s2" and j2: "J s2" by blast
      with 1(2) e have "f in_fn deliver s2 = Some res" by simp
      from 1(1) [OF this] j2 e show False by simp
    qed
  qed
  from this [OF res] assms(2) show False by simp
qed

lemma filter_in_single:
  "filter_in (stack_vt sink K up) 0 x =
     bindE (tcp_in K (world x)) (\<lambda>(r, w). Inr (r, x\<lparr>world := w\<rparr>))"
  by (simp add: filter_in_def)

text \<open>
  C29: events are handled in finite time when the kernel runs dry: if a measure of the data that
  the kernel holds goes down with every successful \<open>recv\<close>, the handling of an event of a TCP
  stream returns (normally or with an exception), whatever the application does in its callbacks.
\<close>

theorem handle_events_returns:
  fixes m :: "'k \<Rightarrow> nat"
  assumes "\<And>h n k bs k'. sc_recv K h n k = (Inr bs, k') \<Longrightarrow> bs \<noteq> [] \<Longrightarrow> m k' < m k"
    and "length (stream_filters s) = 1"
  shows "\<exists>res. handle_events (stack_vt sink K up) app s = Some res"
proof -
  define J :: "(('k, 'b) tcp_scheme, 'c) sbuf \<Rightarrow> bool" where "J = (\<lambda>_. True)"
  have "\<exists>res. read_loop (filter_in (stack_vt sink K up) (top_ix s)) (handle_data app) s = Some res"
  proof (rule read_loop_returns [where J = J and m = "\<lambda>x. m (kernel (world x))"])
    fix x :: "(('k, 'b) tcp_scheme, 'c) sbuf"
    have k: "m (kernel (world x2)) < m (kernel (world x))"
      if "tcp_in K (world x) = Inr (r, w)" "\<not> should_close_read r" "has_data r"
        "handle_data app d (x\<lparr>world := w\<rparr>) = Inr x2" for r w d x2
    proof -
      have "world x2 = w"
        using that(4) callback_frame(1) [of "Ob_data d" "on_data app d" "x\<lparr>world := w\<rparr>" x2]
        by (auto simp: handle_data_def split: if_splits)
      moreover have "m (kernel w) < m (kernel (world x))"
        using that(1-3) assms(1)
        by (auto simp: tcp_in_def Let_def split: prod.splits sum.splits if_splits)
      ultimately show ?thesis by simp
    qed
    show "case filter_in (stack_vt sink K up) (top_ix s) x of Inl e \<Rightarrow> True
      | Inr (r, s1) \<Rightarrow> should_close_read r \<or> \<not> has_data r
          \<or> (\<forall>s2. handle_data app (opt_bytes (in_data r)) s1 = Inr s2 \<longrightarrow>
               J s2 \<and> m (kernel (world s2)) < m (kernel (world x)))"
      using assms(2) k by (auto simp: filter_in_single J_def bindE_def split: sum.splits prod.splits)
  qed (simp add: J_def)
  then show ?thesis by (auto simp: handle_events_def do_read_def Let_def)
qed

text \<open>
  C30: the read loop has no bound of its own.  While the kernel always has data and the
  application does not add filters, handling an event of a connected TCP stream never returns:
  \<open>read_starvation_limit_\<close> of the configuration is not consulted.
\<close>

theorem handle_events_starves:
  assumes "\<And>h n k. \<exists>bs k'. sc_recv K h n k = (Inr bs, k') \<and> bs \<noteq> []"
    and "\<And>d h. Act_add_filter \<notin> set (fst (on_data app d h))"
    and "length (stream_filters s) = 1" and "handler_alive s" and "\<not> should_close s"
    and "is_connected s" and "\<not> read_closed (hd (stream_filters s))"
  shows "handle_events (stack_vt sink K up) app s = None"
proof -
  have "read_loop (filter_in (stack_vt sink K up) (top_ix s)) (handle_data app) s = None"
  proof (rule read_loop_endless [where J = handler_alive])
    fix x :: "(('a, 'd) tcp_scheme, 'c) sbuf"
    assume x: "handler_alive x"
    from assms(1) obtain bs k' where
      k: "sc_recv K (tcp_handle (world x)) tcp_buf_size (kernel (world x)) = (Inr bs, k')" "bs \<noteq> []" by blast
    let ?x1 = "x\<lparr>world := (world x)\<lparr>kernel := k'\<rparr>\<rparr>"
    have i: "filter_in (stack_vt sink K up) (top_ix s) x = Inr (in_bytes bs, ?x1)"
      using assms(3) k by (simp add: filter_in_single tcp_in_def Let_def)
    from callback_total [of "on_data app bs" ?x1 "Ob_data bs"] assms(2) obtain x2 where
      c: "callback (Ob_data bs) (on_data app bs) ?x1 = Inr x2" by blast
    with x callback_frame(3) [OF c] have "handle_data app bs ?x1 = Inr x2 \<and> handler_alive x2"
      by (simp add: handle_data_def)
    with i k(2) show "\<exists>r s1 s2. filter_in (stack_vt sink K up) (top_ix s) x = Inr (r, s1)
        \<and> \<not> should_close_read r \<and> has_data r \<and> handle_data app (opt_bytes (in_data r)) s1 = Inr s2 \<and> handler_alive s2"
      by (intro exI [of _ "in_bytes bs"] exI [of _ ?x1] exI [of _ x2]) simp
  qed (rule assms(4))
  then show ?thesis
    using assms(3-) by (simp add: handle_events_def do_read_def Let_def single_hd)
qed


theorem handle_events_returns_witness:
  "\<exists>res. handle_events (stack_vt default_sink scripted no_upper) listener_app run_a = Some res"
  by (rule handle_events_returns [where m = "\<lambda>k. length (recv_script k)"])
     (auto simp: scripted_def run_a_single [simplified] split: list.splits sum.splits)

definition flood :: "script socket_calls" where
  "flood = scripted\<lparr>sc_recv := \<lambda>h n k. (Inr [1], k)\<rparr>"

definition run_d :: "(script tcp, unit) sbuf" where
  "run_d = projr (the (run_moves (stack_vt default_sink flood no_upper) listener_app [M_attach, M_event]
     (fresh_client (script_start [] []))))"

lemma run_d_value:
  "length (stream_filters run_d) = 1 \<and> handler_alive run_d \<and> \<not> should_close run_d \<and> is_connected run_d
   \<and> \<not> read_closed (hd (stream_filters run_d))"
  unfolding run_d_def fresh_client_def create_for_client_def sb_create_def
  by (simp add: stream_eval sb_new_def new_filter_def flood_def listener_app_def)

theorem handle_events_starves_witness:
  "handle_events (stack_vt default_sink flood no_upper) listener_app run_d = None"
  using run_d_value by (intro handle_events_starves) (simp_all add: flood_def listener_app_def)

subsection \<open>Output that the kernel took in part\<close>

text \<open>A connected stream on the TCP filter alone, with the same output as \<open>s\<close> and nothing more to write.\<close>

definition same_output ::
  "('k, 'z) socket_calls_scheme \<Rightarrow> (('k, 'x) tcp_scheme, 'h) sbuf \<Rightarrow> (('k, 'x) tcp_scheme, 'h) sbuf \<Rightarrow> bool" where
  "same_output K s t \<longleftrightarrow>
     single t \<and> handler_alive t \<and> is_connected t \<and> pending_writes t = []
   \<and> tcp_sent K (world t) = tcp_sent K (world s) \<and> write_closed (hd (stream_filters t)) = write_closed (hd (stream_filters s))
   \<and> pending_out (hd (stream_filters t)) = pending_out (hd (stream_filters s))"

lemma read_same_output:
  assumes "socket_ok K" and "same_output K s x" and "\<And>bs h. fst (on_data app bs h) = []"
    and "do_read (stack_vt sink K up) app x = Some (Inr t)"
  shows "same_output K s t"
  using assms(4)
proof (cases rule: do_read_elim)
  case (read c u)
  have x: "top_ix x = 0" using assms(2) by (simp add: same_output_def)
  have inp: "same_output K s y1" if "same_output K s y" "filter_in (stack_vt sink K up) (top_ix x) y = Inr (r, y1)" for y r y1
  proof -
    from x that obtain w where w: "tcp_in K (world y) = Inr (r, w)" "y1 = y\<lparr>world := w\<rparr>" by (auto simp: filter_in_def)
    with tcp_in_sent [OF assms(1) w(1)] that(1) show ?thesis by (auto simp: same_output_def is_connected_def top_ix_def)
  qed
  have "same_output K s u"
  proof (rule read_loop_rule [OF read(2), where P = "same_output K s" and Q = "\<lambda>_. same_output K s"])
    fix y r y1
    assume y: "same_output K s y" "filter_in (stack_vt sink K up) (top_ix x) y = Inr (r, y1)"
    then show "same_output K s y1" by (rule inp)
  next
    fix y r y1 y2
    assume y: "same_output K s y" "filter_in (stack_vt sink K up) (top_ix x) y = Inr (r, y1)"
      and d: "handle_data app (opt_bytes (in_data r)) y1 = Inr y2"
    have "same_output K s y1" by (rule inp [OF y])
    obtain h where "on_data app (opt_bytes (in_data r)) (app_state y1) = ([], h)" using assms(3) by (metis surjective_pairing)
    with \<open>same_output K s y1\<close> d show "same_output K s y2"
      by (auto simp: handle_data_def callback_def same_output_def is_connected_def top_ix_def split: if_splits)
  qed (rule assms(2))
  then show ?thesis unfolding read(3) x by (cases "stream_filters u") (auto simp: same_output_def is_connected_def top_ix_def)
qed (use assms(2) in simp)

lemma event_same_output:
  assumes "socket_ok K" and "same_output K s x" and "\<And>bs h. fst (on_data app bs h) = []"
    and "handle_events (stack_vt sink K up) app x = Some (Inr t)" and "\<not> should_close t"
  shows "same_output K s t"
proof -
  have nc: "\<not> should_close x" using handle_events_evolves [OF assms(4)] assms(5) by (auto simp: evolves_def)
  from assms(4) show ?thesis
  proof (cases rule: handle_events_elim)
    case (open_io u v)
    have u: "same_output K s u" by (rule read_same_output [OF assms(1-3) open_io(4)])
    from open_io(5) u have v: "v = u" by (auto simp: same_output_def elim!: do_write_elim)
    from open_io(6) show ?thesis
    proof (cases rule: do_finalize_elim)
      case (1 z)
      have "\<not> should_close z"
        using 1(2) assms(5) by (auto split: if_splits dest!: callback_evolves simp: evolves_def)
      with 1(1) have z: "z = v" "should_close v \<or> \<not> read_closed (top_filter v)"
        by (auto split: if_splits dest!: do_close_evolves simp: evolves_def)
      with \<open>\<not> should_close z\<close> have "\<not> is_read_closed v"
        using u v by (cases "stream_filters v") (auto simp: same_output_def is_read_closed_iff top_ix_def)
      with 1(2) z u v show ?thesis by simp
    qed
  qed (use assms(2) nc in \<open>auto simp: same_output_def\<close>)
qed

lemma events_same_output:
  assumes "socket_ok K" and "\<And>bs h. fst (on_data app bs h) = []" and "same_output K s x"
    and "run_moves (stack_vt sink K up) app (replicate n M_event) x = Some (Inr t)" and "\<not> should_close t"
  shows "same_output K s t"
  using assms(3,4)
proof (induction n arbitrary: x)
  case (Suc n)
  from Suc.prems(2) obtain y where y: "handle_events (stack_vt sink K up) app x = Some (Inr y)"
    "run_moves (stack_vt sink K up) app (replicate n M_event) y = Some (Inr t)"
    by (auto split: option.splits sum.splits)
  have "\<not> should_close y" using sb_reach_grows [OF run_moves_reach [OF y(2), where env = "\<lambda>_ _. False"]] assms(5) by (auto simp: grows_def)
  from Suc.IH [OF event_same_output [OF assms(1) Suc.prems(1) assms(2) y(1) this] y(2)] show ?case .
qed simp

text \<open>The next \<open>DoWrite\<close> goes on where the output stopped.\<close>

lemma write_resumes:
  assumes "socket_ok K" and "takes_some K" and "\<not> log_enabled sink LTrace" and "stream_filters t = [g]"
    and "no_empty (pending_out g)" and "pending_writes t = []" and "\<not> write_closed g" and "\<not> should_close t" and "bs \<noteq> []"
  shows "\<exists>u n. do_write (stack_vt sink K up) (sb_write bs t) = Inr u \<and> 0 < n
    \<and> tcp_sent K (world u) = tcp_sent K (world t) @ take n (concat (pending_out g) @ bs)
    \<and> unsent u = drop n (concat (pending_out g) @ bs)"
proof -
  let ?ds = "pending_out g @ [bs]"
  have p: "pending_writes (sb_write bs t) = [bs]" using assms(6,8,9) by (simp add: sb_write_pending)
  from flush_progress [OF assms(1-3), of ?ds "world t"] assms(5,9) obtain rest w where
    fl: "flush_out (tcp_out sink K) ?ds (world t) = Inr ((False, rest), w)" "length (concat rest) < length (concat ?ds)" by auto
  from tcp_chan.flush_prefix [of "(sink, K)", simplified, OF assms(1) fl(1)] obtain n where
    n: "tcp_sent K w = tcp_sent K (world t) @ take n (concat ?ds)" by auto
  have "tcp_sent K w @ concat rest = tcp_sent K (world t) @ concat ?ds" using tcp_flush_cases(1) [OF assms(1) fl(1)] by simp
  then have "take n (concat ?ds) @ concat rest = concat ?ds" unfolding n append.assoc same_append_eq .
  then have r: "concat rest = drop n (concat ?ds)" by (metis append_take_drop_id same_append_eq)
  with fl(2) have "0 < n" by (cases n) auto
  let ?h = "g\<lparr>write_closed := False, pending_out := rest\<rparr>"
  let ?u = "set_filter 0 ?h ((sb_write bs t)\<lparr>pending_writes := [], world := w\<rparr>)"
  have "do_write (stack_vt sink K up) (sb_write bs t) = Inr ?u"
    using p assms(4,7) fl(1) by (simp add: do_write_def top_ix_def Let_def on_filter_def filter_write_def)
  with n r \<open>0 < n\<close> assms(4) show ?thesis by (intro exI [of _ ?u] exI [of _ n]) (simp add: unsent_def)
qed

text \<open>
  C28: output that the kernel took in part is not retried by events.  On a connected stream on TCP alone, with
  nothing new to write and a handler that only takes the data, any number of events (such as the wakeups that report the
  socket writable again), whatever the socket yields to read, sends nothing and leaves the bytes that a short \<open>send\<close> or
  \<open>EAGAIN\<close> left in the filter, as long as no \<open>Close\<close> and no end of the peer's data has made the stream close.  The
  \<open>DoWrite\<close> of the next \<open>Write\<close> goes on at the first of these bytes (when \<open>send\<close> takes at least one, and the trace log is off).
\<close>

theorem partial_output_waits:
  assumes "socket_ok K" and "length (stream_filters s) = 1" and "handler_alive s" and "is_connected s" and "pending_writes s = []"
    and "\<And>bs h. fst (on_data app bs h) = []"
    and "run_moves (stack_vt sink K up) app (replicate n M_event) s = Some (Inr t)" and "\<not> should_close t"
  shows "tcp_sent K (world t) = tcp_sent K (world s)
    \<and> pending_out (hd (stream_filters t)) = pending_out (hd (stream_filters s)) \<and> pending_writes t = []
    \<and> (takes_some K \<longrightarrow> \<not> log_enabled sink LTrace \<longrightarrow> \<not> write_closed (hd (stream_filters s)) \<longrightarrow> no_empty (pending_out (hd (stream_filters s))) \<longrightarrow>
        (\<forall>bs. bs \<noteq> [] \<longrightarrow> (\<exists>u n. do_write (stack_vt sink K up) (sb_write bs t) = Inr u \<and> 0 < n
           \<and> tcp_sent K (world u) = tcp_sent K (world s) @ take n (concat (pending_out (hd (stream_filters s))) @ bs)
           \<and> unsent u = drop n (concat (pending_out (hd (stream_filters s))) @ bs))))"
proof -
  have "same_output K s s" using assms(2-5) by (simp add: same_output_def)
  from events_same_output [OF assms(1,6) this assms(7,8)] have t: "same_output K s t" .
  then obtain g where g: "stream_filters t = [g]" by (cases "stream_filters t") (auto simp: same_output_def)
  with t have o: "tcp_sent K (world t) = tcp_sent K (world s)" "pending_out g = pending_out (hd (stream_filters s))"
    "write_closed g = write_closed (hd (stream_filters s))" "pending_writes t = []" by (simp_all add: same_output_def)
  with write_resumes [OF assms(1) _ _ g, of sink _ up] assms(8) g show ?thesis by simp
qed

text \<open>Of five bytes two are taken; a read of one byte and an idle event leave the other three.\<close>

definition run_e :: "(script tcp, unit) sbuf" where
  "run_e = projr (the (run_moves calm_vt listener_app
     [M_attach, M_event, M_write [1, 2, 3, 4, 5], M_event] (fresh_client (script_start [Inl EAGAIN, Inr [9]] []))))"

definition run_e_later :: "(script tcp, unit) sbuf" where
  "run_e_later = projr (the (run_moves calm_vt listener_app (replicate 2 M_event) run_e))"

lemma run_e_value:
  "length (stream_filters run_e) = 1 \<and> handler_alive run_e \<and> is_connected run_e \<and> pending_writes run_e = []
   \<and> concat (pending_out (hd (stream_filters run_e))) = [3, 4, 5] \<and> tcp_sent calm (world run_e) = [1, 2]
   \<and> run_moves calm_vt listener_app (replicate 2 M_event) run_e = Some (Inr run_e_later)
   \<and> \<not> should_close run_e_later \<and> delivered run_e_later = [9]"
  unfolding run_e_def run_e_later_def fresh_client_def create_for_client_def sb_create_def
  by (simp add: stream_eval sb_new_def new_filter_def calm_vt_def calm_def listener_app_def tcp_sent_def numeral_2_eq_2)

theorem partial_output_waits_witness:
  "tcp_sent calm (world run_e_later) = [1, 2] \<and> concat (pending_out (hd (stream_filters run_e_later))) = [3, 4, 5]
   \<and> delivered run_e_later = [9]"
  using run_e_value partial_output_waits [where s = run_e and t = run_e_later and n = 2, OF calm_ok(1) _ _ _ _ _
      conjunct1 [OF conjunct2 [OF conjunct2 [OF conjunct2 [OF conjunct2 [OF conjunct2 [OF conjunct2 [OF run_e_value]]]]]], unfolded calm_vt_def]]
  by (simp add: listener_app_def)

subsection \<open>Failures\<close>

text \<open>
  A failed connection.  When the socket of a connecting client reports an error, the next
  event ends the stream: the handler gets EOF and never \<open>HandleConnected\<close>, everything is closed,
  and what was written before is dropped.
\<close>

lemma connect_failure_ends:
  assumes "sb_create alive m w h0 = Inr s0" and "sb_reach (stack_vt sink K up) app env s0 s"
    and "length (stream_filters s) = 1" and "handler_alive s" and "\<not> should_close s" and "\<not> is_connected s"
    and "sb_mode s = CLIENT_MODE" and "\<not> pending_connect (world s)"
    and "sc_so_error K (tcp_handle (world s)) (kernel (world s)) = (Inr (Some e), k')"
    and "\<And>h. Act_add_filter \<notin> set (fst (on_eof app h))"
  shows "\<exists>t. handle_events (stack_vt sink K up) app s = Some (Inr t) \<and> eof_called t
    \<and> list_all filter_closed (stream_filters t) \<and> Ob_connected \<notin> set (trace t)
    \<and> kernel (world t) = k'"
proof -
  have iv: "sb_inv s0" using sb_create_inv [OF assms(1)] by simp
  have iS: "sb_inv s" by (rule sb_reach_inv [OF assms(2) iv])
  obtain g where g: "stream_filters s = [g]" using assms(3) by (cases "stream_filters s") auto
  have ne: "\<not> eof_called s" using iS assms(5) by (auto simp: sb_inv_def)
  let ?h = "g\<lparr>read_closed := True, write_closed := True\<rparr>"
  let ?w = "(world s)\<lparr>kernel := k'\<rparr>"
  let ?u = "set_filter 0 ?h (s\<lparr>world := ?w\<rparr>)"
  let ?v = "?u\<lparr>should_close := True\<rparr>"
  have c: "do_connect (stack_vt sink K up) app s = Inr ?u"
    using g assms(7-9) by (simp add: do_connect_def top_ix_def tcp_connect_def Let_def)
  have d: "do_close (stack_vt sink K up) ?v = Inr ?v"
    using g by (simp add: do_close_def filter_closed_def)
  from callback_total [of "on_eof app" "?v\<lparr>eof_called := True\<rparr>" Ob_eof] assms(10) obtain x where
    x: "callback Ob_eof (on_eof app) (?v\<lparr>eof_called := True\<rparr>) = Inr x" by auto
  have h: "handle_events (stack_vt sink K up) app s = Some (Inr (close_event x))"
    using assms(4-6) c d x g ne
    by (simp add: handle_events_def do_finalize_def top_ix_def is_read_closed_iff is_write_closed_iff)
  have ex: "eof_called (close_event x)" using callback_evolves [OF x] by (simp add: evolves_def)
  have rt: "sb_reach (stack_vt sink K up) app env s0 (close_event x)" by (rule move [OF assms(2) event [OF h]])
  have "phase_of s = Opening" using g ne assms(6) by (simp add: phase_of_def is_connected_def top_ix_def)
  with sb_reach_obeys [OF assms(2) sb_create_obeys [OF assms(1)] iv] have o: "phase_run Opening (trace s) = Some Opening"
    by (simp add: obeys_def)
  have no: "Ob_connected \<notin> set xs" if "phase_run Opening xs = Some Opening" for xs
    using that by (induction xs rule: rev_induct) (auto simp: phase_run_append split: Option.bind_splits elim: phase_step.elims)
  from x obtain as y where r: "run_actions as (emit Ob_eof (?v\<lparr>eof_called := True, app_state := y\<rparr>)) = Inr x"
    by (rule callback_elim)
  have "\<exists>xs. trace x = trace s @ Ob_eof # xs \<and> list_all no_callback xs"
    using run_actions_quiet [OF r] g by (auto simp: quiet_def)
  then have "Ob_connected \<notin> set (trace (close_event x))"
    using no [OF o] by (fastforce simp: ev_call_trace list_all_iff)
  then show ?thesis
    using h ex sb_reach_inv [OF rt iv] callback_frame(1) [OF x] by (intro exI [of _ "close_event x"]) (simp add: sb_inv_def)
qed


definition refused :: script where
  "refused = (script_start [] [])\<lparr>so_script := Some (Eother 111)\<rparr>"

definition connecting_client :: "(script tcp, unit) sbuf" where
  "connecting_client = projr (create_for_client_addr True (7, False) refused ())"

lemma connecting_client_create:
  "sb_create True CLIENT_MODE \<lparr>tcp_handle = 7, pending_connect = False, kernel = refused\<rparr> () = Inr connecting_client"
  by (simp add: connecting_client_def create_for_client_addr_def sb_create_def sb_add_filter_def sb_new_def)

lemma connecting_client_value:
  "length (stream_filters connecting_client) = 1 \<and> handler_alive connecting_client
   \<and> \<not> should_close connecting_client \<and> \<not> is_connected connecting_client
   \<and> sb_mode connecting_client = CLIENT_MODE \<and> \<not> pending_connect (world connecting_client)
   \<and> kernel (world connecting_client) = refused"
  unfolding connecting_client_def create_for_client_addr_def sb_create_def
  by (simp add: stream_eval sb_new_def new_filter_def)

lemma connect_failure_ends_witness:
  "\<exists>t. handle_events (stack_vt default_sink scripted no_upper) listener_app connecting_client = Some (Inr t)
     \<and> eof_called t \<and> list_all filter_closed (stream_filters t) \<and> Ob_connected \<notin> set (trace t)
     \<and> kernel (world t) = refused"
  by (rule connect_failure_ends [OF connecting_client_create sb_reach.start [where env = "\<lambda>_ _. False"],
        where e = "Eother 111"])
     (use connecting_client_value in \<open>simp_all add: scripted_def refused_def listener_app_def\<close>)

text \<open>
  Tracing changes behaviour.  On a connected TCP stream with one new view, when the kernel
  takes a part of it and the trace log is on, the handling of the event dereferences a null
  pointer; with the trace log off, the rest of the view stays in the filter.
\<close>

lemma trace_log_crashes:
  assumes "length (stream_filters s) = 1" and "handler_alive s" and "\<not> should_close s" and "is_connected s"
    and "\<not> read_closed (hd (stream_filters s))" and "\<not> write_closed (hd (stream_filters s))"
    and "pending_out (hd (stream_filters s)) = []" and "pending_writes s = [d]"
    and "tcp_in K (world s) = Inr (in_nothing, w)"
    and "sc_send K (tcp_handle w) d (kernel w) = (Inr n, k')" and "0 < n" and "n < int (length d)"
  shows "handle_events (stack_vt sink K up) app s =
    (if log_enabled sink LTrace then Some (Inl (Undefined ''null suffix_data_view''))
     else Some (Inr (set_filter 0 ((hd (stream_filters s))\<lparr>pending_out := [drop (nat n) d]\<rparr>)
       (s\<lparr>pending_writes := [], world := w\<lparr>kernel := k'\<rparr>\<rparr>))))"
proof -
  obtain g where g: "stream_filters s = [g]" using assms(1) by (cases "stream_filters s") auto
  have gw: "g\<lparr>write_closed := False, pending_out := x\<rparr> = g\<lparr>pending_out := x\<rparr>" for x
    using assms(6) g by (cases g) simp
  have r: "do_read (stack_vt sink K up) app s = Some (Inr (s\<lparr>world := w\<rparr>))"
    using assms(5,9) g by (simp add: do_read_def top_ix_def filter_in_def read_loop.simps)
  have w: "do_write (stack_vt sink K up) (s\<lparr>world := w\<rparr>) =
      (if log_enabled sink LTrace then Inl (Undefined ''null suffix_data_view'')
       else Inr (set_filter 0 (g\<lparr>pending_out := [drop (nat n) d]\<rparr>)
         (s\<lparr>pending_writes := [], world := w\<lparr>kernel := k'\<rparr>\<rparr>)))"
    using assms(6-8,10-12) g gw
    by (simp add: do_write_def top_ix_def Let_def on_filter_def filter_write_def tcp_out_def set_filter_def)
  show ?thesis
    using assms(2-5) g r w
    by (auto simp: handle_events_def do_finalize_def top_ix_def is_read_closed_iff)
qed

definition shy :: "script socket_calls" where
  "shy = calm\<lparr>sc_recv := \<lambda>h n k. (Inl EAGAIN, k)\<rparr>"

definition run_f :: "(script tcp, unit) sbuf" where
  "run_f = projr (the (run_moves (stack_vt default_sink shy no_upper) listener_app
     [M_attach, M_event, M_write [1, 2, 3, 4, 5]] (fresh_client (script_start [] []))))"

lemma run_f_value:
  "length (stream_filters run_f) = 1 \<and> handler_alive run_f \<and> \<not> should_close run_f \<and> is_connected run_f
   \<and> \<not> read_closed (hd (stream_filters run_f)) \<and> \<not> write_closed (hd (stream_filters run_f))
   \<and> pending_out (hd (stream_filters run_f)) = [] \<and> pending_writes run_f = [[1, 2, 3, 4, 5]]"
  unfolding run_f_def fresh_client_def create_for_client_def sb_create_def
  by (simp add: stream_eval sb_new_def new_filter_def shy_def calm_def listener_app_def)

lemma trace_log_crashes_witness:
  "handle_events (stack_vt \<lparr>sink_set = True, threshold = LTrace\<rparr> shy no_upper) listener_app run_f =
     Some (Inl (Undefined ''null suffix_data_view''))"
proof -
  have "tcp_in shy (world run_f) = Inr (in_nothing, world run_f)" by (simp add: tcp_in_def shy_def)
  from trace_log_crashes [OF _ _ _ _ _ _ _ _ this, of "[1, 2, 3, 4, 5]" 2] run_f_value show ?thesis
    by (simp add: shy_def calm_def log_enabled_def)
qed

text \<open>
  What a stream buffer registers for.  The mask of \<open>GetEvents\<close> always translates to the
  full epoll mask, connected or not: \<open>Events::Stream\<close> is 0x16, whose bits include those of
  \<open>Write\<close> and \<open>Close\<close>, so the translation takes the branch for \<open>Close\<close>.
\<close>

lemma stream_mask_full:
  "epoll_of_events A (sb_get_events s) = EPOLLIN A OR EPOLLOUT A OR EPOLLRDHUP A"
  by (simp add: epoll_of_events_def sb_get_events_def filter_get_events_def)

end
