(* ===== verification/Stream_Threads.thy ===== *)
theory Stream_Threads
  imports Stream_Buffer_Close
begin

text \<open>
  A stream buffer that several threads use at once.  \<open>HandleEvents\<close> is cut where the loop thread
  reads or writes what the threads share: the \<open>weak_ptr\<close> of the handler, \<open>should_close_\<close>, and
  \<open>pending_writes_\<close> under its lock; \<open>Write\<close> and \<open>Close\<close> of other threads are cut in the same way.
  The filters, \<open>eof_called_\<close> and \<open>add_filter_allowed_\<close> are the loop thread's own, so that what
  it does with them, with the kernel and with the application between two cuts is one step.
\<close>

subsection \<open>The loop thread in \<open>HandleEvents\<close>\<close>

text \<open>\<open>DoClose\<close> is called by \<open>HandleEvents\<close> and by \<open>DoFinalize\<close>, \<open>DoWrite\<close> by \<open>HandleEvents\<close> and by \<open>DoClose\<close>.\<close>

datatype closer = By_events | By_finalize

datatype at =
    T_idle
  | T_enter
  | T_branch
  | T_read nat
  | T_write "closer option"
  | T_flush "bytes list" "closer option"
  | T_close closer
  | T_down closer
  | T_connect
  | T_finalize
  | T_end
  | T_dead exn

fun after_write :: "closer option \<Rightarrow> at" where
  "after_write None = T_finalize"
| "after_write (Some c) = T_down c"

fun after_close :: "closer \<Rightarrow> at" where
  "after_close By_events = T_finalize"
| "after_close By_finalize = T_end"

text \<open>
  The object, where the loop thread is, and the calls of other threads under way: the views whose
  \<open>Write\<close> has found \<open>should_close_\<close> unset and not yet pushed them, the number of \<open>Write\<close>s that have
  pushed first and not yet made the event ready, and of \<open>Close\<close>s that have not yet done so.  Two
  positions in the trace are kept for the theorems: the last swap, and when \<open>should_close_\<close> was set.
\<close>

record ('w, 'h) shared =
  obj :: "('w, 'h) sbuf"
  loc :: at
  tested :: "bytes list"
  owed_write :: nat
  owed_close :: nat
  swap_mark :: nat
  close_mark :: nat

definition shared_start :: "('w, 'h) sbuf \<Rightarrow> ('w, 'h) shared" where
  "shared_start s =
     \<lparr>obj = s, loc = T_idle, tested = [], owed_write = 0, owed_close = 0, swap_mark = 0, close_mark = 0\<rparr>"

text \<open>The object becomes \<open>s\<close>.\<close>

definition put :: "('w, 'h) sbuf \<Rightarrow> ('w, 'h) shared \<Rightarrow> ('w, 'h) shared" where
  "put s x = x\<lparr>obj := s,
     close_mark := (if should_close s \<and> \<not> should_close (obj x) then length (trace s) else close_mark x)\<rparr>"

definition jump :: "at \<Rightarrow> ('w, 'h) shared \<Rightarrow> ('w, 'h) shared" where
  "jump q x = x\<lparr>loc := q\<rparr>"

definition settle :: "at \<Rightarrow> exn + ('w, 'h) sbuf \<Rightarrow> ('w, 'h) shared \<Rightarrow> ('w, 'h) shared" where
  "settle q r x = (case r of Inl e \<Rightarrow> jump (T_dead e) x | Inr s \<Rightarrow> jump q (put s x))"

text \<open>One round of the loop of \<open>Read\<close> on the filter \<open>i\<close>; the flag tells that it was the last.\<close>

definition read_round :: "'w vtable \<Rightarrow> 'h app \<Rightarrow> nat \<Rightarrow> ('w, 'h) sbuf \<Rightarrow> exn + bool \<times> ('w, 'h) sbuf" where
  "read_round vt app i s =
     bindE (filter_in vt i s) (\<lambda>(r, s).
       if should_close_read r
       then Inr (True, set_filter i ((stream_filters s ! i)\<lparr>read_closed := True\<rparr>) s)
       else if \<not> has_data r then Inr (True, s)
       else bindE (handle_data app (opt_bytes (in_data r)) s) (\<lambda>s. Inr (False, s)))"

text \<open>The rest of \<open>DoFinalize\<close> after its \<open>DoClose\<close>.\<close>

definition finish_eof :: "'h app \<Rightarrow> ('w, 'h) sbuf \<Rightarrow> exn + ('w, 'h) sbuf" where
  "finish_eof app s =
     (if is_read_closed s \<and> is_write_closed s
      then (if \<not> eof_called s
            then bindE (callback Ob_eof (on_eof app) (s\<lparr>eof_called := True\<rparr>)) (\<lambda>s. Inr (close_event s))
            else Inr s)
      else Inr s)"

fun at_step :: "'w vtable \<Rightarrow> 'h app \<Rightarrow> at \<Rightarrow> ('w, 'h) shared \<Rightarrow> ('w, 'h) shared" where
  "at_step vt app T_idle x = x"
| "at_step vt app T_enter x =
     (if \<not> handler_alive (obj x) then settle T_idle (Inr (close_event (obj x))) x else jump T_branch x)"
| "at_step vt app T_branch x =
     (if should_close (obj x) then jump (T_close By_events) x
      else if \<not> is_connected (obj x) then jump T_connect x
      else if read_closed (top_filter (obj x)) then jump (T_write None) x
      else jump (T_read (top_ix (obj x))) x)"
| "at_step vt app (T_read i) x =
     (case read_round vt app i (obj x) of
        Inl e \<Rightarrow> jump (T_dead e) x
      | Inr (stop, s) \<Rightarrow> settle (if stop then T_write None else T_read i) (Inr s) x)"
| "at_step vt app (T_write c) x =
     (if write_closed (top_filter (obj x)) \<or> pending_writes (obj x) = [] then jump (after_write c) x
      else jump (T_flush (pending_writes (obj x)) c)
             (x\<lparr>obj := (obj x)\<lparr>pending_writes := []\<rparr>, swap_mark := length (trace (obj x))\<rparr>))"
| "at_step vt app (T_flush ds c) x =
     settle (after_write c) (on_filter (top_ix (obj x)) (filter_write vt (top_ix (obj x)) ds) (obj x)) x"
| "at_step vt app (T_close c) x =
     jump (if list_all (\<lambda>f. \<not> write_closed f) (stream_filters (obj x)) then T_write (Some c) else T_down c) x"
| "at_step vt app (T_down c) x =
     settle (after_close c) (close_down vt (length (stream_filters (obj x))) (obj x)) x"
| "at_step vt app T_connect x = settle T_finalize (do_connect vt app (obj x)) x"
| "at_step vt app T_finalize x =
     (if \<not> should_close (obj x) \<and> read_closed (top_filter (obj x))
      then settle (T_close By_finalize) (Inr ((obj x)\<lparr>should_close := True\<rparr>)) x else jump T_end x)"
| "at_step vt app T_end x = settle T_idle (finish_eof app (obj x)) x"
| "at_step vt app (T_dead e) x = x"

definition own_step :: "'w vtable \<Rightarrow> 'h app \<Rightarrow> ('w, 'h) shared \<Rightarrow> ('w, 'h) shared" where
  "own_step vt app x = at_step vt app (loc x) x"

subsection \<open>Undisturbed, it is \<open>HandleEvents\<close>\<close>

definition ends :: "'w vtable \<Rightarrow> 'h app \<Rightarrow> ('w, 'h) shared \<Rightarrow> exn + ('w, 'h) sbuf \<Rightarrow> at \<Rightarrow> bool" where
  "ends vt app x r q \<longleftrightarrow>
     (case r of
        Inl e \<Rightarrow> \<exists>n. loc ((own_step vt app ^^ n) x) = T_dead e
      | Inr s \<Rightarrow> \<exists>n. obj ((own_step vt app ^^ n) x) = s \<and> loc ((own_step vt app ^^ n) x) = q)"

lemma put_simps [simp]: "obj (put s x) = s" "loc (put s x) = loc x" "tested (put s x) = tested x"
  "owed_write (put s x) = owed_write x" "owed_close (put s x) = owed_close x" "swap_mark (put s x) = swap_mark x"
  by (simp_all add: put_def)

lemma jump_simps [simp]: "obj (jump q x) = obj x" "loc (jump q x) = q" "tested (jump q x) = tested x"
  "owed_write (jump q x) = owed_write x" "owed_close (jump q x) = owed_close x" "swap_mark (jump q x) = swap_mark x"
  "close_mark (jump q x) = close_mark x"
  by (simp_all add: jump_def)

lemma ends_now: "obj x = s \<Longrightarrow> loc x = q \<Longrightarrow> ends vt app x (Inr s) q"
  by (auto simp: ends_def intro: exI [of _ 0])

lemma ends_step: "ends vt app (own_step vt app x) r q \<Longrightarrow> ends vt app x r q"
  by (auto simp: ends_def funpow_swap1 split: sum.splits intro: exI [of _ "Suc n" for n])

lemma ends_settle:
  assumes "own_step vt app x = settle q r x"
  shows "ends vt app x r q"
proof (rule ends_step)
  show "ends vt app (own_step vt app x) r q"
    unfolding assms by (cases r) (auto simp: settle_def ends_def intro: exI [of _ 0])
qed

lemma ends_bind:
  assumes "ends vt app x r q"
    and "\<And>s y. r = Inr s \<Longrightarrow> obj y = s \<Longrightarrow> loc y = q \<Longrightarrow> ends vt app y (g s) q'"
  shows "ends vt app x (bindE r g) q'"
proof (cases r)
  case (Inl e)
  with assms(1) show ?thesis by (simp add: ends_def bindE_def)
next
  case (Inr s)
  with assms(1) obtain n where n: "obj ((own_step vt app ^^ n) x) = s" "loc ((own_step vt app ^^ n) x) = q"
    by (auto simp: ends_def)
  have "ends vt app ((own_step vt app ^^ n) x) (g s) q'" by (rule assms(2) [OF Inr n])
  moreover have "(own_step vt app ^^ m) ((own_step vt app ^^ n) x) = (own_step vt app ^^ (m + n)) x" for m
    by (simp add: funpow_add)
  ultimately show ?thesis using Inr by (auto simp: ends_def split: sum.splits)
qed

lemma ends_write: "loc x = T_write c \<Longrightarrow> ends vt app x (do_write vt (obj x)) (after_write c)"
proof (cases "write_closed (top_filter (obj x)) \<or> pending_writes (obj x) = []")
  case True
  assume "loc x = T_write c"
  with True have o: "own_step vt app x = jump (after_write c) x" by (simp add: own_step_def)
  have "do_write vt (obj x) = Inr (obj x)"
    using True pending_writes_nil [of "obj x"] by (auto simp: do_write_def Let_def)
  then show ?thesis by (simp only:) (rule ends_step, simp add: o ends_now)
next
  case False
  assume "loc x = T_write c"
  let ?y = "own_step vt app x"
  from False \<open>loc x = T_write c\<close> have y: "obj ?y = (obj x)\<lparr>pending_writes := []\<rparr>"
    "loc ?y = T_flush (pending_writes (obj x)) c" by (simp_all add: own_step_def)
  have t: "top_ix (obj ?y) = top_ix (obj x)" by (simp add: y(1) top_ix_def)
  have "do_write vt (obj x) = on_filter (top_ix (obj ?y)) (filter_write vt (top_ix (obj ?y)) (pending_writes (obj x))) (obj ?y)"
    using False unfolding t by (simp add: do_write_def Let_def y(1))
  then show ?thesis
    by (simp only:) (rule ends_step, rule ends_settle, simp add: own_step_def [of _ _ ?y] y(2))
qed

lemma ends_down: "loc x = T_down c \<Longrightarrow> ends vt app x (close_down vt (length (stream_filters (obj x))) (obj x)) (after_close c)"
  by (rule ends_settle) (simp add: own_step_def)

lemma ends_close: "loc x = T_close c \<Longrightarrow> ends vt app x (do_close vt (obj x)) (after_close c)"
proof -
  assume l: "loc x = T_close c"
  let ?y = "own_step vt app x"
  have o: "obj ?y = obj x" using l by (simp add: own_step_def)
  show ?thesis
  proof (cases "list_all (\<lambda>f. \<not> write_closed f) (stream_filters (obj x))")
    case True
    with l have "loc ?y = T_write (Some c)" by (simp add: own_step_def)
    from ends_write [OF this, of vt app] o True show ?thesis
      unfolding do_close_def Let_def by (intro ends_step [of _ _ x]) (auto intro!: ends_bind intro: ends_down)
  next
    case False
    with l have "loc ?y = T_down c" by (simp add: own_step_def)
    from ends_down [OF this, of vt app] o False show ?thesis
      unfolding do_close_def Let_def by (intro ends_step [of _ _ x]) (auto simp: bindE_def)
  qed
qed

lemma do_finalize_finish:
  "do_finalize vt app s =
     bindE (if \<not> should_close s \<and> read_closed (top_filter s) then do_close vt (s\<lparr>should_close := True\<rparr>) else Inr s)
       (finish_eof app)"
  by (simp add: do_finalize_def finish_eof_def [abs_def])

lemma ends_end: "loc x = T_end \<Longrightarrow> ends vt app x (finish_eof app (obj x)) T_idle"
  by (rule ends_settle) (simp add: own_step_def)

lemma ends_finalize: "loc x = T_finalize \<Longrightarrow> ends vt app x (do_finalize vt app (obj x)) T_idle"
proof -
  assume l: "loc x = T_finalize"
  let ?y = "own_step vt app x"
  show ?thesis
  proof (cases "\<not> should_close (obj x) \<and> read_closed (top_filter (obj x))")
    case True
    with l have y: "loc ?y = T_close By_finalize" "obj ?y = (obj x)\<lparr>should_close := True\<rparr>"
      by (simp_all add: own_step_def settle_def)
    from ends_close [OF y(1), of vt app] y(2) True show ?thesis
      unfolding do_finalize_finish by (intro ends_step [of _ _ x]) (auto intro!: ends_bind intro: ends_end)
  next
    case False
    with l have y: "loc ?y = T_end" "obj ?y = obj x" by (auto simp add: own_step_def)
    from ends_end [OF y(1), of vt app] y(2) False show ?thesis
      unfolding do_finalize_finish by (intro ends_step [of _ _ x]) (auto simp: bindE_def)
  qed
qed


text \<open>\<open>Read\<close>, round by round.\<close>

definition read_rest :: "'w vtable \<Rightarrow> 'h app \<Rightarrow> nat \<Rightarrow> ('w, 'h) sbuf \<Rightarrow> (exn + ('w, 'h) sbuf) option" where
  "read_rest vt app i s =
     map_option
       (\<lambda>res. bindE res (\<lambda>(close, s').
          Inr (if close then set_filter i ((stream_filters s' ! i)\<lparr>read_closed := True\<rparr>) s' else s')))
       (read_loop (filter_in vt i) (handle_data app) s)"

lemma read_rest_round:
  "read_rest vt app i s =
     (case read_round vt app i s of
        Inl e \<Rightarrow> Some (Inl e)
      | Inr (stop, t) \<Rightarrow> if stop then Some (Inr t) else read_rest vt app i t)"
  unfolding read_rest_def read_round_def
  by (subst read_loop.simps) (auto simp: bindE_def split: sum.splits)

lemma do_read_rest:
  "do_read vt app s = (if read_closed (top_filter s) then Some (Inr s) else read_rest vt app (top_ix s) s)"
  by (simp add: do_read_def read_rest_def Let_def)

lemma own_read: "loc x = T_read i \<Longrightarrow> own_step vt app x =
     (case read_round vt app i (obj x) of
        Inl e \<Rightarrow> jump (T_dead e) x
      | Inr (stop, s) \<Rightarrow> jump (if stop then T_write None else T_read i) (put s x))"
  by (auto simp: own_step_def settle_def split: sum.splits)

lemma ends_read:
  assumes "read_rest vt app i (obj x) = Some r" and "loc x = T_read i"
  shows "ends vt app x r (T_write None)"
proof -
  have "\<forall>x r. in_fn = filter_in vt i \<longrightarrow> deliver = handle_data app \<longrightarrow> obj x = s \<longrightarrow> loc x = T_read i \<longrightarrow>
      read_rest vt app i s = Some r \<longrightarrow> ends vt app x r (T_write None)"
    if "read_loop in_fn deliver s = Some res" for in_fn deliver s res
  proof (rule read_loop.raw_induct [where P = "\<lambda>in_fn deliver s res. \<forall>x r. in_fn = filter_in vt i \<longrightarrow>
        deliver = handle_data app \<longrightarrow> obj x = s \<longrightarrow> loc x = T_read i \<longrightarrow>
        read_rest vt app i s = Some r \<longrightarrow> ends vt app x r (T_write None)", OF _ that], intro allI impI, goal_cases)
    case (1 f in_fn deliver s res x r)
    note p = 1(3-7)
    show ?case
    proof (cases "read_round vt app i s")
      case (Inl e)
      with p have "r = Inl e" "own_step vt app x = jump (T_dead e) x"
        by (auto simp: own_read read_rest_round [of vt app i s])
      then show ?thesis by (intro ends_step [of _ _ x]) (auto simp: ends_def intro: exI [of _ 0])
    next
      case (Inr b)
      obtain stop t where b: "b = (stop, t)" by (cases b)
      show ?thesis
      proof (cases stop)
        case True
        with Inr b p have "r = Inr t" "own_step vt app x = jump (T_write None) (put t x)"
          by (auto simp: own_read read_rest_round [of vt app i s])
        then show ?thesis by (intro ends_step [of _ _ x]) (auto intro: ends_now)
      next
        case False
        with Inr b p have r: "read_rest vt app i t = Some r" "own_step vt app x = jump (T_read i) (put t x)"
          by (auto simp: own_read read_rest_round [of vt app i s])
        from Inr b False p(1,2) 1(2) obtain res' where "f in_fn deliver t = Some res'"
          by (auto simp: read_round_def bindE_def split: sum.splits if_splits)
        from 1(1) [OF this] p(1,2) r show ?thesis by (intro ends_step [of _ _ x]) auto
      qed
    qed
  qed
  moreover from assms(1) obtain res where "read_loop (filter_in vt i) (handle_data app) (obj x) = Some res"
    by (auto simp: read_rest_def)
  ultimately show ?thesis using assms by blast
qed

lemma stuck_read:
  assumes "read_rest vt app i (obj x) = None" and "loc x = T_read i"
  shows "loc ((own_step vt app ^^ n) x) = T_read i"
proof -
  have "read_rest vt app i (obj ((own_step vt app ^^ n) x)) = None \<and> loc ((own_step vt app ^^ n) x) = T_read i"
  proof (induction n)
    case (Suc n)
    then have r: "read_rest vt app i (obj ((own_step vt app ^^ n) x)) = None" "loc ((own_step vt app ^^ n) x) = T_read i"
      by simp_all
    from r(1) obtain t where "read_round vt app i (obj ((own_step vt app ^^ n) x)) = Inr (False, t)"
      "read_rest vt app i t = None"
      by (subst (asm) read_rest_round) (auto split: sum.splits if_splits)
    with r(2) show ?case by (simp add: own_read)
  qed (use assms in simp)
  then show ?thesis by simp
qed

lemma ends_branch:
  assumes "loc x = T_branch" and "handler_alive (obj x)"
  shows "(\<forall>r. handle_events vt app (obj x) = Some r \<longrightarrow> ends vt app x r T_idle)
    \<and> (handle_events vt app (obj x) = None \<longrightarrow> (\<forall>n. \<exists>i. loc ((own_step vt app ^^ Suc n) x) = T_read i))"
proof -
  let ?y = "own_step vt app x"
  have fin: "ends vt app z (do_finalize vt app s) T_idle" if "obj z = s" "loc z = T_finalize" for z s
    using ends_finalize [OF that(2), of vt app] that(1) by simp
  have wr: "ends vt app z (bindE (do_write vt s) (do_finalize vt app)) T_idle" if "obj z = s" "loc z = T_write None" for z s
    using ends_write [OF that(2), of vt app] that(1) by (auto intro!: ends_bind intro: fin)
  show ?thesis
  proof (cases "should_close (obj x)")
    case True
    with assms(1) have y: "loc ?y = T_close By_events" "obj ?y = obj x" by (simp_all add: own_step_def)
    have "ends vt app ?y (bindE (do_close vt (obj x)) (do_finalize vt app)) T_idle"
      using ends_close [OF y(1), of vt app] y(2) by (auto intro!: ends_bind intro: fin)
    with True assms(2) show ?thesis by (auto simp: handle_events_def intro: ends_step [of _ _ x])
  next
    case opn: False
    show ?thesis
    proof (cases "is_connected (obj x)")
      case False
      with opn assms(1) have y: "loc ?y = T_connect" "obj ?y = obj x" by (simp_all add: own_step_def)
      have "ends vt app ?y (do_connect vt app (obj x)) T_finalize"
        by (rule ends_settle) (simp add: own_step_def [of _ _ ?y] y)
      then have "ends vt app ?y (bindE (do_connect vt app (obj x)) (do_finalize vt app)) T_idle"
        by (auto intro!: ends_bind intro: fin)
      with opn False assms(2) show ?thesis by (auto simp: handle_events_def intro: ends_step [of _ _ x])
    next
      case con: True
      show ?thesis
      proof (cases "read_closed (top_filter (obj x))")
        case True
        with opn con assms(1) have "loc ?y = T_write None" "obj ?y = obj x" by (simp_all add: own_step_def)
        from wr [OF this(2,1)] opn con True assms(2) show ?thesis
          by (auto simp: handle_events_def do_read_rest bindE_def intro: ends_step [of _ _ x])
      next
        case False
        with opn con assms(1) have y: "loc ?y = T_read (top_ix (obj x))" "obj ?y = obj x"
          by (simp_all add: own_step_def)
        show ?thesis
        proof (cases "read_rest vt app (top_ix (obj x)) (obj x)")
          case None
          from stuck_read [of vt app _ ?y, OF _ y(1)] None y(2) opn con False assms(2) show ?thesis
            by (auto simp: handle_events_def do_read_rest funpow_swap1)
        next
          case (Some r)
          from ends_read [of vt app _ ?y, OF _ y(1)] Some y(2) have "ends vt app ?y r (T_write None)" by simp
          then have "ends vt app ?y (bindE r (\<lambda>s. bindE (do_write vt s) (do_finalize vt app))) T_idle"
            by (auto intro!: ends_bind [of _ _ ?y r] intro: wr)
          with Some opn con False assms(2) show ?thesis
            by (auto simp: handle_events_def do_read_rest intro: ends_step [of _ _ x])
        qed
      qed
    qed
  qed
qed

end
