(* ===== verification/Stream_Interleaving.thy ===== *)
theory Stream_Interleaving
  imports Stream_Threads
begin

subsection \<open>Interleaving\<close>

text \<open>The push of \<open>Write\<close> under the lock; the one that finds the list empty goes on to make the event ready.\<close>

definition push :: "bytes \<Rightarrow> ('w, 'h) shared \<Rightarrow> ('w, 'h) shared" where
  "push d x =
     x\<lparr>obj := emit (Ob_queued d) ((obj x)\<lparr>pending_writes := pending_writes (obj x) @ [d]\<rparr>),
       tested := remove1 d (tested x),
       owed_write := owed_write x + (if pending_writes (obj x) = [] then 1 else 0)\<rparr>"

text \<open>
  The steps of the loop thread, and those of other threads: an event, the three steps of \<open>Write\<close>,
  the two of \<open>Close\<close>, \<open>Attach\<close>, the end of the handler (not while \<open>HandleEvents\<close> holds it), and a
  move of the world.
\<close>

inductive thr_step ::
  "'w vtable \<Rightarrow> 'h app \<Rightarrow> ('w \<Rightarrow> 'w \<Rightarrow> bool) \<Rightarrow> ('w, 'h) shared \<Rightarrow> ('w, 'h) shared \<Rightarrow> bool"
  for vt app env where
  own: "loc x \<noteq> T_idle \<Longrightarrow> \<forall>e. loc x \<noteq> T_dead e \<Longrightarrow> thr_step vt app env x (own_step vt app x)"
| event: "loc x = T_idle \<Longrightarrow> thr_step vt app env x (jump T_enter x)"
| write_test: "d \<noteq> [] \<Longrightarrow> \<not> should_close (obj x) \<Longrightarrow> thr_step vt app env x (x\<lparr>tested := d # tested x\<rparr>)"
| write_push: "d \<in> set (tested x) \<Longrightarrow> thr_step vt app env x (push d x)"
| write_ready: "0 < owed_write x \<Longrightarrow>
    thr_step vt app env x (x\<lparr>obj := ready_event Ev_Write (obj x), owed_write := owed_write x - 1\<rparr>)"
| close_set: "thr_step vt app env x (put ((obj x)\<lparr>should_close := True\<rparr>) (x\<lparr>owed_close := owed_close x + 1\<rparr>))"
| close_ready: "0 < owed_close x \<Longrightarrow>
    thr_step vt app env x (x\<lparr>obj := ready_event Ev_Close (obj x), owed_close := owed_close x - 1\<rparr>)"
| attach: "\<not> has_event (obj x) \<Longrightarrow> thr_step vt app env x (x\<lparr>obj := (obj x)\<lparr>has_event := True\<rparr>\<rparr>)"
| gone: "loc x = T_idle \<or> loc x = T_enter \<Longrightarrow> thr_step vt app env x (x\<lparr>obj := (obj x)\<lparr>handler_alive := False\<rparr>\<rparr>)"
| outside: "env (world (obj x)) w \<Longrightarrow> thr_step vt app env x (x\<lparr>obj := (obj x)\<lparr>world := w\<rparr>\<rparr>)"

inductive_cases thr_stepE: "thr_step vt app env x y"

inductive thr_reach ::
  "'w vtable \<Rightarrow> 'h app \<Rightarrow> ('w \<Rightarrow> 'w \<Rightarrow> bool) \<Rightarrow> ('w, 'h) shared \<Rightarrow> ('w, 'h) shared \<Rightarrow> bool"
  for vt app env x0 where
  start: "thr_reach vt app env x0 x0"
| move: "thr_reach vt app env x0 x \<Longrightarrow> thr_step vt app env x y \<Longrightarrow> thr_reach vt app env x0 y"

subsection \<open>What the steps do to the object\<close>

text \<open>A step without callback.\<close>

definition mute :: "('w, 'h) sbuf \<Rightarrow> ('w, 'h) sbuf \<Rightarrow> bool" where
  "mute s t \<longleftrightarrow> evolves s t \<and> keeps s t \<and> quiet s t"

lemma mute_refl [simp, intro!]: "mute s s"
  by (simp add: mute_def)

lemma mute_trans: "mute s t \<Longrightarrow> mute t u \<Longrightarrow> mute s u"
  unfolding mute_def by (blast intro: evolves_trans keeps_trans quiet_trans)

lemma mute_inv: "mute s t \<Longrightarrow> sb_inv s \<Longrightarrow> obeys s \<Longrightarrow> sb_inv t \<and> obeys t"
  using sb_inv_step [of s t] quiet_obeys [of s t] by (simp add: mute_def)

lemma mute_same:
  assumes "stream_filters t = stream_filters s" and "eof_called t = eof_called s" and "trace t = trace s @ xs"
    and "list_all no_callback xs" and "no_empty (pending_writes s) \<Longrightarrow> no_empty (pending_writes t)"
    and "add_filter_allowed t = add_filter_allowed s" and "should_close s \<longrightarrow> should_close t"
    and "sb_mode t = sb_mode s" and "has_event t = has_event s" and "handler_alive t = handler_alive s"
  shows "mute s t"
proof -
  have "Ob_eof \<notin> set xs" using assms(4) by (auto simp: list_all_iff)
  moreover have "quiet s t" using assms(1-4) by (intro quiet_same)
  moreover have "evolves s t" by (rule evolves_same) (use assms in simp_all)
  ultimately show ?thesis using assms keeps_same [of t s xs] by (simp add: mute_def)
qed

lemma mute_on_filter:
  assumes "on_filter i g s = Inr t"
    and "\<And>w f w'. g (stream_filters s ! i) w = Inr (f, w') \<Longrightarrow>
      filt_le (stream_filters s ! i) f \<and> same_links (stream_filters s ! i) f \<and> connected f = connected (stream_filters s ! i)"
  shows "mute s t"
  using on_filter_evolves [OF assms(1)] on_filter_keeps [OF assms(1)] quiet_on_filter [OF assms(1)] assms(2)
  by (simp add: mute_def)

lemma mute_flush: "on_filter i (filter_write vt i ds) s = Inr t \<Longrightarrow> mute s t"
  by (erule mute_on_filter) (auto dest: filter_write_le filter_write_links filter_write_connected)

lemma mute_down: "close_down vt n s = Inr t \<Longrightarrow> mute s t"
  by (simp add: mute_def close_down_evolves close_down_keeps close_down_quiet)

lemma mute_read_closed: "mute s (set_filter i ((stream_filters s ! i)\<lparr>read_closed := True\<rparr>) s)"
  by (auto simp: mute_def filt_le_def same_links_def intro: evolves_set_filter keeps_set_filter read_closing_quiet)

lemma mute_filter_in: "filter_in vt i s = Inr (r, t) \<Longrightarrow> mute s t"
  using filter_in_quiet [of vt i s r t] by (simp add: mute_def filter_in_evolves filter_in_keeps)

text \<open>A round of \<open>Read\<close>.\<close>

lemma read_round_elim:
  assumes "read_round vt app i s = Inr (stop, t)"
  obtains (ended) r u where "filter_in vt i s = Inr (r, u)" "should_close_read r \<or> \<not> has_data r" "stop"
      "t = (if should_close_read r then set_filter i ((stream_filters u ! i)\<lparr>read_closed := True\<rparr>) u else u)"
  | (data) r u where "filter_in vt i s = Inr (r, u)" "\<not> should_close_read r" "has_data r" "\<not> stop"
      "handle_data app (opt_bytes (in_data r)) u = Inr t"
proof -
  from assms obtain r u where r: "filter_in vt i s = Inr (r, u)"
    by (auto simp: read_round_def bindE_def split: sum.splits)
  with assms ended [OF r] data [OF r] show ?thesis
    by (auto simp: read_round_def split: if_splits)
qed

lemma read_round_step:
  assumes "read_round vt app i s = Inr (stop, t)" and "sb_inv s" and "in_stream s"
  shows "sb_inv t \<and> in_stream t \<and> evolves s t \<and> keeps s t"
  using assms(1)
proof (cases rule: read_round_elim)
  case (ended r u)
  from mute_trans [OF mute_filter_in [OF ended(1)] mute_read_closed] mute_filter_in [OF ended(1)] ended(4)
  have c: "mute s t" by auto
  moreover have "stream_filters t \<noteq> []"
    using c evolves_nonempty [of s t] assms(3) by (simp add: mute_def in_stream_def)
  ultimately show ?thesis using mute_inv [OF c assms(2)] assms(3) in_stream_quiet [OF assms(3)]
    by (simp add: mute_def in_stream_def)
next
  case (data r u)
  have u: "mute s u" by (rule mute_filter_in [OF data(1)])
  have iu: "in_stream u" by (rule filter_in_in_stream [OF data(1) assms(3)])
  have ut: "evolves u t" "keeps u t"
    using handle_data_evolves [OF data(5)] handle_data_keeps [OF data(5)] iu by (simp_all add: in_stream_def)
  then have "evolves s t" "keeps s t" using u by (auto simp: mute_def intro: evolves_trans keeps_trans)
  with sb_inv_step [OF this assms(2)] handle_data_in_stream [OF data(5) iu] show ?thesis by simp
qed

subsection \<open>The invariant\<close>

text \<open>What the loop thread knows where it is.\<close>

fun place_ok :: "at \<Rightarrow> ('w, 'h) sbuf \<Rightarrow> bool" where
  "place_ok (T_read i) s = (i = top_ix s \<and> in_stream s)"
| "place_ok T_connect s = (\<not> eof_called s)"
| "place_ok (T_write (Some c)) s = should_close s"
| "place_ok (T_flush ds (Some c)) s = (should_close s \<and> \<not> write_closed (top_filter s) \<and> no_empty ds)"
| "place_ok (T_flush ds None) s = (\<not> write_closed (top_filter s) \<and> no_empty ds)"
| "place_ok (T_close c) s = should_close s"
| "place_ok (T_down c) s = should_close s"
| "place_ok T_end s = (should_close s \<or> \<not> read_closed (top_filter s))"
| "place_ok _ s = True"

fun holds_handler :: "at \<Rightarrow> bool" where
  "holds_handler T_idle = False"
| "holds_handler T_enter = False"
| "holds_handler (T_dead e) = False"
| "holds_handler _ = True"

definition thr_inv :: "('w, 'h) shared \<Rightarrow> bool" where
  "thr_inv x \<longleftrightarrow> sb_inv (obj x) \<and> obeys (obj x) \<and> place_ok (loc x) (obj x) \<and> no_empty (tested x)
     \<and> (holds_handler (loc x) \<longrightarrow> handler_alive (obj x))"

lemma finish_is_finalize:
  "should_close s \<or> \<not> read_closed (top_filter s) \<Longrightarrow> finish_eof app s = do_finalize vt app s"
  by (auto simp: do_finalize_finish bindE_def)

lemma place_after:
  "place_ok (after_write None) s" "should_close s \<Longrightarrow> place_ok (after_write (Some c)) s"
  "should_close s \<Longrightarrow> place_ok (after_close c) s"
  "holds_handler (after_write o')" "holds_handler (after_close c)"
  by (cases c; cases o'; simp)+


lemma settle_inv:
  assumes "thr_inv x" and "\<And>s. r = Inr s \<Longrightarrow> sb_inv s \<and> obeys s \<and> place_ok q s \<and> (holds_handler q \<longrightarrow> handler_alive s)"
  shows "thr_inv (settle q r x)"
  using assms by (auto simp: settle_def thr_inv_def split: sum.splits)

lemma mute_settle:
  assumes "thr_inv x" and "\<And>s. r = Inr s \<Longrightarrow> mute (obj x) s" and "\<And>s. r = Inr s \<Longrightarrow> place_ok q s"
    and "holds_handler q \<Longrightarrow> holds_handler (loc x)"
  shows "thr_inv (settle q r x)"
proof (rule settle_inv [OF assms(1)])
  fix s
  assume r: "r = Inr s"
  from mute_inv [OF assms(2) [OF r]] assms(1,4) assms(2) [OF r] assms(3) [OF r]
  show "sb_inv s \<and> obeys s \<and> place_ok q s \<and> (holds_handler q \<longrightarrow> handler_alive s)"
    by (auto simp: thr_inv_def mute_def evolves_def)
qed

lemma jump_inv: "thr_inv x \<Longrightarrow> place_ok q (obj x) \<Longrightarrow> (holds_handler q \<Longrightarrow> handler_alive (obj x)) \<Longrightarrow> thr_inv (jump q x)"
  by (simp add: thr_inv_def)

lemma streaming_now:
  assumes "sb_inv s" and "obeys s" and "is_connected s" and "\<not> should_close s"
  shows "in_stream s"
  using sb_inv_chain [OF assms(1)] top_connected_hd [of s] assms by (auto simp: in_stream_def phase_of_def sb_inv_def)

text \<open>The steps that call filters or the application, one by one.\<close>

lemma own_read_inv:
  assumes "thr_inv x" and "loc x = T_read i"
  shows "thr_inv (own_step vt app x)"
proof (cases "read_round vt app i (obj x)")
  case (Inl e)
  with assms(2) jump_inv [OF assms(1), of "T_dead e"] show ?thesis by (simp add: own_read)
next
  case (Inr b)
  obtain stop t where b: "b = (stop, t)" by (cases b)
  have inv: "sb_inv (obj x)" "handler_alive (obj x)" "in_stream (obj x)" "i = top_ix (obj x)"
    using assms by (simp_all add: thr_inv_def)
  from read_round_step [OF Inr [unfolded b] inv(1,3)]
  have t: "sb_inv t" "in_stream t" "evolves (obj x) t" "keeps (obj x) t" by simp_all
  have "top_ix t = i"
    using t(4) inv(1,4) by (auto simp: keeps_def sb_inv_def intro!: top_ix_cong)
  with Inr b assms inv(2) t show ?thesis
    by (auto simp: own_read thr_inv_def in_stream_def evolves_def)
qed

lemma own_write_inv:
  assumes "thr_inv x" and "loc x = T_write c"
  shows "thr_inv (own_step vt app x)"
proof -
  have inv: "sb_inv (obj x)" "obeys (obj x)" using assms(1) by (simp_all add: thr_inv_def)
  have "mute (obj x) ((obj x)\<lparr>pending_writes := []\<rparr>)" by (rule mute_same [where xs = "[]"]) auto
  from mute_inv [OF this inv] assms place_after sb_inv_chain [OF inv(1)] show ?thesis
    by (cases c) (auto simp: own_step_def thr_inv_def chain_inv_def top_ix_def)
qed

lemma own_mute_inv:
  fixes x :: "('w, 'h) shared"
  assumes "thr_inv x" and "own_step vt app x = settle q r x" and "\<And>t. r = Inr t \<Longrightarrow> mute (obj x) t"
    and "holds_handler (loc x)" and "\<And>t :: ('w, 'h) sbuf. should_close (obj x) \<longrightarrow> should_close t \<Longrightarrow> place_ok q t"
  shows "thr_inv (own_step vt app x)"
  unfolding assms(2)
proof (rule mute_settle [OF assms(1)])
  fix t
  assume "r = Inr t"
  then show m: "mute (obj x) t" by (rule assms(3))
  then have "should_close (obj x) \<longrightarrow> should_close t" by (simp add: mute_def evolves_def)
  then show "place_ok q t" by (rule assms(5))
qed (simp add: assms(4))

lemma own_flush_inv:
  assumes "thr_inv x" and "loc x = T_flush ds c"
  shows "thr_inv (own_step vt app x)"
proof (rule own_mute_inv [OF assms(1)])
  show "own_step vt app x
      = settle (after_write c) (on_filter (top_ix (obj x)) (filter_write vt (top_ix (obj x)) ds) (obj x)) x"
    by (simp add: own_step_def assms(2))
qed (use assms in \<open>cases c; auto simp: thr_inv_def dest: mute_flush\<close>)+

lemma own_down_inv:
  assumes "thr_inv x" and "loc x = T_down c"
  shows "thr_inv (own_step vt app x)"
proof (rule own_mute_inv [OF assms(1)])
  show "own_step vt app x = settle (after_close c) (close_down vt (length (stream_filters (obj x))) (obj x)) x"
    by (simp add: own_step_def assms(2))
qed (use assms in \<open>cases c; auto simp: thr_inv_def dest: mute_down\<close>)+

lemma own_connect_inv:
  assumes "thr_inv x" and "loc x = T_connect"
  shows "thr_inv (own_step vt app x)"
proof -
  have "thr_inv (settle T_finalize (do_connect vt app (obj x)) x)"
  proof (rule settle_inv [OF assms(1)])
    fix t
    assume t: "do_connect vt app (obj x) = Inr t"
    from do_connect_chain [OF t] do_connect_obeys [OF t] do_connect_evolves [OF t] assms
    show "sb_inv t \<and> obeys t \<and> place_ok T_finalize t \<and> (holds_handler T_finalize \<longrightarrow> handler_alive t)"
      by (auto simp: sb_inv_def evolves_def thr_inv_def)
  qed
  then show ?thesis by (simp add: own_step_def assms(2))
qed

lemma own_end_inv:
  assumes "thr_inv x" and "loc x = T_end"
  shows "thr_inv (own_step vt app x)"
proof -
  have inv: "sb_inv (obj x)" "obeys (obj x)" "place_ok T_end (obj x)" using assms by (simp_all add: thr_inv_def)
  have f: "finish_eof app (obj x) = do_finalize vt app (obj x)" using inv(3) by (intro finish_is_finalize) simp
  have ne: "stream_filters (obj x) \<noteq> []" using sb_inv_chain [OF inv(1)] by simp
  have "thr_inv (settle T_idle (finish_eof app (obj x)) x)"
    using do_finalize_inv [OF _ inv(1)] do_finalize_obeys [OF _ inv(2) ne]
    unfolding f by (intro settle_inv [OF assms(1)]) auto
  then show ?thesis by (simp add: own_step_def assms(2))
qed

lemma own_inv:
  assumes "thr_inv x"
  shows "thr_inv (own_step vt app x)"
proof (cases "loc x")
  case T_enter
  have "mute (obj x) (close_event (obj x))"
    by (rule mute_same [where xs = "if has_event (obj x) then [Ob_close_event] else []"]) (auto simp: ev_call_trace)
  with assms T_enter show ?thesis
    by (auto simp: own_step_def intro: mute_settle jump_inv)
next
  case T_branch
  with assms streaming_now [of "obj x"] show ?thesis
    by (auto simp: own_step_def thr_inv_def sb_inv_def intro!: jump_inv)
next
  case (T_close c)
  with assms show ?thesis by (auto simp: own_step_def thr_inv_def)
next
  case T_finalize
  have "mute (obj x) ((obj x)\<lparr>should_close := True\<rparr>)" by (rule mute_same [where xs = "[]"]) auto
  moreover have "handler_alive (obj x)" using assms T_finalize by (simp add: thr_inv_def)
  ultimately show ?thesis using T_finalize
    by (auto simp: own_step_def intro: mute_settle [OF assms] jump_inv [OF assms])
qed (use assms in \<open>simp_all add: own_step_def [of _ _ x, symmetric] own_read_inv own_write_inv own_flush_inv own_down_inv
      own_connect_inv own_end_inv, simp_all add: own_step_def\<close>)

text \<open>The steps of the others.\<close>

lemma others_inv:
  assumes "thr_inv x" and "sb_inv t" and "obeys t" and "stream_filters t = stream_filters (obj x)"
    and "eof_called t = eof_called (obj x)" and "should_close (obj x) \<longrightarrow> should_close t" and "loc y = loc x"
    and "obj y = t" and "holds_handler (loc x) \<longrightarrow> handler_alive t" and "no_empty (tested y)"
  shows "thr_inv y"
proof -
  have p: "phase_of t = phase_of (obj x)" "top_ix t = top_ix (obj x)" using assms(4,5) by (simp_all add: phase_of_def top_ix_def)
  have "place_ok (loc x) t"
    using assms(1-6) p by (cases "(loc x, t)" rule: place_ok.cases) (auto simp: thr_inv_def in_stream_def)
  with assms show ?thesis by (simp add: thr_inv_def)
qed

lemma mute_others:
  assumes "thr_inv x" and "mute (obj x) (obj y)" and "stream_filters (obj y) = stream_filters (obj x)"
    and "eof_called (obj y) = eof_called (obj x)" and "loc y = loc x" and "no_empty (tested y)"
  shows "thr_inv y"
  using others_inv [OF assms(1) _ _ assms(3,4) _ assms(5) refl _ assms(6)] mute_inv [OF assms(2)] assms(1,2)
  by (simp add: thr_inv_def mute_def evolves_def)

lemma mute_ready: "mute s (ready_event m s)"
  by (rule mute_same [where xs = "if has_event s then [Ob_ready m] else []"]) (auto simp: ev_call_trace)

lemma no_empty_remove: "no_empty ds \<Longrightarrow> no_empty (remove1 d ds)"
  using set_remove1_subset [of d ds] by (auto simp: list_all_iff)

lemma thr_step_inv:
  assumes "thr_step vt app env x y" and "thr_inv x"
  shows "thr_inv y"
  using assms(1)
proof cases
  case own
  with own_inv [OF assms(2)] show ?thesis by simp
next
  case (write_push d)
  have "mute (obj x) (obj y)"
    by (rule mute_same [where xs = "[Ob_queued d]"])
       (use write_push assms(2) in \<open>auto simp: push_def thr_inv_def list_all_iff\<close>)
  with write_push assms(2) show ?thesis
    by (intro mute_others [OF assms(2)]) (simp_all add: push_def thr_inv_def no_empty_remove)
next
  case close_set
  have "mute (obj x) (obj y)" by (rule mute_same [where xs = "[]"]) (auto simp: close_set)
  with close_set assms(2) show ?thesis by (intro mute_others [OF assms(2)]) (simp_all add: thr_inv_def)
next
  case attach
  have "sb_inv (obj y) \<and> obeys (obj y)"
    using assms(2) attach(1) by (auto simp: thr_inv_def intro: sb_inv_same obeys_same)
  with attach assms(2) show ?thesis by (intro others_inv [OF assms(2)]) (auto simp: thr_inv_def)
next
  case gone
  have "sb_inv (obj y) \<and> obeys (obj y)"
    using assms(2) gone(1) by (auto simp: thr_inv_def intro: sb_inv_same obeys_same)
  with gone assms(2) show ?thesis by (intro others_inv [OF assms(2)]) (auto simp: thr_inv_def)
next
  case (outside w)
  have "mute (obj x) (obj y)" by (rule mute_same [where xs = "[]"]) (auto simp: outside)
  with outside assms(2) show ?thesis by (intro mute_others [OF assms(2)]) (simp_all add: thr_inv_def)
next
  case write_ready
  with assms(2) mute_ready show ?thesis by (intro mute_others [OF assms(2)]) (simp_all add: thr_inv_def)
next
  case close_ready
  with assms(2) mute_ready show ?thesis by (intro mute_others [OF assms(2)]) (simp_all add: thr_inv_def)
qed (use assms(2) in \<open>simp_all add: thr_inv_def\<close>)

lemma thr_reach_inv: "thr_reach vt app env x0 x \<Longrightarrow> thr_inv x0 \<Longrightarrow> thr_inv x"
  by (induction rule: thr_reach.induct) (auto intro: thr_step_inv)

lemma shared_start_inv: "sb_create ha m w h = Inr s \<Longrightarrow> thr_inv (shared_start s)"
  using sb_create_inv [of ha m w h s] sb_create_obeys [of ha m w h s] by (simp add: thr_inv_def shared_start_def)

subsection \<open>Wakeups\<close>

text \<open>
  Between two states nothing was queued without a ready event after it.
\<close>

definition rung :: "('w, 'h) sbuf \<Rightarrow> ('w, 'h) sbuf \<Rightarrow> bool" where
  "rung s t \<longleftrightarrow> (has_event s \<longrightarrow> has_event t \<and> (\<exists>ys. trace t = trace s @ ys
     \<and> (pending_writes t \<noteq> [] \<longrightarrow> pending_writes s \<noteq> [] \<or> Ob_ready Ev_Write \<in> set ys)))"

lemma rung_trans: "rung s t \<Longrightarrow> rung t u \<Longrightarrow> rung s u"
  unfolding rung_def by (metis append.assoc in_set_conv_decomp append_Cons Un_iff set_append)

lemma rung_same: "has_event t = has_event s \<Longrightarrow> trace t = trace s @ ys \<Longrightarrow>
    pending_writes t = pending_writes s \<or> pending_writes t = [] \<Longrightarrow> rung s t"
  by (auto simp: rung_def)

lemma rung_refl [simp, intro!]: "rung s s"
  by (rule rung_same [where ys = "[]"]) simp_all

lemma rung_write: "rung s (sb_write d s)"
  by (auto simp: rung_def sb_write_trace sb_write_pending)

lemma rung_action: "run_action a s = Inr t \<Longrightarrow> rung s t"
proof (cases a)
  case Act_close
  moreover assume "run_action a s = Inr t"
  ultimately show ?thesis by (intro rung_same [where ys = "if has_event s then [Ob_ready Ev_Close] else []"]) auto
next
  case Act_add_filter
  moreover assume "run_action a s = Inr t"
  ultimately show ?thesis
    by (intro rung_same [where ys = "[]"]) (auto simp: sb_add_filter_def Let_def split: if_splits)
qed (auto simp: rung_write)

lemma rung_actions: "run_actions as s = Inr t \<Longrightarrow> rung s t"
  by (induction as arbitrary: s) (auto intro: rung_trans dest: rung_action)

lemma rung_callback:
  assumes "callback ob f s = Inr t"
  shows "rung s t"
proof -
  from assms obtain as h where r: "run_actions as (emit ob (s\<lparr>app_state := h\<rparr>)) = Inr t" by (rule callback_elim)
  have "rung s (emit ob (s\<lparr>app_state := h\<rparr>))" by (rule rung_same [where ys = "[ob]"]) auto
  then show ?thesis using rung_actions [OF r] by (rule rung_trans)
qed

lemma rung_on_filter: "on_filter i g s = Inr t \<Longrightarrow> rung s t"
  by (auto simp: on_filter_def intro: rung_same)

lemma rung_down: "close_down vt n s = Inr t \<Longrightarrow> rung s t"
proof (induction n arbitrary: s)
  case (Suc i)
  then obtain u where u: "(if \<not> filter_closed (stream_filters s ! i)
       then on_filter i (filter_close vt i) s else Inr s) = Inr u"
    and t: "(if \<not> filter_closed (stream_filters u ! i) then Inr u else close_down vt i u) = Inr t"
    by auto
  have "rung s u" using u by (auto split: if_splits intro: rung_on_filter)
  moreover have "rung u t" using t Suc.IH by (auto split: if_splits)
  ultimately show ?case by (rule rung_trans)
qed simp

lemma rung_connect: "do_connect vt app s = Inr t \<Longrightarrow> rung s t"
proof (erule do_connect_elim)
  fix w v
  assume v: "callback Ob_connected (on_connected app)
      (set_filter (top_ix s) ((top_filter s)\<lparr>connected := True\<rparr>) (s\<lparr>world := w, add_filter_allowed := True\<rparr>)) = Inr v"
    and t: "t = modify_event (v\<lparr>add_filter_allowed := False\<rparr>)"
  have "rung s (set_filter (top_ix s) ((top_filter s)\<lparr>connected := True\<rparr>) (s\<lparr>world := w, add_filter_allowed := True\<rparr>))"
    by (rule rung_same [where ys = "[]"]) auto
  moreover have "rung v t" unfolding t
    by (rule rung_same [where ys = "if has_event v then [Ob_modify_event] else []"]) (auto simp: ev_call_trace)
  ultimately show "rung s t" using rung_callback [OF v] by (blast intro: rung_trans)
qed (rule rung_same [where ys = "[]"], auto)+

lemma rung_finish: "finish_eof app s = Inr t \<Longrightarrow> rung s t"
proof (cases "is_read_closed s \<and> is_write_closed s \<and> \<not> eof_called s")
  case True
  assume "finish_eof app s = Inr t"
  with True obtain v where v: "callback Ob_eof (on_eof app) (s\<lparr>eof_called := True\<rparr>) = Inr v" "t = close_event v"
    by (auto simp: finish_eof_def)
  have "rung s (s\<lparr>eof_called := True\<rparr>)" by (rule rung_same [where ys = "[]"]) auto
  moreover have "rung v t" unfolding v(2)
    by (rule rung_same [where ys = "if has_event v then [Ob_close_event] else []"]) (auto simp: ev_call_trace)
  ultimately show ?thesis using rung_callback [OF v(1)] by (blast intro: rung_trans)
qed (auto simp: finish_eof_def split: if_splits)

lemma rung_round: "read_round vt app i s = Inr (stop, t) \<Longrightarrow> rung s t"
proof (erule read_round_elim)
  fix r u
  assume u: "filter_in vt i s = Inr (r, u)"
    and t: "t = (if should_close_read r then set_filter i ((stream_filters u ! i)\<lparr>read_closed := True\<rparr>) u else u)"
  show "rung s t" unfolding t using u by (intro rung_same [where ys = "[]"]) (auto simp: filter_in_def)
next
  fix r u
  assume u: "filter_in vt i s = Inr (r, u)" and t: "handle_data app (opt_bytes (in_data r)) u = Inr t"
  have "rung s u" by (rule rung_same [where ys = "[]"]) (use u in \<open>auto simp: filter_in_def\<close>)
  moreover have "rung u t" using t rung_callback by (auto simp: handle_data_def split: if_splits)
  ultimately show "rung s t" by (rule rung_trans)
qed

lemma rung_settle: "(\<And>s. r = Inr s \<Longrightarrow> rung (obj x) s) \<Longrightarrow> rung (obj x) (obj (settle q r x))"
  by (auto simp: settle_def split: sum.splits)

lemma own_rung: "rung (obj x) (obj (own_step vt app x))"
proof (cases "loc x")
  case T_enter
  have "rung (obj x) (close_event (obj x))"
    by (rule rung_same [where ys = "if has_event (obj x) then [Ob_close_event] else []"]) (auto simp: ev_call_trace)
  with T_enter show ?thesis by (auto simp: own_step_def intro!: rung_settle)
next
  case (T_read i)
  then show ?thesis by (auto simp: own_read dest: rung_round split: sum.splits)
next
  case (T_write c)
  have "rung (obj x) ((obj x)\<lparr>pending_writes := []\<rparr>)" by (rule rung_same [where ys = "[]"]) auto
  with T_write show ?thesis by (auto simp: own_step_def)
next
  case T_finalize
  have "rung (obj x) ((obj x)\<lparr>should_close := True\<rparr>)" by (rule rung_same [where ys = "[]"]) auto
  with T_finalize show ?thesis by (auto simp: own_step_def intro!: rung_settle)
qed (auto simp: own_step_def intro!: rung_settle dest: rung_on_filter rung_down rung_connect rung_finish)

definition woken :: "('w, 'h) shared \<Rightarrow> bool" where
  "woken x \<longleftrightarrow> has_event (obj x) \<and> swap_mark x \<le> length (trace (obj x))
     \<and> (pending_writes (obj x) \<noteq> [] \<longrightarrow>
          0 < owed_write x \<or> Ob_ready Ev_Write \<in> set (drop (swap_mark x) (trace (obj x))))"

lemma woken_rung:
  assumes "woken x" and "rung (obj x) (obj y)" and "swap_mark y = swap_mark x" and "owed_write y = owed_write x"
  shows "woken y"
  using assms by (fastforce simp: woken_def rung_def)

lemma woken_own:
  assumes "woken x"
  shows "woken (own_step vt app x)"
proof (cases "\<exists>c. loc x = T_write c")
  case True
  with assms show ?thesis by (auto simp: own_step_def woken_def)
next
  case False
  then have "swap_mark (own_step vt app x) = swap_mark x" "owed_write (own_step vt app x) = owed_write x"
    by (cases "loc x"; auto simp: own_step_def settle_def split: sum.splits)+
  with woken_rung [OF assms own_rung] show ?thesis .
qed

lemma woken_step:
  assumes "thr_step vt app env x y" and "woken x"
  shows "woken y"
  using assms(1)
proof cases
  case own
  with woken_own [OF assms(2)] show ?thesis by simp
next
  case (write_push d)
  with assms(2) show ?thesis by (auto simp: woken_def push_def)
next
  case write_ready
  with assms(2) show ?thesis by (auto simp: woken_def ev_call_trace)
qed (use assms(2) in \<open>auto simp: woken_def ev_call_trace\<close>)

lemma woken_reach: "thr_reach vt app env x0 x \<Longrightarrow> woken x0 \<Longrightarrow> woken x"
  by (induction rule: thr_reach.induct) (auto intro: woken_step)

end
