(* ===== verification/Stream_Shared_Bytes.thy ===== *)
theory Stream_Shared_Bytes
  imports Stream_Interleaving
begin

subsection \<open>Bytes in transfer\<close>

text \<open>The views the loop thread has taken from the list and not yet given to the filter.\<close>

fun in_hand :: "at \<Rightarrow> bytes list" where
  "in_hand (T_flush ds c) = ds"
| "in_hand _ = []"

definition view :: "('w, 'h) shared \<Rightarrow> ('w, 'h) sbuf" where
  "view x = (obj x)\<lparr>pending_writes := in_hand (loc x) @ pending_writes (obj x)\<rparr>"

definition flows ::
  "('k, 'z) socket_calls_scheme \<Rightarrow> bytes \<Rightarrow> bytes \<Rightarrow> (('k, 'x) tcp_scheme, 'h) shared \<Rightarrow> bool" where
  "flows K b c x \<longleftrightarrow> out_inv K b (view x) \<and> in_inv K c (obj x)"

lemma in_hand_after [simp]: "in_hand (after_write o') = []" "in_hand (after_close c) = []"
  by (cases o'; simp) (cases c; simp)

lemma view_plain: "in_hand (loc x) = [] \<Longrightarrow> view x = obj x"
  by (simp add: view_def)

lemma view_simps [simp]: "stream_filters (view x) = stream_filters (obj x)" "world (view x) = world (obj x)"
  "trace (view x) = trace (obj x)"
  by (simp_all add: view_def)

lemma flows_settle:
  assumes "flows K b c x" and "in_hand (loc x) = []" and "in_hand q = []"
    and "\<And>s. r = Inr s \<Longrightarrow> out_inv K b (obj x) \<Longrightarrow> in_inv K c (obj x) \<Longrightarrow> out_inv K b s \<and> in_inv K c s"
  shows "flows K b c (settle q r x)"
proof (cases r)
  case (Inl e)
  with assms(1,2) show ?thesis by (simp add: settle_def flows_def view_def)
next
  case (Inr s)
  with assms show ?thesis by (simp add: settle_def flows_def view_plain)
qed

lemma flows_jump: "flows K b c x \<Longrightarrow> in_hand q = in_hand (loc x) \<Longrightarrow> flows K b c (jump q x)"
  by (simp add: flows_def view_def)

lemma io_same: "out_inv K b s \<Longrightarrow> in_inv K c s \<Longrightarrow> stream_filters t = stream_filters s \<Longrightarrow> pending_writes t = pending_writes s \<Longrightarrow>
    world t = world s \<Longrightarrow> queued t = queued s \<Longrightarrow> delivered t = delivered s \<Longrightarrow> out_inv K b t \<and> in_inv K c t"
  by (auto simp: in_inv_def intro: out_inv_same)

lemma filter_in_io:
  assumes "socket_ok K" and "filter_in (stack_vt sink K up) 0 s = Inr (r, t)" and "out_inv K b s" and "in_inv K c s"
  shows "out_inv K b t \<and> delivered t = delivered s \<and> handler_alive t = handler_alive s
    \<and> tcp_received K (world t) = c @ delivered s @ opt_bytes (in_data r)
    \<and> (should_close_read r \<longrightarrow> opt_bytes (in_data r) = [])"
proof -
  from assms(2) obtain w where w: "tcp_in K (world s) = Inr (r, w)" "t = s\<lparr>world := w\<rparr>"
    by (auto simp: filter_in_def)
  have "out_inv K b t" by (rule out_inv_same [OF assms(3)]) (use w tcp_in_sent [OF assms(1) w(1)] in simp_all)
  with tcp_src.in_arrives [OF assms(1) w(1)] tcp_src.in_close_no_data [OF assms(1) w(1)] assms(4) w(2)
  show ?thesis by (simp add: in_inv_def)
qed

lemma read_round_io:
  assumes "socket_ok K" and "read_round (stack_vt sink K up) app 0 s = Inr (stop, t)" and "handler_alive s"
    and "out_inv K b s" and "in_inv K c s"
  shows "out_inv K b t \<and> in_inv K c t"
  using assms(2)
proof (cases rule: read_round_elim)
  case (ended r u)
  note u = filter_in_io [OF assms(1) ended(1) assms(4,5)]
  have "opt_bytes (in_data r) = []" using ended(2) u by (auto simp: has_data_def split: option.splits)
  with u ended(4) show ?thesis by (auto simp: in_inv_def intro: out_inv_set_filter)
next
  case (data r u)
  note u = filter_in_io [OF assms(1) data(1) assms(4,5)]
  with data(5) assms(3) have cb: "callback (Ob_data (opt_bytes (in_data r))) (on_data app (opt_bytes (in_data r))) u = Inr t"
    by (simp add: handle_data_def)
  from callback_frame [OF cb] handle_data_out [OF data(5), of K b] u show ?thesis by (simp add: in_inv_def)
qed

text \<open>The cases of the loop thread's step on a chain of one filter.\<close>

lemma own_read_round:
  assumes "thr_inv x" and "loc x = T_read i" and "single (obj x)" and "\<forall>e. loc (own_step vt app x) \<noteq> T_dead e"
  obtains stop t where "read_round vt app 0 (obj x) = Inr (stop, t)" "handler_alive (obj x)"
    "own_step vt app x = jump (if stop then T_write None else T_read i) (put t x)"
proof -
  have i: "i = 0" "handler_alive (obj x)" using assms(1-3) by (simp_all add: thr_inv_def)
  from assms(2,4) obtain p where p: "read_round vt app 0 (obj x) = Inr p"
    by (cases "read_round vt app 0 (obj x)") (auto simp: own_read i)
  obtain stop t where "p = (stop, t)" by (cases p)
  with p assms(2) i show thesis by (intro that [of stop t]) (simp_all add: own_read)
qed

lemma own_flush:
  assumes "thr_inv x" and "loc x = T_flush ds o'" and "single (obj x)"
    and "\<forall>e. loc (own_step (stack_vt sink K up) app x) \<noteq> T_dead e"
  obtains g cl rest w where "stream_filters (obj x) = [g]" "\<not> write_closed g"
    "flush_out (tcp_out sink K) (pending_out g @ ds) (world (obj x)) = Inr ((cl, rest), w)"
    "own_step (stack_vt sink K up) app x = jump (after_write o')
       (put (set_filter 0 (g\<lparr>write_closed := cl, pending_out := rest\<rparr>) ((obj x)\<lparr>world := w\<rparr>)) x)"
proof -
  let ?vt = "stack_vt sink K up"
  obtain g where g: "stream_filters (obj x) = [g]" using assms(3) by (cases "stream_filters (obj x)") auto
  have top: "top_ix (obj x) = 0" using assms(3) by (simp add: top_ix_def)
  have nw: "\<not> write_closed g" using assms(1,2) top g by (cases o') (simp_all add: thr_inv_def)
  from assms(2,4) top obtain t where t: "on_filter 0 (filter_write ?vt 0 ds) (obj x) = Inr t"
    by (cases "on_filter 0 (filter_write ?vt 0 ds) (obj x)") (simp_all add: own_step_def settle_def)
  with g nw obtain cl rest w where "flush_out (tcp_out sink K) (pending_out g @ ds) (world (obj x)) = Inr ((cl, rest), w)"
    "t = set_filter 0 (g\<lparr>write_closed := cl, pending_out := rest\<rparr>) ((obj x)\<lparr>world := w\<rparr>)"
    by (auto simp: on_filter_def filter_write_def)
  with g nw t top assms(2) show thesis by (intro that) (simp_all add: own_step_def settle_def)
qed

lemma own_flush_flows:
  assumes "socket_ok K" and "thr_inv x" and "flows K b c x" and "loc x = T_flush ds o'" and "single (obj x)"
    and "\<forall>e. loc (own_step (stack_vt sink K up) app x) \<noteq> T_dead e"
  shows "flows K b c (own_step (stack_vt sink K up) app x)"
proof (rule own_flush [OF assms(2,4-6)])
  fix g cl rest w
  assume g: "stream_filters (obj x) = [g]" "\<not> write_closed g"
    and fl: "flush_out (tcp_out sink K) (pending_out g @ ds) (world (obj x)) = Inr ((cl, rest), w)"
    and st: "own_step (stack_vt sink K up) app x = jump (after_write o')
       (put (set_filter 0 (g\<lparr>write_closed := cl, pending_out := rest\<rparr>) ((obj x)\<lparr>world := w\<rparr>)) x)"
  let ?t = "set_filter 0 (g\<lparr>write_closed := cl, pending_out := rest\<rparr>) ((obj x)\<lparr>world := w\<rparr>)"
  have "out_inv K b ?t"
    by (rule out_inv_flush [OF assms(1) conjunct1 [OF assms(3) [unfolded flows_def]], where ds = ds
          and ds' = "pending_writes (obj x)" and f = "g\<lparr>write_closed := cl, pending_out := rest\<rparr>"])
       (use fl g assms(4) in \<open>auto simp: view_def\<close>)
  moreover have "in_inv K c ?t"
    using assms(3) tcp_flush_cases(3) [OF assms(1) fl] by (simp add: flows_def in_inv_def)
  moreover have "in_hand (after_write o') = []" by (cases o') simp_all
  ultimately show ?thesis using st by (simp add: flows_def view_plain)
qed

lemma own_read_flows:
  assumes "socket_ok K" and "thr_inv x" and "flows K b c x" and "loc x = T_read i" and "single (obj x)"
    and "\<forall>e. loc (own_step (stack_vt sink K up) app x) \<noteq> T_dead e"
  shows "flows K b c (own_step (stack_vt sink K up) app x)"
proof (rule own_read_round [OF assms(2,4-6)])
  fix stop t
  assume t: "read_round (stack_vt sink K up) app 0 (obj x) = Inr (stop, t)" "handler_alive (obj x)"
    and st: "own_step (stack_vt sink K up) app x = jump (if stop then T_write None else T_read i) (put t x)"
  have "out_inv K b t \<and> in_inv K c t"
    by (rule read_round_io [OF assms(1) t]) (use assms(3,4) in \<open>simp_all add: flows_def view_plain\<close>)
  with st show ?thesis by (simp add: flows_def view_def)
qed

lemma own_flows:
  assumes "socket_ok K" and "thr_inv x" and "flows K b c x" and "single (obj x)"
    and "\<forall>e. loc (own_step (stack_vt sink K up) app x) \<noteq> T_dead e"
  shows "flows K b c (own_step (stack_vt sink K up) app x)"
proof -
  let ?s = "obj x" and ?vt = "stack_vt sink K up"
  note fs = flows_settle [OF assms(3)] and fj = flows_jump [OF assms(3)]
  have io: "out_inv K b ?s" "in_inv K c ?s" if "in_hand (loc x) = []"
    using assms(3) view_plain [OF that] by (simp_all add: flows_def)
  show ?thesis
  proof (cases "loc x")
    case T_enter
    have "out_inv K b (close_event ?s) \<and> in_inv K c (close_event ?s)"
      by (rule io_same [OF io]) (simp_all add: T_enter ev_call_trace)
    with T_enter show ?thesis by (auto simp: own_step_def intro: fs fj)
  next
    case (T_write o')
    with assms(3) show ?thesis by (auto simp: own_step_def flows_def view_def in_inv_def)
  next
    case (T_down o')
    have "out_inv K b t \<and> in_inv K c t" if "close_down ?vt (length (stream_filters ?s)) ?s = Inr t" for t
      using close_down_out [OF assms(1,4) io(1) that] io(2) T_down by (simp add: in_inv_def)
    with T_down show ?thesis by (auto simp: own_step_def intro: fs)
  next
    case T_connect
    have "out_inv K b t \<and> in_inv K c t" if "do_connect ?vt app ?s = Inr t" for t
      using do_connect_io [OF assms(1,4) io(1) that] io(2) T_connect by (simp add: in_inv_def)
    with T_connect show ?thesis by (auto simp: own_step_def intro: fs)
  next
    case T_finalize
    have "out_inv K b (?s\<lparr>should_close := True\<rparr>) \<and> in_inv K c (?s\<lparr>should_close := True\<rparr>)"
      by (rule io_same [OF io]) (simp_all add: T_finalize)
    with T_finalize show ?thesis by (auto simp: own_step_def intro: fs fj)
  next
    case T_end
    have f: "finish_eof app ?s = do_finalize ?vt app ?s"
      using assms(2) T_end by (intro finish_is_finalize) (simp add: thr_inv_def)
    have "out_inv K b t \<and> in_inv K c t" if "finish_eof app ?s = Inr t" for t
      using do_finalize_io [OF assms(1,4) io(1) that [unfolded f]] io(2) T_end by (simp add: in_inv_def)
    with T_end show ?thesis by (auto simp: own_step_def intro: fs)
  next
    case (T_read i)
    from own_read_flows [OF assms(1-3) this assms(4,5)] show ?thesis .
  next
    case (T_flush ds o')
    from own_flush_flows [OF assms(1-3) this assms(4,5)] show ?thesis .
  qed (use assms(3) in \<open>auto simp: own_step_def intro: fj\<close>)
qed

lemma read_round_evolves: "read_round vt app i s = Inr (stop, t) \<Longrightarrow> evolves s t"
  by (erule read_round_elim)
     (auto dest: filter_in_evolves handle_data_evolves mute_filter_in intro: evolves_trans
       evolves_trans [OF _ evolves_set_filter] simp: filt_le_def)

lemma own_evolves: "evolves (obj x) (obj (own_step vt app x))"
proof (cases "loc x")
  case (T_read i)
  then show ?thesis by (auto simp: own_read dest: read_round_evolves split: sum.splits)
next
  case T_finalize
  have "evolves (obj x) ((obj x)\<lparr>should_close := True\<rparr>)" by (rule evolves_same) simp_all
  with T_finalize show ?thesis by (simp add: own_step_def settle_def)
next
  case T_end
  have "evolves (obj x) s" if t: "finish_eof app (obj x) = Inr s" for s
  proof (cases "is_read_closed (obj x) \<and> is_write_closed (obj x) \<and> \<not> eof_called (obj x)")
    case True
    with t obtain v where v: "callback Ob_eof (on_eof app) ((obj x)\<lparr>eof_called := True\<rparr>) = Inr v" "s = close_event v"
      by (auto simp: finish_eof_def)
    have "evolves (obj x) ((obj x)\<lparr>eof_called := True\<rparr>)" by (rule evolves_same) simp_all
    also note callback_evolves [OF v(1)]
    finally show ?thesis using v(2) evolves_ev_calls by (auto intro: evolves_trans)
  qed (use t in \<open>auto simp: finish_eof_def split: if_splits\<close>)
  with T_end show ?thesis by (auto simp: own_step_def settle_def split: sum.splits)
qed (auto simp: own_step_def settle_def split: sum.splits intro: pending_evolves
    dest: do_connect_evolves mute_flush mute_down simp: mute_def)

lemma thr_step_grows: "thr_step vt app env x y \<Longrightarrow> grows (obj x) (obj y)"
proof (induction rule: thr_step.induct)
  case (own x)
  show ?case by (rule evolves_grows [OF own_evolves])
next
  case (write_push d x)
  have "evolves (obj x) (obj (push d x))" by (rule evolves_same) (auto simp: push_def)
  then show ?case by (rule evolves_grows)
next
  case (close_set x)
  have "evolves (obj x) ((obj x)\<lparr>should_close := True\<rparr>)" by (rule evolves_same) simp_all
  then show ?case by (simp add: evolves_grows)
qed (auto intro: grows_same evolves_grows simp: ev_call_trace)

text \<open>Steps of others, and all runs.\<close>

lemma others_flows:
  assumes "flows K b c x" and "loc y = loc x" and "stream_filters (obj y) = stream_filters (obj x)"
    and "pending_writes (obj y) = pending_writes (obj x) @ ds" and "trace (obj y) = trace (obj x) @ xs"
    and "queued_bytes xs = concat ds" and "delivered_bytes xs = []"
    and "tcp_sent K (world (obj y)) = tcp_sent K (world (obj x))"
    and "tcp_received K (world (obj y)) = tcp_received K (world (obj x))"
  shows "flows K b c y"
proof -
  have "prefix a (b @ q) \<Longrightarrow> prefix a (b @ q @ r)" for a q r :: bytes by (metis append.assoc prefix_prefix)
  with assms show ?thesis by (auto simp: flows_def out_inv_def in_inv_def unsent_def view_def)
qed

lemma quiet_flows:
  assumes "flows K b c x" and "loc y = loc x" and "stream_filters (obj y) = stream_filters (obj x)"
    and "pending_writes (obj y) = pending_writes (obj x)" and "queued (obj y) = queued (obj x)"
    and "delivered (obj y) = delivered (obj x)" and "world (obj y) = world (obj x)"
  shows "flows K b c y"
  using assms by (auto simp: flows_def out_inv_def in_inv_def unsent_def view_def)

lemma thr_step_flows:
  assumes "thr_step (stack_vt sink K up) app env x y" and "socket_ok K" and "silent_env K env" and "thr_inv x"
    and "flows K b c x" and "single (obj x)" and "\<forall>e. loc y \<noteq> T_dead e"
  shows "flows K b c y"
  using assms(1)
proof cases
  case own
  with own_flows [OF assms(2,4,5,6)] assms(7) show ?thesis by simp
next
  case event
  with flows_jump [OF assms(5)] show ?thesis by simp
next
  case (write_push d)
  then show ?thesis by (intro others_flows [OF assms(5), where ds = "[d]" and xs = "[Ob_queued d]"]) (simp_all add: push_def)
next
  case (outside w)
  with assms(3) show ?thesis
    by (intro others_flows [OF assms(5), where ds = "[]" and xs = "[]"]) (simp_all add: silent_env_def)
qed (rule quiet_flows [OF assms(5)]; simp add: ev_call_trace)+


lemma flows_start: "sb_create ha m w h = Inr s \<Longrightarrow> flows K (tcp_sent K w) (tcp_received K w) (shared_start s)"
  using sb_create_io [of ha m w h s K] by (simp add: flows_def shared_start_def view_def)

lemma dead_stays: "thr_step vt app env x y \<Longrightarrow> loc x = T_dead e \<Longrightarrow> loc y = T_dead e"
  by (induction rule: thr_step.induct) (auto simp: push_def put_def)

lemma thr_reach_flows:
  assumes "thr_reach (stack_vt sink K up) app env x0 x" and "socket_ok K" and "silent_env K env" and "thr_inv x0"
    and "flows K b c x0" and "single (obj x)" and "\<forall>e. loc x \<noteq> T_dead e"
  shows "flows K b c x"
  using assms(1,6,7)
proof (induction rule: thr_reach.induct)
  case start
  with assms(5) show ?case by simp
next
  case (move x y)
  have inv: "thr_inv x" by (rule thr_reach_inv [OF move.hyps(1) assms(4)])
  then have "stream_filters (obj x) \<noteq> []" using sb_inv_chain by (auto simp: thr_inv_def)
  with grows_single [OF thr_step_grows [OF move.hyps(2)] move.prems(1)] have s1: "single (obj x)" by simp
  have nd: "\<forall>e. loc x \<noteq> T_dead e" using dead_stays [OF move.hyps(2)] move.prems(2) by blast
  from thr_step_flows [OF move.hyps(2) assms(2,3) inv move.IH [OF s1 nd] s1 move.prems(2)] show ?case .
qed

subsection \<open>After the end\<close>

lemma close_down_closed: "list_all filter_closed (stream_filters s) \<Longrightarrow> n \<le> length (stream_filters s) \<Longrightarrow> close_down vt n s = Inr s"
  by (induction n) (auto simp: list_all_length bindE_def)

lemma own_after_eof:
  assumes "thr_inv x" and "eof_called (obj x)"
  shows "obj (own_step vt app x) = obj x \<or> obj (own_step vt app x) = close_event (obj x)"
proof -
  have inv: "sb_inv (obj x)" "place_ok (loc x) (obj x)" using assms(1) by (simp_all add: thr_inv_def)
  then have cl: "should_close (obj x)" "list_all filter_closed (stream_filters (obj x))" "stream_filters (obj x) \<noteq> []"
    using assms(2) by (simp_all add: sb_inv_def chain_inv_def)
  then have top: "write_closed (top_filter (obj x))" by (auto simp: list_all_length filter_closed_def)
  show ?thesis
  proof (cases "loc x")
    case (T_read i)
    with inv(2) assms(2) show ?thesis by (simp add: in_stream_def phase_of_def)
  next
    case (T_flush ds c)
    with inv(2) top show ?thesis by (cases c) simp_all
  next
    case (T_down c)
    with close_down_closed [OF cl(2), of _ vt] show ?thesis by (simp add: own_step_def settle_def)
  next
    case T_end
    with assms(2) show ?thesis by (auto simp: own_step_def settle_def finish_eof_def)
  qed (use inv(2) assms(2) cl top in \<open>auto simp: own_step_def settle_def\<close>)
qed

definition ended_since :: "('w, 'h) sbuf \<Rightarrow> ('w, 'h) sbuf \<Rightarrow> bool" where
  "ended_since s t \<longleftrightarrow> eof_called t \<and> stream_filters t = stream_filters s \<and> world t = world s
     \<and> (\<exists>ds. pending_writes t = pending_writes s @ ds) \<and> (\<exists>xs. trace t = trace s @ xs \<and> list_all no_callback xs)"

lemma ended_since_trans: "ended_since s t \<Longrightarrow> ended_since t u \<Longrightarrow> ended_since s u"
  unfolding ended_since_def by (metis append.assoc list_all_append)

lemma thr_step_ended:
  assumes "thr_step vt app (\<lambda>_ _. False) x y" and "thr_inv x" and "eof_called (obj x)"
  shows "ended_since (obj x) (obj y)"
  using assms(1)
proof cases
  case own
  with own_after_eof [OF assms(2,3), of vt app] assms(3) show ?thesis
    by (auto simp: ended_since_def ev_call_trace)
qed (use assms(3) in \<open>auto simp: ended_since_def push_def ev_call_trace\<close>)

subsection \<open>Closing while others write\<close>

text \<open>What a step with callbacks does while the object is closing: nothing is queued, and the bottom filter stays.\<close>

definition still :: "('k, 'z) socket_calls_scheme \<Rightarrow> (('k, 'x) tcp_scheme, 'h) sbuf \<Rightarrow> (('k, 'x) tcp_scheme, 'h) sbuf \<Rightarrow> bool" where
  "still K s t \<longleftrightarrow>
     (\<exists>xs. trace t = trace s @ xs
        \<and> (should_close s \<longrightarrow> should_close t \<and> pending_writes t = pending_writes s \<and> queued_bytes xs = []))
   \<and> stream_filters t \<noteq> []
   \<and> write_closed (hd (stream_filters t)) = write_closed (hd (stream_filters s))
   \<and> pending_out (hd (stream_filters t)) = pending_out (hd (stream_filters s))
   \<and> tcp_sent K (world t) = tcp_sent K (world s)"

lemma still_trans: "still K s t \<Longrightarrow> still K t u \<Longrightarrow> still K s u"
  unfolding still_def by (metis append.assoc append_Nil queued_append)

lemma still_same:
  assumes "stream_filters t = stream_filters s" and "stream_filters s \<noteq> []" and "trace t = trace s @ xs"
    and "queued_bytes xs = []" and "pending_writes t = pending_writes s" and "should_close s \<longrightarrow> should_close t"
    and "tcp_sent K (world t) = tcp_sent K (world s)"
  shows "still K s t"
  using assms by (auto simp: still_def)

lemma still_set_filter:
  assumes "stream_filters s \<noteq> []" and "pending_out f = pending_out (stream_filters s ! i)"
    and "write_closed f = write_closed (stream_filters s ! i)"
  shows "still K s (set_filter i f s)"
  using assms by (cases "stream_filters s"; cases i) (auto simp: still_def)

lemma still_add_filter:
  assumes "sb_add_filter f s = Inr t" and "stream_filters s \<noteq> []"
  shows "still K s t"
proof -
  obtain fs g where fs: "stream_filters s = fs @ [g]"
    using assms(2) by (cases "stream_filters s" rule: rev_cases) auto
  with assms(1) show ?thesis by (cases fs) (auto simp: still_def sb_add_filter_def split: if_splits)
qed

lemma still_action: "run_action a s = Inr t \<Longrightarrow> stream_filters s \<noteq> [] \<Longrightarrow> still K s t"
proof (cases a)
  case (Act_write d)
  moreover assume "run_action a s = Inr t" "stream_filters s \<noteq> []"
  ultimately show ?thesis by (auto simp: still_def sb_write_trace sb_write_pending)
next
  case Act_close
  moreover assume "run_action a s = Inr t" "stream_filters s \<noteq> []"
  ultimately show ?thesis
    by (intro still_same [where xs = "if has_event s then [Ob_ready Ev_Close] else []"]) auto
qed (auto intro: still_add_filter)

lemma still_actions: "run_actions as s = Inr t \<Longrightarrow> stream_filters s \<noteq> [] \<Longrightarrow> still K s t"
proof (induction as arbitrary: s)
  case Nil
  then show ?case by (auto intro: still_same)
next
  case (Cons a as)
  then obtain u where u: "run_action a s = Inr u" "run_actions as u = Inr t" by auto
  from still_action [OF u(1) Cons.prems(2)] have su: "still K s u" .
  then have "stream_filters u \<noteq> []" by (simp add: still_def)
  with su Cons.IH [OF u(2)] show ?case by (blast intro: still_trans)
qed

lemma still_callback:
  assumes "callback ob f s = Inr t" and "\<And>d. ob \<noteq> Ob_queued d" and "stream_filters s \<noteq> []"
  shows "still K s t"
proof -
  from assms(1) obtain as h where r: "run_actions as (emit ob (s\<lparr>app_state := h\<rparr>)) = Inr t" by (rule callback_elim)
  have "still K s (emit ob (s\<lparr>app_state := h\<rparr>))"
  proof (rule still_same [where xs = "[ob]"])
    show "queued_bytes [ob] = []" using assms(2) by (cases ob) auto
  qed (use assms(3) in auto)
  then show ?thesis by (rule still_trans) (rule still_actions [OF r], simp add: assms(3))
qed


lemma still_round:
  assumes "socket_ok K" and "read_round (stack_vt sink K up) app 0 s = Inr (stop, t)" and "stream_filters s \<noteq> []"
  shows "still K s t"
proof -
  have fin: "still K s u" if "filter_in (stack_vt sink K up) 0 s = Inr (r, u)" for r u
  proof -
    from that obtain w where w: "tcp_in K (world s) = Inr (r, w)" "u = s\<lparr>world := w\<rparr>" by (auto simp: filter_in_def)
    show ?thesis by (rule still_same [where xs = "[]"]) (use assms(3) w tcp_in_sent [OF assms(1) w(1)] in simp_all)
  qed
  from assms(2) show ?thesis
  proof (cases rule: read_round_elim)
    case (ended r u)
    have su: "still K s u" by (rule fin [OF ended(1)])
    then have "stream_filters u \<noteq> []" by (simp add: still_def)
    then have "still K u (set_filter 0 ((stream_filters u ! 0)\<lparr>read_closed := True\<rparr>) u)" by (rule still_set_filter) simp_all
    with still_trans [OF su] ended(4) su show ?thesis by auto
  next
    case (data r u)
    have su: "still K s u" by (rule fin [OF data(1)])
    then have ne: "stream_filters u \<noteq> []" by (simp add: still_def)
    have "still K u t"
    proof (cases "handler_alive u")
      case True
      with data(5) still_callback [of _ _ u t] ne show ?thesis by (auto simp: handle_data_def)
    next
      case False
      with data(5) ne show ?thesis by (auto simp: handle_data_def intro: still_same)
    qed
    with su show ?thesis by (rule still_trans)
  qed
qed

lemma still_connect:
  assumes "socket_ok K" and "never_fails K" and "single s" and "do_connect (stack_vt sink K up) app s = Inr t"
  shows "still K s t"
proof -
  have ne: "stream_filters s \<noteq> []" using assms(3) by auto
  have frame: "tcp_sent K w = tcp_sent K (world s)" "r \<noteq> Connect_failed"
    if "(if sb_mode s = CLIENT_MODE then v_connect (stack_vt sink K up) (top_ix s) (world s)
        else v_accept (stack_vt sink K up) (top_ix s) (world s)) = Inr (r, w)" for r w
    using that assms(3) tcp_connect_frame [OF assms(1)] tcp_connect_never_fails [OF assms(2), of "world s" w]
    by (auto simp: tcp_accept_def split: if_splits)
  from assms(4) show ?thesis
  proof (cases rule: do_connect_elim)
    case (pending w)
    with frame [OF pending(2)] ne show ?thesis by (auto intro: still_same)
  next
    case (failed w)
    with frame [OF failed(2)] show ?thesis by simp
  next
    case (success w v)
    let ?u = "s\<lparr>world := w, add_filter_allowed := True\<rparr>"
    let ?f = "set_filter (top_ix s) ((top_filter s)\<lparr>connected := True\<rparr>) ?u"
    have a: "still K s ?u" by (rule still_same [where xs = "[]"]) (use ne frame [OF success(3)] in simp_all)
    have b: "still K ?u ?f" by (rule still_set_filter) (use ne in simp_all)
    have c: "still K ?f v" by (rule still_callback [OF success(1)]) (use ne in simp_all)
    have "still K v t" unfolding success(2)
      by (rule still_same [where xs = "if has_event v then [Ob_modify_event] else []"])
         (use c in \<open>auto simp: ev_call_trace still_def [of K ?f v]\<close>)
    with a b c show ?thesis by (blast intro: still_trans)
  qed
qed

lemma still_finish:
  assumes "finish_eof app s = Inr t" and "stream_filters s \<noteq> []"
  shows "still K s t"
proof (cases "is_read_closed s \<and> is_write_closed s \<and> \<not> eof_called s")
  case True
  with assms(1) obtain v where v: "callback Ob_eof (on_eof app) (s\<lparr>eof_called := True\<rparr>) = Inr v" "t = close_event v"
    by (auto simp: finish_eof_def)
  have a: "still K s (s\<lparr>eof_called := True\<rparr>)" by (rule still_same [where xs = "[]"]) (use assms(2) in simp_all)
  have b: "still K (s\<lparr>eof_called := True\<rparr>) v" by (rule still_callback [OF v(1)]) (use assms(2) in simp_all)
  have "still K v t" unfolding v(2)
    by (rule still_same [where xs = "if has_event v then [Ob_close_event] else []"])
       (use b in \<open>auto simp: ev_call_trace still_def [of K "s\<lparr>eof_called := True\<rparr>" v]\<close>)
  with a b show ?thesis by (blast intro: still_trans)
next
  case False
  with assms show ?thesis by (auto simp: finish_eof_def split: if_splits intro: still_same)
qed

text \<open>Closing a TCP filter that has sent everything, or sends the rest of it now.\<close>

definition all_sent :: "('k, 'z) socket_calls_scheme \<Rightarrow> bytes \<Rightarrow> (('k, 'x) tcp_scheme, 'h) sbuf \<Rightarrow> bool" where
  "all_sent K b s \<longleftrightarrow> pending_out (hd (stream_filters s)) = []
     \<and> tcp_sent K (world s) @ concat (pending_writes s) = b @ queued s"

lemma down_all_sent:
  assumes "socket_ok K" and "never_fails K" and "single s" and "out_inv K b s"
    and "write_closed (hd (stream_filters s)) \<longrightarrow> all_sent K b s"
    and "close_down (stack_vt sink K up) (length (stream_filters s)) s = Inr t"
  shows "trace t = trace s \<and> pending_writes t = pending_writes s
    \<and> (write_closed (hd (stream_filters t)) \<longrightarrow> all_sent K b t)"
proof -
  obtain g where g: "stream_filters s = [g]" using assms(3) by (cases "stream_filters s") auto
  show ?thesis
  proof (cases "filter_closed g")
    case True
    with assms(5,6) g show ?thesis by simp
  next
    case False
    with assms(6) g obtain f w where f: "filter_close (stack_vt sink K up) 0 g (world s) = Inr (f, w)"
      and t: "t = set_filter 0 f (s\<lparr>world := w\<rparr>)"
      by (auto simp: on_filter_def split: if_splits)
    show ?thesis
    proof (cases "pending_out g = [] \<or> write_closed g")
      case True
      with f have "f = g\<lparr>read_closed := True, write_closed := True\<rparr>" "w = world s"
        by (auto simp: filter_close_def filter_shutdown_def tcp_shutdown_def)
      with True assms(4,5) g t show ?thesis by (auto simp: all_sent_def out_inv_def unsent_def)
    next
      case nonempty: False
      with f obtain c rest where
        fl: "flush_out (tcp_out sink K) (pending_out g) (world s) = Inr ((c, rest), w)"
        and ff: "f = (if rest = [] \<or> c then g\<lparr>read_closed := True, write_closed := True, pending_out := rest\<rparr>
          else g\<lparr>pending_out := rest\<rparr>)"
        by (auto elim!: filter_close_flushing)
      from flush_never_closes [OF assms(2) fl] have nc: "\<not> c" .
      from tcp_flush_cases(1) [OF assms(1) fl nc] assms(4) nonempty g
      have "tcp_sent K w @ concat rest @ concat (pending_writes s) = b @ queued s"
        by (simp add: out_inv_def unsent_def) (metis append.assoc)
      with ff nc nonempty g t show ?thesis by (auto simp: all_sent_def)
    qed
  qed
qed

definition late_only :: "('w, 'h) shared \<Rightarrow> bool" where
  "late_only x \<longleftrightarrow> close_mark x \<le> length (trace (obj x))
     \<and> length (concat (pending_writes (obj x))) \<le> length (queued_bytes (drop (close_mark x) (trace (obj x))))"

definition closes :: "at \<Rightarrow> bool" where
  "closes q \<longleftrightarrow> (\<exists>c. q = T_down c \<or> (\<exists>ds. q = T_flush ds (Some c)))"

lemma closes_simps [simp]: "closes (T_down c)" "closes (T_flush ds (Some c))" "\<not> closes (T_flush ds None)"
  "\<not> closes T_idle" "\<not> closes T_enter" "\<not> closes T_branch" "\<not> closes (T_read i)" "\<not> closes (T_write o')"
  "\<not> closes (T_close c)" "\<not> closes T_connect" "\<not> closes T_finalize" "\<not> closes T_end" "\<not> closes (T_dead e)"
  "\<not> closes (after_close c)"
  by (auto simp: closes_def) (cases c; simp add: closes_def)+

definition shut :: "('k, 'z) socket_calls_scheme \<Rightarrow> bytes \<Rightarrow> (('k, 'x) tcp_scheme, 'h) shared \<Rightarrow> bool" where
  "shut K b x \<longleftrightarrow>
     (should_close (obj x) \<longrightarrow> close_mark x \<le> length (trace (obj x)))
   \<and> (write_closed (hd (stream_filters (obj x))) \<longrightarrow> should_close (obj x) \<and> late_only x \<and> all_sent K b (obj x))
   \<and> (closes (loc x) \<longrightarrow> late_only x)"

lemma shut_still:
  assumes "shut K b x" and "still K (obj x) s" and "\<not> closes q"
  shows "shut K b (jump q (put s x))"
proof -
  from assms(2) obtain xs where xs: "trace s = trace (obj x) @ xs"
    "should_close (obj x) \<longrightarrow> should_close s \<and> pending_writes s = pending_writes (obj x) \<and> queued_bytes xs = []"
    and f: "write_closed (hd (stream_filters s)) = write_closed (hd (stream_filters (obj x)))"
    "pending_out (hd (stream_filters s)) = pending_out (hd (stream_filters (obj x)))"
    "tcp_sent K (world s) = tcp_sent K (world (obj x))" by (auto simp: still_def)
  show ?thesis
    using assms(1,3) xs f by (auto simp: shut_def late_only_def all_sent_def put_def jump_def)
qed

lemma shut_settle:
  assumes "shut K b x" and "\<And>s. r = Inr s \<Longrightarrow> still K (obj x) s" and "\<not> closes q"
  shows "shut K b (settle q r x)"
proof (cases r)
  case (Inl e)
  with assms(1) show ?thesis by (simp add: settle_def shut_def late_only_def)
next
  case (Inr s)
  with shut_still [OF assms(1) assms(2) assms(3)] show ?thesis by (simp add: settle_def)
qed

lemma shut_jump: "shut K b x \<Longrightarrow> closes q \<longrightarrow> late_only x \<Longrightarrow> shut K b (jump q x)"
  by (simp add: shut_def late_only_def)


lemma own_write_shut:
  assumes "thr_inv x" and "shut K b x" and "loc x = T_write o'" and "single (obj x)"
  shows "shut K b (own_step vt app x)"
proof -
  obtain g where g: "stream_filters (obj x) = [g]" using assms(4) by (cases "stream_filters (obj x)") auto
  have "late_only x" if "o' = Some c'" "write_closed g \<or> pending_writes (obj x) = []" for c'
  proof (cases "write_closed g")
    case True
    with assms(2) g show ?thesis by (simp add: shut_def)
  next
    case False
    with that assms(1-3) show ?thesis by (simp add: shut_def late_only_def thr_inv_def)
  qed
  with assms g show ?thesis
    by (cases o') (auto simp: own_step_def shut_jump, auto simp: shut_def late_only_def jump_def thr_inv_def)
qed

lemma own_flush_shut:
  assumes "never_fails K" and "thr_inv x" and "shut K b x" and "loc x = T_flush ds o'" and "single (obj x)"
    and "\<forall>e. loc (own_step (stack_vt sink K up) app x) \<noteq> T_dead e"
  shows "shut K b (own_step (stack_vt sink K up) app x)"
proof (rule own_flush [OF assms(2,4-6)])
  fix g cl rest w
  assume g: "stream_filters (obj x) = [g]" "\<not> write_closed g"
    and fl: "flush_out (tcp_out sink K) (pending_out g @ ds) (world (obj x)) = Inr ((cl, rest), w)"
    and st: "own_step (stack_vt sink K up) app x = jump (after_write o')
       (put (set_filter 0 (g\<lparr>write_closed := cl, pending_out := rest\<rparr>) ((obj x)\<lparr>world := w\<rparr>)) x)"
  have "\<not> cl" by (rule flush_never_closes [OF assms(1) fl])
  with st g assms(3,4) show ?thesis
    by (cases o') (auto simp: shut_def late_only_def put_def jump_def)
qed

lemma own_read_shut:
  assumes "socket_ok K" and "thr_inv x" and "shut K b x" and "loc x = T_read i" and "single (obj x)"
    and "\<forall>e. loc (own_step (stack_vt sink K up) app x) \<noteq> T_dead e"
  shows "shut K b (own_step (stack_vt sink K up) app x)"
proof (rule own_read_round [OF assms(2,4-6)])
  fix stop t
  assume t: "read_round (stack_vt sink K up) app 0 (obj x) = Inr (stop, t)"
    and st: "own_step (stack_vt sink K up) app x = jump (if stop then T_write None else T_read i) (put t x)"
  have "stream_filters (obj x) \<noteq> []" using assms(5) by auto
  from shut_still [OF assms(3) still_round [OF assms(1) t this]] st show ?thesis by simp
qed

lemma own_down_shut:
  assumes "socket_ok K" and "never_fails K" and "thr_inv x" and "flows K b c x" and "shut K b x"
    and "loc x = T_down c'" and "single (obj x)" and "\<forall>e. loc (own_step (stack_vt sink K up) app x) \<noteq> T_dead e"
  shows "shut K b (own_step (stack_vt sink K up) app x)"
proof (cases "close_down (stack_vt sink K up) (length (stream_filters (obj x))) (obj x)")
  case (Inl e)
  with assms(6,8) show ?thesis by (simp add: own_step_def settle_def)
next
  case (Inr t)
  have o: "out_inv K b (obj x)" using assms(4,6) by (simp add: flows_def view_def)
  have "write_closed (hd (stream_filters (obj x))) \<longrightarrow> all_sent K b (obj x)" using assms(5) by (simp add: shut_def)
  from down_all_sent [OF assms(1,2,7) o this Inr] close_down_evolves [OF Inr] Inr assms(3,5,6) show ?thesis
    by (auto simp: own_step_def settle_def shut_def late_only_def put_def jump_def evolves_def thr_inv_def)
qed

lemma own_shut:
  assumes "socket_ok K" and "never_fails K" and "thr_inv x" and "flows K b c x" and "shut K b x" and "single (obj x)"
    and "\<forall>e. loc (own_step (stack_vt sink K up) app x) \<noteq> T_dead e"
  shows "shut K b (own_step (stack_vt sink K up) app x)"
proof -
  let ?s = "obj x"
  note ss = shut_settle [OF assms(5)] and sj = shut_jump [OF assms(5)]
  have ne: "stream_filters ?s \<noteq> []" using assms(6) by auto
  show ?thesis
  proof (cases "loc x")
    case T_enter
    have "still K ?s (close_event ?s)"
      by (rule still_same [where xs = "if has_event ?s then [Ob_close_event] else []"]) (use ne in \<open>auto simp: ev_call_trace\<close>)
    with T_enter show ?thesis by (auto simp: own_step_def intro: ss sj)
  next
    case (T_close c')
    with assms(5,6) show ?thesis
      by (cases "stream_filters ?s") (auto simp: own_step_def intro!: sj, auto simp: shut_def)
  next
    case T_connect
    with still_connect [OF assms(1,2,6)] show ?thesis by (auto simp: own_step_def intro: ss)
  next
    case T_finalize
    have "still K ?s (?s\<lparr>should_close := True\<rparr>)" by (rule still_same [where xs = "[]"]) (use ne in simp_all)
    with T_finalize show ?thesis by (auto simp: own_step_def intro: ss sj)
  next
    case T_end
    have "shut K b (settle T_idle (finish_eof app ?s) x)" by (rule ss) (simp_all add: still_finish [OF _ ne])
    with T_end show ?thesis by (simp add: own_step_def)
  next
    case (T_read i)
    from own_read_shut [OF assms(1,3,5) this assms(6,7)] show ?thesis .
  next
    case (T_write o')
    from own_write_shut [OF assms(3,5) this assms(6)] show ?thesis .
  next
    case (T_flush ds o')
    from own_flush_shut [OF assms(2,3,5) this assms(6,7)] show ?thesis .
  next
    case (T_down c')
    from own_down_shut [OF assms(1-5) this assms(6,7)] show ?thesis .
  qed (use assms(5) in \<open>auto simp: own_step_def intro!: sj\<close>)
qed

lemma others_shut:
  assumes "shut K b x" and "loc y = loc x" and "stream_filters (obj y) = stream_filters (obj x)"
    and "pending_writes (obj y) = pending_writes (obj x) @ ds" and "trace (obj y) = trace (obj x) @ xs"
    and "queued_bytes xs = concat ds" and "tcp_sent K (world (obj y)) = tcp_sent K (world (obj x))"
    and "should_close (obj y) = should_close (obj x)" and "close_mark y = close_mark x"
  shows "shut K b y"
proof -
  have "late_only x \<Longrightarrow> late_only y" using assms(4-6,9) by (auto simp: late_only_def)
  with assms show ?thesis by (auto simp: shut_def all_sent_def)
qed

lemma quiet_shut:
  assumes "shut K b x" and "loc y = loc x" and "stream_filters (obj y) = stream_filters (obj x)"
    and "pending_writes (obj y) = pending_writes (obj x)" and "\<exists>xs. trace (obj y) = trace (obj x) @ xs \<and> queued_bytes xs = []"
    and "tcp_sent K (world (obj y)) = tcp_sent K (world (obj x))"
    and "should_close (obj y) = should_close (obj x)" and "close_mark y = close_mark x"
  shows "shut K b y"
  using others_shut [OF assms(1-3), where ds = "[]"] assms(4-8) by auto

lemma thr_step_shut:
  assumes "thr_step (stack_vt sink K up) app env x y" and "socket_ok K" and "never_fails K" and "silent_env K env"
    and "thr_inv x" and "flows K b c x" and "shut K b x" and "single (obj x)" and "\<forall>e. loc y \<noteq> T_dead e"
  shows "shut K b y"
  using assms(1)
proof cases
  case own
  with own_shut [OF assms(2,3,5,6,7,8)] assms(9) show ?thesis by simp
next
  case event
  with shut_jump [OF assms(7)] show ?thesis by simp
next
  case (write_push d)
  then show ?thesis by (intro others_shut [OF assms(7), where ds = "[d]" and xs = "[Ob_queued d]"]) (simp_all add: push_def)
next
  case close_set
  have "closes (loc x) \<longrightarrow> should_close (obj x)" using assms(5) by (auto simp: thr_inv_def closes_def)
  with close_set assms(7) show ?thesis by (auto simp: shut_def late_only_def all_sent_def put_def)
next
  case (outside w)
  with assms(4) show ?thesis by (intro quiet_shut [OF assms(7)]) (simp_all add: silent_env_def)
qed (rule quiet_shut [OF assms(7)]; simp add: ev_call_trace)+

lemma thr_reach_shut:
  assumes "thr_reach (stack_vt sink K up) app env x0 x" and "socket_ok K" and "never_fails K" and "silent_env K env"
    and "thr_inv x0" and "flows K b c x0" and "shut K b x0" and "single (obj x)" and "\<forall>e. loc x \<noteq> T_dead e"
  shows "shut K b x"
  using assms(1,8,9)
proof (induction rule: thr_reach.induct)
  case start
  with assms(7) show ?case by simp
next
  case (move x y)
  have inv: "thr_inv x" by (rule thr_reach_inv [OF move.hyps(1) assms(5)])
  then have "stream_filters (obj x) \<noteq> []" using sb_inv_chain by (auto simp: thr_inv_def)
  with grows_single [OF thr_step_grows [OF move.hyps(2)] move.prems(1)] have s1: "single (obj x)" by simp
  have nd: "\<forall>e. loc x \<noteq> T_dead e" using dead_stays [OF move.hyps(2)] move.prems(2) by blast
  have fl: "flows K b c x" by (rule thr_reach_flows [OF move.hyps(1) assms(2,4,5,6) s1 nd])
  from thr_step_shut [OF move.hyps(2) assms(2,3,4) inv fl move.IH [OF s1 nd] s1 move.prems(2)] show ?case .
qed

lemma shut_start: "sb_create ha m w h = Inr s \<Longrightarrow> shut K b (shared_start s)"
  by (auto dest!: sb_create_start simp: shut_def shared_start_def new_filter_def)

end
