(* ===== verification/Stream_Concurrency.thy ===== *)
theory Stream_Concurrency
  imports Stream_Shared_Bytes
begin

subsection \<open>Runs that compute\<close>

datatype tmove = K_own | K_event | K_test bytes | K_push bytes | K_ready | K_close | K_close_ready | K_attach

fun thr_do :: "'w vtable \<Rightarrow> 'h app \<Rightarrow> tmove \<Rightarrow> ('w, 'h) shared \<Rightarrow> ('w, 'h) shared option" where
  "thr_do vt app K_own x =
     (case loc x of T_idle \<Rightarrow> None | T_dead e \<Rightarrow> None | _ \<Rightarrow> Some (own_step vt app x))"
| "thr_do vt app K_event x = (if loc x = T_idle then Some (jump T_enter x) else None)"
| "thr_do vt app (K_test d) x =
     (if d \<noteq> [] \<and> \<not> should_close (obj x) then Some (x\<lparr>tested := d # tested x\<rparr>) else None)"
| "thr_do vt app (K_push d) x = (if d \<in> set (tested x) then Some (push d x) else None)"
| "thr_do vt app K_ready x =
     (if 0 < owed_write x
      then Some (x\<lparr>obj := ready_event Ev_Write (obj x), owed_write := owed_write x - 1\<rparr>) else None)"
| "thr_do vt app K_close x = Some (put ((obj x)\<lparr>should_close := True\<rparr>) (x\<lparr>owed_close := owed_close x + 1\<rparr>))"
| "thr_do vt app K_close_ready x =
     (if 0 < owed_close x
      then Some (x\<lparr>obj := ready_event Ev_Close (obj x), owed_close := owed_close x - 1\<rparr>) else None)"
| "thr_do vt app K_attach x =
     (if has_event (obj x) then None else Some (x\<lparr>obj := (obj x)\<lparr>has_event := True\<rparr>\<rparr>))"

lemma thr_do_step: "thr_do vt app m x = Some y \<Longrightarrow> thr_step vt app env x y"
proof (cases m)
  case K_ready
  moreover assume "thr_do vt app m x = Some y"
  ultimately show ?thesis using thr_step.write_ready [of x vt app env] by (simp split: if_splits)
next
  case K_close
  moreover assume "thr_do vt app m x = Some y"
  ultimately show ?thesis using thr_step.close_set [of vt app env x] by simp
next
  case K_close_ready
  moreover assume "thr_do vt app m x = Some y"
  ultimately show ?thesis using thr_step.close_ready [of x vt app env] by (simp split: if_splits)
qed (auto split: if_splits at.splits intro: thr_step.intros)

fun thr_run :: "'w vtable \<Rightarrow> 'h app \<Rightarrow> tmove list \<Rightarrow> ('w, 'h) shared \<Rightarrow> ('w, 'h) shared option" where
  "thr_run vt app [] x = Some x"
| "thr_run vt app (m # ms) x = Option.bind (thr_do vt app m x) (thr_run vt app ms)"

lemma thr_run_reach: "thr_reach vt app env x0 x \<Longrightarrow> thr_run vt app ms x = Some y \<Longrightarrow> thr_reach vt app env x0 y"
proof (induction ms arbitrary: x)
  case (Cons m ms)
  then obtain u where "thr_do vt app m x = Some u" "thr_run vt app ms u = Some y" by (auto simp: bind_eq_Some_conv)
  with Cons.IH [OF thr_reach.move [OF Cons.prems(1) thr_do_step]] show ?case by blast
qed simp

lemma thr_run_append: "thr_run vt app (ms @ ns) x = Option.bind (thr_run vt app ms x) (thr_run vt app ns)"
  by (induction ms arbitrary: x) (auto split: Option.bind_splits)

lemmas thread_eval =
  own_step_def jump_def put_def settle_def push_def read_round_def finish_eof_def shared_start_def sb_new_def new_filter_def
  calm_vt_def calm_def listener_app_def no_upper_def

text \<open>
  A connected client; a write that the kernel takes in part; two threads that write while a third
  one closes, of which one pushes before the last swap, the other after \<open>HandleEOF\<close>.
\<close>

definition client_shared :: "(script tcp, unit) shared" where
  "client_shared = shared_start (fresh_client (script_start [] []))"

definition writing_moves :: "tmove list" where
  "writing_moves = [K_attach, K_event] @ replicate 5 K_own @ [K_test [1, 2, 3], K_push [1, 2, 3], K_ready]"

definition sending_moves :: "tmove list" where
  "sending_moves = [K_event] @ replicate 7 K_own"

definition ending_moves :: "tmove list" where
  "ending_moves = [K_test [4], K_test [5], K_push [4], K_close, K_close_ready, K_event] @ replicate 8 K_own"

definition sent_script :: "bytes \<Rightarrow> script tcp" where
  "sent_script bs = \<lparr>tcp_handle = 7, pending_connect = True,
     kernel = \<lparr>recv_script = [], send_script = [], so_script = None, sc_taken = bs, sc_handed = []\<rparr>\<rparr>"

definition writing_state :: "(script tcp, unit) shared" where
  "writing_state =
     \<lparr>obj = \<lparr>handler_alive = True, stream_filters = [new_filter\<lparr>order_no := 0, connected := True\<rparr>],
        pending_writes = [[1, 2, 3]], add_filter_allowed = False, eof_called = False, should_close = False,
        sb_mode = CLIENT_MODE, has_event = True, world = sent_script [], app_state = (),
        trace = [Ob_connected, Ob_modify_event, Ob_queued [1, 2, 3], Ob_ready Ev_Write]\<rparr>,
      loc = T_idle, tested = [], owed_write = 0, owed_close = 0, swap_mark = 0, close_mark = 0\<rparr>"

lemma writing_value: "thr_run calm_vt listener_app writing_moves client_shared = Some writing_state"
  by (simp add: writing_moves_def client_shared_def fresh_client_def create_for_client_def sb_create_def replicate_unfold
      stream_eval thread_eval sent_script_def writing_state_def)

definition sending_state :: "(script tcp, unit) shared" where
  "sending_state =
     \<lparr>obj = (obj writing_state)\<lparr>stream_filters := [new_filter\<lparr>order_no := 0, connected := True, pending_out := [[3]]\<rparr>],
        pending_writes := [], world := sent_script [1, 2]\<rparr>,
      loc = T_idle, tested = [], owed_write = 0, owed_close = 0, swap_mark = 4, close_mark = 0\<rparr>"

lemma sending_value: "thr_run calm_vt listener_app sending_moves writing_state = Some sending_state"
  by (simp add: sending_moves_def replicate_unfold stream_eval thread_eval sent_script_def writing_state_def sending_state_def)

definition ending_state :: "(script tcp, unit) shared" where
  "ending_state = the (thr_run calm_vt listener_app ending_moves sending_state)"

lemma ending_value:
  "thr_run calm_vt listener_app ending_moves sending_state = Some ending_state
   \<and> eof_called (obj ending_state) \<and> loc ending_state = T_idle \<and> tested ending_state = [[5]]
   \<and> length (stream_filters (obj ending_state)) = 1 \<and> pending_writes (obj ending_state) = []
   \<and> queued_bytes (take (close_mark ending_state) (trace (obj ending_state))) = [1, 2, 3, 4]
   \<and> tcp_sent calm (world (obj ending_state)) = [1, 2, 3, 4]"
  unfolding ending_state_def
  by (simp add: ending_moves_def replicate_unfold stream_eval thread_eval sent_script_def writing_state_def sending_state_def
      tcp_sent_def)

lemma runs_reach:
  "thr_reach calm_vt listener_app (\<lambda>_ _. False) client_shared writing_state"
  "thr_reach calm_vt listener_app (\<lambda>_ _. False) client_shared sending_state"
  "thr_reach calm_vt listener_app (\<lambda>_ _. False) client_shared ending_state"
proof -
  show w: "thr_reach calm_vt listener_app (\<lambda>_ _. False) client_shared writing_state"
    by (rule thr_run_reach [OF thr_reach.start writing_value])
  show s: "thr_reach calm_vt listener_app (\<lambda>_ _. False) client_shared sending_state"
    by (rule thr_run_reach [OF w sending_value])
  show "thr_reach calm_vt listener_app (\<lambda>_ _. False) client_shared ending_state"
    by (rule thr_run_reach [OF s conjunct1 [OF ending_value]])
qed

subsection \<open>Properties\<close>

text \<open>
  The steps are \<open>HandleEvents\<close>.  When nobody interferes, the loop thread that enters \<open>HandleEvents\<close>
  does by its steps what the function does: it comes back with the same object, dies of the same
  exception, or goes on for ever.
\<close>

lemma steps_are_handle_events:
  assumes "loc x = T_enter"
  shows "case handle_events vt app (obj x) of
      None \<Rightarrow> \<forall>n. loc ((own_step vt app ^^ n) x) \<noteq> T_idle \<and> (\<forall>e. loc ((own_step vt app ^^ n) x) \<noteq> T_dead e)
    | Some (Inl e) \<Rightarrow> \<exists>n. loc ((own_step vt app ^^ n) x) = T_dead e
    | Some (Inr t) \<Rightarrow> \<exists>n. loc ((own_step vt app ^^ n) x) = T_idle \<and> obj ((own_step vt app ^^ n) x) = t"
proof (cases "handler_alive (obj x)")
  case False
  then have "own_step vt app x = settle T_idle (Inr (close_event (obj x))) x" using assms by (simp add: own_step_def)
  with False show ?thesis by (auto simp: handle_events_def settle_def intro: exI [of _ 1])
next
  case True
  then have y: "own_step vt app x = jump T_branch x" using assms by (simp add: own_step_def)
  have b: "loc (own_step vt app x) = T_branch" "handler_alive (obj (own_step vt app x))"
    "obj (own_step vt app x) = obj x" using True by (simp_all add: y)
  note e = ends_branch [OF b(1,2), of vt app]
  show ?thesis
  proof (cases "handle_events vt app (obj x)")
    case None
    have "\<exists>q. loc ((own_step vt app ^^ n) x) = q \<and> q \<noteq> T_idle \<and> (\<forall>e. q \<noteq> T_dead e)" for n
    proof (cases n)
      case (Suc m)
      then have n: "(own_step vt app ^^ n) x = (own_step vt app ^^ m) (own_step vt app x)" by (simp add: funpow_swap1)
      show ?thesis
      proof (cases m)
        case 0
        with n b(1) show ?thesis by simp
      next
        case (Suc j)
        from e None b(3) obtain i where "loc ((own_step vt app ^^ Suc j) (own_step vt app x)) = T_read i" by auto
        with n Suc show ?thesis by simp
      qed
    qed (simp add: assms)
    with None show ?thesis by auto
  next
    case (Some r)
    with e b(3) have "ends vt app x r T_idle" by (auto intro: ends_step)
    with Some show ?thesis by (auto simp: ends_def split: sum.splits)
  qed
qed

lemma steps_are_handle_events_witness:
  "\<exists>n. loc ((own_step calm_vt listener_app ^^ n) (jump T_enter writing_state)) = T_idle
     \<and> obj ((own_step calm_vt listener_app ^^ n) (jump T_enter writing_state)) = obj sending_state"
proof -
  have "handle_events calm_vt listener_app (obj (jump T_enter writing_state)) = Some (Inr (obj sending_state))"
    by (simp add: stream_eval thread_eval sent_script_def writing_state_def sending_state_def)
  with steps_are_handle_events [of "jump T_enter writing_state" calm_vt listener_app] show ?thesis by simp
qed

text \<open>
  C3: the protocol under interleaving.  Whatever the other threads do between the steps of the loop
  thread, the callbacks of the handler are a run of the protocol automaton, whose state the object's
  flags give; \<open>HandleEOF\<close> is called once at most, when the chain is closed; the links and the order
  numbers of the chain are intact, and no filter can be added outside \<open>HandleConnected\<close>.
\<close>

theorem shared_protocol:
  assumes "sb_create ha m w h = Inr s0" and "thr_reach vt app env (shared_start s0) x"
  shows "phase_run Opening (trace (obj x)) = Some (phase_of (obj x))
    \<and> count_list (trace (obj x)) Ob_eof = (if eof_called (obj x) then 1 else 0)
    \<and> (eof_called (obj x) \<longrightarrow> should_close (obj x) \<and> list_all filter_closed (stream_filters (obj x)))
    \<and> chain_ok (stream_filters (obj x)) \<and> stream_filters (obj x) \<noteq> []
    \<and> sb_add_filter f (obj x) = Inl (Thrown ''filter added when it is not allowed'')"
  using thr_reach_inv [OF assms(2) shared_start_inv [OF assms(1)]]
  by (auto simp: thr_inv_def obeys_def sb_inv_def eofs_def chain_inv_def sb_add_filter_def)

theorem shared_protocol_witness:
  "phase_run Opening (trace (obj ending_state)) = Some (phase_of (obj ending_state))
   \<and> count_list (trace (obj ending_state)) Ob_eof = 1"
  using shared_protocol [OF fresh_client_create runs_reach(3) [unfolded client_shared_def]] ending_value by simp

text \<open>
  No write is left without a wakeup.  On an attached stream, whatever the threads do, when views
  are waiting in the list then the event has been made ready since the loop thread last took the list,
  or a \<open>Write\<close> is on its way to do so.
\<close>

lemma no_write_unannounced:
  assumes "thr_reach vt app env x0 x" and "has_event (obj x0)" and "pending_writes (obj x0) = []"
    and "swap_mark x0 \<le> length (trace (obj x0))" and "pending_writes (obj x) \<noteq> []"
  shows "0 < owed_write x \<or> Ob_ready Ev_Write \<in> set (drop (swap_mark x) (trace (obj x)))"
  using woken_reach [OF assms(1)] assms(2-5) by (simp add: woken_def)

lemma no_write_unannounced_witness:
  "\<exists>x. thr_run calm_vt listener_app [K_test [7], K_push [7], K_ready] sending_state = Some x
     \<and> pending_writes (obj x) \<noteq> [] \<and> Ob_ready Ev_Write \<in> set (drop (swap_mark x) (trace (obj x)))"
proof -
  have "\<exists>x. thr_run calm_vt listener_app [K_test [7], K_push [7], K_ready] sending_state = Some x
      \<and> pending_writes (obj x) \<noteq> [] \<and> owed_write x = 0"
    by (simp add: thread_eval stream_eval writing_state_def sending_state_def)
  then obtain x where x: "thr_run calm_vt listener_app [K_test [7], K_push [7], K_ready] sending_state = Some x"
    "pending_writes (obj x) \<noteq> []" "owed_write x = 0" by blast
  have i: "has_event (obj sending_state)" "pending_writes (obj sending_state) = []"
    "swap_mark sending_state \<le> length (trace (obj sending_state))"
    by (simp_all add: sending_state_def writing_state_def)
  from no_write_unannounced [OF thr_run_reach [OF thr_reach.start x(1), where env = "\<lambda>_ _. False"] i x(2)] x show ?thesis by simp
qed

text \<open>
  C2: bytes under interleaving.  On a TCP stream that several threads write to, what the kernel has
  taken, then what the filter holds, then what the loop thread has in hand, then what is in the list is
  exactly what was pushed, in the order of the pushes (after a write error, what was taken is a
  prefix of it); what the kernel handed out is what the handler was given.
\<close>

theorem shared_bytes:
  assumes "socket_ok K" and "silent_env K env" and "sb_create ha m w h = Inr s0"
    and "thr_reach (stack_vt sink K up) app env (shared_start s0) x" and "length (stream_filters (obj x)) = 1"
    and "\<forall>e. loc x \<noteq> T_dead e"
  shows "(tcp_sent K (world (obj x)) @ concat (pending_out (hd (stream_filters (obj x)))) @ concat (in_hand (loc x))
        @ concat (pending_writes (obj x)) = tcp_sent K w @ queued_bytes (trace (obj x))
      \<or> write_closed (hd (stream_filters (obj x)))
        \<and> prefix (tcp_sent K (world (obj x))) (tcp_sent K w @ queued_bytes (trace (obj x))))
    \<and> tcp_received K (world (obj x)) = tcp_received K w @ delivered_bytes (trace (obj x))"
  using thr_reach_flows [OF assms(4,1,2) shared_start_inv [OF assms(3)] flows_start [OF assms(3)] assms(5,6)]
  by (auto simp: flows_def out_inv_def in_inv_def unsent_def view_def)

theorem shared_bytes_witness:
  "tcp_sent calm (world (obj sending_state)) @ [3] = queued_bytes (trace (obj sending_state))"
  using shared_bytes [OF calm_ok(1) silent_nothing fresh_client_create
      runs_reach(2) [unfolded client_shared_def calm_vt_def]]
  by (auto simp: sending_state_def writing_state_def new_filter_def tcp_sent_def script_start_def calm_def scripted_def)

text \<open>
  C4: closing while others write.  On a TCP stream whose kernel reports no error, when \<open>HandleEOF\<close> has
  been called then everything that was pushed before the object began to close has been sent, in order,
  whatever the threads did; of what was pushed later a prefix was sent.
\<close>

theorem shared_close_sends:
  assumes "socket_ok K" and "silent_env K env" and "never_fails K" and "sb_create ha m w h = Inr s0"
    and "thr_reach (stack_vt sink K up) app env (shared_start s0) x" and "length (stream_filters (obj x)) = 1"
    and "\<forall>e. loc x \<noteq> T_dead e" and "eof_called (obj x)"
  shows "prefix (tcp_sent K w @ queued_bytes (take (close_mark x) (trace (obj x)))) (tcp_sent K (world (obj x)))
    \<and> prefix (tcp_sent K (world (obj x))) (tcp_sent K w @ queued_bytes (trace (obj x)))"
proof -
  note st = shared_start_inv [OF assms(4)]
  have "sb_inv (obj x)" using thr_reach_inv [OF assms(5) st] by (simp add: thr_inv_def)
  then have "write_closed (hd (stream_filters (obj x)))"
    using assms(6,8) by (cases "stream_filters (obj x)") (auto simp: sb_inv_def filter_closed_def)
  with thr_reach_shut [OF assms(5,1,3,2) st flows_start [OF assms(4)] shut_start [OF assms(4)] assms(6,7)]
  have l: "late_only x" and a: "all_sent K (tcp_sent K w) (obj x)" by (simp_all add: shut_def)
  let ?q = "queued_bytes (take (close_mark x) (trace (obj x)))" and ?r = "queued_bytes (drop (close_mark x) (trace (obj x)))"
  have "queued_bytes (trace (obj x)) = ?q @ ?r" by (metis append_take_drop_id queued_append)
  with a have e: "tcp_sent K (world (obj x)) @ concat (pending_writes (obj x)) = (tcp_sent K w @ ?q) @ ?r"
    by (simp add: all_sent_def)
  with l have "length (tcp_sent K w @ ?q) \<le> length (tcp_sent K (world (obj x)))"
    by (auto simp: late_only_def dest: arg_cong [where f = length])
  with e have "prefix (tcp_sent K w @ ?q) (tcp_sent K (world (obj x)))" by (metis prefixI prefix_length_prefix)
  moreover have "prefix (tcp_sent K (world (obj x))) (tcp_sent K w @ queued_bytes (trace (obj x)))"
    using a by (metis all_sent_def prefixI)
  ultimately show ?thesis by blast
qed

theorem shared_close_sends_witness:
  "prefix [1, 2, 3, 4] (tcp_sent calm (world (obj ending_state)))"
  using shared_close_sends [OF calm_ok(1) silent_nothing calm_ok(2) fresh_client_create
      runs_reach(3) [unfolded client_shared_def calm_vt_def]] ending_value
  by (auto simp: tcp_sent_def script_start_def calm_def scripted_def)

text \<open>
  C26: the end is final.  After \<open>HandleEOF\<close> the stream never touches its chain, the kernel or the
  handler again, whatever the threads do; a \<open>Write\<close> that found the stream open and pushes now leaves its
  view in the list for good.
\<close>

theorem shared_end_final:
  assumes "sb_create ha m w h = Inr s0" and "thr_reach vt app env (shared_start s0) x" and "eof_called (obj x)"
    and "thr_reach vt app (\<lambda>_ _. False) x y"
  shows "stream_filters (obj y) = stream_filters (obj x) \<and> world (obj y) = world (obj x)
    \<and> (\<exists>ds. pending_writes (obj y) = pending_writes (obj x) @ ds)
    \<and> (\<exists>xs. trace (obj y) = trace (obj x) @ xs \<and> list_all no_callback xs)"
proof -
  have inv: "thr_inv x" by (rule thr_reach_inv [OF assms(2) shared_start_inv [OF assms(1)]])
  from assms(4) have "ended_since (obj x) (obj y) \<and> thr_inv y"
  proof (induction rule: thr_reach.induct)
    case start
    with assms(3) inv show ?case by (simp add: ended_since_def)
  next
    case (move y z)
    then have "ended_since (obj y) (obj z)" by (intro thr_step_ended [OF move.hyps(2)]) (auto simp: ended_since_def)
    with move thr_step_inv [OF move.hyps(2)] show ?case by (blast intro: ended_since_trans)
  qed
  then show ?thesis by (simp add: ended_since_def)
qed

theorem shared_end_final_witness:
  "\<exists>y. thr_run calm_vt listener_app [K_push [5], K_ready, K_event] ending_state = Some y
     \<and> pending_writes (obj y) = [[5]] \<and> tcp_sent calm (world (obj y)) = [1, 2, 3, 4]"
proof -
  have "\<exists>y. thr_run calm_vt listener_app [K_push [5], K_ready, K_event] ending_state = Some y
      \<and> pending_writes (obj y) = pending_writes (obj ending_state) @ [[5]]"
    using ending_value by (simp add: push_def)
  then obtain y where y: "thr_run calm_vt listener_app [K_push [5], K_ready, K_event] ending_state = Some y"
    "pending_writes (obj y) = pending_writes (obj ending_state) @ [[5]]" by blast
  have "eof_called (obj ending_state)" using ending_value by simp
  from shared_end_final [OF fresh_client_create runs_reach(3) [unfolded client_shared_def] this
      thr_run_reach [OF thr_reach.start y(1)]] y ending_value show ?thesis by simp
qed

end
