(* ===== verification/Epoll.thy ===== *)
theory Epoll
  imports Event_Masks
begin

text \<open>
  Class \<open>EPoll\<close> (\<open>lib/async_io.h\<close>, \<open>lib/epoll.h\<close>, \<open>lib/epoll.cc\<close>): its table of events, its three
  queues, and one definition per operation.  An event is its id; the descriptor of an event
  (\<open>Event::GetHandle\<close>, constant) and its mask (\<open>Event::GetEvents\<close>) are arguments.  The epoll and
  eventfd system calls are a parameter, with three observations: the descriptors that are
  registered, whether the wakeup descriptor has an edge to report, and how many other descriptors have.
\<close>

unbundle bit_operations_syntax

subsection \<open>The system calls\<close>

record 'k epoll_calls =
  ec_wait :: "nat \<Rightarrow> 'k \<Rightarrow> (errno + (fd \<times> mask) list) \<times> 'k"
  ec_ctl_add :: "fd \<Rightarrow> mask \<Rightarrow> 'k \<Rightarrow> errno option \<times> 'k"
  ec_ctl_mod :: "fd \<Rightarrow> mask \<Rightarrow> 'k \<Rightarrow> errno option \<times> 'k"
  ec_ctl_del :: "fd \<Rightarrow> 'k \<Rightarrow> errno option \<times> 'k"
  ec_efd_write :: "'k \<Rightarrow> errno option \<times> 'k"
  ec_efd_read :: "'k \<Rightarrow> errno option \<times> 'k"
  obs_watch :: "'k \<Rightarrow> fd \<Rightarrow> mask option"
  obs_due :: "'k \<Rightarrow> bool"
  obs_ready :: "'k \<Rightarrow> nat"

text \<open>
  What the documentation promises, for the wakeup descriptor \<open>p\<close>: \<open>epoll_wait\<close> (without signals)
  reports at most as many descriptors as asked, and reporting \<open>p\<close> consumes its edge;
  \<open>epoll_ctl\<close> adds what is not registered, and modifies and deletes what is; writing the eventfd
  (whose counter is far from its limit) makes \<open>p\<close> due, reading it makes nothing due.  These are the
  runs in which no call fails; one that fails ends the program with the exception that is thrown.
\<close>

definition wait_ok :: "fd \<Rightarrow> ('k, 'z) epoll_calls_scheme \<Rightarrow> bool" where
  "wait_ok p K \<longleftrightarrow> (\<forall>n k r k'. ec_wait K n k = (r, k') \<longrightarrow>
     obs_watch K k' = obs_watch K k
   \<and> (\<exists>b. r = Inr b \<and> length b \<le> n \<and> (obs_due K k \<longrightarrow> p \<in> fst ` set b \<or> obs_due K k')))"

definition ctl_ok :: "('k, 'z) epoll_calls_scheme \<Rightarrow> bool" where
  "ctl_ok K \<longleftrightarrow>
     (\<forall>h m k r k'. 0 \<le> h \<longrightarrow> obs_watch K k h = None \<longrightarrow> ec_ctl_add K h m k = (r, k') \<longrightarrow>
        r = None \<and> obs_watch K k' = (obs_watch K k)(h \<mapsto> m) \<and> obs_due K k' = obs_due K k)
   \<and> (\<forall>h m k r k'. obs_watch K k h \<noteq> None \<longrightarrow> ec_ctl_mod K h m k = (r, k') \<longrightarrow>
        r = None \<and> obs_watch K k' = (obs_watch K k)(h \<mapsto> m) \<and> obs_due K k' = obs_due K k)
   \<and> (\<forall>h k r k'. obs_watch K k h \<noteq> None \<longrightarrow> ec_ctl_del K h k = (r, k') \<longrightarrow>
        r = None \<and> obs_watch K k' = (obs_watch K k)(h := None) \<and> obs_due K k' = obs_due K k)"

definition efd_ok :: "('k, 'z) epoll_calls_scheme \<Rightarrow> bool" where
  "efd_ok K \<longleftrightarrow>
     (\<forall>k r k'. ec_efd_write K k = (r, k') \<longrightarrow> r = None \<and> obs_watch K k' = obs_watch K k \<and> obs_due K k')
   \<and> (\<forall>k r k'. ec_efd_read K k = (r, k') \<longrightarrow> obs_watch K k' = obs_watch K k)"

definition epoll_ok :: "fd \<Rightarrow> ('k, 'z) epoll_calls_scheme \<Rightarrow> bool" where
  "epoll_ok p K \<longleftrightarrow> wait_ok p K \<and> ctl_ok K \<and> efd_ok K"

text \<open>
  When everything that is ready fits into the array, \<open>epoll_wait\<close> reports all of it; when it does not,
  the wakeup descriptor may be among those that are left for a later call.
\<close>

definition reports_fitting :: "fd \<Rightarrow> ('k, 'z) epoll_calls_scheme \<Rightarrow> bool" where
  "reports_fitting p K \<longleftrightarrow> (\<forall>n k b k'. obs_due K k \<longrightarrow> obs_ready K k < n \<longrightarrow> ec_wait K n k = (Inr b, k') \<longrightarrow> p \<in> fst ` set b)"

subsection \<open>State\<close>

record 'k epoll =
  pending_add :: "nat list"
  pending_remove :: "nat list"
  pending_ready :: "(nat \<times> mask) list"
  registered :: "fd \<Rightarrow> nat option"
  ep_kernel :: 'k

definition max_events :: nat where "max_events = 32"

definition ep_new :: "'k \<Rightarrow> 'k epoll" where
  "ep_new k =
     \<lparr>pending_add = [], pending_remove = [], pending_ready = [], registered = (\<lambda>_. None), ep_kernel = k\<rparr>"

text \<open>
  The constructor: the epoll descriptor, the eventfd, and the registration of the one with the
  other; the first two are parameters of their own, each with its error.
\<close>

definition ep_create ::
  "epoll_abi \<Rightarrow> ('k, 'z) epoll_calls_scheme \<Rightarrow> ('k \<Rightarrow> (errno + fd) \<times> 'k) \<Rightarrow> ('k \<Rightarrow> (errno + fd) \<times> 'k)
     \<Rightarrow> 'k \<Rightarrow> exn + fd \<times> fd \<times> 'k epoll" where
  "ep_create A K epoll_create1 eventfd k =
     (case epoll_create1 k of
        (Inl e, k) \<Rightarrow> Inl (System_error e ''epoll_create1 failed'')
      | (Inr epoll_fd, k) \<Rightarrow>
          (case eventfd k of
             (Inl e, k) \<Rightarrow> Inl (System_error e ''eventfd failed'')
           | (Inr pending_fd, k) \<Rightarrow>
               (case ec_ctl_add K pending_fd (EPOLLET A OR EPOLLIN A) k of
                  (Some e, k) \<Rightarrow> Inl (System_error e ''epoll_ctl - EPOLL_CTL_ADD - failed'')
                | (None, k) \<Rightarrow> Inr (epoll_fd, pending_fd, ep_new k))))"

subsection \<open>Queueing\<close>

definition ep_wakeup :: "('k, 'z) epoll_calls_scheme \<Rightarrow> 'k epoll \<Rightarrow> exn + 'k epoll" where
  "ep_wakeup K e =
     (case ec_efd_write K (ep_kernel e) of
        (Some x, k) \<Rightarrow> Inl (System_error x ''eventfd_write failed'')
      | (None, k) \<Rightarrow> Inr (e\<lparr>ep_kernel := k\<rparr>))"

text \<open>
  \<open>AddElement\<close>, under the lock: push, and wake up at size one; \<open>container\<close> and \<open>update\<close> read and
  write the vector it is given.
\<close>

definition add_element ::
  "('k, 'z) epoll_calls_scheme \<Rightarrow> ('k epoll \<Rightarrow> 'a list) \<Rightarrow> ('a list \<Rightarrow> 'k epoll \<Rightarrow> 'k epoll) \<Rightarrow> 'a \<Rightarrow> 'k epoll
     \<Rightarrow> exn + 'k epoll" where
  "add_element K container update x e =
     (let e = update (container e @ [x]) e
      in if length (container e) = 1 then ep_wakeup K e else Inr e)"

definition ep_add :: "('k, 'z) epoll_calls_scheme \<Rightarrow> nat \<Rightarrow> 'k epoll \<Rightarrow> exn + 'k epoll" where
  "ep_add K = add_element K pending_add (\<lambda>xs. pending_add_update (\<lambda>_. xs))"

definition ep_remove :: "('k, 'z) epoll_calls_scheme \<Rightarrow> nat \<Rightarrow> 'k epoll \<Rightarrow> exn + 'k epoll" where
  "ep_remove K = add_element K pending_remove (\<lambda>xs. pending_remove_update (\<lambda>_. xs))"

definition ep_ready :: "('k, 'z) epoll_calls_scheme \<Rightarrow> nat \<times> mask \<Rightarrow> 'k epoll \<Rightarrow> exn + 'k epoll" where
  "ep_ready K = add_element K pending_ready (\<lambda>xs. pending_ready_update (\<lambda>_. xs))"

subsection \<open>The work of the loop thread\<close>

definition ep_modify ::
  "epoll_abi \<Rightarrow> ('k, 'z) epoll_calls_scheme \<Rightarrow> fd \<Rightarrow> mask \<Rightarrow> 'k epoll \<Rightarrow> exn + 'k epoll" where
  "ep_modify A K handle events e =
     (case ec_ctl_mod K handle (epoll_of_events A events OR EPOLLET A) (ep_kernel e) of
        (Some x, k) \<Rightarrow> Inl (System_error x ''epoll_ctl - EPOLL_CTL_MOD - failed'')
      | (None, k) \<Rightarrow> Inr (e\<lparr>ep_kernel := k\<rparr>))"

text \<open>
  A finalize function yields the mask of a call of \<open>HandleEvents\<close> when it makes one; \<open>alive\<close> says
  whether the handler of the event still exists.
\<close>

definition add_finalize ::
  "epoll_abi \<Rightarrow> ('k, 'z) epoll_calls_scheme \<Rightarrow> fd \<Rightarrow> mask \<Rightarrow> bool \<Rightarrow> nat \<Rightarrow> 'k epoll
     \<Rightarrow> exn + mask option \<times> 'k epoll" where
  "add_finalize A K handle events alive i e =
     (if \<not> 0 \<le> handle then Inr (if alive then Some 0 else None, e)
      else
        let e = e\<lparr>registered := (registered e)(handle \<mapsto> i)\<rparr>
        in case ec_ctl_add K handle (EPOLLET A OR epoll_of_events A events) (ep_kernel e) of
             (Some x, k) \<Rightarrow> Inl (System_error x ''epoll_ctl - EPOLL_CTL_ADD - failed'')
           | (None, k) \<Rightarrow> Inr (None, e\<lparr>ep_kernel := k\<rparr>))"

definition remove_finalize ::
  "('k, 'z) epoll_calls_scheme \<Rightarrow> fd \<Rightarrow> 'k epoll \<Rightarrow> exn + 'k epoll" where
  "remove_finalize K handle e =
     (if \<not> 0 \<le> handle then Inr e
      else if registered e handle = None then Inl (Thrown ''event not found'')
      else
        let e = e\<lparr>registered := (registered e)(handle := None)\<rparr>
        in case ec_ctl_del K handle (ep_kernel e) of
             (Some x, k) \<Rightarrow> Inl (System_error x ''epoll_ctl - EPOLL_CTL_DEL - failed'')
           | (None, k) \<Rightarrow> Inr (e\<lparr>ep_kernel := k\<rparr>))"

definition ready_finalize :: "fd \<Rightarrow> bool \<Rightarrow> nat \<times> mask \<Rightarrow> 'k epoll \<Rightarrow> mask option" where
  "ready_finalize handle alive x e =
     (if registered e handle \<noteq> Some (fst x) then None else if alive then Some (snd x) else None)"

text \<open>One entry of the array that \<open>epoll_wait\<close> filled, for another descriptor than the wakeup one.\<close>

definition dispatch ::
  "epoll_abi \<Rightarrow> (nat \<Rightarrow> bool) \<Rightarrow> fd \<times> mask \<Rightarrow> 'k epoll \<Rightarrow> (nat \<times> mask) option" where
  "dispatch A alive x e =
     (case registered e (fst x) of
        None \<Rightarrow> None
      | Some i \<Rightarrow> if alive i then Some (i, events_of_epoll A (snd x)) else None)"

subsection \<open>Queues that wake their consumer\<close>

text \<open>
  What the producers rely on: an element is queued at the end, nothing else changes, and the
  consumer is due afterwards whenever the queue was empty.
\<close>

locale waking_queue =
  fixes ok :: "'c \<Rightarrow> bool"
    and enq :: "'c \<Rightarrow> 'a \<Rightarrow> 'q \<Rightarrow> exn + 'q"
    and items :: "'q \<Rightarrow> 'a list"
    and due :: "'c \<Rightarrow> 'q \<Rightarrow> bool"
  assumes enq_total: "ok c \<Longrightarrow> \<exists>q'. enq c x q = Inr q'"
    and enq_items: "ok c \<Longrightarrow> enq c x q = Inr q' \<Longrightarrow> items q' = items q @ [x]"
    and enq_wakes: "ok c \<Longrightarrow> enq c x q = Inr q' \<Longrightarrow> items q = [] \<or> due c q \<Longrightarrow> due c q'"
begin

text \<open>Nothing that is queued is forgotten: the consumer is due or already on its way.\<close>

lemma enq_attended:
  assumes "ok c" and "enq c x q = Inr q'" and "items q \<noteq> [] \<Longrightarrow> due c q \<or> on_its_way"
  shows "due c q' \<or> on_its_way"
  using assms enq_wakes by (cases "items q = []") blast+

lemma enq_keeps_due: "ok c \<Longrightarrow> enq c x q = Inr q' \<Longrightarrow> due c q \<Longrightarrow> due c q'"
  using enq_wakes by blast

end

lemma efd_ok_write:
  assumes "efd_ok K" and "ec_efd_write K k = (r, k')"
  shows "r = None" and "obs_watch K k' = obs_watch K k" and "obs_due K k'"
  using assms unfolding efd_ok_def by blast+

lemma ep_wakeup_cases:
  assumes "efd_ok K"
  shows "\<exists>k. ep_wakeup K e = Inr (e\<lparr>ep_kernel := k\<rparr>) \<and> obs_watch K k = obs_watch K (ep_kernel e) \<and> obs_due K k"
proof -
  obtain r k where w: "ec_efd_write K (ep_kernel e) = (r, k)" by fastforce
  with efd_ok_write [OF assms w] show ?thesis
    by (intro exI [of _ k]) (simp add: ep_wakeup_def)
qed

abbreviation ep_due :: "('k, 'z) epoll_calls_scheme \<Rightarrow> 'k epoll \<Rightarrow> bool" where
  "ep_due K e \<equiv> obs_due K (ep_kernel e)"

text \<open>Each of the three calls changes its queue and the wakeup state of the kernel, and nothing else.\<close>

lemma ep_add_cases:
  assumes "efd_ok K"
  shows "\<exists>k. ep_add K i e = Inr (e\<lparr>pending_add := pending_add e @ [i], ep_kernel := k\<rparr>)
    \<and> obs_watch K k = obs_watch K (ep_kernel e) \<and> (obs_due K k \<longleftrightarrow> pending_add e = [] \<or> ep_due K e)"
proof (cases "pending_add e = []")
  case True
  with ep_wakeup_cases [OF assms, of "e\<lparr>pending_add := [i]\<rparr>"] show ?thesis by (auto simp: ep_add_def add_element_def)
next
  case False
  then show ?thesis by (intro exI [of _ "ep_kernel e"]) (simp add: ep_add_def add_element_def)
qed

lemma ep_remove_cases:
  assumes "efd_ok K"
  shows "\<exists>k. ep_remove K i e = Inr (e\<lparr>pending_remove := pending_remove e @ [i], ep_kernel := k\<rparr>)
    \<and> obs_watch K k = obs_watch K (ep_kernel e) \<and> (obs_due K k \<longleftrightarrow> pending_remove e = [] \<or> ep_due K e)"
proof (cases "pending_remove e = []")
  case True
  with ep_wakeup_cases [OF assms, of "e\<lparr>pending_remove := [i]\<rparr>"] show ?thesis by (auto simp: ep_remove_def add_element_def)
next
  case False
  then show ?thesis by (intro exI [of _ "ep_kernel e"]) (simp add: ep_remove_def add_element_def)
qed

lemma ep_ready_cases:
  assumes "efd_ok K"
  shows "\<exists>k. ep_ready K x e = Inr (e\<lparr>pending_ready := pending_ready e @ [x], ep_kernel := k\<rparr>)
    \<and> obs_watch K k = obs_watch K (ep_kernel e) \<and> (obs_due K k \<longleftrightarrow> pending_ready e = [] \<or> ep_due K e)"
proof (cases "pending_ready e = []")
  case True
  with ep_wakeup_cases [OF assms, of "e\<lparr>pending_ready := [x]\<rparr>"] show ?thesis by (auto simp: ep_ready_def add_element_def)
next
  case False
  then show ?thesis by (intro exI [of _ "ep_kernel e"]) (simp add: ep_ready_def add_element_def)
qed

interpretation add_queue: waking_queue efd_ok ep_add pending_add ep_due
proof (unfold_locales, goal_cases)
  case (1 c x q)
  from ep_add_cases [OF 1] show ?case by blast
next
  case (2 c x q q')
  from ep_add_cases [OF 2(1), of x q] 2(2) show ?case by auto
next
  case (3 c x q q')
  from ep_add_cases [OF 3(1), of x q] 3(2,3) show ?case by auto
qed

interpretation remove_queue: waking_queue efd_ok ep_remove pending_remove ep_due
proof (unfold_locales, goal_cases)
  case (1 c x q)
  from ep_remove_cases [OF 1] show ?case by blast
next
  case (2 c x q q')
  from ep_remove_cases [OF 2(1), of x q] 2(2) show ?case by auto
next
  case (3 c x q q')
  from ep_remove_cases [OF 3(1), of x q] 3(2,3) show ?case by auto
qed

interpretation ready_queue: waking_queue efd_ok ep_ready pending_ready ep_due
proof (unfold_locales, goal_cases)
  case (1 c x q)
  from ep_ready_cases [OF 1] show ?case by blast
next
  case (2 c x q q')
  from ep_ready_cases [OF 2(1), of x q] 2(2) show ?case by auto
next
  case (3 c x q q')
  from ep_ready_cases [OF 3(1), of x q] 3(2,3) show ?case by auto
qed

end
