(* ===== verification/Event_Loop.thy ===== *)
theory Event_Loop
  imports Epoll
begin

text \<open>
  \<open>Event\<close>, \<open>EventLoop\<close> and \<open>EventLoop::ExecuteHandler\<close> (\<open>include/event.h\<close>, \<open>lib/event.cc\<close>,
  \<open>include/event_loop.h\<close>, \<open>lib/event_loop.cc\<close>) over the \<open>EPoll\<close> below them: the public and
  internal operations as functions, the loop thread as a machine of atomic steps (\<open>loop_step\<close>), and
  the interleaving of the two (\<open>run_step\<close>).

  An event handler and its \<open>Event\<close> share an id.  \<open>created\<close> are the handlers whose \<open>event_\<close> is set,
  \<open>closed\<close> those whose \<open>close_flag_\<close> has been consumed, \<open>gone\<close> those whose weak pointers no longer
  lock.  The event loop itself stays alive (the static table holds it).
\<close>

subsection \<open>State\<close>

datatype kind = User | Timer | Execute

text \<open>What is fixed: the epoll masks, the system calls, the wakeup descriptor, and of each handler
  its descriptor and its class.\<close>

record 'k env =
  en_abi :: epoll_abi
  en_calls :: "'k epoll_calls"
  en_wake_fd :: fd
  en_handle :: "nat \<Rightarrow> fd"
  en_kind :: "nat \<Rightarrow> kind"

text \<open>
  Where the loop thread is: in \<open>Run\<close> before the test of \<open>stop_\<close>, in \<open>epoll_wait\<close>, in the loop over
  the reported entries, in one of the three drains of the queues (taking the queue, then going
  through what was taken, the remaining entries kept for later), in a handler's \<open>HandleEvents\<close>, in
  the closing of all events after a stop, at the end, or dead of an exception.
\<close>

type_synonym batch = "(fd \<times> mask) list"

datatype pc =
    Checking
  | Waiting
  | Batch batch
  | Reading batch
  | Take_adds batch
  | Adding "nat list" batch
  | Take_removes batch
  | Removing "nat list" batch
  | Take_readies batch
  | Readying "(nat \<times> mask) list" batch
  | Calling nat mask pc
  | Closing "nat list"
  | Finished
  | Dead exn

datatype lobs = L_call nat mask | L_removed nat

record 'k loop =
  ep :: "'k epoll"
  pc :: pc
  stop_flag :: bool
  final_pass :: bool
  stopping :: bool
  attaching :: "nat list"
  detaching :: "nat list"
  created :: "nat list"
  closed :: "nat list"
  el_events :: "nat list"
  internal :: "nat list"
  gone :: "nat list"
  wants :: "nat \<Rightarrow> mask"
  lock_held :: bool
  history :: "lobs list"

definition loop_new :: "'k \<Rightarrow> 'k loop" where
  "loop_new k =
     \<lparr>ep = ep_new k, pc = Checking, stop_flag = False, final_pass = False, stopping = False,
      attaching = [], detaching = [], created = [], closed = [], el_events = [], internal = [], gone = [],
      wants = (\<lambda>_. 0), lock_held = False, history = []\<rparr>"

text \<open>\<open>EventLoop::Create\<close>: the EPoll, with its wakeup descriptor, and the loop over it.\<close>

definition el_create ::
  "epoll_abi \<Rightarrow> 'k epoll_calls \<Rightarrow> ('k \<Rightarrow> (errno + fd) \<times> 'k) \<Rightarrow> ('k \<Rightarrow> (errno + fd) \<times> 'k)
     \<Rightarrow> 'k \<Rightarrow> exn + fd \<times> 'k loop" where
  "el_create A K epoll_create1 eventfd k =
     bindE (ep_create A K epoll_create1 eventfd k) (\<lambda>(epoll_fd, pending_fd, e).
       Inr (pending_fd, loop_new (ep_kernel e)))"

definition on_ep :: "('k epoll \<Rightarrow> exn + 'k epoll) \<Rightarrow> 'k loop \<Rightarrow> exn + 'k loop" where
  "on_ep f s = bindE (f (ep s)) (\<lambda>e. Inr (s\<lparr>ep := e\<rparr>))"

text \<open>\<open>Event::GetEvents\<close>: the mask of the handler, or none when it is gone.\<close>

definition event_get_events :: "'k loop \<Rightarrow> nat \<Rightarrow> mask" where
  "event_get_events s i = (if i \<in> set (gone s) then 0 else wants s i)"

subsection \<open>Operations\<close>

text \<open>
  \<open>Attach\<close> in two halves, which another thread may come between: the test and the creation of
  the event, and its hand-over to the EPoll.
\<close>

definition create_event :: "nat \<Rightarrow> 'k loop \<Rightarrow> 'k loop" where
  "create_event i s = s\<lparr>el_events := el_events s @ [i]\<rparr>"

definition attach_begin :: "nat \<Rightarrow> 'k loop \<Rightarrow> exn + 'k loop" where
  "attach_begin i s =
     (if i \<in> set (created s) then Inl (Thrown ''event handler already attached'')
      else let s = create_event i s
           in Inr (s\<lparr>created := created s @ [i], attaching := attaching s @ [i]\<rparr>))"

definition attach_end :: "'k env \<Rightarrow> nat \<Rightarrow> 'k loop \<Rightarrow> exn + 'k loop" where
  "attach_end E i s = on_ep (ep_add (en_calls E) i) (s\<lparr>attaching := remove1 i (attaching s)\<rparr>)"

definition attach :: "'k env \<Rightarrow> nat \<Rightarrow> 'k loop \<Rightarrow> exn + 'k loop" where
  "attach E i s = bindE (attach_begin i s) (attach_end E i)"

definition attach_internal_begin :: "nat \<Rightarrow> 'k loop \<Rightarrow> exn + 'k loop" where
  "attach_internal_begin i s = attach_begin i (s\<lparr>internal := List.insert i (internal s)\<rparr>)"

text \<open>
  \<open>Remove\<close> takes the lock and gives it back, except when it throws: then the state it leaves
  behind is part of the result.
\<close>

definition el_remove :: "'k env \<Rightarrow> nat \<Rightarrow> 'k loop \<Rightarrow> (exn \<times> 'k loop) + 'k loop" where
  "el_remove E i s =
     (if i \<notin> set (el_events s) then Inl (Thrown ''event not found'', s\<lparr>lock_held := True\<rparr>)
      else
        let s = s\<lparr>el_events := removeAll i (el_events s)\<rparr>
        in case on_ep (ep_remove (en_calls E) i) s of
             Inl e \<Rightarrow> Inl (e, s)
           | Inr s \<Rightarrow> Inr s)"

text \<open>\<open>Event::Close\<close>: \<open>call_once\<close> runs \<open>Remove\<close> unless an earlier call has completed it.\<close>

definition event_close :: "'k env \<Rightarrow> nat \<Rightarrow> 'k loop \<Rightarrow> (exn \<times> 'k loop) + 'k loop" where
  "event_close E i s =
     (if i \<in> set (closed s) then Inr s
      else case el_remove E i s of
             Inl x \<Rightarrow> Inl x
           | Inr s \<Rightarrow> Inr (s\<lparr>closed := closed s @ [i]\<rparr>))"

text \<open>
  Another thread may come between the two halves of a \<open>Close\<close>: the erasure from \<open>events_\<close> under
  the lock of the event loop, and the hand-over of the removal to the EPoll.  Until the second half
  is done, \<open>call_once\<close> lets every other \<open>Close\<close> of the event wait.
\<close>

definition close_begin :: "nat \<Rightarrow> 'k loop \<Rightarrow> (exn \<times> 'k loop) + 'k loop" where
  "close_begin i s =
     (if i \<in> set (closed s) then Inr s
      else if i \<notin> set (el_events s) then Inl (Thrown ''event not found'', s\<lparr>lock_held := True\<rparr>)
      else Inr (s\<lparr>el_events := removeAll i (el_events s), closed := closed s @ [i], detaching := detaching s @ [i]\<rparr>))"

definition close_end :: "'k env \<Rightarrow> nat \<Rightarrow> 'k loop \<Rightarrow> exn + 'k loop" where
  "close_end E i s = on_ep (ep_remove (en_calls E) i) (s\<lparr>detaching := remove1 i (detaching s)\<rparr>)"

text \<open>
  The destructor of an event handler closes its event; one that was never attached closes its
  descriptor itself, which the event loop does not notice.
\<close>

definition handler_dtor :: "'k env \<Rightarrow> nat \<Rightarrow> 'k loop \<Rightarrow> (exn \<times> 'k loop) + 'k loop" where
  "handler_dtor E i s = (if i \<in> set (created s) then event_close E i s else Inr s)"

definition el_ready :: "'k env \<Rightarrow> nat \<Rightarrow> mask \<Rightarrow> 'k loop \<Rightarrow> exn + 'k loop" where
  "el_ready E i events s = on_ep (ep_ready (en_calls E) (i, events)) s"

definition el_modify :: "'k env \<Rightarrow> bool \<Rightarrow> nat \<Rightarrow> 'k loop \<Rightarrow> exn + 'k loop" where
  "el_modify E on_loop_thread i s =
     (if \<not> on_loop_thread then Inl (Thrown ''Modify() called outside the scope of the event loop'')
      else on_ep (ep_modify (en_abi E) (en_calls E) (en_handle E i) (event_get_events s i)) s)"

definition remove_internal :: "nat \<Rightarrow> 'k loop \<Rightarrow> exn + 'k loop" where
  "remove_internal i s =
     (if i \<notin> set (internal s) then Inl (Thrown ''event handler found'')
      else Inr (s\<lparr>internal := removeAll i (internal s)\<rparr>))"

text \<open>\<open>Stop\<close> in two halves: the flag, and the wakeup; then it waits for the thread.\<close>

definition stop_set :: "'k loop \<Rightarrow> 'k loop" where
  "stop_set s = s\<lparr>stop_flag := True, stopping := True\<rparr>"

definition stop_wake :: "'k env \<Rightarrow> 'k loop \<Rightarrow> exn + 'k loop" where
  "stop_wake E s = on_ep (ep_wakeup (en_calls E)) (s\<lparr>stopping := False\<rparr>)"

definition el_stop :: "'k env \<Rightarrow> 'k loop \<Rightarrow> exn + 'k loop" where
  "el_stop E s = stop_wake E (stop_set s)"

text \<open>\<open>DestroyAll\<close>: every loop of the table is stopped, in the order of the table.\<close>

fun destroy_all :: "('k env \<times> 'k loop) list \<Rightarrow> exn + 'k loop list" where
  "destroy_all [] = Inr []"
| "destroy_all ((E, s) # table) =
     bindE (el_stop E s) (\<lambda>t. bindE (destroy_all table) (\<lambda>ts. Inr (t # ts)))"

text \<open>\<open>ExecuteHandler::HandleEvents\<close> after the call of the function.\<close>

definition execute_finish :: "'k env \<Rightarrow> nat \<Rightarrow> 'k loop \<Rightarrow> (exn \<times> 'k loop) + 'k loop" where
  "execute_finish E i s =
     (case event_close E i s of
        Inl x \<Rightarrow> Inl x
      | Inr s \<Rightarrow>
          if i \<in> set (gone s) then Inr s
          else case remove_internal i s of Inl e \<Rightarrow> Inl (e, s) | Inr s \<Rightarrow> Inr s)"

subsection \<open>The loop thread\<close>

definition die :: "exn \<Rightarrow> 'k loop \<Rightarrow> 'k loop" where
  "die e s = s\<lparr>pc := Dead e\<rparr>"

definition go :: "pc \<Rightarrow> 'k loop \<Rightarrow> 'k loop" where
  "go q s = s\<lparr>pc := q\<rparr>"

text \<open>Calling a handler (recorded), or going on at \<open>q\<close> without.\<close>

definition call_or :: "pc \<Rightarrow> (nat \<times> mask) option \<Rightarrow> 'k loop \<Rightarrow> 'k loop" where
  "call_or q c s =
     (case c of
        None \<Rightarrow> go q s
      | Some (i, m) \<Rightarrow> go (Calling i m q) (s\<lparr>history := history s @ [L_call i m]\<rparr>))"

abbreviation alive :: "'k loop \<Rightarrow> nat \<Rightarrow> bool" where
  "alive s i \<equiv> i \<notin> set (gone s)"

definition finish_res :: "pc \<Rightarrow> (exn \<times> 'k loop) + 'k loop \<Rightarrow> 'k loop" where
  "finish_res q r = (case r of Inl (e, s) \<Rightarrow> die e s | Inr s \<Rightarrow> go q s)"

definition step_wait :: "'k env \<Rightarrow> 'k loop \<Rightarrow> 'k loop" where
  "step_wait E s =
     (case ec_wait (en_calls E) max_events (ep_kernel (ep s)) of
        (Inl x, k) \<Rightarrow> die (System_error x ''epoll_wait failed'') (s\<lparr>ep := (ep s)\<lparr>ep_kernel := k\<rparr>\<rparr>)
      | (Inr b, k) \<Rightarrow> go (Batch b) (s\<lparr>ep := (ep s)\<lparr>ep_kernel := k\<rparr>\<rparr>))"

definition step_read :: "'k env \<Rightarrow> batch \<Rightarrow> 'k loop \<Rightarrow> 'k loop" where
  "step_read E b s =
     (case ec_efd_read (en_calls E) (ep_kernel (ep s)) of
        (r, k) \<Rightarrow> go (if r = None then Reading b else Take_adds b) (s\<lparr>ep := (ep s)\<lparr>ep_kernel := k\<rparr>\<rparr>))"

definition step_add :: "'k env \<Rightarrow> nat \<Rightarrow> pc \<Rightarrow> 'k loop \<Rightarrow> 'k loop" where
  "step_add E i q s =
     (case add_finalize (en_abi E) (en_calls E) (en_handle E i) (event_get_events s i) (alive s i) i (ep s) of
        Inl x \<Rightarrow> die x s
      | Inr (c, e) \<Rightarrow> call_or q (map_option (Pair i) c) (s\<lparr>ep := e\<rparr>))"

definition step_remove :: "'k env \<Rightarrow> nat \<Rightarrow> pc \<Rightarrow> 'k loop \<Rightarrow> 'k loop" where
  "step_remove E i q s =
     (case remove_finalize (en_calls E) (en_handle E i) (ep s) of
        Inl x \<Rightarrow> die x s
      | Inr e \<Rightarrow> go q (s\<lparr>ep := e, history := history s @ [L_removed i]\<rparr>))"

text \<open>
  \<open>HandleElements\<close> takes a vector whole, leaving an empty one, and goes through what it took.
\<close>

definition take_adds :: "batch \<Rightarrow> 'k loop \<Rightarrow> 'k loop" where
  "take_adds b s = go (Adding (pending_add (ep s)) b) (s\<lparr>ep := (ep s)\<lparr>pending_add := []\<rparr>\<rparr>)"

definition take_removes :: "batch \<Rightarrow> 'k loop \<Rightarrow> 'k loop" where
  "take_removes b s = go (Removing (pending_remove (ep s)) b) (s\<lparr>ep := (ep s)\<lparr>pending_remove := []\<rparr>\<rparr>)"

definition take_readies :: "batch \<Rightarrow> 'k loop \<Rightarrow> 'k loop" where
  "take_readies b s = go (Readying (pending_ready (ep s)) b) (s\<lparr>ep := (ep s)\<lparr>pending_ready := []\<rparr>\<rparr>)"

definition step_ready :: "'k env \<Rightarrow> nat \<times> mask \<Rightarrow> pc \<Rightarrow> 'k loop \<Rightarrow> 'k loop" where
  "step_ready E x q s =
     call_or q (map_option (Pair (fst x)) (ready_finalize (en_handle E (fst x)) (alive s (fst x)) x (ep s))) s"

text \<open>An entry that \<open>epoll_wait\<close> reported.\<close>

definition step_entry :: "'k env \<Rightarrow> fd \<times> mask \<Rightarrow> batch \<Rightarrow> 'k loop \<Rightarrow> 'k loop" where
  "step_entry E x b s =
     (if fst x = en_wake_fd E then go (Reading b) s
      else call_or (Batch b) (dispatch (en_abi E) (alive s) x (ep s)) s)"

text \<open>
  The test of \<open>stop_\<close>, and the closing of a copy of all events after the loop of \<open>Run\<close>.  The loop
  thread waits when another thread is in the middle of the \<open>Close\<close> that it wants to do.
\<close>

definition run_check :: "'k loop \<Rightarrow> 'k loop" where
  "run_check s = go (if stop_flag s then Closing (el_events s) else Waiting) s"

fun run_close :: "'k env \<Rightarrow> nat list \<Rightarrow> 'k loop \<Rightarrow> 'k loop" where
  "run_close E [] s =
     (case on_ep (ep_wakeup (en_calls E)) s of
        Inl x \<Rightarrow> die x s
      | Inr s \<Rightarrow> go Waiting (s\<lparr>final_pass := True\<rparr>))"
| "run_close E (i # is) s = (if i \<in> set (detaching s) then s else finish_res (Closing is) (event_close E i s))"

text \<open>After a handler: the loop goes on, an execute handler first takes itself out of it.\<close>

definition step_return :: "'k env \<Rightarrow> nat \<Rightarrow> pc \<Rightarrow> 'k loop \<Rightarrow> 'k loop" where
  "step_return E i q s = (if en_kind E i = Execute then finish_res q (execute_finish E i s) else go q s)"

fun loop_pc :: "'k env \<Rightarrow> pc \<Rightarrow> 'k loop \<Rightarrow> 'k loop" where
  "loop_pc E Checking s = run_check s"
| "loop_pc E Waiting s = step_wait E s"
| "loop_pc E (Batch []) s = go (if final_pass s then Finished else Checking) s"
| "loop_pc E (Batch (x # b)) s = step_entry E x b s"
| "loop_pc E (Reading b) s = step_read E b s"
| "loop_pc E (Take_adds b) s = take_adds b s"
| "loop_pc E (Adding [] b) s = go (Take_removes b) s"
| "loop_pc E (Adding (i # is) b) s = step_add E i (Adding is b) s"
| "loop_pc E (Take_removes b) s = take_removes b s"
| "loop_pc E (Removing [] b) s = go (Take_readies b) s"
| "loop_pc E (Removing (i # is) b) s = step_remove E i (Removing is b) s"
| "loop_pc E (Take_readies b) s = take_readies b s"
| "loop_pc E (Readying [] b) s = go (Batch b) s"
| "loop_pc E (Readying (x # xs) b) s = step_ready E x (Readying xs b) s"
| "loop_pc E (Calling i m q) s = step_return E i q s"
| "loop_pc E (Closing is) s = run_close E is s"
| "loop_pc E Finished s = s"
| "loop_pc E (Dead x) s = s"

definition loop_step :: "'k env \<Rightarrow> 'k loop \<Rightarrow> 'k loop" where
  "loop_step E s = loop_pc E (pc s) s"

subsection \<open>Interleaving\<close>

definition running :: "'k loop \<Rightarrow> bool" where
  "running s \<longleftrightarrow> (case pc s of Dead x \<Rightarrow> False | Finished \<Rightarrow> False | _ \<Rightarrow> True)"

definition removed :: "'k loop \<Rightarrow> nat \<Rightarrow> bool" where
  "removed s i \<longleftrightarrow> L_removed i \<in> set (history s)"

text \<open>What the loop thread has in its hands at \<open>pc\<close>: the rests of the taken vectors, and the handler it calls.\<close>

fun adding_of :: "pc \<Rightarrow> nat list" where
  "adding_of (Adding is b) = is"
| "adding_of (Calling i m q) = adding_of q"
| "adding_of _ = []"

fun removing_of :: "pc \<Rightarrow> nat list" where
  "removing_of (Removing is b) = is"
| "removing_of (Calling i m q) = removing_of q"
| "removing_of _ = []"

fun readying_of :: "pc \<Rightarrow> (nat \<times> mask) list" where
  "readying_of (Readying xs b) = xs"
| "readying_of (Calling i m q) = readying_of q"
| "readying_of _ = []"

fun closing_of :: "pc \<Rightarrow> nat list" where
  "closing_of (Closing is) = is"
| "closing_of (Calling i m q) = closing_of q"
| "closing_of _ = []"

fun calling :: "pc \<Rightarrow> nat option" where
  "calling (Calling i m q) = Some i"
| "calling _ = None"

text \<open>
  Who holds a \<open>shared_ptr\<close> to an event: its handler, the \<open>EventLoop\<close>, an \<open>Attach\<close>, a \<open>Close\<close> or the loop
  thread at work on it, the vectors and the table of the EPoll (an event is there under its own
  descriptor only).  When nobody does, the destructor of the event closes the descriptor.
\<close>

definition held :: "'k env \<Rightarrow> 'k loop \<Rightarrow> nat \<Rightarrow> bool" where
  "held E s i \<longleftrightarrow>
     i \<notin> set (gone s) \<or> i \<in> set (el_events s) \<or> i \<in> set (attaching s) \<or> i \<in> set (detaching s)
   \<or> i \<in> set (pending_add (ep s)) \<or> i \<in> set (pending_remove (ep s)) \<or> i \<in> fst ` set (pending_ready (ep s))
   \<or> i \<in> set (adding_of (pc s)) \<or> i \<in> set (removing_of (pc s)) \<or> i \<in> fst ` set (readying_of (pc s))
   \<or> i \<in> set (closing_of (pc s)) \<or> calling (pc s) = Some i \<or> registered (ep s) (en_handle E i) = Some i"

text \<open>
  The kernel never gives the same descriptor to two open files, and the descriptor of an event is
  closed when the event is destroyed: the descriptor of a handler that is attached is neither the
  wakeup descriptor nor that of an event that somebody holds.
\<close>

definition fresh_handle :: "'k env \<Rightarrow> nat \<Rightarrow> 'k loop \<Rightarrow> bool" where
  "fresh_handle E i s \<longleftrightarrow>
     en_handle E i < 0
   \<or> en_handle E i \<noteq> en_wake_fd E
     \<and> list_all (\<lambda>j. en_handle E j \<noteq> en_handle E i \<or> \<not> held E s j) (created s)"

text \<open>
  A step of the loop thread, or of a caller (another thread, or a handler that the loop thread
  is calling).  Handlers return: an exception of \<open>HandleEvents\<close> would leave \<open>Run\<close> and end the process.  An execute handler closes its event itself, on the loop thread, where nobody else
  takes from the queues and the halves of \<open>Close\<close> are one step.  A handler is gone when nobody holds it, and then its destructor runs;
  \<open>Modify\<close> is for handlers with a descriptor, in their own \<open>HandleEvents\<close>.  After the loop thread
  has died of an exception the process is gone.
\<close>

inductive run_step :: "'k env \<Rightarrow> 'k loop \<Rightarrow> 'k loop \<Rightarrow> bool" for E where
  thread: "running s \<Longrightarrow> \<not> lock_held s \<Longrightarrow> run_step E s (loop_step E s)"
| user_attach: "running s \<Longrightarrow> \<not> lock_held s \<Longrightarrow> i \<notin> set (gone s) \<Longrightarrow> en_kind E i = User \<Longrightarrow> fresh_handle E i s \<Longrightarrow>
    attach_begin i s = Inr t \<Longrightarrow> run_step E s t"
| internal_attach: "running s \<Longrightarrow> \<not> lock_held s \<Longrightarrow> i \<notin> set (gone s) \<Longrightarrow> en_kind E i \<noteq> User \<Longrightarrow>
    (en_kind E i = Execute \<longrightarrow> en_handle E i < 0) \<Longrightarrow> fresh_handle E i s \<Longrightarrow>
    attach_internal_begin i s = Inr t \<Longrightarrow> run_step E s t"
| hand_over: "running s \<Longrightarrow> i \<in> set (attaching s) \<Longrightarrow> attach_end E i s = Inr t \<Longrightarrow> run_step E s t"
| close: "running s \<Longrightarrow> \<not> lock_held s \<Longrightarrow> i \<in> set (created s) \<Longrightarrow> event_close E i s = Inr t \<Longrightarrow> run_step E s t"
| close_throws: "running s \<Longrightarrow> \<not> lock_held s \<Longrightarrow> i \<in> set (created s) \<Longrightarrow> event_close E i s = Inl (x, t) \<Longrightarrow>
    run_step E s t"
| close_begin: "running s \<Longrightarrow> \<not> lock_held s \<Longrightarrow> i \<in> set (created s) \<Longrightarrow> i \<notin> set (closed s) \<Longrightarrow> en_kind E i \<noteq> Execute \<Longrightarrow>
    close_begin i s = Inr t \<Longrightarrow> run_step E s t"
| close_end: "running s \<Longrightarrow> i \<in> set (detaching s) \<Longrightarrow> close_end E i s = Inr t \<Longrightarrow> run_step E s t"
| destroy: "running s \<Longrightarrow> \<not> lock_held s \<Longrightarrow> i \<in> set (gone s) \<Longrightarrow> handler_dtor E i s = Inr t \<Longrightarrow> run_step E s t"
| ready: "running s \<Longrightarrow> i \<in> set (created s) \<Longrightarrow> el_ready E i m s = Inr t \<Longrightarrow> run_step E s t"
| modify_own: "pc s = Calling i m q \<Longrightarrow> 0 \<le> en_handle E i \<Longrightarrow> el_modify E True i s = Inr t \<Longrightarrow> run_step E s t"
| modify_throws: "pc s = Calling i m q \<Longrightarrow> 0 \<le> en_handle E i \<Longrightarrow> el_modify E True i s = Inl x \<Longrightarrow> run_step E s (die x s)"
| handler_gone: "running s \<Longrightarrow> i \<notin> set (internal s) \<Longrightarrow> calling (pc s) \<noteq> Some i \<Longrightarrow>
    run_step E s (s\<lparr>gone := List.insert i (gone s)\<rparr>)"
| wants_change: "running s \<Longrightarrow> run_step E s (s\<lparr>wants := (wants s)(i := m)\<rparr>)"
| stop_begin: "running s \<Longrightarrow> run_step E s (stop_set s)"
| stop_end: "running s \<Longrightarrow> stopping s \<Longrightarrow> stop_wake E s = Inr t \<Longrightarrow> run_step E s t"
| kernel_move: "running s \<Longrightarrow> obs_watch (en_calls E) k = obs_watch (en_calls E) (ep_kernel (ep s)) \<Longrightarrow>
    obs_due (en_calls E) k = obs_due (en_calls E) (ep_kernel (ep s)) \<Longrightarrow>
    run_step E s (s\<lparr>ep := (ep s)\<lparr>ep_kernel := k\<rparr>\<rparr>)"

inductive run_reach :: "'k env \<Rightarrow> 'k loop \<Rightarrow> 'k loop \<Rightarrow> bool" for E s0 where
  start: "run_reach E s0 s0"
| move: "run_reach E s0 s \<Longrightarrow> run_step E s t \<Longrightarrow> run_reach E s0 t"

end
