(* ===== verification/Loop_Invariants.thy ===== *)
theory Loop_Invariants
  imports Event_Loop "HOL-Library.Multiset"
begin

text \<open>
  The invariants of the event loop: the life of an event from its attachment to its removal
  (\<open>life\<close>, over multisets of the events on their way in and out), the agreement of the EPoll's
  table with the kernel, the books of the \<open>EventLoop\<close>, the wakeups, and the internal handlers.
\<close>

subsection \<open>The life of an event\<close>

definition incoming :: "'k loop \<Rightarrow> nat multiset" where
  "incoming s = mset (attaching s) + mset (pending_add (ep s)) + mset (adding_of (pc s))"

definition outgoing :: "'k loop \<Rightarrow> nat multiset" where
  "outgoing s = mset (detaching s) + mset (pending_remove (ep s)) + mset (removing_of (pc s))"

definition once :: "'a multiset \<Rightarrow> bool" where
  "once A \<longleftrightarrow> (\<forall>i. count A i \<le> 1)"

lemma once_add: "once A \<Longrightarrow> i \<notin># A \<Longrightarrow> once (add_mset i A)"
  by (simp add: once_def not_in_iff)

lemma once_diff: "once A \<Longrightarrow> once (A - {#i#})"
  unfolding once_def using diff_le_self le_trans by (fastforce simp: count_diff)

lemma once_diff_in: "once A \<Longrightarrow> j \<in># A - {#i#} \<longleftrightarrow> j \<in># A \<and> j \<noteq> i"
proof (cases "j = i")
  case True
  assume "once A"
  then have "count A i \<le> 1" by (simp add: once_def)
  with True show ?thesis by (simp add: in_diff_count)
next
  case False
  then show ?thesis by (simp add: in_diff_count)
qed

text \<open>
  Over the events on their way in (\<open>A\<close>) and out (\<open>R\<close>), the EPoll's table, the created, closed and
  removed events; \<open>hf\<close> gives the descriptors, \<open>w\<close> is the wakeup descriptor.
\<close>

definition life ::
  "(nat \<Rightarrow> fd) \<Rightarrow> fd \<Rightarrow> nat multiset \<Rightarrow> nat multiset \<Rightarrow> (fd \<Rightarrow> nat option) \<Rightarrow> nat set \<Rightarrow> nat set \<Rightarrow> nat set \<Rightarrow> bool" where
  "life hf w A R reg C Cl Rm \<longleftrightarrow>
     once A \<and> once R
   \<and> (\<forall>i. i \<in># A \<longrightarrow> i \<in> C \<and> (0 \<le> hf i \<longrightarrow> reg (hf i) \<noteq> Some i \<and> i \<notin> Rm))
   \<and> (\<forall>i. i \<in># R \<longrightarrow> i \<in> Cl \<and> i \<notin> Rm)
   \<and> (\<forall>i. i \<in> C \<longrightarrow> 0 \<le> hf i \<longrightarrow> hf i \<noteq> w \<and> (i \<in># A \<or> reg (hf i) = Some i \<or> i \<in> Rm))
   \<and> Cl \<subseteq> C \<and> Rm \<subseteq> Cl \<and> (\<forall>i. i \<in> Cl \<longrightarrow> i \<in># R \<or> i \<in> Rm)
   \<and> (\<forall>i j. i \<in> C \<longrightarrow> j \<in> C \<longrightarrow> hf i = hf j \<longrightarrow> 0 \<le> hf i \<longrightarrow> i = j \<or> i \<in> Rm \<or> j \<in> Rm)
   \<and> (\<forall>h i. reg h = Some i \<longrightarrow> hf i = h \<and> 0 \<le> h \<and> i \<in> C \<and> i \<notin> Rm)"

lemma life_facts:
  assumes "life hf w A R reg C Cl Rm"
  shows life_once: "once A" "once R"
    and life_in: "i \<in># A \<Longrightarrow> i \<in> C" "i \<in># A \<Longrightarrow> 0 \<le> hf i \<Longrightarrow> reg (hf i) \<noteq> Some i"
      "i \<in># A \<Longrightarrow> 0 \<le> hf i \<Longrightarrow> i \<notin> Rm"
    and life_out: "i \<in># R \<Longrightarrow> i \<in> Cl" "i \<in># R \<Longrightarrow> i \<notin> Rm"
    and life_where: "i \<in> C \<Longrightarrow> 0 \<le> hf i \<Longrightarrow> hf i \<noteq> w"
      "i \<in> C \<Longrightarrow> 0 \<le> hf i \<Longrightarrow> i \<in># A \<or> reg (hf i) = Some i \<or> i \<in> Rm"
    and life_sets: "i \<in> Cl \<Longrightarrow> i \<in> C" "i \<in> Rm \<Longrightarrow> i \<in> Cl" "i \<in> Cl \<Longrightarrow> i \<in># R \<or> i \<in> Rm"
    and life_unique: "i \<in> C \<Longrightarrow> j \<in> C \<Longrightarrow> hf i = hf j \<Longrightarrow> 0 \<le> hf i \<Longrightarrow> i = j \<or> i \<in> Rm \<or> j \<in> Rm"
    and life_reg: "reg h = Some i \<Longrightarrow> hf i = h" "reg h = Some i \<Longrightarrow> 0 \<le> h" "reg h = Some i \<Longrightarrow> i \<in> C"
      "reg h = Some i \<Longrightarrow> i \<notin> Rm"
  using assms unfolding life_def by blast+

lemma lifeI:
  assumes "once A" "once R"
    and "\<And>i. i \<in># A \<Longrightarrow> i \<in> C" "\<And>i. i \<in># A \<Longrightarrow> 0 \<le> hf i \<Longrightarrow> reg (hf i) \<noteq> Some i"
      "\<And>i. i \<in># A \<Longrightarrow> 0 \<le> hf i \<Longrightarrow> i \<notin> Rm"
    and "\<And>i. i \<in># R \<Longrightarrow> i \<in> Cl" "\<And>i. i \<in># R \<Longrightarrow> i \<notin> Rm"
    and "\<And>i. i \<in> C \<Longrightarrow> 0 \<le> hf i \<Longrightarrow> hf i \<noteq> w"
      "\<And>i. i \<in> C \<Longrightarrow> 0 \<le> hf i \<Longrightarrow> i \<in># A \<or> reg (hf i) = Some i \<or> i \<in> Rm"
    and "\<And>i. i \<in> Cl \<Longrightarrow> i \<in> C" "\<And>i. i \<in> Rm \<Longrightarrow> i \<in> Cl" "\<And>i. i \<in> Cl \<Longrightarrow> i \<in># R \<or> i \<in> Rm"
    and "\<And>i j. i \<in> C \<Longrightarrow> j \<in> C \<Longrightarrow> hf i = hf j \<Longrightarrow> 0 \<le> hf i \<Longrightarrow> i = j \<or> i \<in> Rm \<or> j \<in> Rm"
    and "\<And>h i. reg h = Some i \<Longrightarrow> hf i = h" "\<And>h i. reg h = Some i \<Longrightarrow> 0 \<le> h" "\<And>h i. reg h = Some i \<Longrightarrow> i \<in> C"
      "\<And>h i. reg h = Some i \<Longrightarrow> i \<notin> Rm"
  shows "life hf w A R reg C Cl Rm"
  unfolding life_def
  by (intro conjI allI impI subsetI)
     (rule assms(1), rule assms(2), erule assms(3), erule (1) assms(4), erule (1) assms(5), erule assms(6),
      erule assms(7), erule (1) assms(8), erule (1) assms(9), erule assms(10), erule assms(11), erule assms(12),
      erule (3) assms(13), erule assms(14), erule assms(15), erule assms(16), erule assms(17))

lemma life_attach:
  assumes "life hf w A R reg C Cl Rm" and "i \<notin> C"
    and "hf i < 0 \<or> hf i \<noteq> w \<and> (\<forall>j \<in> C. hf j \<noteq> hf i \<or> j \<in> Rm)"
  shows "life hf w (add_mset i A) R reg (insert i C) Cl Rm"
proof -
  note l = life_facts [OF assms(1)]
  have new: "i \<notin># A" "i \<notin> Cl" "i \<notin> Rm" "\<And>h. reg h \<noteq> Some i" using l assms(2) by blast+
  show ?thesis
  proof (rule lifeI)
    show "once (add_mset i A)" using l(1) new(1) by (rule once_add)
  next
    fix j k assume a: "j \<in> insert i C" "k \<in> insert i C" "hf j = hf k" "0 \<le> hf j"
    show "j = k \<or> j \<in> Rm \<or> k \<in> Rm"
    proof (cases "j = i \<or> k = i")
      case True
      then have "0 \<le> hf i" using a by auto
      with assms(3) True a show ?thesis by auto
    next
      case False
      with a l(13) show ?thesis by blast
    qed
  next
    fix j assume "j \<in> insert i C" "0 \<le> hf j"
    then show "hf j \<noteq> w" using l(8) assms(3) by auto
    show "j \<in># add_mset i A \<or> reg (hf j) = Some j \<or> j \<in> Rm"
      using l(9) \<open>j \<in> insert i C\<close> \<open>0 \<le> hf j\<close> by auto
  next
    fix j assume "j \<in># add_mset i A" "0 \<le> hf j"
    then show "reg (hf j) \<noteq> Some j" "j \<notin> Rm" using l(4,5) new by auto
  qed (use new in \<open>auto dest: l(3,6,7,10,11,12,14-17) simp: l(2)\<close>)
qed

lemma life_activate:
  assumes "life hf w A R reg C Cl Rm" and "i \<in># A" and "0 \<le> hf i"
  shows "reg (hf i) = None" and "life hf w (A - {#i#}) R (reg(hf i \<mapsto> i)) C Cl Rm"
proof -
  note l = life_facts [OF assms(1)]
  have i: "i \<in> C" "i \<notin> Rm" "reg (hf i) \<noteq> Some i" using l(3-5) assms(2,3) by blast+
  show free: "reg (hf i) = None"
  proof (rule ccontr)
    assume "reg (hf i) \<noteq> None"
    then obtain j where j: "reg (hf i) = Some j" by auto
    from l(13) [OF i(1) l(16) [OF j] l(14) [OF j, symmetric] assms(3)] i(2) l(17) [OF j]
    have "i = j" by blast
    with i(3) j show False by simp
  qed
  note inA = once_diff_in [OF l(1)]
  show "life hf w (A - {#i#}) R (reg(hf i \<mapsto> i)) C Cl Rm"
  proof (rule lifeI)
    show "once (A - {#i#})" using l(1) by (rule once_diff)
  next
    fix j assume j: "j \<in> C" "0 \<le> hf j"
    show "j \<in># A - {#i#} \<or> (reg(hf i \<mapsto> i)) (hf j) = Some j \<or> j \<in> Rm"
    proof (cases "hf j = hf i")
      case True
      from l(13) [OF i(1) j(1) True [symmetric] assms(3)] i(2) have "i = j \<or> j \<in> Rm" by blast
      then show ?thesis by auto
    next
      case False
      then have "j \<noteq> i" by auto
      with False l(9) [OF j] show ?thesis by (auto simp: inA)
    qed
  next
    fix h j assume "(reg(hf i \<mapsto> i)) h = Some j"
    then show "hf j = h" "0 \<le> h" "j \<in> C" "j \<notin> Rm"
      using l(14-17) i assms(3) by (auto split: if_splits)
  next
    fix j assume "j \<in># A - {#i#}" "0 \<le> hf j"
    then show "(reg(hf i \<mapsto> i)) (hf j) \<noteq> Some j" "j \<notin> Rm" using l(4,5) by (auto simp: inA)
  next
    fix j k assume "j \<in> C" "k \<in> C" "hf j = hf k" "0 \<le> hf j"
    then show "j = k \<or> j \<in> Rm \<or> k \<in> Rm" by (rule l(13))
  qed (auto dest: l(3,6,7,8,10,11,12) simp: l(2) inA)
qed

lemma life_drop:
  assumes "life hf w A R reg C Cl Rm" and "hf i < 0"
  shows "life hf w (A - {#i#}) R reg C Cl Rm"
proof -
  note l = life_facts [OF assms(1)]
  note inA = once_diff_in [OF l(1)]
  show ?thesis
  proof (rule lifeI)
    show "once (A - {#i#})" using l(1) by (rule once_diff)
  next
    fix j assume j: "j \<in> C" "0 \<le> hf j"
    with assms(2) have "j \<noteq> i" by auto
    with l(9) [OF j] show "j \<in># A - {#i#} \<or> reg (hf j) = Some j \<or> j \<in> Rm" by (simp add: inA)
  next
    fix j k assume "j \<in> C" "k \<in> C" "hf j = hf k" "0 \<le> hf j"
    then show "j = k \<or> j \<in> Rm \<or> k \<in> Rm" by (rule l(13))
  qed (auto dest: l(3-8,10-12,14-17) simp: l(2) inA)
qed

lemma life_close:
  assumes "life hf w A R reg C Cl Rm" and "i \<in> C" and "i \<notin> Cl"
  shows "life hf w A (add_mset i R) reg C (insert i Cl) Rm"
proof -
  note l = life_facts [OF assms(1)]
  have i: "i \<notin># R" "i \<notin> Rm" using l(6,11) assms(3) by blast+
  show ?thesis
  proof (rule lifeI)
    show "once (add_mset i R)" using l(2) i(1) by (rule once_add)
  next
    fix j k assume "j \<in> C" "k \<in> C" "hf j = hf k" "0 \<le> hf j"
    then show "j = k \<or> j \<in> Rm \<or> k \<in> Rm" by (rule l(13))
  next
    fix j assume "j \<in> C" "0 \<le> hf j"
    then show "j \<in># A \<or> reg (hf j) = Some j \<or> j \<in> Rm" by (rule l(9))
  qed (use i assms(2) in \<open>auto dest: l(3-8,10-12,14-17) simp: l(1)\<close>)
qed

lemma life_remove:
  assumes "life hf w A R reg C Cl Rm" and "i \<in># R" and "hf i < 0 \<or> i \<notin># A"
  shows "hf i < 0 \<or> reg (hf i) = Some i"
    and "life hf w A (R - {#i#}) (if hf i < 0 then reg else reg(hf i := None)) C Cl (insert i Rm)"
proof -
  note l = life_facts [OF assms(1)]
  have i: "i \<in> C" "i \<in> Cl" "i \<notin> Rm" using l(6,7,10) assms(2) by blast+
  show r: "hf i < 0 \<or> reg (hf i) = Some i"
    using l(9) [OF i(1)] i(3) assms(3) by (cases "hf i < 0") auto
  note inR = once_diff_in [OF l(2)]
  let ?reg = "if hf i < 0 then reg else reg(hf i := None)"
  show "life hf w A (R - {#i#}) ?reg C Cl (insert i Rm)"
  proof (rule lifeI)
    show "once (R - {#i#})" using l(2) by (rule once_diff)
  next
    fix j assume j: "j \<in> C" "0 \<le> hf j"
    show "j \<in># A \<or> ?reg (hf j) = Some j \<or> j \<in> insert i Rm"
    proof (cases "j = i")
      case False
      from l(9) [OF j] show ?thesis
      proof (elim disjE)
        assume rj: "reg (hf j) = Some j"
        have "hf j \<noteq> hf i \<or> hf i < 0" using r rj False by auto
        with rj show ?thesis by auto
      qed auto
    qed simp
  next
    fix h j assume a: "?reg h = Some j"
    then have rj: "reg h = Some j" by (auto split: if_splits)
    from l(14-17) [OF this] show "hf j = h" "0 \<le> h" "j \<in> C" by simp_all
    have "j \<noteq> i" using a l(14,15) [OF rj] r by (auto split: if_splits)
    with l(17) [OF rj] show "j \<notin> insert i Rm" by simp
  next
    fix j assume j: "j \<in># A" "0 \<le> hf j"
    with assms(3) l(5) show "j \<notin> insert i Rm" by auto
    from l(4) [OF j] show "?reg (hf j) \<noteq> Some j" by (auto split: if_splits)
  next
    fix j k assume "j \<in> C" "k \<in> C" "hf j = hf k" "0 \<le> hf j"
    then show "j = k \<or> j \<in> insert i Rm \<or> k \<in> insert i Rm" using l(13) by blast
  qed (use i in \<open>auto dest: l(3,6-8,10-12) simp: l(1) inR\<close>)
qed


subsection \<open>The invariant of the event loop\<close>

fun resume :: "pc \<Rightarrow> pc" where
  "resume (Calling i m q) = q"
| "resume q = q"

abbreviation wakes :: "fd \<Rightarrow> batch \<Rightarrow> bool" where
  "wakes w b \<equiv> w \<in> fst ` set b"

text \<open>The loop thread has still to take the queue of additions, removals, ready events in this pass.\<close>

fun before_adds :: "fd \<Rightarrow> pc \<Rightarrow> bool" where
  "before_adds w (Batch b) = wakes w b"
| "before_adds w (Reading b) = True"
| "before_adds w (Take_adds b) = True"
| "before_adds w (Adding is b) = wakes w b"
| "before_adds w (Take_removes b) = wakes w b"
| "before_adds w (Removing is b) = wakes w b"
| "before_adds w (Take_readies b) = wakes w b"
| "before_adds w (Readying xs b) = wakes w b"
| "before_adds w (Calling i m q) = before_adds w q"
| "before_adds w _ = False"

fun before_removes :: "fd \<Rightarrow> pc \<Rightarrow> bool" where
  "before_removes w (Adding is b) = True"
| "before_removes w (Take_removes b) = True"
| "before_removes w (Calling i m q) = before_removes w q"
| "before_removes w q = before_adds w q"

fun before_readies :: "fd \<Rightarrow> pc \<Rightarrow> bool" where
  "before_readies w (Removing is b) = True"
| "before_readies w (Take_readies b) = True"
| "before_readies w (Calling i m q) = before_readies w q"
| "before_readies w q = before_removes w q"

definition calls_of :: "nat \<Rightarrow> lobs list \<Rightarrow> nat" where
  "calls_of i xs = length (List.filter (\<lambda>x. case x of L_call j m \<Rightarrow> j = i | L_removed j \<Rightarrow> False) xs)"

text \<open>No call of a handler after the removal of its event.\<close>

fun quiet_after :: "(nat \<Rightarrow> fd) \<Rightarrow> lobs list \<Rightarrow> bool" where
  "quiet_after hf [] = True"
| "quiet_after hf (L_removed i # xs) = ((0 \<le> hf i \<longrightarrow> calls_of i xs = 0) \<and> quiet_after hf xs)"
| "quiet_after hf (L_call i m # xs) = quiet_after hf xs"

definition lives :: "'k env \<Rightarrow> 'k loop \<Rightarrow> bool" where
  "lives E s \<longleftrightarrow> life (en_handle E) (en_wake_fd E) (incoming s) (outgoing s) (registered (ep s))
     (set (created s)) (set (closed s)) {i. removed s i}"

definition table_ok :: "'k env \<Rightarrow> 'k loop \<Rightarrow> bool" where
  "table_ok E s \<longleftrightarrow> (\<forall>h. obs_watch (en_calls E) (ep_kernel (ep s)) h \<noteq> None \<longleftrightarrow>
     h = en_wake_fd E \<or> registered (ep s) h \<noteq> None)"

definition books_ok :: "'k loop \<Rightarrow> bool" where
  "books_ok s \<longleftrightarrow> set (el_events s) = set (created s) - set (closed s) \<and> \<not> lock_held s
     \<and> (\<forall>is. resume (pc s) = Closing is \<longrightarrow> set is \<subseteq> set (created s)) \<and> (\<forall>x. resume (pc s) \<noteq> Dead x)"

definition attended :: "'k env \<Rightarrow> 'k loop \<Rightarrow> bool" where
  "attended E s \<longleftrightarrow>
     (pending_add (ep s) \<noteq> [] \<longrightarrow> ep_due (en_calls E) (ep s) \<or> before_adds (en_wake_fd E) (pc s))
   \<and> (pending_remove (ep s) \<noteq> [] \<longrightarrow> ep_due (en_calls E) (ep s) \<or> before_removes (en_wake_fd E) (pc s))
   \<and> (pending_ready (ep s) \<noteq> [] \<longrightarrow> ep_due (en_calls E) (ep s) \<or> before_readies (en_wake_fd E) (pc s))"

definition calls_ok :: "'k env \<Rightarrow> 'k loop \<Rightarrow> bool" where
  "calls_ok E s \<longleftrightarrow>
     quiet_after (en_handle E) (history s)
   \<and> (\<forall>i. en_handle E i < 0 \<longrightarrow> calls_of i (history s) + count (incoming s) i \<le> 1)
   \<and> (\<forall>i. 0 < calls_of i (history s) \<longrightarrow> i \<in> set (created s))
   \<and> (\<forall>i. calling (pc s) = Some i \<longrightarrow> 0 < calls_of i (history s)
        \<and> (0 \<le> en_handle E i \<longrightarrow> registered (ep s) (en_handle E i) = Some i)
        \<and> (en_kind E i = Execute \<longrightarrow> i \<in> set (internal s)))
   \<and> (calling (pc s) \<noteq> None \<longrightarrow> calling (resume (pc s)) = None \<and> running (go (resume (pc s)) s))"

definition intern_ok :: "'k env \<Rightarrow> 'k loop \<Rightarrow> bool" where
  "intern_ok E s \<longleftrightarrow>
     (\<forall>i. i \<in># incoming s \<longrightarrow> en_kind E i \<noteq> User \<longrightarrow> i \<in> set (internal s))
   \<and> (\<forall>i \<in> set (created s). en_kind E i = Execute \<longrightarrow> en_handle E i < 0)
   \<and> set (internal s) \<inter> set (gone s) = {}"

definition loop_inv :: "'k env \<Rightarrow> 'k loop \<Rightarrow> bool" where
  "loop_inv E s \<longleftrightarrow> lives E s \<and> table_ok E s \<and> books_ok s \<and> attended E s \<and> calls_ok E s \<and> intern_ok E s"

lemma loop_invD:
  assumes "loop_inv E s"
  shows "lives E s" "table_ok E s" "books_ok s" "attended E s" "calls_ok E s" "intern_ok E s"
  using assms by (simp_all add: loop_inv_def)

text \<open>What each part depends on.\<close>

lemma lives_cong:
  "lives E s \<Longrightarrow> incoming t = incoming s \<Longrightarrow> outgoing t = outgoing s \<Longrightarrow> registered (ep t) = registered (ep s) \<Longrightarrow>
   set (created t) = set (created s) \<Longrightarrow> set (closed t) = set (closed s) \<Longrightarrow>
   (\<And>i. removed t i \<longleftrightarrow> removed s i) \<Longrightarrow> lives E t"
  by (simp add: lives_def)

lemma table_cong:
  "table_ok E s \<Longrightarrow> registered (ep t) = registered (ep s) \<Longrightarrow>
   (\<And>h. obs_watch (en_calls E) (ep_kernel (ep t)) h = None \<longleftrightarrow> obs_watch (en_calls E) (ep_kernel (ep s)) h = None) \<Longrightarrow>
   table_ok E t"
  by (simp add: table_ok_def)

lemma calls_cong:
  "calls_ok E s \<Longrightarrow> history t = history s \<Longrightarrow> incoming t = incoming s \<Longrightarrow> set (created s) \<subseteq> set (created t) \<Longrightarrow>
   pc t = pc s \<Longrightarrow> registered (ep t) = registered (ep s) \<Longrightarrow> set (internal s) \<subseteq> set (internal t) \<Longrightarrow> calls_ok E t"
  unfolding calls_ok_def running_def go_def by (auto simp: subset_iff)

lemma intern_cong:
  "intern_ok E s \<Longrightarrow> incoming t = incoming s \<Longrightarrow> set (created t) = set (created s) \<Longrightarrow>
   internal t = internal s \<Longrightarrow> gone t = gone s \<Longrightarrow> intern_ok E t"
  by (simp add: intern_ok_def)

lemma books_cong:
  "books_ok s \<Longrightarrow> el_events t = el_events s \<Longrightarrow> created t = created s \<Longrightarrow> closed t = closed s \<Longrightarrow>
   lock_held t = lock_held s \<Longrightarrow> pc t = pc s \<Longrightarrow> books_ok t"
  by (simp add: books_ok_def)

text \<open>Calls that only touch the wakeups of the kernel, or nothing of the above.\<close>

lemma loop_inv_quiet:
  assumes "loop_inv E s" and "pc t = pc s" and "attaching t = attaching s" and "created t = created s"
    and "closed t = closed s" and "el_events t = el_events s" and "internal t = internal s"
    and "lock_held t = lock_held s" and "history t = history s"
    and "set (internal s) \<inter> set (gone t) = {}"
    and "pending_add (ep t) = pending_add (ep s)" and "pending_remove (ep t) = pending_remove (ep s)"
    and "registered (ep t) = registered (ep s)"
    and "\<And>h. obs_watch (en_calls E) (ep_kernel (ep t)) h = None \<longleftrightarrow> obs_watch (en_calls E) (ep_kernel (ep s)) h = None"
    and "ep_due (en_calls E) (ep s) \<Longrightarrow> ep_due (en_calls E) (ep t)"
    and "pending_ready (ep t) = pending_ready (ep s) \<or> ep_due (en_calls E) (ep t) \<or> pending_ready (ep s) \<noteq> []"
    and "detaching t = detaching s"
  shows "loop_inv E t"
proof -
  note i = loop_invD [OF assms(1)]
  have io: "incoming t = incoming s" "outgoing t = outgoing s"
    using assms(2,3,11,12,17) by (simp_all add: incoming_def outgoing_def)
  have "lives E t" by (rule lives_cong [OF i(1) io]) (simp_all add: assms removed_def)
  moreover have "table_ok E t" by (rule table_cong [OF i(2) assms(13,14)])
  moreover have "books_ok t" by (rule books_cong [OF i(3)]) (simp_all add: assms)
  moreover have "attended E t"
    using i(4) assms(2,11,12,15,16) by (auto simp: attended_def)
  moreover have "calls_ok E t" by (rule calls_cong [OF i(5)]) (simp_all add: assms io)
  moreover have "intern_ok E t" using i(6) assms(4,7,10) io(1) by (simp add: intern_ok_def)
  ultimately show ?thesis by (simp add: loop_inv_def)
qed

lemma not_held_removed:
  assumes "lives E s" and "j \<in> set (created s)" and "0 \<le> en_handle E j" and "\<not> held E s j"
  shows "removed s j"
  using life_where(2) [OF assms(1) [unfolded lives_def] assms(2,3)] assms(4)
  by (auto simp: held_def incoming_def)

lemma attach_begin_inv:
  assumes "loop_inv E s" and "attach_begin i s = Inr t" and "fresh_handle E i s"
    and "en_kind E i \<noteq> User \<Longrightarrow> i \<in> set (internal s)" and "en_kind E i = Execute \<Longrightarrow> en_handle E i < 0"
  shows "loop_inv E t"
proof -
  note iv = loop_invD [OF assms(1)]
  from assms(2) have new: "i \<notin> set (created s)"
    and t: "t = s\<lparr>el_events := el_events s @ [i], created := created s @ [i], attaching := attaching s @ [i]\<rparr>"
    by (auto simp: attach_begin_def create_event_def Let_def split: if_splits)
  have inc: "incoming t = add_mset i (incoming s)" and out: "outgoing t = outgoing s"
    by (simp_all add: t incoming_def outgoing_def)
  have rm: "removed t j \<longleftrightarrow> removed s j" for j by (simp add: t removed_def)
  have "life (en_handle E) (en_wake_fd E) (add_mset i (incoming s)) (outgoing s) (registered (ep s))
     (insert i (set (created s))) (set (closed s)) {i. removed s i}"
    by (rule life_attach [OF iv(1) [unfolded lives_def] new])
       (use assms(3) not_held_removed [OF iv(1)] in \<open>force simp: fresh_handle_def list_all_iff not_less\<close>)
  then have "lives E t" unfolding lives_def inc out rm by (simp add: t)
  moreover have "table_ok E t" by (rule table_cong [OF iv(2)]) (simp_all add: t)
  moreover have "books_ok t"
    using iv(3) life_sets(1) [OF iv(1) [unfolded lives_def]] new by (auto simp: books_ok_def t)
  moreover have "attended E t" using iv(4) by (simp add: attended_def t)
  moreover have "calls_ok E t"
  proof -
    have pr: "history t = history s" "pc t = pc s" "registered (ep t) = registered (ep s)" "internal t = internal s"
      "created t = created s @ [i]" by (simp_all add: t)
    have "calls_of i (history s) = 0" using iv(5) new by (auto simp: calls_ok_def)
    moreover have "count (incoming s) i = 0"
      using life_in(1) [OF iv(1) [unfolded lives_def], of i] new by (auto simp: count_eq_zero_iff)
    ultimately show ?thesis
      using iv(5) by (auto simp: calls_ok_def inc running_def go_def pr)
  qed
  moreover have "intern_ok E t" using iv(6) assms(4,5) by (auto simp: intern_ok_def inc) (auto simp: t)
  ultimately show ?thesis by (simp add: loop_inv_def)
qed

lemma mset_remove1_add: "i \<in> set xs \<Longrightarrow> add_mset i (mset (remove1 i xs)) = mset xs"
  by simp

lemma attach_end_inv:
  assumes "efd_ok (en_calls E)" and "loop_inv E s" and "attach_end E i s = Inr t" and "i \<in> set (attaching s)"
  shows "loop_inv E t"
proof -
  note iv = loop_invD [OF assms(2)]
  obtain k where
    r: "ep_add (en_calls E) i (ep s) = Inr ((ep s)\<lparr>pending_add := pending_add (ep s) @ [i], ep_kernel := k\<rparr>)"
    and w: "obs_watch (en_calls E) k = obs_watch (en_calls E) (ep_kernel (ep s))"
    and d: "obs_due (en_calls E) k \<longleftrightarrow> pending_add (ep s) = [] \<or> ep_due (en_calls E) (ep s)"
    using ep_add_cases [OF assms(1), of i "ep s"] by blast
  have t: "t = s\<lparr>attaching := remove1 i (attaching s), ep := (ep s)\<lparr>pending_add := pending_add (ep s) @ [i], ep_kernel := k\<rparr>\<rparr>"
    using assms(3) r by (simp add: attach_end_def on_ep_def)
  have io: "incoming t = incoming s" "outgoing t = outgoing s"
    using assms(4) by (simp_all add: t incoming_def outgoing_def union_assoc [symmetric] insert_DiffM)
  have "lives E t" by (rule lives_cong [OF iv(1) io]) (simp_all add: t removed_def)
  moreover have "table_ok E t" by (rule table_cong [OF iv(2)]) (simp_all add: t w)
  moreover have "books_ok t" by (rule books_cong [OF iv(3)]) (simp_all add: t)
  moreover have "attended E t" using iv(4) d by (auto simp: attended_def t)
  moreover have "calls_ok E t" by (rule calls_cong [OF iv(5) _ io(1)]) (simp_all add: t)
  moreover have "intern_ok E t" by (rule intern_cong [OF iv(6) io(1)]) (simp_all add: t)
  ultimately show ?thesis by (simp add: loop_inv_def)
qed

lemma event_close_inv:
  assumes "efd_ok (en_calls E)" and "loop_inv E s" and "i \<in> set (created s)"
  shows "\<exists>t. event_close E i s = Inr t \<and> loop_inv E t \<and> pc t = pc s \<and> internal t = internal s
     \<and> gone t = gone s \<and> history t = history s \<and> created t = created s \<and> incoming t = incoming s
     \<and> registered (ep t) = registered (ep s)"
proof (cases "i \<in> set (closed s)")
  case True
  with assms(2) show ?thesis by (simp add: event_close_def)
next
  case False
  note iv = loop_invD [OF assms(2)]
  have ev: "i \<in> set (el_events s)" using iv(3) assms(3) False by (auto simp: books_ok_def)
  obtain k where
    r: "ep_remove (en_calls E) i (ep s) = Inr ((ep s)\<lparr>pending_remove := pending_remove (ep s) @ [i], ep_kernel := k\<rparr>)"
    and w: "obs_watch (en_calls E) k = obs_watch (en_calls E) (ep_kernel (ep s))"
    and d: "obs_due (en_calls E) k \<longleftrightarrow> pending_remove (ep s) = [] \<or> ep_due (en_calls E) (ep s)"
    using ep_remove_cases [OF assms(1), of i "ep s"] by blast
  let ?t = "s\<lparr>el_events := removeAll i (el_events s), closed := closed s @ [i],
      ep := (ep s)\<lparr>pending_remove := pending_remove (ep s) @ [i], ep_kernel := k\<rparr>\<rparr>"
  have c: "event_close E i s = Inr ?t"
    using False ev r by (simp add: event_close_def el_remove_def on_ep_def)
  have io: "incoming ?t = incoming s" "outgoing ?t = add_mset i (outgoing s)"
    by (simp_all add: incoming_def outgoing_def)
  have rm: "removed ?t = removed s" by (rule ext) (simp add: removed_def)
  have "lives E ?t"
    using life_close [OF iv(1) [unfolded lives_def] assms(3) False]
    unfolding lives_def io rm by simp
  moreover have "table_ok E ?t" by (rule table_cong [OF iv(2)]) (simp_all add: w)
  moreover have "books_ok ?t" using iv(3) by (auto simp: books_ok_def)
  moreover have "attended E ?t" using iv(4) d by (auto simp: attended_def)
  moreover have "calls_ok E ?t" by (rule calls_cong [OF iv(5) _ io(1)]) simp_all
  moreover have "intern_ok E ?t" by (rule intern_cong [OF iv(6) io(1)]) simp_all
  ultimately have "loop_inv E ?t" by (simp add: loop_inv_def)
  with c io(1) show ?thesis by simp
qed


text \<open>The halves of a \<open>Close\<close>, and that one after the other they are the whole.\<close>

lemma close_begin_inv:
  assumes "loop_inv E s" and "i \<in> set (created s)" and "i \<notin> set (closed s)" and "close_begin i s = Inr t"
  shows "loop_inv E t"
proof -
  note iv = loop_invD [OF assms(1)]
  have t: "t = s\<lparr>el_events := removeAll i (el_events s), closed := closed s @ [i], detaching := detaching s @ [i]\<rparr>"
    using assms(3,4) by (auto simp: close_begin_def split: if_splits)
  have io: "incoming t = incoming s" "outgoing t = add_mset i (outgoing s)"
    by (simp_all add: t incoming_def outgoing_def)
  have rm: "removed t = removed s" by (rule ext) (simp add: t removed_def)
  have "lives E t"
    using life_close [OF iv(1) [unfolded lives_def] assms(2,3)] unfolding lives_def io rm by (simp add: t)
  moreover have "table_ok E t" by (rule table_cong [OF iv(2)]) (simp_all add: t)
  moreover have "books_ok t" using iv(3) by (auto simp: books_ok_def t)
  moreover have "attended E t" using iv(4) by (auto simp: attended_def t)
  moreover have "calls_ok E t" by (rule calls_cong [OF iv(5) _ io(1)]) (simp_all add: t)
  moreover have "intern_ok E t" by (rule intern_cong [OF iv(6) io(1)]) (simp_all add: t)
  ultimately show ?thesis by (simp add: loop_inv_def)
qed

lemma close_end_inv:
  assumes "efd_ok (en_calls E)" and "loop_inv E s" and "close_end E i s = Inr t" and "i \<in> set (detaching s)"
  shows "loop_inv E t"
proof -
  note iv = loop_invD [OF assms(2)]
  obtain k where
    r: "ep_remove (en_calls E) i (ep s) = Inr ((ep s)\<lparr>pending_remove := pending_remove (ep s) @ [i], ep_kernel := k\<rparr>)"
    and w: "obs_watch (en_calls E) k = obs_watch (en_calls E) (ep_kernel (ep s))"
    and d: "obs_due (en_calls E) k \<longleftrightarrow> pending_remove (ep s) = [] \<or> ep_due (en_calls E) (ep s)"
    using ep_remove_cases [OF assms(1), of i "ep s"] by blast
  have t: "t = s\<lparr>detaching := remove1 i (detaching s), ep := (ep s)\<lparr>pending_remove := pending_remove (ep s) @ [i], ep_kernel := k\<rparr>\<rparr>"
    using assms(3) r by (simp add: close_end_def on_ep_def)
  have io: "incoming t = incoming s" "outgoing t = outgoing s"
    using assms(4) by (simp_all add: t incoming_def outgoing_def union_assoc [symmetric] insert_DiffM)
  have "lives E t" by (rule lives_cong [OF iv(1) io]) (simp_all add: t removed_def)
  moreover have "table_ok E t" by (rule table_cong [OF iv(2)]) (simp_all add: t w)
  moreover have "books_ok t" by (rule books_cong [OF iv(3)]) (simp_all add: t)
  moreover have "attended E t" using iv(4) d by (auto simp: attended_def t)
  moreover have "calls_ok E t" by (rule calls_cong [OF iv(5) _ io(1)]) (simp_all add: t)
  moreover have "intern_ok E t" by (rule intern_cong [OF iv(6) io(1)]) (simp_all add: t)
  ultimately show ?thesis by (simp add: loop_inv_def)
qed

lemma detaching_closed:
  assumes "loop_inv E s" and "i \<in> set (detaching s)"
  shows "i \<in> set (closed s)" and "i \<in> set (created s)"
  using life_out(1) [OF loop_invD(1) [OF assms(1), unfolded lives_def], of i] assms(2)
    life_sets(1) [OF loop_invD(1) [OF assms(1), unfolded lives_def], of i]
  by (auto simp: outgoing_def)

lemma close_halves:
  assumes "loop_inv E s" and "i \<notin> set (closed s)" and "close_begin i s = Inr u" and "close_end E i u = Inr t"
  shows "event_close E i s = Inr t"
proof -
  have "i \<notin> set (detaching s)" using detaching_closed(1) [OF assms(1)] assms(2) by blast
  with assms(2-4) show ?thesis
    by (auto simp: close_begin_def close_end_def event_close_def el_remove_def on_ep_def remove1_append Let_def split: if_splits sum.splits)
qed

subsection \<open>The other calls\<close>

lemma on_ep_wakeup_inv:
  assumes "efd_ok (en_calls E)" and "loop_inv E s"
  shows "\<exists>t. on_ep (ep_wakeup (en_calls E)) s = Inr t \<and> loop_inv E t \<and> pc t = pc s \<and> gone t = gone s
    \<and> internal t = internal s \<and> incoming t = incoming s \<and> (\<exists>k. t = s\<lparr>ep := (ep s)\<lparr>ep_kernel := k\<rparr>\<rparr>)"
proof -
  from ep_wakeup_cases [OF assms(1), of "ep s"] obtain k where
    k: "ep_wakeup (en_calls E) (ep s) = Inr ((ep s)\<lparr>ep_kernel := k\<rparr>)"
      "obs_watch (en_calls E) k = obs_watch (en_calls E) (ep_kernel (ep s))" "obs_due (en_calls E) k" by blast
  let ?t = "s\<lparr>ep := (ep s)\<lparr>ep_kernel := k\<rparr>\<rparr>"
  have "loop_inv E ?t"
    by (rule loop_inv_quiet [OF assms(2)])
       (use loop_invD(6) [OF assms(2)] k in \<open>simp_all add: intern_ok_def\<close>)
  with k(1) show ?thesis by (intro exI [of _ ?t]) (auto simp: on_ep_def incoming_def)
qed

lemma el_ready_inv:
  assumes "efd_ok (en_calls E)" and "loop_inv E s" and "el_ready E i m s = Inr t"
  shows "loop_inv E t"
proof -
  obtain k where
    r: "ep_ready (en_calls E) (i, m) (ep s) = Inr ((ep s)\<lparr>pending_ready := pending_ready (ep s) @ [(i, m)], ep_kernel := k\<rparr>)"
    and w: "obs_watch (en_calls E) k = obs_watch (en_calls E) (ep_kernel (ep s))"
    and d: "obs_due (en_calls E) k \<longleftrightarrow> pending_ready (ep s) = [] \<or> ep_due (en_calls E) (ep s)"
    using ep_ready_cases [OF assms(1), of "(i, m)" "ep s"] by blast
  have t: "t = s\<lparr>ep := (ep s)\<lparr>pending_ready := pending_ready (ep s) @ [(i, m)], ep_kernel := k\<rparr>\<rparr>"
    using assms(3) r by (simp add: el_ready_def on_ep_def)
  show ?thesis
    by (rule loop_inv_quiet [OF assms(2)])
       (use loop_invD(6) [OF assms(2)] w d in \<open>auto simp: t intern_ok_def\<close>)
qed

lemma el_modify_inv:
  assumes "ctl_ok (en_calls E)" and "loop_inv E s" and "pc s = Calling i m q" and "0 \<le> en_handle E i"
  shows "\<exists>t. el_modify E True i s = Inr t \<and> loop_inv E t"
proof -
  have "registered (ep s) (en_handle E i) = Some i"
    using loop_invD(5) [OF assms(2)] assms(3,4) by (simp add: calls_ok_def)
  then have h: "obs_watch (en_calls E) (ep_kernel (ep s)) (en_handle E i) \<noteq> None"
    using loop_invD(2) [OF assms(2)] by (simp add: table_ok_def)
  let ?x = "epoll_of_events (en_abi E) (event_get_events s i) OR EPOLLET (en_abi E)"
  obtain r k where c: "ec_ctl_mod (en_calls E) (en_handle E i) ?x (ep_kernel (ep s)) = (r, k)" by fastforce
  with assms(1) h have k: "r = None" "obs_due (en_calls E) k = ep_due (en_calls E) (ep s)"
    "obs_watch (en_calls E) k = (obs_watch (en_calls E) (ep_kernel (ep s)))(en_handle E i \<mapsto> ?x)"
    unfolding ctl_ok_def by blast+
  let ?t = "s\<lparr>ep := (ep s)\<lparr>ep_kernel := k\<rparr>\<rparr>"
  have "el_modify E True i s = Inr ?t" using c k(1) by (simp add: el_modify_def on_ep_def ep_modify_def)
  moreover have "loop_inv E ?t"
    by (rule loop_inv_quiet [OF assms(2)])
       (use loop_invD(6) [OF assms(2)] k h in \<open>auto simp: intern_ok_def\<close>)
  ultimately show ?thesis by blast
qed

subsection \<open>The loop thread\<close>

lemma go_simps [simp]:
  "pc (go q s) = q" "ep (go q s) = ep s" "created (go q s) = created s" "closed (go q s) = closed s"
  "history (go q s) = history s" "internal (go q s) = internal s" "gone (go q s) = gone s"
  "el_events (go q s) = el_events s" "lock_held (go q s) = lock_held s" "attaching (go q s) = attaching s" "detaching (go q s) = detaching s"
  "go p (go q s) = go p s"
  by (simp_all add: go_def)

lemma removed_go [simp]: "removed (go q s) = removed s"
  by (rule ext) (simp add: removed_def)

lemma resume_id: "calling q = None \<Longrightarrow> resume q = q"
  by (cases q) simp_all

lemma go_cong:
  assumes "loop_inv E s" and "adding_of q = adding_of (pc s)" and "removing_of q = removing_of (pc s)"
    and "pending_add (ep s) \<noteq> [] \<Longrightarrow> before_adds (en_wake_fd E) (pc s) \<Longrightarrow> before_adds (en_wake_fd E) q"
    and "pending_remove (ep s) \<noteq> [] \<Longrightarrow> before_removes (en_wake_fd E) (pc s) \<Longrightarrow> before_removes (en_wake_fd E) q"
    and "pending_ready (ep s) \<noteq> [] \<Longrightarrow> before_readies (en_wake_fd E) (pc s) \<Longrightarrow> before_readies (en_wake_fd E) q"
    and "calling q = None" and "\<And>is. q = Closing is \<Longrightarrow> set is \<subseteq> set (created s)" and "\<And>x. q \<noteq> Dead x"
  shows "loop_inv E (go q s)"
proof -
  note iv = loop_invD [OF assms(1)]
  have io: "incoming (go q s) = incoming s" "outgoing (go q s) = outgoing s"
    using assms(2,3) by (simp_all add: incoming_def outgoing_def)
  have "lives E (go q s)" by (rule lives_cong [OF iv(1) io]) simp_all
  moreover have "table_ok E (go q s)" by (rule table_cong [OF iv(2)]) simp_all
  moreover have "books_ok (go q s)" using iv(3) assms(8,9) resume_id [OF assms(7)] by (auto simp: books_ok_def)
  moreover have "attended E (go q s)" using iv(4) assms(4-6) by (auto simp: attended_def)
  moreover have "calls_ok E (go q s)" using iv(5) assms(7) by (simp add: calls_ok_def io(1))
  moreover have "intern_ok E (go q s)" by (rule intern_cong [OF iv(6) io(1)]) simp_all
  ultimately show ?thesis by (simp add: loop_inv_def)
qed

lemma calls_of_append [simp]: "calls_of i (xs @ ys) = calls_of i xs + calls_of i ys"
  by (simp add: calls_of_def)

lemma calls_of_single [simp]:
  "calls_of i [L_call j m] = (if i = j then 1 else 0)" "calls_of i [L_removed j] = 0" "calls_of i [] = 0"
  by (simp_all add: calls_of_def)

lemma quiet_after_call:
  "quiet_after hf xs \<Longrightarrow> (0 \<le> hf i \<Longrightarrow> L_removed i \<notin> set xs) \<Longrightarrow> quiet_after hf (xs @ [L_call i m])"
  by (induction hf xs rule: quiet_after.induct) auto

lemma quiet_after_removed: "quiet_after hf xs \<Longrightarrow> quiet_after hf (xs @ [L_removed i])"
  by (induction hf xs rule: quiet_after.induct) auto

text \<open>A call is well placed when going on without it would be, and its event is in the table.\<close>

lemma call_or_inv:
  assumes "loop_inv E (go q s)" and "calling q = None" and "running (go q s)"
    and "\<And>i m. c = Some (i, m) \<Longrightarrow> i \<in> set (created s)
      \<and> (0 \<le> en_handle E i \<longrightarrow> registered (ep s) (en_handle E i) = Some i)
      \<and> (en_handle E i < 0 \<longrightarrow> calls_of i (history s) = 0 \<and> i \<notin># incoming (go q s))
      \<and> (en_kind E i = Execute \<longrightarrow> i \<in> set (internal s))"
  shows "loop_inv E (call_or q c s)"
proof (cases c)
  case None
  with assms(1) show ?thesis by (simp add: call_or_def)
next
  case (Some p)
  obtain i m where p: "p = (i, m)" by (cases p)
  note c = assms(4) [OF Some [unfolded p]]
  note iv = loop_invD [OF assms(1)]
  let ?t = "go (Calling i m q) (s\<lparr>history := history s @ [L_call i m]\<rparr>)"
  have io: "incoming ?t = incoming (go q s)" "outgoing ?t = outgoing (go q s)"
    by (simp_all add: incoming_def outgoing_def go_def)
  have pr: "ep ?t = ep s" "created ?t = created s" "closed ?t = closed s" "el_events ?t = el_events s"
    "internal ?t = internal s" "gone ?t = gone s" "lock_held ?t = lock_held s"
    "history ?t = history s @ [L_call i m]" "pc ?t = Calling i m q" by (simp_all add: go_def)
  have rm: "removed ?t i = removed (go q s) i" for i by (simp add: removed_def pr)
  have "lives E ?t" by (rule lives_cong [OF iv(1) io]) (simp_all del: removed_go add: rm)
  moreover have "table_ok E ?t" by (rule table_cong [OF iv(2)]) (simp_all add: pr)
  moreover have "books_ok ?t" using iv(3) resume_id [OF assms(2)] by (simp add: books_ok_def pr)
  moreover have "attended E ?t" using iv(4) by (simp add: attended_def pr)
  moreover have "calls_ok E ?t"
  proof -
    have "0 \<le> en_handle E i \<Longrightarrow> L_removed i \<notin> set (history s)"
      using life_reg(4) [OF iv(1) [unfolded lives_def], of "en_handle E i" i] c by (simp add: removed_def)
    then have "quiet_after (en_handle E) (history s @ [L_call i m])"
      using iv(5) by (intro quiet_after_call) (simp_all add: calls_ok_def)
    moreover have "running (go q ?t)" using assms(3) by (simp add: running_def)
    ultimately show ?thesis
      using iv(5) c assms(2) by (auto simp: calls_ok_def io pr not_in_iff)
  qed
  moreover have "intern_ok E ?t" by (rule intern_cong [OF iv(6) io(1)]) (simp_all add: pr)
  ultimately show ?thesis using Some p by (simp add: loop_inv_def call_or_def)
qed

lemma resume_inv:
  assumes "loop_inv E s" and "pc s = Calling i m q"
  shows "loop_inv E (go q s)" and "running (go q s)" and "calling q = None"
proof -
  show c: "calling q = None" "running (go q s)"
    using loop_invD(5) [OF assms(1)] assms(2) by (simp_all add: calls_ok_def)
  show "loop_inv E (go q s)"
  proof (rule go_cong [OF assms(1)])
    show "set is \<subseteq> set (created s)" if "q = Closing is" for "is"
      using loop_invD(3) [OF assms(1)] assms(2) that by (simp add: books_ok_def)
    show "q \<noteq> Dead x" for x using c(2) by (auto simp: running_def)
  qed (simp_all add: assms(2) c)
qed


text \<open>The one way to die: an event is removed that still waits for its addition.\<close>

definition overtaken :: "'k env \<Rightarrow> 'k loop \<Rightarrow> bool" where
  "overtaken E s \<longleftrightarrow> (\<exists>u i. loop_inv E u \<and> s = die (Thrown ''event not found'') u
     \<and> 0 \<le> en_handle E i \<and> i \<in> set (closed u) \<and> i \<in> set (attaching u) \<union> set (pending_add (ep u)))"

lemma overtakenD:
  assumes "overtaken E s"
  shows "pc s = Dead (Thrown ''event not found'')" and "quiet_after (en_handle E) (history s)"
    and "\<exists>i. 0 \<le> en_handle E i \<and> i \<in> set (closed s) \<and> i \<in> set (attaching s) \<union> set (pending_add (ep s))"
    and "en_handle E i < 0 \<Longrightarrow> calls_of i (history s) \<le> 1"
  using assms by (auto simp: overtaken_def die_def dest!: loop_invD(5)) (auto simp: calls_ok_def dest: add_leD1)

lemma step_wait_inv:
  assumes "wait_ok (en_wake_fd E) (en_calls E)" and "loop_inv E s" and "pc s = Waiting"
  shows "loop_inv E (step_wait E s)"
proof -
  obtain r k where w: "ec_wait (en_calls E) max_events (ep_kernel (ep s)) = (r, k)" by fastforce
  with assms(1) obtain b where b: "r = Inr b" "obs_watch (en_calls E) k = obs_watch (en_calls E) (ep_kernel (ep s))"
    "ep_due (en_calls E) (ep s) \<Longrightarrow> wakes (en_wake_fd E) b \<or> obs_due (en_calls E) k"
    unfolding wait_ok_def by blast
  note iv = loop_invD [OF assms(2)]
  let ?t = "go (Batch b) (s\<lparr>ep := (ep s)\<lparr>ep_kernel := k\<rparr>\<rparr>)"
  have io: "incoming ?t = incoming s" "outgoing ?t = outgoing s"
    using assms(3) by (simp_all add: incoming_def outgoing_def go_def)
  have rm: "removed ?t i = removed s i" for i by (simp add: removed_def)
  have "lives E ?t" by (rule lives_cong [OF iv(1) io]) (simp_all del: removed_go add: rm)
  moreover have "table_ok E ?t" by (rule table_cong [OF iv(2)]) (simp_all add: b)
  moreover have "books_ok ?t" using iv(3) by (simp add: books_ok_def)
  moreover have "attended E ?t" using iv(4) assms(3) b(3) by (auto simp: attended_def)
  moreover have "calls_ok E ?t" using iv(5) by (simp add: calls_ok_def io)
  moreover have "intern_ok E ?t" by (rule intern_cong [OF iv(6) io(1)]) simp_all
  ultimately show ?thesis using w b(1) by (simp add: loop_inv_def step_wait_def)
qed

lemma step_read_inv:
  assumes "efd_ok (en_calls E)" and "loop_inv E s" and "pc s = Reading b"
  shows "loop_inv E (step_read E b s)"
proof -
  obtain r k where w: "ec_efd_read (en_calls E) (ep_kernel (ep s)) = (r, k)" by fastforce
  with assms(1) have k: "obs_watch (en_calls E) k = obs_watch (en_calls E) (ep_kernel (ep s))"
    unfolding efd_ok_def by blast
  note iv = loop_invD [OF assms(2)]
  have *: "loop_inv E (go q (s\<lparr>ep := (ep s)\<lparr>ep_kernel := k\<rparr>\<rparr>))" if "q = Reading b \<or> q = Take_adds b" for q
  proof -
    let ?t = "go q (s\<lparr>ep := (ep s)\<lparr>ep_kernel := k\<rparr>\<rparr>)"
    have io: "incoming ?t = incoming s" "outgoing ?t = outgoing s"
      using assms(3) that by (auto simp: incoming_def outgoing_def go_def)
    have rm: "removed ?t i = removed s i" for i by (simp add: removed_def)
    have "lives E ?t" by (rule lives_cong [OF iv(1) io]) (simp_all del: removed_go add: rm)
    moreover have "table_ok E ?t" by (rule table_cong [OF iv(2)]) (simp_all add: k)
    moreover have "books_ok ?t" using iv(3) that by (auto simp: books_ok_def)
    moreover have "attended E ?t" using that by (auto simp: attended_def)
    moreover have "calls_ok E ?t" using iv(5) that by (auto simp: calls_ok_def io)
    moreover have "intern_ok E ?t" by (rule intern_cong [OF iv(6) io(1)]) simp_all
    ultimately show ?thesis by (simp add: loop_inv_def)
  qed
  show ?thesis using w by (simp add: step_read_def *)
qed

text \<open>Taking a queue: what was queued is now in the loop thread's hands.\<close>

lemma take_inv:
  assumes "loop_inv E s" and "incoming t = incoming s" and "outgoing t = outgoing s"
    and "registered (ep t) = registered (ep s)" and "ep_kernel (ep t) = ep_kernel (ep s)"
    and "created t = created s" and "closed t = closed s" and "el_events t = el_events s"
    and "internal t = internal s" and "gone t = gone s" and "lock_held t = lock_held s" and "history t = history s"
    and "attended E t" and "calling (pc t) = None" and "\<And>is. pc t \<noteq> Closing is" and "\<And>x. pc t \<noteq> Dead x"
  shows "loop_inv E t"
proof -
  note iv = loop_invD [OF assms(1)]
  have "lives E t" by (rule lives_cong [OF iv(1)]) (simp_all add: assms removed_def)
  moreover have "table_ok E t" by (rule table_cong [OF iv(2)]) (simp_all add: assms)
  moreover have "books_ok t" using iv(3) assms(15,16) resume_id [OF assms(14)] by (simp add: books_ok_def assms)
  moreover have "calls_ok E t" using iv(5) assms(14) by (simp add: calls_ok_def assms)
  moreover have "intern_ok E t" by (rule intern_cong [OF iv(6)]) (simp_all add: assms)
  ultimately show ?thesis using assms(13) by (simp add: loop_inv_def)
qed

lemma step_add_inv:
  assumes "ctl_ok (en_calls E)" and "loop_inv E s" and "pc s = Adding (i # is) b"
  shows "loop_inv E (step_add E i (Adding is b) s)"
proof -
  note iv = loop_invD [OF assms(2)]
  note lf = iv(1) [unfolded lives_def]
  have inA: "i \<in># incoming s" using assms(3) by (simp add: incoming_def)
  have rest: "incoming (go (Adding is b) u) = incoming s - {#i#}" "outgoing (go (Adding is b) u) = outgoing s"
    if "attaching u = attaching s" "detaching u = detaching s" "pending_add (ep u) = pending_add (ep s)"
      "pending_remove (ep u) = pending_remove (ep s)" for u
    using assms(3) that by (simp_all add: incoming_def outgoing_def)
  have cr: "i \<in> set (created s)" using life_in(1) [OF lf inA] .
  have cok: "calls_ok E (go (Adding is b) u)"
    if "incoming (go (Adding is b) u) = incoming s - {#i#}" "history u = history s" "created u = created s" for u
    using iv(5) that by (auto simp: calls_ok_def intro: le_trans [OF add_left_mono [OF diff_le_self]])
  have iok: "intern_ok E (go (Adding is b) u)"
    if "incoming (go (Adding is b) u) = incoming s - {#i#}" "internal u = internal s" "created u = created s" "gone u = gone s" for u
    using iv(6) that by (auto simp: intern_ok_def dest: in_diffD)
  show ?thesis
  proof (cases "0 \<le> en_handle E i")
    case True
    note act = life_activate [OF lf inA True]
    have nw: "en_handle E i \<noteq> en_wake_fd E" using life_where(1) [OF lf cr True] .
    with act(1) iv(2) have free: "obs_watch (en_calls E) (ep_kernel (ep s)) (en_handle E i) = None"
      unfolding table_ok_def by metis
    let ?m = "EPOLLET (en_abi E) OR epoll_of_events (en_abi E) (event_get_events s i)"
    obtain r k where c: "ec_ctl_add (en_calls E) (en_handle E i) ?m (ep_kernel (ep s)) = (r, k)" by fastforce
    with assms(1) True free have k: "r = None" "obs_due (en_calls E) k = ep_due (en_calls E) (ep s)"
      "obs_watch (en_calls E) k = (obs_watch (en_calls E) (ep_kernel (ep s)))(en_handle E i \<mapsto> ?m)"
      unfolding ctl_ok_def by blast+
    let ?e = "(ep s)\<lparr>registered := (registered (ep s))(en_handle E i \<mapsto> i), ep_kernel := k\<rparr>"
    let ?t = "go (Adding is b) (s\<lparr>ep := ?e\<rparr>)"
    have t: "step_add E i (Adding is b) s = ?t"
      using True c k(1) by (simp add: step_add_def add_finalize_def call_or_def Let_def)
    have io: "incoming ?t = incoming s - {#i#}" "outgoing ?t = outgoing s"
      by (rule rest; simp)+
    have rm: "removed ?t j = removed s j" for j by (simp add: removed_def)
    have "lives E ?t" using act(2) unfolding lives_def io rm by simp
    moreover have "table_ok E ?t" using iv(2) k(3) nw by (auto simp: table_ok_def)
    moreover have "books_ok ?t" using iv(3) by (simp add: books_ok_def)
    moreover have "attended E ?t" using iv(4) assms(3) k(2) by (simp add: attended_def)
    moreover have "calls_ok E ?t" by (rule cok [OF io(1)]) simp_all
    moreover have "intern_ok E ?t" by (rule iok [OF io(1)]) simp_all
    ultimately show ?thesis unfolding t by (simp add: loop_inv_def)
  next
    case False
    let ?t = "go (Adding is b) s"
    have io: "incoming ?t = incoming s - {#i#}" "outgoing ?t = outgoing s" by (rule rest; simp)+
    have "lives E ?t"
      using life_drop [OF lf, of i] False unfolding lives_def io by simp
    moreover have "table_ok E ?t" by (rule table_cong [OF iv(2)]) simp_all
    moreover have "books_ok ?t" using iv(3) by (simp add: books_ok_def)
    moreover have "attended E ?t" using iv(4) assms(3) by (simp add: attended_def)
    moreover have "calls_ok E ?t" by (rule cok [OF io(1)]) simp_all
    moreover have "intern_ok E ?t" by (rule iok [OF io(1)]) simp_all
    ultimately have inv: "loop_inv E ?t" by (simp add: loop_inv_def)
    have "0 < count (incoming s) i" using inA by simp
    moreover have "calls_of i (history s) + count (incoming s) i \<le> 1"
      using iv(5) False by (simp add: calls_ok_def not_le)
    ultimately have n: "calls_of i (history s) = 0" "count (incoming s) i = 1" by linarith+
    have "loop_inv E (call_or (Adding is b) (map_option (Pair i) (if alive s i then Some 0 else None)) s)"
    proof (rule call_or_inv [OF inv])
      show "running ?t" by (simp add: running_def)
    qed (use cr False n iv(6) inA in \<open>auto simp: io intern_ok_def not_in_iff\<close>)
    then show ?thesis using False by (simp add: step_add_def add_finalize_def)
  qed
qed


lemma removed_inv:
  assumes "loop_inv E s" and "pc s = Removing (i # is) b" and "en_handle E i < 0 \<or> i \<notin># incoming s"
    and e: "pending_add e = pending_add (ep s)" "pending_remove e = pending_remove (ep s)" "pending_ready e = pending_ready (ep s)"
      "registered e = (if en_handle E i < 0 then registered (ep s) else (registered (ep s))(en_handle E i := None))"
      "obs_due (en_calls E) (ep_kernel e) = ep_due (en_calls E) (ep s)"
      "obs_watch (en_calls E) (ep_kernel e) = (if en_handle E i < 0 then obs_watch (en_calls E) (ep_kernel (ep s))
         else (obs_watch (en_calls E) (ep_kernel (ep s)))(en_handle E i := None))"
    and t: "t = go (Removing is b) (s\<lparr>ep := e, history := history s @ [L_removed i]\<rparr>)"
  shows "loop_inv E t"
proof -
  note iv = loop_invD [OF assms(1)]
  note lf = iv(1) [unfolded lives_def]
  have inR: "i \<in># outgoing s" using assms(2) by (simp add: outgoing_def)
  have cr: "i \<in> set (created s)" using life_out(1) [OF lf inR] life_sets(1) [OF lf] by blast
  note rem = life_remove(2) [OF lf inR assms(3)]
  have pr: "ep t = e" "created t = created s" "closed t = closed s" "internal t = internal s" "gone t = gone s"
    "history t = history s @ [L_removed i]" "pc t = Removing is b" "el_events t = el_events s"
    "lock_held t = lock_held s" "attaching t = attaching s" "detaching t = detaching s" by (simp_all add: t)
  have io: "incoming t = incoming s" "outgoing t = outgoing s - {#i#}"
    using assms(2) by (simp_all add: incoming_def outgoing_def pr e)
  have rm: "{j. removed t j} = insert i {j. removed s j}" by (auto simp: removed_def pr)
  have nw: "0 \<le> en_handle E i \<Longrightarrow> en_handle E i \<noteq> en_wake_fd E" using life_where(1) [OF lf cr] .
  have "lives E t" using rem unfolding lives_def io rm by (simp add: pr e)
  moreover have "table_ok E t" using iv(2) nw by (auto simp: table_ok_def pr e)
  moreover have "books_ok t" using iv(3) by (simp add: books_ok_def pr)
  moreover have "attended E t" using iv(4) assms(2) by (simp add: attended_def pr e)
  moreover have "calls_ok E t" using iv(5) by (auto simp: calls_ok_def pr io intro: quiet_after_removed)
  moreover have "intern_ok E t" by (rule intern_cong [OF iv(6) io(1)]) (simp_all add: pr)
  ultimately show ?thesis by (simp add: loop_inv_def)
qed

text \<open>The removal of an event that still waits for its addition.\<close>

lemma removing_early:
  assumes "loop_inv E s" and "pc s = Removing (i # is) b" and "0 \<le> en_handle E i" and "i \<in># incoming s"
  shows "registered (ep s) (en_handle E i) = None" and "i \<in> set (closed s)"
    and "i \<in> set (attaching s) \<union> set (pending_add (ep s))"
proof -
  note lf = loop_invD(1) [OF assms(1), unfolded lives_def]
  have inR: "i \<in># outgoing s" using assms(2) by (simp add: outgoing_def)
  have cl: "i \<in> set (closed s)" "\<not> removed s i" "i \<in> set (created s)"
    using life_out [OF lf inR] life_sets(1) [OF lf] by auto
  show "registered (ep s) (en_handle E i) = None"
  proof (rule ccontr)
    assume "registered (ep s) (en_handle E i) \<noteq> None"
    then obtain j where j: "registered (ep s) (en_handle E i) = Some j" by auto
    from life_unique [OF lf cl(3) life_reg(3) [OF lf j] life_reg(1) [OF lf j, symmetric] assms(3)]
      cl(2) life_reg(4) [OF lf j] have "i = j" by simp
    with j life_in(2) [OF lf assms(4,3)] show False by simp
  qed
  show "i \<in> set (closed s)" by (rule cl(1))
  show "i \<in> set (attaching s) \<union> set (pending_add (ep s))" using assms(2,4) by (simp add: incoming_def)
qed

text \<open>The removal of any other event.\<close>

lemma step_remove_inv:
  assumes "ctl_ok (en_calls E)" and "loop_inv E s" and "pc s = Removing (i # is) b"
    and "0 \<le> en_handle E i \<Longrightarrow> i \<notin># incoming s"
  shows "loop_inv E (step_remove E i (Removing is b) s)"
proof -
  note iv = loop_invD [OF assms(2)]
  note lf = iv(1) [unfolded lives_def]
  have inR: "i \<in># outgoing s" using assms(3) by (simp add: outgoing_def)
  consider (none) "en_handle E i < 0" | (listed) "0 \<le> en_handle E i" "i \<notin># incoming s" using assms(4) by fastforce
  then show ?thesis
  proof cases
    case none
    then show ?thesis
      using removed_inv [OF assms(2,3) disjI1 [OF none], of "ep s"]
      by (simp add: step_remove_def remove_finalize_def)
  next
    case listed
    have "registered (ep s) (en_handle E i) = Some i"
      using life_remove(1) [OF lf inR disjI2 [OF listed(2)]] listed(1) by simp
    moreover from this have "obs_watch (en_calls E) (ep_kernel (ep s)) (en_handle E i) \<noteq> None"
      using iv(2) by (simp add: table_ok_def)
    moreover obtain r k where c: "ec_ctl_del (en_calls E) (en_handle E i) (ep_kernel (ep s)) = (r, k)" by fastforce
    ultimately have k: "r = None" "obs_due (en_calls E) k = ep_due (en_calls E) (ep s)"
      "obs_watch (en_calls E) k = (obs_watch (en_calls E) (ep_kernel (ep s)))(en_handle E i := None)"
      using assms(1) unfolding ctl_ok_def by blast+
    let ?e = "(ep s)\<lparr>registered := (registered (ep s))(en_handle E i := None), ep_kernel := k\<rparr>"
    have "step_remove E i (Removing is b) s = go (Removing is b) (s\<lparr>ep := ?e, history := history s @ [L_removed i]\<rparr>)"
      using listed(1) \<open>registered (ep s) (en_handle E i) = Some i\<close> c k(1)
      by (simp add: step_remove_def remove_finalize_def Let_def)
    moreover have "loop_inv E (go (Removing is b) (s\<lparr>ep := ?e, history := history s @ [L_removed i]\<rparr>))"
      by (rule removed_inv [OF assms(2,3) disjI2 [OF listed(2)], of ?e]) (use listed(1) k in simp_all)
    ultimately show ?thesis by simp
  qed
qed

lemma finish_inv:
  assumes "efd_ok (en_calls E)" and "loop_inv E s" and "pc s = Calling i m q" and "en_kind E i = Execute"
  shows "loop_inv E (finish_res q (execute_finish E i s))"
proof -
  note iv = loop_invD [OF assms(2)]
  from iv(5) assms(3,4) have c: "i \<in> set (internal s)" "i \<in> set (created s)" "0 < calls_of i (history s)"
    by (simp_all add: calls_ok_def)
  have neg: "en_handle E i < 0" using iv(6) c(2) assms(4) by (simp add: intern_ok_def)
  with iv(5) have "calls_of i (history s) + count (incoming s) i \<le> 1" by (simp add: calls_ok_def)
  with c(3) have out: "i \<notin># incoming s" by (simp add: not_in_iff)
  from event_close_inv [OF assms(1,2) c(2)] obtain t where
    t: "event_close E i s = Inr t" "loop_inv E t" "pc t = pc s" "internal t = internal s" "gone t = gone s"
      "incoming t = incoming s" by blast
  have al: "i \<notin> set (gone s)" using c(1) iv(6) by (auto simp: intern_ok_def)
  let ?u = "t\<lparr>internal := removeAll i (internal t)\<rparr>"
  have f: "execute_finish E i s = Inr ?u"
    using t(1,4,5) al c(1) by (simp add: execute_finish_def remove_internal_def)
  from resume_inv [OF t(2), of i m q] t(3) assms(3)
  have g: "loop_inv E (go q t)" "running (go q t)" "calling q = None" by simp_all
  note gv = loop_invD [OF g(1)]
  have inc: "incoming (go q ?u) = incoming (go q t)" "outgoing (go q ?u) = outgoing (go q t)"
    "incoming (go q t) = incoming s"
    using t(3,6) assms(3) by (simp_all add: incoming_def outgoing_def)
  have rm: "removed ?u j = removed t j" for j by (simp add: removed_def)
  have "lives E (go q ?u)" by (rule lives_cong [OF gv(1) inc(1,2)]) (simp_all add: rm)
  moreover have "table_ok E (go q ?u)" by (rule table_cong [OF gv(2)]) simp_all
  moreover have "books_ok (go q ?u)" using gv(3) by (simp add: books_ok_def)
  moreover have "attended E (go q ?u)" using gv(4) by (simp add: attended_def)
  moreover have "calls_ok E (go q ?u)" using gv(5) g(3) by (simp add: calls_ok_def inc)
  moreover have "intern_ok E (go q ?u)" using gv(6) out by (auto simp: intern_ok_def inc)
  ultimately have "loop_inv E (go q ?u)" by (simp add: loop_inv_def)
  with f show ?thesis by (simp add: finish_res_def)
qed


lemma take_adds_inv:
  assumes "loop_inv E s" and "pc s = Take_adds b"
  shows "loop_inv E (take_adds b s)"
  by (rule take_inv [OF assms(1)])
     (use assms(2) loop_invD(4) [OF assms(1)] in
       \<open>simp_all add: take_adds_def incoming_def outgoing_def attended_def add.assoc\<close>)

lemma take_removes_inv:
  assumes "loop_inv E s" and "pc s = Take_removes b"
  shows "loop_inv E (take_removes b s)"
  by (rule take_inv [OF assms(1)])
     (use assms(2) loop_invD(4) [OF assms(1)] in
       \<open>simp_all add: take_removes_def incoming_def outgoing_def attended_def add.assoc\<close>)

lemma take_readies_inv:
  assumes "loop_inv E s" and "pc s = Take_readies b"
  shows "loop_inv E (take_readies b s)"
  by (rule take_inv [OF assms(1)])
     (use assms(2) loop_invD(4) [OF assms(1)] in
       \<open>simp_all add: take_readies_def incoming_def outgoing_def attended_def add.assoc\<close>)

text \<open>A handler that the table leads to may be called.\<close>

lemma table_call:
  assumes "loop_inv E s" and "registered (ep s) h = Some i"
  shows "i \<in> set (created s) \<and> (0 \<le> en_handle E i \<longrightarrow> registered (ep s) (en_handle E i) = Some i)
      \<and> (en_handle E i < 0 \<longrightarrow> P) \<and> (en_kind E i = Execute \<longrightarrow> Q)"
proof -
  note lf = loop_invD(1) [OF assms(1), unfolded lives_def]
  note r = life_reg [OF lf assms(2)]
  have "en_kind E i \<noteq> Execute"
    using loop_invD(6) [OF assms(1)] r(1-3) by (auto simp: intern_ok_def)
  with r assms(2) show ?thesis by simp
qed

lemma step_entry_inv:
  assumes "loop_inv E s" and "pc s = Batch (x # b)"
  shows "loop_inv E (step_entry E x b s)"
proof (cases "fst x = en_wake_fd E")
  case True
  have "loop_inv E (go (Reading b) s)"
    by (rule go_cong [OF assms(1)]) (simp_all add: assms(2))
  with True show ?thesis by (simp add: step_entry_def)
next
  case False
  have g: "loop_inv E (go (Batch b) s)"
    by (rule go_cong [OF assms(1)]) (use False in \<open>auto simp: assms(2)\<close>)
  have "loop_inv E (call_or (Batch b) (dispatch (en_abi E) (alive s) x (ep s)) s)"
  proof (rule call_or_inv [OF g])
    fix i m assume "dispatch (en_abi E) (alive s) x (ep s) = Some (i, m)"
    then have "registered (ep s) (fst x) = Some i" by (auto simp: dispatch_def split: option.splits if_splits)
    then show "i \<in> set (created s) \<and> (0 \<le> en_handle E i \<longrightarrow> registered (ep s) (en_handle E i) = Some i)
      \<and> (en_handle E i < 0 \<longrightarrow> calls_of i (history s) = 0 \<and> i \<notin># incoming (go (Batch b) s))
      \<and> (en_kind E i = Execute \<longrightarrow> i \<in> set (internal s))" by (rule table_call [OF assms(1)])
  qed (simp_all add: running_def)
  with False show ?thesis by (simp add: step_entry_def)
qed

lemma step_ready_inv:
  assumes "loop_inv E s" and "pc s = Readying (x # xs) b"
  shows "loop_inv E (step_ready E x (Readying xs b) s)"
  unfolding step_ready_def
proof (rule call_or_inv)
  show "loop_inv E (go (Readying xs b) s)" by (rule go_cong [OF assms(1)]) (simp_all add: assms(2))
next
  fix i m assume "map_option (Pair (fst x)) (ready_finalize (en_handle E (fst x)) (alive s (fst x)) x (ep s)) = Some (i, m)"
  then have "registered (ep s) (en_handle E (fst x)) = Some i"
    by (auto simp: ready_finalize_def split: if_splits)
  then show "i \<in> set (created s) \<and> (0 \<le> en_handle E i \<longrightarrow> registered (ep s) (en_handle E i) = Some i)
      \<and> (en_handle E i < 0 \<longrightarrow> calls_of i (history s) = 0 \<and> i \<notin># incoming (go (Readying xs b) s))
      \<and> (en_kind E i = Execute \<longrightarrow> i \<in> set (internal s))" by (rule table_call [OF assms(1)])
qed (simp_all add: running_def)

lemma step_return_inv:
  assumes "efd_ok (en_calls E)" and "loop_inv E s" and "pc s = Calling i m q"
  shows "loop_inv E (step_return E i q s)"
  using finish_inv [OF assms] resume_inv(1) [OF assms(2,3)] by (simp add: step_return_def)

lemma run_check_inv:
  assumes "loop_inv E s" and "pc s = Checking"
  shows "loop_inv E (run_check s)"
  unfolding run_check_def
  by (rule go_cong [OF assms(1)])
     (use loop_invD(3) [OF assms(1)] in \<open>auto simp: assms(2) books_ok_def split: if_splits\<close>)

lemma run_close_inv:
  assumes "efd_ok (en_calls E)" and "loop_inv E s" and "pc s = Closing is"
  shows "loop_inv E (run_close E is s)"
proof (cases "is")
  case Nil
  from on_ep_wakeup_inv [OF assms(1,2)] obtain t where
    t: "on_ep (ep_wakeup (en_calls E)) s = Inr t" "loop_inv E t" "pc t = pc s" by blast
  have f: "loop_inv E (t\<lparr>final_pass := True\<rparr>)"
    by (rule loop_inv_quiet [OF t(2)]) (use loop_invD(6) [OF t(2)] in \<open>simp_all add: intern_ok_def\<close>)
  have "loop_inv E (go Waiting (t\<lparr>final_pass := True\<rparr>))"
    by (rule go_cong [OF f]) (simp_all add: t(3) assms(3) Nil)
  with t(1) Nil show ?thesis by simp
next
  case (Cons i js)
  have js: "i \<in> set (created s)" "set js \<subseteq> set (created s)"
    using loop_invD(3) [OF assms(2)] assms(3) Cons by (auto simp: books_ok_def)
  from event_close_inv [OF assms(1,2) js(1)] obtain t where
    t: "event_close E i s = Inr t" "loop_inv E t" "pc t = pc s" "created t = created s" by blast
  have "loop_inv E (go (Closing js) t)"
    by (rule go_cong [OF t(2)]) (use js in \<open>simp_all add: t assms(3) Cons\<close>)
  with t(1) Cons assms(2) show ?thesis by (simp add: finish_res_def)
qed

lemma loop_step_kept:
  assumes "epoll_ok (en_wake_fd E) (en_calls E)" and "loop_inv E s"
    and "\<And>i is b. pc s = Removing (i # is) b \<Longrightarrow> 0 \<le> en_handle E i \<Longrightarrow> i \<notin># incoming s"
  shows "loop_inv E (loop_step E s)"
proof -
  have ok: "wait_ok (en_wake_fd E) (en_calls E)" "ctl_ok (en_calls E)" "efd_ok (en_calls E)"
    using assms(1) by (simp_all add: epoll_ok_def)
  note iv = assms(2)
  have go: "loop_inv E (go q s)"
    if "pc s = Batch [] \<and> q \<in> {Finished, Checking} \<or> pc s = Adding [] b \<and> q = Take_removes b
      \<or> pc s = Removing [] b \<and> q = Take_readies b \<or> pc s = Readying [] b \<and> q = Batch b" for q b
    using that by (elim disjE; intro go_cong [OF iv]) auto
  show ?thesis
  proof (cases "pc s")
    case (Batch b)
    then show ?thesis using go [of "if final_pass s then Finished else Checking"] step_entry_inv [OF iv]
      by (cases b) (simp_all add: loop_step_def)
  next
    case (Adding js b)
    then show ?thesis using go [of "Take_removes b"] step_add_inv [OF ok(2) iv]
      by (cases js) (simp_all add: loop_step_def)
  next
    case (Removing js b)
    then show ?thesis using go [of "Take_readies b"] step_remove_inv [OF ok(2) iv] assms(3)
      by (cases js) (simp_all add: loop_step_def)
  next
    case (Readying xs b)
    then show ?thesis using go [of "Batch b"] step_ready_inv [OF iv]
      by (cases xs) (simp_all add: loop_step_def)
  qed (use iv step_wait_inv [OF ok(1) iv] step_read_inv [OF ok(3) iv] take_adds_inv [OF iv]
      take_removes_inv [OF iv] take_readies_inv [OF iv] step_return_inv [OF ok(3) iv]
      run_check_inv [OF iv] run_close_inv [OF ok(3) iv] in \<open>simp_all add: loop_step_def\<close>)
qed


lemma loop_step_inv:
  assumes "epoll_ok (en_wake_fd E) (en_calls E)" and "loop_inv E s"
  shows "loop_inv E (loop_step E s) \<or> overtaken E (loop_step E s)"
proof (cases "\<exists>i is b. pc s = Removing (i # is) b \<and> 0 \<le> en_handle E i \<and> i \<in># incoming s")
  case False
  then show ?thesis using loop_step_kept [OF assms] by blast
next
  case True
  then obtain i "is" b where p: "pc s = Removing (i # is) b" "0 \<le> en_handle E i" "i \<in># incoming s" by blast
  note e = removing_early [OF assms(2) p]
  from p e(1) have "loop_step E s = die (Thrown ''event not found'') s"
    by (simp add: loop_step_def step_remove_def remove_finalize_def)
  with p(2) e(2,3) assms(2) show ?thesis unfolding overtaken_def by blast
qed

subsection \<open>Removals that do not overtake\<close>

text \<open>The additions of this pass have been taken, the removals have not.\<close>

fun adds_taken :: "pc \<Rightarrow> bool" where
  "adds_taken (Adding is b) = True"
| "adds_taken (Take_removes b) = True"
| "adds_taken (Calling i m q) = adds_taken q"
| "adds_taken _ = False"

text \<open>
  No removal is ahead of its addition: an event whose removal is queued is not in the middle of its
  \<open>Attach\<close>, and is not among the additions that the loop thread takes after the removals only; one
  whose removal the loop thread has in hand is out of the additions.  Events without a descriptor do
  not matter.  It is what a program keeps that closes an event when its \<open>Attach\<close> has returned and
  the loop thread is not between the two queues.
\<close>

definition orderly :: "'k env \<Rightarrow> 'k loop \<Rightarrow> bool" where
  "orderly E s \<longleftrightarrow> (\<forall>i. 0 \<le> en_handle E i \<longrightarrow>
     (i \<in> set (pending_remove (ep s)) \<longrightarrow>
        i \<notin> set (attaching s) \<and> \<not> (i \<in> set (pending_add (ep s)) \<and> adds_taken (pc s)))
   \<and> (i \<in> set (removing_of (pc s)) \<longrightarrow> i \<notin># incoming s))"

subsection \<open>Every reachable state\<close>

lemma internal_insert_inv:
  assumes "loop_inv E s" and "i \<notin> set (gone s)"
  shows "loop_inv E (s\<lparr>internal := List.insert i (internal s)\<rparr>)" (is "loop_inv E ?t")
proof -
  note iv = loop_invD [OF assms(1)]
  have io: "incoming ?t = incoming s" "outgoing ?t = outgoing s" by (simp_all add: incoming_def outgoing_def)
  have "lives E ?t" by (rule lives_cong [OF iv(1) io]) (simp_all add: removed_def)
  moreover have "table_ok E ?t" by (rule table_cong [OF iv(2)]) simp_all
  moreover have "books_ok ?t" by (rule books_cong [OF iv(3)]) simp_all
  moreover have "attended E ?t" using iv(4) by (simp add: attended_def)
  moreover have "calls_ok E ?t" by (rule calls_cong [OF iv(5) _ io(1)]) auto
  moreover have "intern_ok E ?t" using iv(6) assms(2) by (auto simp: intern_ok_def io)
  ultimately show ?thesis by (simp add: loop_inv_def)
qed

lemma attach_internal_inv:
  assumes "loop_inv E s" and "i \<notin> set (gone s)" and "fresh_handle E i s"
    and "en_kind E i = Execute \<longrightarrow> en_handle E i < 0" and "attach_internal_begin i s = Inr t"
  shows "loop_inv E t"
  by (rule attach_begin_inv [OF internal_insert_inv [OF assms(1,2)] assms(5) [unfolded attach_internal_begin_def]])
     (use assms(3,4) in \<open>simp_all add: fresh_handle_def held_def\<close>)

lemma run_step_inv:
  assumes "epoll_ok (en_wake_fd E) (en_calls E)" and "loop_inv E s" and "run_step E s t"
  shows "loop_inv E t \<or> overtaken E t"
proof -
  have ok: "ctl_ok (en_calls E)" "efd_ok (en_calls E)" using assms(1) by (simp_all add: epoll_ok_def)
  note iv = assms(2)
  note quiet = loop_inv_quiet [OF iv]
  have disjoint: "set (internal s) \<inter> set (gone s) = {}" using loop_invD(6) [OF iv] by (simp add: intern_ok_def)
  from assms(3) show ?thesis
  proof cases
    case thread
    then show ?thesis using loop_step_inv [OF assms(1) iv] by simp
  next
    case (user_attach i)
    have "loop_inv E t" by (rule attach_begin_inv [OF iv user_attach(6,5)]) (simp_all add: user_attach(4))
    then show ?thesis ..
  next
    case (internal_attach i)
    then show ?thesis using attach_internal_inv [OF iv] by blast
  next
    case (hand_over i)
    then show ?thesis using attach_end_inv [OF ok(2) iv] by blast
  next
    case (close i)
    then show ?thesis using event_close_inv [OF ok(2) iv, of i] by auto
  next
    case (close_throws i x)
    then show ?thesis using event_close_inv [OF ok(2) iv, of i] by auto
  next
    case (close_begin i)
    then show ?thesis using close_begin_inv [OF iv] by blast
  next
    case (close_end i)
    then show ?thesis using close_end_inv [OF ok(2) iv] by blast
  next
    case (destroy i)
    then show ?thesis using event_close_inv [OF ok(2) iv, of i] iv by (auto simp: handler_dtor_def split: if_splits)
  next
    case (ready i m)
    then show ?thesis using el_ready_inv [OF ok(2) iv] by blast
  next
    case (modify_own i m q)
    then show ?thesis using el_modify_inv [OF ok(1) iv] by fastforce
  next
    case (modify_throws i m q x)
    then show ?thesis using el_modify_inv [OF ok(1) iv] by fastforce
  next
    case (handler_gone i)
    have "loop_inv E t"
      unfolding handler_gone(1) by (rule quiet) (use disjoint handler_gone in auto)
    then show ?thesis ..
  next
    case (wants_change i m)
    have "loop_inv E t" unfolding wants_change(1) by (rule quiet) (use disjoint in auto)
    then show ?thesis ..
  next
    case stop_begin
    have "loop_inv E t" unfolding stop_begin(1) stop_set_def by (rule quiet) (use disjoint in auto)
    then show ?thesis ..
  next
    case stop_end
    have "loop_inv E (s\<lparr>stopping := False\<rparr>)" by (rule quiet) (use disjoint in auto)
    from on_ep_wakeup_inv [OF ok(2) this] stop_end(3) show ?thesis by (auto simp: stop_wake_def)
  next
    case (kernel_move k)
    have "loop_inv E t" unfolding kernel_move(1) by (rule quiet) (use disjoint kernel_move in auto)
    then show ?thesis ..
  qed
qed

lemma overtaken_stuck: "overtaken E s \<Longrightarrow> \<not> run_step E s t"
  by (auto simp: running_def dest!: overtakenD(1) elim: run_step.cases)

definition fresh_start :: "'k env \<Rightarrow> 'k \<Rightarrow> bool" where
  "fresh_start E k \<longleftrightarrow> (\<forall>h. obs_watch (en_calls E) k h \<noteq> None \<longleftrightarrow> h = en_wake_fd E)"

lemma loop_new_inv: "fresh_start E k \<Longrightarrow> loop_inv E (loop_new k)"
  by (auto simp: loop_inv_def lives_def life_def once_def table_ok_def books_ok_def attended_def calls_ok_def
      intern_ok_def loop_new_def ep_new_def incoming_def outgoing_def removed_def fresh_start_def calls_of_def)

lemma run_reach_inv:
  assumes "run_reach E (loop_new k) s" and "epoll_ok (en_wake_fd E) (en_calls E)" and "fresh_start E k"
  shows "loop_inv E s \<or> overtaken E s"
  using assms(1)
proof (induction rule: run_reach.induct)
  case start
  then show ?case using loop_new_inv [OF assms(3)] ..
next
  case (move s t)
  then show ?case using run_step_inv [OF assms(2)] overtaken_stuck by blast
qed

end
