(* ===== verification/Scripted_Loop.thy ===== *)
theory Scripted_Loop
  imports Loop_Invariants
begin

text \<open>
  Runs to evaluate: the moves of \<open>run_step\<close> as data (\<open>perform\<close>, sound for the relation), and an
  epoll kernel that follows a script, as an instance of the parameter that keeps its promises.
\<close>

subsection \<open>Moves as data\<close>

datatype move =
    M_thread
  | M_attach nat
  | M_hand_over nat
  | M_close nat
  | M_close_begin nat
  | M_close_end nat
  | M_ready nat mask
  | M_gone nat
  | M_stop

fun perform :: "'k env \<Rightarrow> move \<Rightarrow> 'k loop \<Rightarrow> 'k loop option" where
  "perform E M_thread s = (if running s \<and> \<not> lock_held s then Some (loop_step E s) else None)"
| "perform E (M_attach i) s =
     (if running s \<and> \<not> lock_held s \<and> alive s i \<and> fresh_handle E i s
         \<and> (en_kind E i = Execute \<longrightarrow> en_handle E i < 0)
      then case (if en_kind E i = User then attach_begin i s else attach_internal_begin i s) of
             Inl x \<Rightarrow> None | Inr t \<Rightarrow> Some t
      else None)"
| "perform E (M_hand_over i) s =
     (if running s \<and> i \<in> set (attaching s)
      then case attach_end E i s of Inl x \<Rightarrow> None | Inr t \<Rightarrow> Some t else None)"
| "perform E (M_close i) s =
     (if running s \<and> \<not> lock_held s \<and> i \<in> set (created s)
      then case event_close E i s of Inl x \<Rightarrow> None | Inr t \<Rightarrow> Some t else None)"
| "perform E (M_close_begin i) s =
     (if running s \<and> \<not> lock_held s \<and> i \<in> set (created s) \<and> i \<notin> set (closed s)
         \<and> en_kind E i \<noteq> Execute
      then case close_begin i s of Inl x \<Rightarrow> None | Inr t \<Rightarrow> Some t else None)"
| "perform E (M_close_end i) s =
     (if running s \<and> i \<in> set (detaching s)
      then case close_end E i s of Inl x \<Rightarrow> None | Inr t \<Rightarrow> Some t else None)"
| "perform E (M_ready i m) s =
     (if running s \<and> i \<in> set (created s)
      then case el_ready E i m s of Inl x \<Rightarrow> None | Inr t \<Rightarrow> Some t else None)"
| "perform E (M_gone i) s =
     (if running s \<and> i \<notin> set (internal s) \<and> calling (pc s) \<noteq> Some i
      then Some (s\<lparr>gone := List.insert i (gone s)\<rparr>) else None)"
| "perform E M_stop s = (if running s then Some (stop_set s) else None)"

lemma perform_step:
  assumes "perform E m s = Some t"
  shows "run_step E s t"
proof (cases m)
  case (M_attach i)
  with assms show ?thesis
    by (auto simp del: fresh_handle_def split: if_splits sum.splits intro: run_step.user_attach run_step.internal_attach)
qed (use assms in \<open>auto split: if_splits sum.splits intro: run_step.intros\<close>)

fun perform_all :: "'k env \<Rightarrow> move list \<Rightarrow> 'k loop \<Rightarrow> 'k loop option" where
  "perform_all E [] s = Some s"
| "perform_all E (m # ms) s = (case perform E m s of None \<Rightarrow> None | Some t \<Rightarrow> perform_all E ms t)"

lemma perform_all_reach:
  "run_reach E r s \<Longrightarrow> perform_all E ms s = Some t \<Longrightarrow> run_reach E r t"
proof (induction ms arbitrary: s)
  case (Cons m ms)
  then obtain u where "perform E m s = Some u" "perform_all E ms u = Some t" by (auto split: option.splits)
  with Cons.IH [OF run_reach.move [OF Cons.prems(1) perform_step]] show ?case by blast
qed simp

lemma perform_all_run: "perform_all E ms (loop_new k) = Some t \<Longrightarrow> run_reach E (loop_new k) t"
  by (rule perform_all_reach [OF run_reach.start])

subsection \<open>A scripted epoll\<close>

record ek =
  ek_watch :: "(fd \<times> mask) list"
  ek_due :: bool
  ek_count :: nat
  ek_script :: "(fd \<times> mask) list list"

definition wake :: fd where "wake = 5"

definition ek_batch :: "ek \<Rightarrow> (fd \<times> mask) list" where
  "ek_batch k = (if ek_due k then [(wake, 1)] else []) @ (case ek_script k of [] \<Rightarrow> [] | b # bs \<Rightarrow> b)"

definition ek_wait :: "nat \<Rightarrow> ek \<Rightarrow> (errno + (fd \<times> mask) list) \<times> ek" where
  "ek_wait n k =
     (if n = 0 then (Inr [], k)
      else (Inr (take n (ek_batch k)), k\<lparr>ek_due := False, ek_script := tl (ek_script k)\<rparr>))"

definition ek_add :: "fd \<Rightarrow> mask \<Rightarrow> ek \<Rightarrow> errno option \<times> ek" where
  "ek_add h m k =
     (if map_of (ek_watch k) h = None then (None, k\<lparr>ek_watch := (h, m) # ek_watch k\<rparr>) else (Some (Eother 17), k))"

definition ek_mod :: "fd \<Rightarrow> mask \<Rightarrow> ek \<Rightarrow> errno option \<times> ek" where
  "ek_mod h m k =
     (if map_of (ek_watch k) h \<noteq> None then (None, k\<lparr>ek_watch := (h, m) # ek_watch k\<rparr>) else (Some (Eother 2), k))"

definition ek_del :: "fd \<Rightarrow> ek \<Rightarrow> errno option \<times> ek" where
  "ek_del h k =
     (if map_of (ek_watch k) h \<noteq> None
      then (None, k\<lparr>ek_watch := List.filter (\<lambda>x. fst x \<noteq> h) (ek_watch k)\<rparr>) else (Some (Eother 2), k))"

definition scripted_epoll :: "ek epoll_calls" where
  "scripted_epoll =
     \<lparr>ec_wait = ek_wait, ec_ctl_add = ek_add, ec_ctl_mod = ek_mod, ec_ctl_del = ek_del,
      ec_efd_write = (\<lambda>k. (None, k\<lparr>ek_count := ek_count k + 1, ek_due := True\<rparr>)),
      ec_efd_read = (\<lambda>k. if ek_count k = 0 then (Some EAGAIN, k) else (None, k\<lparr>ek_count := 0\<rparr>)),
      obs_watch = (\<lambda>k. map_of (ek_watch k)), obs_due = ek_due,
      obs_ready = (\<lambda>k. case ek_script k of [] \<Rightarrow> 0 | b # bs \<Rightarrow> length b)\<rparr>"

lemma map_of_drop: "map_of (List.filter (\<lambda>x. fst x \<noteq> h) xs) = (map_of xs)(h := None)"
  by (induction xs) auto

lemma scripted_epoll_ok: "epoll_ok wake scripted_epoll"
proof -
  have "wait_ok wake scripted_epoll"
    by (auto simp: wait_ok_def scripted_epoll_def ek_wait_def ek_batch_def take_Cons' split: if_splits)
  moreover have "ctl_ok scripted_epoll"
    by (auto simp: ctl_ok_def scripted_epoll_def ek_add_def ek_mod_def ek_del_def map_of_drop split: if_splits)
  moreover have "efd_ok scripted_epoll"
    by (auto simp: efd_ok_def scripted_epoll_def split: if_splits)
  ultimately show ?thesis by (simp add: epoll_ok_def)
qed

definition ek_start :: "(fd \<times> mask) list list \<Rightarrow> ek" where
  "ek_start bs = \<lparr>ek_watch = [(wake, EPOLLET linux_abi OR EPOLLIN linux_abi)], ek_due = False, ek_count = 0, ek_script = bs\<rparr>"

text \<open>Handler 0 is an execute handler; 1 is a timer on descriptor 7; the others are the user's, on 8 and up.\<close>

definition demo :: "ek env" where
  "demo =
     \<lparr>en_abi = linux_abi, en_calls = scripted_epoll, en_wake_fd = wake,
      en_handle = (\<lambda>i. if i = 0 then -1 else int i + 6),
      en_kind = (\<lambda>i. if i = 0 then Execute else if i = 1 then Timer else User)\<rparr>"

lemma demo_simps [simp]:
  "en_abi demo = linux_abi" "en_calls demo = scripted_epoll" "en_wake_fd demo = wake"
  "en_handle demo i = (if i = 0 then -1 else int i + 6)"
  "en_kind demo i = (if i = 0 then Execute else if i = 1 then Timer else User)"
  by (simp_all add: demo_def)

lemma demo_ok: "epoll_ok (en_wake_fd demo) (en_calls demo)"
  using scripted_epoll_ok by simp

lemma demo_start: "fresh_start demo (ek_start bs)"
  by (simp add: fresh_start_def scripted_epoll_def ek_start_def)

lemmas loop_eval =
  loop_new_def ep_new_def loop_step_def running_def run_check_def go_def step_wait_def step_read_def take_adds_def
  take_removes_def take_readies_def step_add_def step_remove_def step_ready_def step_entry_def step_return_def
  add_finalize_def remove_finalize_def ready_finalize_def dispatch_def call_or_def finish_res_def die_def
  execute_finish_def close_begin_def close_end_def event_close_def el_remove_def remove_internal_def attach_begin_def attach_internal_begin_def
  attach_end_def create_event_def stop_set_def on_ep_def ep_add_def ep_remove_def ep_ready_def add_element_def ep_wakeup_def
  el_ready_def el_modify_def ep_modify_def event_get_events_def fresh_handle_def held_def
  scripted_epoll_def ek_wait_def ek_batch_def ek_add_def ek_mod_def ek_del_def ek_start_def wake_def max_events_def Let_def

end
