(* ===== verification/Loop_Safety.thy ===== *)
theory Loop_Safety
  imports Scripted_Loop
begin

text \<open>
  What holds in every state that the event loop can reach, whatever other threads and the handlers
  do: which events wake the loop, what it can die of, when handlers are called, and until when a
  descriptor is held.
\<close>

subsection \<open>From the invariant\<close>

lemma loop_inv_not_dead:
  assumes "loop_inv E s"
  shows "pc s \<noteq> Dead x"
proof
  assume "pc s = Dead x"
  then have "resume (pc s) = Dead x" by simp
  with loop_invD(3) [OF assms] show False unfolding books_ok_def by blast
qed

lemma reach_running_inv:
  assumes "run_reach E (loop_new k) s" and "epoll_ok (en_wake_fd E) (en_calls E)" and "fresh_start E k"
    and "running s"
  shows "loop_inv E s"
  using run_reach_inv [OF assms(1-3)] assms(4) by (auto simp: running_def dest!: overtakenD(1))

lemma reach_history:
  assumes "run_reach E (loop_new k) s" and "epoll_ok (en_wake_fd E) (en_calls E)" and "fresh_start E k"
  shows "quiet_after (en_handle E) (history s)" and "en_handle E i < 0 \<Longrightarrow> calls_of i (history s) \<le> 1"
proof -
  have inv: "quiet_after (en_handle E) (history s) \<and> (en_handle E i < 0 \<longrightarrow> calls_of i (history s) \<le> 1)"
    if "loop_inv E s"
    using loop_invD(5) [OF that] by (auto simp: calls_ok_def dest: add_leD1)
  show "quiet_after (en_handle E) (history s)" "en_handle E i < 0 \<Longrightarrow> calls_of i (history s) \<le> 1"
    using run_reach_inv [OF assms] inv overtakenD(2,4) [of E s] by blast+
qed

lemma quiet_after_later:
  "quiet_after hf (xs @ L_removed i # ys) \<Longrightarrow> 0 \<le> hf i \<Longrightarrow> calls_of i ys = 0"
  by (induction hf xs rule: quiet_after.induct) auto

lemma calls_of_mem: "L_call i m \<in> set xs \<Longrightarrow> 0 < calls_of i xs"
  by (force simp: calls_of_def filter_empty_conv)

lemma run_reach_induct_inv:
  assumes "run_reach E s t" and "P s" and "\<And>u v. P u \<Longrightarrow> run_step E u v \<Longrightarrow> P v"
  shows "P t"
  using assms(1) by (induction rule: run_reach.induct) (auto intro: assms(2,3))

text \<open>The concrete runs of the witnesses.\<close>

definition attached_run :: "move list" where
  "attached_run = [M_thread, M_attach 2, M_hand_over 2]"

lemma attached_waiting:
  "\<exists>t. perform_all demo attached_run (loop_new (ek_start [])) = Some t
     \<and> pc t = Waiting \<and> pending_add (ep t) = [2] \<and> created t = [2] \<and> gone t = []"
  by (simp add: attached_run_def loop_eval)

subsection \<open>What a step can throw\<close>

text \<open>The loop thread is about to remove an event that is closed and still waits for its addition.\<close>

definition overtaking :: "'k env \<Rightarrow> 'k loop \<Rightarrow> bool" where
  "overtaking E s \<longleftrightarrow> (\<exists>i is b. pc s = Removing (i # is) b \<and> 0 \<le> en_handle E i \<and> i \<in> set (closed s)
     \<and> i \<in> set (attaching s) \<union> set (pending_add (ep s)))"

lemma queue_fails:
  "ep_wakeup K e = Inl x \<Longrightarrow> \<exists>n. x = System_error n ''eventfd_write failed''"
  "ep_remove K i e = Inl x \<Longrightarrow> \<exists>n. x = System_error n ''eventfd_write failed''"
  by (auto simp: ep_wakeup_def ep_remove_def add_element_def Let_def split: if_splits prod.splits option.splits)

lemma event_close_fails:
  assumes "loop_inv E s" and "i \<in> set (created s)" and "event_close (E\<lparr>en_calls := K\<rparr>) i s = Inl (x, t)"
  shows "\<exists>n. x = System_error n ''eventfd_write failed''"
  using assms(3) loop_invD(3) [OF assms(1)] assms(2)
  by (auto simp: event_close_def el_remove_def on_ep_def books_ok_def Let_def bindE_def dest!: queue_fails(2) split: if_splits sum.splits)

lemma execute_finish_fails:
  assumes "loop_inv E s" and "pc s = Calling i m q" and "en_kind E i = Execute"
    and "execute_finish (E\<lparr>en_calls := K\<rparr>) i s = Inl (x, t)"
  shows "\<exists>n. x = System_error n ''eventfd_write failed''"
proof (cases "event_close (E\<lparr>en_calls := K\<rparr>) i s")
  case (Inl y)
  have "i \<in> set (created s)" using loop_invD(5) [OF assms(1)] assms(2) by (simp add: calls_ok_def)
  with Inl assms(4) event_close_fails [OF assms(1), of i K x t] show ?thesis by (cases y) (auto simp: execute_finish_def)
next
  case (Inr u)
  have "i \<in> set (internal s)" using loop_invD(5) [OF assms(1)] assms(2,3) by (simp add: calls_ok_def)
  moreover have "internal u = internal s" using Inr
    by (auto simp: event_close_def el_remove_def on_ep_def Let_def split: if_splits sum.splits)
  ultimately show ?thesis using assms(4) Inr
    by (simp add: execute_finish_def remove_internal_def split: if_splits)
qed

lemma step_remove_fails:
  assumes "loop_inv E s" and "pc s = Removing (i # is) b"
    and "pc (step_remove (E\<lparr>en_calls := K\<rparr>) i (Removing is b) s) = Dead x"
  shows "x = Thrown ''event not found'' \<and> overtaking E s
    \<or> (\<exists>n. x = System_error n ''epoll_ctl - EPOLL_CTL_DEL - failed'') \<and> registered (ep s) (en_handle E i) = Some i"
proof -
  have h: "0 \<le> en_handle E i"
    using assms(3) by (auto simp: step_remove_def remove_finalize_def split: if_splits)
  show ?thesis
  proof (cases "i \<in># incoming s")
    case True
    note e = removing_early [OF assms(1,2) h True]
    with assms(2,3) h show ?thesis by (simp add: step_remove_def remove_finalize_def die_def overtaking_def)
  next
    case False
    have "i \<in># outgoing s" using assms(2) by (simp add: outgoing_def)
    with life_remove(1) [OF loop_invD(1) [OF assms(1), unfolded lives_def] _ disjI2 [OF False]] h
    have r: "registered (ep s) (en_handle E i) = Some i" by simp
    with assms(3) h show ?thesis
      by (auto simp: step_remove_def remove_finalize_def die_def Let_def split: prod.splits option.splits)
  qed
qed

subsection \<open>Properties\<close>

text \<open>
  C1: no wakeup is lost.  Whenever the loop thread is about to wait and an addition, a removal or
  a ready event is queued, by any thread and at any moment, the next \<open>epoll_wait\<close> is going to
  report the wakeup descriptor: waking only for the first element of a queue is enough.
\<close>

theorem loop_no_lost_wakeup:
  assumes "epoll_ok (en_wake_fd E) (en_calls E)" and "fresh_start E k" and "run_reach E (loop_new k) s"
    and "pc s = Waiting" and "pending_add (ep s) \<noteq> [] \<or> pending_remove (ep s) \<noteq> [] \<or> pending_ready (ep s) \<noteq> []"
  shows "ep_due (en_calls E) (ep s)"
proof -
  have "loop_inv E s" by (rule reach_running_inv [OF assms(3,1,2)]) (simp add: running_def assms(4))
  from loop_invD(4) [OF this] assms(4,5) show ?thesis by (auto simp: attended_def)
qed

theorem loop_no_lost_wakeup_witness:
  "\<exists>s. run_reach demo (loop_new (ek_start [])) s \<and> pending_add (ep s) = [2] \<and> ep_due (en_calls demo) (ep s)"
proof -
  from attached_waiting obtain t where t: "perform_all demo attached_run (loop_new (ek_start [])) = Some t"
    "pc t = Waiting" "pending_add (ep t) = [2]" by blast
  have "run_reach demo (loop_new (ek_start [])) t" by (rule perform_all_run [OF t(1)])
  with loop_no_lost_wakeup [OF demo_ok demo_start this t(2)] t(3) show ?thesis by auto
qed

text \<open>
  C12: what the loop thread can die of.  Take any state that is reached with calls of epoll and of the eventfd that
  have succeeded so far, in every order of calls of the library, and let the next step of the loop thread meet any answer of the
  system, failures included.  If an exception leaves the step, then it is the error of that call (\<open>epoll_wait\<close>,
  the addition, the deletion, or the write of the eventfd in a \<open>Close\<close> or for the last pass), or it is
  ''event not found'' of the EPoll, thrown at the removal of a closed event with a descriptor that still
  waits for its addition; if the call succeeds, only the latter is left.  Exceptions of the handlers, which the loop
  thread does not catch either, come on top.
\<close>

theorem loop_dies_overtaken:
  assumes "epoll_ok (en_wake_fd E) (en_calls E)" and "fresh_start E k" and "run_reach E (loop_new k) s"
    and "\<forall>x. pc s \<noteq> Dead x" and "pc (loop_step (E\<lparr>en_calls := K\<rparr>) s) = Dead x"
  shows "((\<exists>n. x = System_error n ''epoll_wait failed'') \<and> pc s = Waiting
    \<or> (\<exists>n. x = System_error n ''epoll_ctl - EPOLL_CTL_ADD - failed'') \<and> (\<exists>i is b. pc s = Adding (i # is) b \<and> 0 \<le> en_handle E i)
    \<or> (\<exists>n. x = System_error n ''epoll_ctl - EPOLL_CTL_DEL - failed'')
        \<and> (\<exists>i is b. pc s = Removing (i # is) b \<and> registered (ep s) (en_handle E i) = Some i)
    \<or> (\<exists>n. x = System_error n ''eventfd_write failed'')
        \<and> ((\<exists>is. pc s = Closing is) \<or> (\<exists>i m q. pc s = Calling i m q \<and> en_kind E i = Execute))
    \<or> x = Thrown ''event not found'' \<and> overtaking E s)
    \<and> (K = en_calls E \<longrightarrow> x = Thrown ''event not found'' \<and> overtaking E s)"
proof -
  let ?F = "E\<lparr>en_calls := K\<rparr>"
  have iv: "loop_inv E s" using run_reach_inv [OF assms(3,1,2)] assms(4) overtakenD(1) by blast
  note d = assms(5) [unfolded loop_step_def]
  have same: "x = Thrown ''event not found'' \<and> overtaking E s" if "K = en_calls E"
  proof -
    have eq: "E\<lparr>en_calls := K\<rparr> = E" using that by simp
    have "\<exists>i is b. pc s = Removing (i # is) b \<and> 0 \<le> en_handle E i \<and> i \<in># incoming s"
    proof (rule ccontr)
      assume "\<not> ?thesis"
      then have "loop_inv E (loop_step E s)" by (intro loop_step_kept [OF assms(1) iv]) blast
      with loop_inv_not_dead assms(5) show False unfolding eq by blast
    qed
    then obtain i ks b where p: "pc s = Removing (i # ks) b" "0 \<le> en_handle E i" "i \<in># incoming s" by blast
    note e = removing_early [OF iv p]
    from p e assms(5) show ?thesis unfolding eq
      by (auto simp: loop_step_def step_remove_def remove_finalize_def die_def overtaking_def)
  qed
  have any: "(\<exists>n. x = System_error n ''epoll_wait failed'') \<and> pc s = Waiting
    \<or> (\<exists>n. x = System_error n ''epoll_ctl - EPOLL_CTL_ADD - failed'') \<and> (\<exists>i is b. pc s = Adding (i # is) b \<and> 0 \<le> en_handle E i)
    \<or> (\<exists>n. x = System_error n ''epoll_ctl - EPOLL_CTL_DEL - failed'')
        \<and> (\<exists>i is b. pc s = Removing (i # is) b \<and> registered (ep s) (en_handle E i) = Some i)
    \<or> (\<exists>n. x = System_error n ''eventfd_write failed'')
        \<and> ((\<exists>is. pc s = Closing is) \<or> (\<exists>i m q. pc s = Calling i m q \<and> en_kind E i = Execute))
    \<or> x = Thrown ''event not found'' \<and> overtaking E s" (is ?any)
  proof (cases "pc s")
    case Waiting
    with d show ?any by (auto simp: step_wait_def die_def split: prod.splits sum.splits)
  next
    case (Batch b)
    with d show ?any by (cases b) (auto simp: step_entry_def call_or_def split: if_splits option.splits)
  next
    case (Adding ks b)
    with d show ?any
      by (cases ks) (auto simp: step_add_def add_finalize_def call_or_def die_def Let_def
          split: if_splits sum.splits prod.splits option.splits)
  next
    case (Removing ks b)
    then show ?any
    proof (cases ks)
      case Nil
      with d Removing show ?thesis by simp
    next
      case (Cons i js)
      with Removing d have "pc (step_remove ?F i (Removing js b) s) = Dead x" by simp
      from step_remove_fails [OF iv Removing [unfolded Cons] this] Removing Cons show ?thesis by blast
    qed
  next
    case (Readying xs b)
    with d show ?any by (cases xs) (auto simp: step_ready_def call_or_def split: option.splits)
  next
    case (Calling i m q)
    have q: "\<forall>y. q \<noteq> Dead y" using resume_inv(2) [OF iv Calling] by (auto simp: running_def)
    with d Calling have "en_kind E i = Execute" "\<exists>t. execute_finish ?F i s = Inl (x, t)"
      by (auto simp: step_return_def finish_res_def die_def split: if_splits sum.splits)
    with execute_finish_fails [OF iv Calling] Calling show ?any by blast
  next
    case (Closing ks)
    show ?any
    proof (cases ks)
      case Nil
      with d Closing show ?thesis by (auto simp: on_ep_def die_def bindE_def dest!: queue_fails(1) split: sum.splits)
    next
      case (Cons i js)
      then have "i \<in> set (created s)" using loop_invD(3) [OF iv] Closing by (auto simp: books_ok_def)
      note f = event_close_fails [OF iv this]
      from d Closing Cons assms(4) obtain t where "event_close ?F i s = Inl (x, t)"
        by (auto simp: finish_res_def die_def split: if_splits sum.splits)
      with f Closing show ?thesis by blast
    qed
  next
    case (Dead y)
    with assms(4) show ?any by blast
  qed (use d in \<open>auto simp: run_check_def step_read_def take_adds_def take_removes_def take_readies_def split: prod.splits if_splits\<close>)
  from any same show ?thesis by blast
qed

definition killer_start :: "move list" where
  "killer_start =
     [M_attach 0, M_hand_over 0] @ replicate 7 M_thread @ [M_attach 1, M_hand_over 1, M_close 1] @ replicate 3 M_thread"

lemma killer_last:
  "\<exists>t. perform_all demo killer_start (loop_new (ek_start [])) = Some t \<and> (\<forall>x. pc t \<noteq> Dead x)
     \<and> pc (loop_step (demo\<lparr>en_calls := en_calls demo\<rparr>) t) = Dead (Thrown ''event not found'')"
  by (simp add: killer_start_def numeral_eq_Suc loop_eval)

theorem loop_dies_overtaken_witness:
  "\<exists>s. run_reach demo (loop_new (ek_start [])) s \<and> overtaking demo s"
proof -
  from killer_last obtain t where t: "perform_all demo killer_start (loop_new (ek_start [])) = Some t"
    "\<forall>x. pc t \<noteq> Dead x" "pc (loop_step (demo\<lparr>en_calls := en_calls demo\<rparr>) t) = Dead (Thrown ''event not found'')" by blast
  have "run_reach demo (loop_new (ek_start [])) t" by (rule perform_all_run [OF t(1)])
  with loop_dies_overtaken [OF demo_ok demo_start this t(2,3)] show ?thesis by blast
qed

text \<open>
  C20: no call after the removal.  Once the EPoll has removed an event with a descriptor, its
  handler is never called again, through the table or through ready events that were still queued.
\<close>

theorem loop_no_call_after_removal:
  assumes "epoll_ok (en_wake_fd E) (en_calls E)" and "fresh_start E k" and "run_reach E (loop_new k) s"
    and "history s = xs @ L_removed i # ys" and "0 \<le> en_handle E i"
  shows "L_call i m \<notin> set ys"
  using quiet_after_later [of "en_handle E" xs i ys] calls_of_mem [of i m ys] reach_history(1) [OF assms(3,1,2)]
    assms(4,5) by auto

definition removed_run :: "move list" where
  "removed_run =
     [M_attach 2, M_hand_over 2, M_attach 3, M_hand_over 3] @ replicate 17 M_thread @ [M_close 2, M_ready 2 1]
     @ replicate 21 M_thread"

definition busy_start :: ek where
  "busy_start = ek_start [[], [(8, 1)], [], [(9, 1), (8, 1)]]"

lemma removed_history:
  "\<exists>t. perform_all demo removed_run (loop_new busy_start) = Some t
     \<and> history t = [L_call 2 1, L_removed 2, L_call 3 1]"
  by (simp add: removed_run_def busy_start_def numeral_eq_Suc loop_eval linux_abi_def events_of_epoll_def ev_defs has_def)


theorem loop_no_call_after_removal_witness:
  "\<exists>s xs ys. run_reach demo (loop_new busy_start) s \<and> history s = xs @ L_removed 2 # ys \<and> ys \<noteq> []
     \<and> L_call 2 1 \<notin> set ys"
proof -
  from removed_history obtain s where s: "perform_all demo removed_run (loop_new busy_start) = Some s"
    "history s = [L_call 2 1] @ L_removed 2 # [L_call 3 1]" by auto
  have r: "run_reach demo (loop_new busy_start) s" by (rule perform_all_run [OF s(1)])
  have "fresh_start demo busy_start" by (simp add: busy_start_def demo_start)
  from loop_no_call_after_removal [OF demo_ok this r s(2), of 1] r s(2) show ?thesis by fastforce
qed

subsection \<open>Execute handlers run\<close>

definition exec_ok :: "'k env \<Rightarrow> 'k loop \<Rightarrow> bool" where
  "exec_ok E s \<longleftrightarrow> (\<forall>i \<in> set (created s). en_kind E i = Execute \<longrightarrow>
     i \<in># incoming s \<or> 0 < calls_of i (history s))"

lemma exec_keep:
  assumes "exec_ok E s" and "created t = created s" and "incoming t = incoming s" and "\<exists>xs. history t = history s @ xs"
  shows "exec_ok E t"
  using assms by (auto simp: exec_ok_def)

lemma event_close_frame:
  "event_close E i s = Inr t \<Longrightarrow> created t = created s \<and> history t = history s \<and> attaching t = attaching s
     \<and> pending_add (ep t) = pending_add (ep s) \<and> pc t = pc s"
  by (auto simp: event_close_def el_remove_def on_ep_def ep_remove_def add_element_def ep_wakeup_def Let_def
      split: if_splits sum.splits prod.splits option.splits)

lemma execute_finish_frame:
  "execute_finish E i s = Inr t \<Longrightarrow> created t = created s \<and> history t = history s \<and> attaching t = attaching s
     \<and> pending_add (ep t) = pending_add (ep s) \<and> pc t = pc s"
  by (auto simp: execute_finish_def remove_internal_def dest!: event_close_frame split: if_splits sum.splits)

lemma on_ep_frame:
  "on_ep f s = Inr t \<Longrightarrow> (\<And>e. f (ep s) = Inr e \<Longrightarrow> pending_add e = pending_add (ep s)) \<Longrightarrow>
   created t = created s \<and> history t = history s \<and> attaching t = attaching s
     \<and> pending_add (ep t) = pending_add (ep s) \<and> pc t = pc s"
  by (auto simp: on_ep_def)

lemma ep_frames:
  "ep_wakeup K e = Inr f \<Longrightarrow> pending_add f = pending_add e"
  "ep_ready K x e = Inr f \<Longrightarrow> pending_add f = pending_add e"
  "ep_modify A K h m e = Inr f \<Longrightarrow> pending_add f = pending_add e"
  by (auto simp: ep_wakeup_def ep_ready_def add_element_def ep_modify_def Let_def
      split: if_splits prod.splits option.splits)

lemma incoming_same:
  "attaching t = attaching s \<Longrightarrow> pending_add (ep t) = pending_add (ep s) \<Longrightarrow> adding_of (pc t) = adding_of (pc s) \<Longrightarrow>
   incoming t = incoming s"
  by (simp add: incoming_def)

lemma remove_finalize_frame: "remove_finalize K h e = Inr f \<Longrightarrow> pending_add f = pending_add e"
  by (auto simp: remove_finalize_def Let_def split: if_splits prod.splits option.splits)

lemma exec_step_add:
  assumes "loop_inv E s" and "exec_ok E s" and "pc s = Adding (i # is) b" and "\<forall>x. pc (loop_step E s) \<noteq> Dead x"
  shows "exec_ok E (loop_step E s)"
proof -
  have st: "loop_step E s = step_add E i (Adding is b) s" using assms(3) by (simp add: loop_step_def)
  have inA: "i \<in># incoming s" using assms(3) by (simp add: incoming_def)
  note iv = loop_invD [OF assms(1)]
  have cr: "i \<in> set (created s)" using life_in(1) [OF iv(1) [unfolded lives_def] inA] .
  have call: "en_handle E i < 0 \<and> alive s i" if "en_kind E i = Execute"
    using that iv(6) cr inA by (auto simp: intern_ok_def)
  have "created (loop_step E s) = created s \<and> incoming s \<subseteq># add_mset i (incoming (loop_step E s))
    \<and> (\<exists>xs. history (loop_step E s) = history s @ xs)
    \<and> (en_kind E i = Execute \<longrightarrow> 0 < calls_of i (history (loop_step E s)))"
    using assms(3,4) call
    by (auto simp: st step_add_def add_finalize_def call_or_def incoming_def go_def die_def Let_def
        split: if_splits sum.splits prod.splits option.splits)
  then show ?thesis using assms(2) by (auto simp: exec_ok_def dest!: mset_subset_eqD)
qed

lemma loop_step_frame:
  assumes "\<nexists>i is b. pc s = Adding (i # is) b" and "\<forall>x. pc (loop_step E s) \<noteq> Dead x"
  shows "created (loop_step E s) = created s \<and> incoming (loop_step E s) = incoming s
    \<and> (\<exists>xs. history (loop_step E s) = history s @ xs)"
proof (cases "pc s")
  case (Batch b)
  with assms(2) show ?thesis
    by (cases b) (auto simp: loop_step_def step_entry_def call_or_def incoming_def split: option.splits)
next
  case (Adding js b)
  with assms(1) show ?thesis by (cases js) (auto simp: loop_step_def incoming_def)
next
  case (Removing js b)
  with assms(2) show ?thesis
    by (cases js) (auto simp: loop_step_def step_remove_def die_def incoming_def dest!: remove_finalize_frame split: sum.splits)
next
  case (Readying xs b)
  with assms(2) show ?thesis
    by (cases xs) (auto simp: loop_step_def step_ready_def call_or_def incoming_def split: option.splits)
next
  case (Calling i m q)
  with assms(2) show ?thesis
    by (auto simp: loop_step_def step_return_def finish_res_def die_def incoming_def dest!: execute_finish_frame
        split: sum.splits if_splits)
next
  case (Closing js)
  with assms(2) show ?thesis
    by (cases js) (auto simp: loop_step_def finish_res_def die_def incoming_def
        dest!: event_close_frame on_ep_frame [OF _ ep_frames(1)] split: sum.splits)
qed (use assms(2) in \<open>auto simp: loop_step_def run_check_def step_wait_def step_read_def take_adds_def take_removes_def
    take_readies_def incoming_def die_def split: prod.splits sum.splits\<close>)

lemma exec_step:
  assumes "loop_inv E s" and "exec_ok E s" and "\<forall>x. pc (loop_step E s) \<noteq> Dead x"
  shows "exec_ok E (loop_step E s)"
  using exec_step_add [OF assms(1,2) _ assms(3)] exec_keep [OF assms(2)] loop_step_frame [OF _ assms(3)] by metis

subsection \<open>The three kinds of steps\<close>

text \<open>A call from outside that creates no event leaves all this as it is, or larger.\<close>

definition call_frame :: "'k loop \<Rightarrow> 'k loop \<Rightarrow> bool" where
  "call_frame s t \<longleftrightarrow> created t = created s \<and> incoming t = incoming s \<and> history t = history s \<and> pc t = pc s
     \<and> registered (ep t) = registered (ep s) \<and> set (pending_ready (ep s)) \<subseteq> set (pending_ready (ep t))
     \<and> set (closed s) \<subseteq> set (closed t) \<and> set (gone s) \<subseteq> set (gone t) \<and> final_pass t = final_pass s"

definition attach_frame :: "nat \<Rightarrow> 'k loop \<Rightarrow> 'k loop \<Rightarrow> bool" where
  "attach_frame i s t \<longleftrightarrow> i \<notin> set (created s) \<and> created t = created s @ [i] \<and> incoming t = add_mset i (incoming s)
     \<and> history t = history s \<and> pc t = pc s \<and> ep t = ep s \<and> closed t = closed s \<and> gone t = gone s"

lemmas frame_unfolds =
  add_element_def ep_wakeup_def on_ep_def Let_def incoming_def

lemma event_close_call:
  "event_close E i s = Inr t \<Longrightarrow> call_frame s t" "event_close E i s = Inl (x, t) \<Longrightarrow> call_frame s t"
  by (auto simp: call_frame_def event_close_def el_remove_def ep_remove_def frame_unfolds
      split: if_splits sum.splits prod.splits option.splits)

lemma close_begin_call: "close_begin i s = Inr t \<Longrightarrow> call_frame s t"
  by (auto simp: call_frame_def close_begin_def frame_unfolds split: if_splits)

lemma close_end_call: "close_end E i s = Inr t \<Longrightarrow> call_frame s t"
  by (auto simp: call_frame_def close_end_def ep_remove_def frame_unfolds split: if_splits prod.splits option.splits)

lemma call_frame_refl: "call_frame s s"
  by (simp add: call_frame_def)

lemma handler_dtor_call: "handler_dtor E i s = Inr t \<Longrightarrow> call_frame s t"
  using call_frame_refl by (auto simp: handler_dtor_def dest: event_close_call(1) split: if_splits)

lemma attach_end_call: "attach_end E i s = Inr t \<Longrightarrow> i \<in> set (attaching s) \<Longrightarrow> call_frame s t"
  by (auto simp: call_frame_def attach_end_def ep_add_def frame_unfolds
      split: if_splits prod.splits option.splits)

lemma el_ready_call: "el_ready E i m s = Inr t \<Longrightarrow> call_frame s t"
  by (auto simp: call_frame_def el_ready_def ep_ready_def frame_unfolds split: if_splits prod.splits option.splits)

lemma el_modify_call: "el_modify E b i s = Inr t \<Longrightarrow> call_frame s t"
  by (auto simp: call_frame_def el_modify_def ep_modify_def frame_unfolds split: if_splits prod.splits option.splits)

lemma stop_wake_call: "stop_wake E s = Inr t \<Longrightarrow> call_frame s t"
  by (auto simp: call_frame_def stop_wake_def frame_unfolds split: if_splits prod.splits option.splits)

lemma attach_begin_call: "attach_begin i s = Inr t \<Longrightarrow> attach_frame i s t"
  by (auto simp: attach_frame_def attach_begin_def create_event_def frame_unfolds split: if_splits)

lemma attach_internal_call: "attach_internal_begin i s = Inr t \<Longrightarrow> attach_frame i s t"
  by (auto simp: attach_internal_begin_def attach_frame_def incoming_def dest!: attach_begin_call)

lemma run_step_kinds:
  assumes "run_step E s t" and "\<forall>x. pc t \<noteq> Dead x"
  obtains (thread) "running s" "t = loop_step E s" | (attach) i where "attach_frame i s t" | (other) "call_frame s t"
  using assms(1)
proof cases
  case thread
  then show thesis using that(1) by blast
next
  case (user_attach i)
  show thesis by (rule that(2) [OF attach_begin_call [OF user_attach(6)]])
next
  case (internal_attach i)
  show thesis by (rule that(2) [OF attach_internal_call [OF internal_attach(7)]])
next
  case (hand_over i)
  show thesis by (rule that(3) [OF attach_end_call [OF hand_over(3,2)]])
next
  case (close i)
  show thesis by (rule that(3) [OF event_close_call(1) [OF close(4)]])
next
  case (close_throws i x)
  show thesis by (rule that(3) [OF event_close_call(2) [OF close_throws(4)]])
next
  case (close_begin i)
  show thesis by (rule that(3) [OF close_begin_call [OF close_begin(6)]])
next
  case (close_end i)
  show thesis by (rule that(3) [OF close_end_call [OF close_end(3)]])
next
  case (destroy i)
  show thesis by (rule that(3) [OF handler_dtor_call [OF destroy(4)]])
next
  case (ready i m)
  show thesis by (rule that(3) [OF el_ready_call [OF ready(3)]])
next
  case (modify_own i m q)
  show thesis by (rule that(3) [OF el_modify_call [OF modify_own(3)]])
next
  case (modify_throws i m q x)
  with assms(2) show thesis by (simp add: die_def)
next
  case stop_end
  show thesis by (rule that(3) [OF stop_wake_call [OF stop_end(3)]])
qed (rule that(3), auto simp: call_frame_def stop_set_def incoming_def)+

lemma exec_run_step:
  assumes "run_step E s t" and "loop_inv E s" and "exec_ok E s" and "\<forall>x. pc t \<noteq> Dead x"
  shows "exec_ok E t"
  using assms(1,4)
proof (cases rule: run_step_kinds)
  case thread
  with exec_step [OF assms(2,3)] assms(4) show ?thesis by simp
next
  case (attach i)
  with assms(3) show ?thesis by (auto simp: exec_ok_def attach_frame_def)
next
  case other
  then show ?thesis by (intro exec_keep [OF assms(3)]) (simp_all add: call_frame_def)
qed

lemma exec_reach:
  assumes "run_reach E (loop_new k) s" and "epoll_ok (en_wake_fd E) (en_calls E)" and "fresh_start E k"
  shows "exec_ok E s \<or> overtaken E s"
  using assms(1)
proof (induction rule: run_reach.induct)
  case start
  then show ?case by (simp add: exec_ok_def loop_new_def)
next
  case (move s t)
  have "\<not> overtaken E s" using move(2) overtaken_stuck by blast
  with move(3) run_reach_inv [OF move(1) assms(2,3)] have s: "exec_ok E s" "loop_inv E s" by simp_all
  from run_step_inv [OF assms(2) s(2) move(2)] show ?case
    using exec_run_step [OF move(2) s(2,1)] loop_inv_not_dead [of E t] by metis
qed

text \<open>
  C13: \<open>ExecuteOnce\<close> runs exactly once.  In every order of calls, an execute handler that was
  attached is called once as soon as the loop thread has taken it from the additions, and not
  before; a wakeup or a ready event never calls it again.
\<close>

theorem execute_exactly_once:
  assumes "epoll_ok (en_wake_fd E) (en_calls E)" and "fresh_start E k" and "run_reach E (loop_new k) s"
    and "\<forall>x. pc s \<noteq> Dead x" and "i \<in> set (created s)" and "en_kind E i = Execute"
  shows "calls_of i (history s) = (if i \<in># incoming s then 0 else 1)"
proof -
  from assms(4) run_reach_inv [OF assms(3,1,2)] exec_reach [OF assms(3,1,2)]
  have iv: "loop_inv E s" "exec_ok E s" using overtakenD(1) by blast+
  have neg: "en_handle E i < 0" using loop_invD(6) [OF iv(1)] assms(5,6) by (simp add: intern_ok_def)
  then have le: "calls_of i (history s) + count (incoming s) i \<le> 1"
    using loop_invD(5) [OF iv(1)] by (simp add: calls_ok_def)
  have ex: "i \<in># incoming s \<or> 0 < calls_of i (history s)" using iv(2) assms(5,6) by (simp add: exec_ok_def)
  show ?thesis
  proof (cases "i \<in># incoming s")
    case True
    then have "0 < count (incoming s) i" by simp
    with le have "calls_of i (history s) = 0" by linarith
    with True show ?thesis by simp
  next
    case False
    with ex le have "calls_of i (history s) = 1" by linarith
    with False show ?thesis by simp
  qed
qed

definition executed_run :: "move list" where
  "executed_run = [M_attach 0, M_hand_over 0] @ replicate 16 M_thread"

lemma executed:
  "\<exists>t. perform_all demo executed_run (loop_new (ek_start [])) = Some t
     \<and> pc t = Waiting \<and> created t = [0] \<and> internal t = [] \<and> incoming t = {#}"
  by (simp add: executed_run_def numeral_eq_Suc loop_eval incoming_def)

theorem execute_exactly_once_witness:
  "\<exists>s. run_reach demo (loop_new (ek_start [])) s \<and> calls_of 0 (history s) = 1"
proof -
  from executed obtain t where t: "perform_all demo executed_run (loop_new (ek_start [])) = Some t"
    "pc t = Waiting" "created t = [0]" "incoming t = {#}" by blast
  have "run_reach demo (loop_new (ek_start [])) t" by (rule perform_all_run [OF t(1)])
  from execute_exactly_once [OF demo_ok demo_start this, of 0] t this show ?thesis
    by (intro exI [of _ t]) simp
qed

text \<open>
  Closing never fails.  As long as the loop thread runs, in every order of calls, closing an
  event that was created returns, however often it is closed, and the lock of the event loop is
  free: the path of \<open>Remove\<close> that throws with the lock taken is not reachable.
\<close>

lemma loop_close_total:
  assumes "epoll_ok (en_wake_fd E) (en_calls E)" and "fresh_start E k" and "run_reach E (loop_new k) s"
    and "running s" and "i \<in> set (created s)"
  shows "\<not> lock_held s \<and> (\<exists>t. event_close E i s = Inr t \<and> i \<in> set (closed t) \<and> event_close E i t = Inr t)"
proof -
  have iv: "loop_inv E s" by (rule reach_running_inv [OF assms(3,1,2,4)])
  from assms(1) have "efd_ok (en_calls E)" by (simp add: epoll_ok_def)
  from event_close_inv [OF this iv assms(5)] obtain t where t: "event_close E i s = Inr t" by blast
  then have "i \<in> set (closed t)"
    by (auto simp: event_close_def split: if_splits sum.splits)
  with t loop_invD(3) [OF iv] show ?thesis by (auto simp: books_ok_def event_close_def)
qed

lemma loop_close_total_witness:
  "\<exists>s t. run_reach demo (loop_new (ek_start [])) s \<and> event_close demo 2 s = Inr t"
proof -
  from attached_waiting obtain s where s: "perform_all demo attached_run (loop_new (ek_start [])) = Some s"
    "pc s = Waiting" "created s = [2]" by blast
  have r: "run_reach demo (loop_new (ek_start [])) s" by (rule perform_all_run [OF s(1)])
  from loop_close_total [OF demo_ok demo_start r, of 2] s r show ?thesis by (auto simp: running_def)
qed

definition called_run :: "move list" where
  "called_run = [M_attach 2, M_hand_over 2] @ replicate 16 M_thread"

lemma called:
  "\<exists>t. perform_all demo called_run (loop_new (ek_start [[], [(8, 1)]])) = Some t \<and> pc t = Calling 2 1 (Batch [])"
  by (simp add: called_run_def numeral_eq_Suc loop_eval linux_abi_def events_of_epoll_def ev_defs has_def)

text \<open>
  Changing the events from the handler.  In its own \<open>HandleEvents\<close>, a handler with a descriptor
  can always modify its events: its descriptor is registered whenever it is called, for the table,
  for a ready event, even after its event was closed.  From another thread \<open>Modify\<close> always throws.
\<close>

lemma loop_modify_in_callback:
  assumes "epoll_ok (en_wake_fd E) (en_calls E)" and "fresh_start E k" and "run_reach E (loop_new k) s"
    and "pc s = Calling i m q" and "0 \<le> en_handle E i"
  shows "(\<exists>t. el_modify E True i s = Inr t)
    \<and> el_modify E False i s = Inl (Thrown ''Modify() called outside the scope of the event loop'')"
proof -
  have iv: "loop_inv E s" by (rule reach_running_inv [OF assms(3,1,2)]) (simp add: running_def assms(4))
  from assms(1) have "ctl_ok (en_calls E)" by (simp add: epoll_ok_def)
  from el_modify_inv [OF this iv assms(4,5)] show ?thesis by (auto simp: el_modify_def)
qed

lemma loop_modify_in_callback_witness:
  "\<exists>s t. run_reach demo (loop_new (ek_start [[], [(8, 1)]])) s \<and> el_modify demo True 2 s = Inr t"
proof -
  from called obtain s where s: "perform_all demo called_run (loop_new (ek_start [[], [(8, 1)]])) = Some s"
    "pc s = Calling 2 1 (Batch [])" by blast
  have r: "run_reach demo (loop_new (ek_start [[], [(8, 1)]])) s" by (rule perform_all_run [OF s(1)])
  from loop_modify_in_callback [OF demo_ok demo_start r s(2)] r show ?thesis by auto
qed

text \<open>
  C23: descriptors are not closed too early.  When nobody holds an event any more, which is when its
  destructor closes the descriptor, the EPoll has removed it, and if the kernel still watches that
  descriptor number, it is for another event that has it now and is held.
\<close>

theorem descriptor_closed_after_removal:
  assumes "epoll_ok (en_wake_fd E) (en_calls E)" and "fresh_start E k" and "run_reach E (loop_new k) s"
    and "running s" and "i \<in> set (created s)" and "0 \<le> en_handle E i" and "\<not> held E s i"
  shows "removed s i \<and> (obs_watch (en_calls E) (ep_kernel (ep s)) (en_handle E i) \<noteq> None \<longrightarrow>
     (\<exists>j. j \<noteq> i \<and> registered (ep s) (en_handle E i) = Some j \<and> held E s j))"
proof -
  have iv: "loop_inv E s" by (rule reach_running_inv [OF assms(3,1,2,4)])
  note lf = loop_invD(1) [OF iv, unfolded lives_def]
  have "removed s i" by (rule not_held_removed [OF loop_invD(1) [OF iv] assms(5-7)])
  moreover have "\<exists>j. j \<noteq> i \<and> registered (ep s) (en_handle E i) = Some j \<and> held E s j"
    if "obs_watch (en_calls E) (ep_kernel (ep s)) (en_handle E i) \<noteq> None"
  proof -
    from that loop_invD(2) [OF iv] life_where(1) [OF lf assms(5,6)] obtain j where
      j: "registered (ep s) (en_handle E i) = Some j" by (auto simp: table_ok_def)
    moreover from this assms(7) have "j \<noteq> i" by (auto simp: held_def)
    moreover from life_reg(1) [OF lf j] j have "held E s j" by (simp add: held_def)
    ultimately show ?thesis by blast
  qed
  ultimately show ?thesis by blast
qed

definition released_run :: "move list" where
  "released_run =
     [M_attach 2, M_hand_over 2] @ replicate 14 M_thread @ [M_gone 2, M_close 2] @ replicate 13 M_thread"

lemma released:
  "\<exists>t. perform_all demo released_run (loop_new (ek_start [])) = Some t \<and> pc t = Waiting \<and> created t = [2]
     \<and> \<not> held demo t 2 \<and> closed t = [2] \<and> gone t = [2] \<and> attaching t = [] \<and> detaching t = [] \<and> pending_add (ep t) = []
     \<and> pending_remove (ep t) = [] \<and> pending_ready (ep t) = []"
  by (simp add: released_run_def numeral_eq_Suc loop_eval)

theorem descriptor_closed_after_removal_witness:
  "\<exists>s. run_reach demo (loop_new (ek_start [])) s \<and> removed s 2"
proof -
  from released obtain s where s: "perform_all demo released_run (loop_new (ek_start [])) = Some s"
    "pc s = Waiting" "created s = [2]" "\<not> held demo s 2" by blast
  have r: "run_reach demo (loop_new (ek_start [])) s" by (rule perform_all_run [OF s(1)])
  from descriptor_closed_after_removal [OF demo_ok demo_start r, of 2] s r show ?thesis by (auto simp: running_def)
qed

text \<open>
  Descriptors are closed in the end.  When the loop thread waits and no work is queued, an event
  that was closed and whose handler is gone is held by nobody: its descriptor is closed.
\<close>

lemma descriptor_released:
  assumes "epoll_ok (en_wake_fd E) (en_calls E)" and "fresh_start E k" and "run_reach E (loop_new k) s"
    and "pc s = Waiting" and "attaching s = [] \<and> detaching s = []" and "pending_add (ep s) = []" and "pending_remove (ep s) = []"
    and "pending_ready (ep s) = []" and "i \<in> set (closed s)" and "i \<in> set (gone s)"
  shows "\<not> held E s i \<and> removed s i"
proof -
  have iv: "loop_inv E s" by (rule reach_running_inv [OF assms(3,1,2)]) (simp add: running_def assms(4))
  note lf = loop_invD(1) [OF iv, unfolded lives_def]
  have "outgoing s = {#}" by (simp add: outgoing_def assms(4,5,7))
  with life_sets(3) [OF lf, of i] assms(9) have rm: "removed s i" by simp
  moreover have "registered (ep s) (en_handle E i) \<noteq> Some i" using life_reg(4) [OF lf] rm by blast
  moreover have "i \<notin> set (el_events s)" using loop_invD(3) [OF iv] assms(9) by (simp add: books_ok_def)
  ultimately show ?thesis using assms(4-8,10) by (simp add: held_def)
qed

lemma descriptor_released_witness:
  "\<exists>s. run_reach demo (loop_new (ek_start [])) s \<and> 2 \<in> set (created s) \<and> \<not> held demo s 2"
proof -
  from released obtain s where s: "perform_all demo released_run (loop_new (ek_start [])) = Some s"
    "pc s = Waiting" "created s = [2]" "closed s = [2]" "gone s = [2]" "attaching s = [] \<and> detaching s = []" "pending_add (ep s) = []"
     "pending_remove (ep s) = []" "pending_ready (ep s) = []" by blast
  have r: "run_reach demo (loop_new (ek_start [])) s" by (rule perform_all_run [OF s(1)])
  from descriptor_released [OF demo_ok demo_start r s(2,6-9), of 2] s r show ?thesis by auto
qed

end
