(* ===== verification/Loop_Progress.thy ===== *)
theory Loop_Progress
  imports Loop_Safety
begin

text \<open>
  How runs of the loop end, and what the event loop keeps: one pass of \<open>Process\<close>, \<open>Stop\<close>, the
  internal handlers.
\<close>

subsection \<open>The internal handlers\<close>

lemma event_close_internal:
  "event_close E i s = Inr t \<Longrightarrow> internal t = internal s \<and> gone t = gone s"
  "event_close E i s = Inl (x, t) \<Longrightarrow> internal t = internal s \<and> gone t = gone s"
  by (auto simp: event_close_def el_remove_def on_ep_def Let_def split: if_splits sum.splits)

lemma close_begin_internal: "close_begin i s = Inr t \<Longrightarrow> internal t = internal s \<and> gone t = gone s"
  by (auto simp: close_begin_def split: if_splits)

lemma on_ep_internal: "on_ep f s = Inr t \<Longrightarrow> internal t = internal s \<and> gone t = gone s"
  by (auto simp: on_ep_def)

definition keeps_timer :: "'k env \<Rightarrow> nat \<Rightarrow> 'k loop \<Rightarrow> bool" where
  "keeps_timer E i s \<longleftrightarrow> en_kind E i = Timer \<and> i \<in> set (internal s) \<and> i \<notin> set (gone s)"

lemma keeps_finish:
  assumes "keeps_timer E i s" and "en_kind E j = Execute"
  shows "execute_finish E j s = Inr t \<Longrightarrow> keeps_timer E i t"
    and "execute_finish E j s = Inl (x, t) \<Longrightarrow> keeps_timer E i t"
proof -
  have "j \<noteq> i" using assms by (auto simp: keeps_timer_def)
  with assms(1) show "execute_finish E j s = Inr t \<Longrightarrow> keeps_timer E i t"
    "execute_finish E j s = Inl (x, t) \<Longrightarrow> keeps_timer E i t"
    by (auto simp: execute_finish_def remove_internal_def keeps_timer_def dest!: event_close_internal
        split: sum.splits if_splits)
qed

lemma keeps_cong: "keeps_timer E i s \<Longrightarrow> internal t = internal s \<and> gone t = gone s \<Longrightarrow> keeps_timer E i t"
  by (simp add: keeps_timer_def)

lemma call_or_internal: "internal (call_or q c s) = internal s \<and> gone (call_or q c s) = gone s"
  by (simp add: call_or_def split: option.splits)

lemma keeps_return:
  assumes "keeps_timer E i s"
  shows "keeps_timer E i (step_return E j q s)"
proof (cases "en_kind E j = Execute")
  case True
  show ?thesis
  proof (cases "execute_finish E j s")
    case (Inl x)
    obtain e t where "x = (e, t)" by (cases x)
    with Inl True keeps_finish(2) [OF assms True] show ?thesis
      by (simp add: step_return_def finish_res_def die_def keeps_timer_def)
  next
    case (Inr t)
    with True keeps_finish(1) [OF assms True] show ?thesis
      by (simp add: step_return_def finish_res_def keeps_timer_def)
  qed
next
  case False
  with assms show ?thesis by (simp add: step_return_def keeps_timer_def)
qed

lemma loop_step_internal:
  assumes "\<forall>i m q. pc s \<noteq> Calling i m q"
  shows "internal (loop_step E s) = internal s \<and> gone (loop_step E s) = gone s"
proof (cases "pc s")
  case (Batch b)
  then show ?thesis by (cases b) (auto simp: loop_step_def step_entry_def call_or_internal)
next
  case (Adding js b)
  then show ?thesis
    by (cases js) (auto simp: loop_step_def step_add_def call_or_internal die_def split: sum.splits)
next
  case (Removing js b)
  then show ?thesis by (cases js) (auto simp: loop_step_def step_remove_def die_def split: sum.splits)
next
  case (Readying xs b)
  then show ?thesis by (cases xs) (auto simp: loop_step_def step_ready_def call_or_internal)
next
  case (Closing js)
  then show ?thesis
    by (cases js) (auto simp: loop_step_def finish_res_def die_def
        dest!: event_close_internal on_ep_internal split: sum.splits)
qed (use assms in \<open>auto simp: loop_step_def run_check_def step_wait_def step_read_def take_adds_def take_removes_def
      take_readies_def die_def split: prod.splits sum.splits\<close>)

lemma keeps_step:
  assumes "run_step E s t" and "keeps_timer E i s"
  shows "keeps_timer E i t"
  using assms(1)
proof cases
  case thread
  show ?thesis
  proof (cases "\<forall>i m q. pc s \<noteq> Calling i m q")
    case True
    from keeps_cong [OF assms(2) loop_step_internal [OF True]] thread show ?thesis by simp
  next
    case False
    then obtain j m q where "pc s = Calling j m q" by blast
    with keeps_return [OF assms(2)] thread show ?thesis by (simp add: loop_step_def)
  qed
next
  case (user_attach j)
  then show ?thesis using assms(2)
    by (auto simp: attach_begin_def create_event_def keeps_timer_def Let_def split: if_splits)
next
  case (internal_attach j)
  then show ?thesis using assms(2)
    by (auto simp: attach_internal_begin_def attach_begin_def create_event_def keeps_timer_def Let_def split: if_splits)
next
  case (hand_over j)
  from on_ep_internal [OF hand_over(3) [unfolded attach_end_def]] assms(2) show ?thesis by (simp add: keeps_timer_def)
next
  case (close j)
  show ?thesis by (rule keeps_cong [OF assms(2) event_close_internal(1) [OF close(4)]])
next
  case (close_throws j x)
  show ?thesis by (rule keeps_cong [OF assms(2) event_close_internal(2) [OF close_throws(4)]])
next
  case (close_begin j)
  show ?thesis by (rule keeps_cong [OF assms(2) close_begin_internal [OF close_begin(6)]])
next
  case (close_end j)
  from on_ep_internal [OF close_end(3) [unfolded close_end_def]] assms(2) show ?thesis by (simp add: keeps_timer_def)
next
  case (destroy j)
  then have "internal t = internal s \<and> gone t = gone s"
    by (auto simp: handler_dtor_def dest: event_close_internal(1) split: if_splits)
  then show ?thesis by (rule keeps_cong [OF assms(2)])
next
  case (ready j m)
  show ?thesis by (rule keeps_cong [OF assms(2) on_ep_internal [OF ready(3) [unfolded el_ready_def]]])
next
  case (modify_own j m q)
  then have "internal t = internal s \<and> gone t = gone s"
    by (auto simp: el_modify_def dest: on_ep_internal)
  then show ?thesis by (rule keeps_cong [OF assms(2)])
next
  case stop_end
  from on_ep_internal [OF stop_end(3) [unfolded stop_wake_def]] assms(2) show ?thesis by (simp add: keeps_timer_def)
qed (use assms(2) in \<open>auto simp: keeps_timer_def stop_set_def die_def\<close>)

text \<open>
  Timers are never given up.  Once a timer handler is among the internal handlers, nothing that
  the library does later, its cancellation included, takes it out again: it stays held, and its
  descriptor open.
\<close>

lemma timer_never_released:
  assumes "run_reach E s t" and "en_kind E i = Timer" and "i \<in> set (internal s)" and "i \<notin> set (gone s)"
  shows "i \<in> set (internal t) \<and> held E t i"
proof -
  have "keeps_timer E i s" using assms(2-4) by (simp add: keeps_timer_def)
  with assms(1) have "keeps_timer E i t"
    by (induction rule: run_reach.induct) (auto intro: keeps_step)
  then show ?thesis by (simp add: keeps_timer_def held_def)
qed

definition cancelled_run :: "move list" where
  "cancelled_run = replicate 14 M_thread @ [M_close 1] @ replicate 13 M_thread"

lemma cancelled:
  "\<exists>s t. perform_all demo [M_attach 1, M_hand_over 1] (loop_new (ek_start [])) = Some s \<and> internal s = [1] \<and> gone s = []
     \<and> perform_all demo cancelled_run s = Some t \<and> pc t = Waiting \<and> closed t = [1] \<and> removed t 1"
  by (simp add: cancelled_run_def numeral_eq_Suc loop_eval removed_def)

lemma timer_never_released_witness:
  "\<exists>t. run_reach demo (loop_new (ek_start [])) t \<and> removed t 1 \<and> held demo t 1"
proof -
  from cancelled obtain s t where
    s: "perform_all demo [M_attach 1, M_hand_over 1] (loop_new (ek_start [])) = Some s" "internal s = [1]" "gone s = []"
    and t: "perform_all demo cancelled_run s = Some t" "removed t 1" by blast
  have "run_reach demo s t" by (rule perform_all_reach [OF run_reach.start t(1)])
  from timer_never_released [OF this, of 1] s have "held demo t 1" by simp
  with perform_all_reach [OF perform_all_run [OF s(1)] t(1)] t(2) show ?thesis by blast
qed


subsection \<open>A pass of the loop\<close>

text \<open>
  A successful read of the eventfd takes the whole counter, so the next one fails.
\<close>

definition efd_drains :: "('k, 'z) epoll_calls_scheme \<Rightarrow> bool" where
  "efd_drains K \<longleftrightarrow> (\<forall>k k'. ec_efd_read K k = (None, k') \<longrightarrow> fst (ec_efd_read K k') \<noteq> None)"

text \<open>
  How far the loop thread is from the end of the pass: the entries left, the stage of the work for
  the wakeup, what is left of the vector in hand, and a handler being called.
\<close>

fun pass_rank :: "pc \<Rightarrow> (nat \<times> nat \<times> nat) option" where
  "pass_rank (Batch b) = Some (length b, 0, 0)"
| "pass_rank (Reading b) = Some (length b, 7, 0)"
| "pass_rank (Take_adds b) = Some (length b, 6, 0)"
| "pass_rank (Adding is b) = Some (length b, 5, length is)"
| "pass_rank (Take_removes b) = Some (length b, 4, 0)"
| "pass_rank (Removing is b) = Some (length b, 3, length is)"
| "pass_rank (Take_readies b) = Some (length b, 2, 0)"
| "pass_rank (Readying xs b) = Some (length b, 1, length xs)"
| "pass_rank (Calling i m q) = pass_rank q"
| "pass_rank _ = None"

definition in_pass :: "'k loop \<Rightarrow> bool" where
  "in_pass s \<longleftrightarrow> pass_rank (pc s) \<noteq> None"

definition pass_size :: "'k env \<Rightarrow> 'k loop \<Rightarrow> nat \<times> nat \<times> nat \<times> nat \<times> nat" where
  "pass_size E s =
     (case the (pass_rank (pc s)) of (n, stage, items) \<Rightarrow>
        (n, stage, items, size (pc s),
         if fst (ec_efd_read (en_calls E) (ep_kernel (ep s))) = None then 1 else 0))"

definition smaller :: "((nat \<times> nat \<times> nat \<times> nat \<times> nat) \<times> (nat \<times> nat \<times> nat \<times> nat \<times> nat)) set" where
  "smaller = less_than <*lex*> less_than <*lex*> less_than <*lex*> less_than <*lex*> less_than"

lemma wf_smaller: "wf smaller"
  by (simp add: smaller_def wf_lex_prod)

lemma smaller_iff:
  "((a, b, c, d, e), (a', b', c', d', e')) \<in> smaller \<longleftrightarrow>
     a < a' \<or> a = a' \<and> (b < b' \<or> b = b' \<and> (c < c' \<or> c = c' \<and> (d < d' \<or> d = d' \<and> e < e')))"
  by (simp add: smaller_def)

lemma dead_out [simp]: "\<not> in_pass (die e s)"
  by (simp add: in_pass_def die_def)

lemma rank_call [simp]: "pass_rank (pc (call_or q x s)) = pass_rank q"
  by (simp add: call_or_def split: option.splits)

lemma pass_smaller:
  assumes "pass_rank (pc t) = Some (a, b, c)" and "pass_rank (pc s) = Some (a', b', c')"
    and "a < a' \<or> a = a' \<and> (b < b' \<or> b = b' \<and> (c < c' \<or> c = c' \<and> size (pc t) < size (pc s)))"
  shows "(pass_size E t, pass_size E s) \<in> smaller"
  using assms by (auto simp: pass_size_def smaller_iff)

lemma pass_decreases:
  assumes "efd_drains (en_calls E)" and "in_pass s" and "in_pass (loop_step E s)"
  shows "(pass_size E (loop_step E s), pass_size E s) \<in> smaller"
proof (cases "pc s")
  case (Batch b)
  with assms(3) show ?thesis
    by (cases b) (auto simp: loop_step_def step_entry_def in_pass_def intro: pass_smaller split: if_splits)
next
  case (Reading b)
  then show ?thesis using assms(1)
    by (auto simp: loop_step_def step_read_def pass_size_def smaller_iff efd_drains_def split: prod.splits)
next
  case (Adding js b)
  with assms(3) show ?thesis
    by (cases js) (auto simp: loop_step_def step_add_def intro: pass_smaller split: sum.splits)
next
  case (Removing js b)
  with assms(3) show ?thesis
    by (cases js) (auto simp: loop_step_def step_remove_def intro: pass_smaller split: sum.splits)
next
  case (Readying xs b)
  with assms(3) show ?thesis
    by (cases xs) (auto simp: loop_step_def step_ready_def intro: pass_smaller)
next
  case (Calling i m q)
  with assms(2) obtain a b c where q: "pass_rank q = Some (a, b, c)" by (auto simp: in_pass_def)
  have "pc (loop_step E s) = q"
    using assms(3) Calling by (auto simp: loop_step_def step_return_def finish_res_def split: sum.splits if_splits)
  with q Calling show ?thesis by (intro pass_smaller) auto
qed (use assms in \<open>auto simp: loop_step_def take_adds_def take_removes_def take_readies_def
      in_pass_def intro: pass_smaller\<close>)


lemma call_or_frame:
  "final_pass (call_or q c s) = final_pass s \<and> created (call_or q c s) = created s \<and> closed (call_or q c s) = closed s"
  by (simp add: call_or_def go_def split: option.splits)

lemma go_final [simp]: "final_pass (go q s) = final_pass s"
  by (simp add: go_def)

lemma event_close_final:
  "event_close E i s = Inr t \<Longrightarrow>
     final_pass t = final_pass s \<and> created t = created s \<and> set (closed t) = insert i (set (closed s))"
  "event_close E i s = Inl (x, t) \<Longrightarrow>
     final_pass t = final_pass s \<and> created t = created s \<and> set (closed s) \<subseteq> set (closed t)"
  by (auto simp: event_close_def el_remove_def on_ep_def Let_def split: if_splits sum.splits)

lemma event_close_detaching:
  "event_close E i s = Inr t \<Longrightarrow> detaching t = detaching s" "event_close E i s = Inl (x, t) \<Longrightarrow> detaching t = detaching s"
  by (auto simp: event_close_def el_remove_def on_ep_def Let_def split: if_splits sum.splits)

lemma execute_finish_final:
  "execute_finish E i s = Inr t \<Longrightarrow>
     final_pass t = final_pass s \<and> created t = created s \<and> set (closed s) \<subseteq> set (closed t)"
  "execute_finish E i s = Inl (x, t) \<Longrightarrow>
     final_pass t = final_pass s \<and> created t = created s \<and> set (closed s) \<subseteq> set (closed t)"
  by (auto simp: execute_finish_def remove_internal_def dest!: event_close_final split: if_splits sum.splits)

text \<open>The loop thread does its own \<open>Close\<close> in one step, and leaves those of others alone.\<close>

lemma thread_detaching [simp]: "detaching (loop_step E s) = detaching s"
proof (cases "pc s")
  case (Batch b)
  then show ?thesis by (cases b) (auto simp: loop_step_def step_entry_def call_or_def split: option.splits)
next
  case (Adding js b)
  then show ?thesis by (cases js) (auto simp: loop_step_def step_add_def call_or_def die_def split: sum.splits option.splits)
next
  case (Removing js b)
  then show ?thesis by (cases js) (auto simp: loop_step_def step_remove_def die_def split: sum.splits)
next
  case (Readying xs b)
  then show ?thesis by (cases xs) (auto simp: loop_step_def step_ready_def call_or_def split: option.splits)
next
  case (Calling i m q)
  then show ?thesis
    by (auto simp: loop_step_def step_return_def finish_res_def die_def execute_finish_def remove_internal_def
        dest!: event_close_detaching split: sum.splits if_splits)
next
  case (Closing js)
  then show ?thesis
    by (cases js) (auto simp: loop_step_def finish_res_def die_def on_ep_def dest!: event_close_detaching split: sum.splits)
qed (auto simp: loop_step_def run_check_def step_wait_def step_read_def take_adds_def take_removes_def take_readies_def die_def
    split: prod.splits sum.splits)

lemma thread_detaching_n [simp]: "detaching ((loop_step E ^^ n) s) = detaching s"
  by (induction n) simp_all

text \<open>Its steps leave the stop and the calls of \<open>Attach\<close> of others alone.\<close>

lemma event_close_flags:
  "event_close E i s = Inr t \<Longrightarrow> stop_flag t = stop_flag s \<and> stopping t = stopping s \<and> attaching t = attaching s \<and> created t = created s"
  "event_close E i s = Inl (x, t) \<Longrightarrow> stop_flag t = stop_flag s \<and> stopping t = stopping s \<and> attaching t = attaching s \<and> created t = created s"
  by (auto simp: event_close_def el_remove_def on_ep_def Let_def split: if_splits sum.splits)

lemma execute_finish_flags:
  "execute_finish E i s = Inr t \<Longrightarrow> stop_flag t = stop_flag s \<and> stopping t = stopping s \<and> attaching t = attaching s \<and> created t = created s"
  "execute_finish E i s = Inl (x, t) \<Longrightarrow> stop_flag t = stop_flag s \<and> stopping t = stopping s \<and> attaching t = attaching s \<and> created t = created s"
  by (auto simp: execute_finish_def remove_internal_def dest!: event_close_flags split: if_splits sum.splits)

lemma call_or_flags [simp]: "stop_flag (call_or q c s) = stop_flag s" "stopping (call_or q c s) = stopping s"
  "attaching (call_or q c s) = attaching s" "created (call_or q c s) = created s"
  by (simp_all add: call_or_def go_def split: option.splits)

lemma go_flags [simp]: "stop_flag (go q s) = stop_flag s" "stopping (go q s) = stopping s"
  "attaching (go q s) = attaching s" "created (go q s) = created s"
  by (simp_all add: go_def)

lemma die_flags [simp]: "stop_flag (die x s) = stop_flag s" "stopping (die x s) = stopping s"
  "attaching (die x s) = attaching s" "created (die x s) = created s"
  by (simp_all add: die_def)

lemma thread_flags:
  "stop_flag (loop_step E s) = stop_flag s \<and> stopping (loop_step E s) = stopping s
   \<and> attaching (loop_step E s) = attaching s \<and> created (loop_step E s) = created s"
proof (cases "pc s")
  case (Batch b)
  then show ?thesis by (cases b) (auto simp: loop_step_def step_entry_def)
next
  case (Adding js b)
  then show ?thesis by (cases js) (auto simp: loop_step_def step_add_def split: sum.splits)
next
  case (Removing js b)
  then show ?thesis by (cases js) (auto simp: loop_step_def step_remove_def split: sum.splits)
next
  case (Readying xs b)
  then show ?thesis by (cases xs) (auto simp: loop_step_def step_ready_def)
next
  case (Calling i m q)
  then show ?thesis
    by (auto simp: loop_step_def step_return_def finish_res_def dest!: execute_finish_flags split: sum.splits)
next
  case (Closing js)
  then show ?thesis
    by (cases js) (auto simp: loop_step_def finish_res_def on_ep_def dest!: event_close_flags split: sum.splits)
qed (auto simp: loop_step_def run_check_def step_wait_def step_read_def take_adds_def take_removes_def take_readies_def
    split: prod.splits sum.splits)

lemma thread_attaching [simp]: "attaching (loop_step E s) = attaching s"
  using thread_flags [of E s] by simp

text \<open>Only events of other handlers than those of \<open>ExecuteOnce\<close> are ever closed by halves.\<close>

lemma on_ep_detaching: "on_ep f s = Inr t \<Longrightarrow> detaching t = detaching s"
  by (auto simp: on_ep_def)

lemma attach_begin_detaching: "attach_begin i s = Inr t \<Longrightarrow> detaching t = detaching s"
  by (auto simp: attach_begin_def create_event_def Let_def split: if_splits)

lemma attach_internal_detaching: "attach_internal_begin i s = Inr t \<Longrightarrow> detaching t = detaching s"
  unfolding attach_internal_begin_def by (drule attach_begin_detaching) simp

lemma run_step_detaching:
  assumes "run_step E s t" and "i \<in> set (detaching t)"
  shows "i \<in> set (detaching s) \<or> en_kind E i \<noteq> Execute"
  using assms(1)
proof cases
  case (close_begin j)
  then show ?thesis using assms(2) by (auto simp: close_begin_def split: if_splits)
next
  case (close_end j)
  from on_ep_detaching [OF close_end(3) [unfolded close_end_def]] assms(2) show ?thesis
    by (auto dest: notin_set_remove1 [rotated])
next
  case (hand_over j)
  from on_ep_detaching [OF hand_over(3) [unfolded attach_end_def]] assms(2) show ?thesis by simp
next
  case (destroy j)
  then show ?thesis using assms(2) by (auto simp: handler_dtor_def dest: event_close_detaching(1) split: if_splits)
next
  case (ready j m)
  from on_ep_detaching [OF ready(3) [unfolded el_ready_def]] assms(2) show ?thesis by simp
next
  case (modify_own j m q)
  then show ?thesis using assms(2) by (auto simp: el_modify_def dest: on_ep_detaching)
next
  case stop_end
  from on_ep_detaching [OF stop_end(3) [unfolded stop_wake_def]] assms(2) show ?thesis by simp
qed (use assms(2) in \<open>auto simp: stop_set_def die_def simp del: fresh_handle_def
    dest: attach_begin_detaching attach_internal_detaching event_close_detaching\<close>)

lemma reach_detaching:
  assumes "run_reach E (loop_new k) s" and "i \<in> set (detaching s)"
  shows "en_kind E i \<noteq> Execute"
  using assms
proof (induction rule: run_reach.induct)
  case start
  then show ?case by (simp add: loop_new_def)
next
  case (move s t)
  with run_step_detaching [OF move(2)] show ?case by blast
qed

text \<open>A step within a pass: it stays in the pass, ends it, or dies; the books of the loop only grow.\<close>

lemma pass_step:
  assumes "in_pass s"
  shows "in_pass (loop_step E s) \<or> pc (loop_step E s) = (if final_pass s then Finished else Checking)
      \<or> (\<exists>x. pc (loop_step E s) = Dead x)"
    and "final_pass (loop_step E s) = final_pass s \<and> created (loop_step E s) = created s
      \<and> set (closed s) \<subseteq> set (closed (loop_step E s))"
proof -
  have "(in_pass (loop_step E s) \<or> pc (loop_step E s) = (if final_pass s then Finished else Checking)
      \<or> (\<exists>x. pc (loop_step E s) = Dead x))
    \<and> final_pass (loop_step E s) = final_pass s \<and> created (loop_step E s) = created s
      \<and> set (closed s) \<subseteq> set (closed (loop_step E s))"
  proof (cases "pc s")
    case (Batch b)
    then show ?thesis
      by (cases b) (auto simp: loop_step_def step_entry_def in_pass_def call_or_frame)
  next
    case (Adding js b)
    then show ?thesis
      by (cases js) (auto simp: loop_step_def step_add_def in_pass_def call_or_frame die_def split: sum.splits)
  next
    case (Removing js b)
    then show ?thesis
      by (cases js) (auto simp: loop_step_def step_remove_def in_pass_def die_def split: sum.splits)
  next
    case (Readying xs b)
    then show ?thesis
      by (cases xs) (auto simp: loop_step_def step_ready_def in_pass_def call_or_frame)
  next
    case (Calling i m q)
    with assms have "pass_rank q \<noteq> None" by (simp add: in_pass_def)
    with Calling show ?thesis
      by (auto simp: loop_step_def step_return_def finish_res_def in_pass_def die_def
          dest!: execute_finish_final split: sum.splits)
  qed (use assms in \<open>auto simp: loop_step_def step_read_def take_adds_def take_removes_def take_readies_def
      in_pass_def split: prod.splits\<close>)
  then show "in_pass (loop_step E s) \<or> pc (loop_step E s) = (if final_pass s then Finished else Checking)
      \<or> (\<exists>x. pc (loop_step E s) = Dead x)"
    and "final_pass (loop_step E s) = final_pass s \<and> created (loop_step E s) = created s
      \<and> set (closed s) \<subseteq> set (closed (loop_step E s))" by blast+
qed

text \<open>The end of a pass, with what its steps keep.\<close>

lemma pass_induct:
  assumes "efd_drains (en_calls E)" and "in_pass s" and "Q s"
    and step: "\<And>u. in_pass u \<Longrightarrow> Q u \<Longrightarrow> Q (loop_step E u)"
  shows "\<exists>n t. t = (loop_step E ^^ n) s \<and> Q t \<and> final_pass t = final_pass s
    \<and> (pc t = (if final_pass s then Finished else Checking) \<or> (\<exists>x. pc t = Dead x))"
  using wf_smaller assms(2,3)
proof (induction "pass_size E s" arbitrary: s rule: wf_induct_rule)
  case less
  note st = pass_step [OF less.prems(1), of E]
  note q = step [OF less.prems]
  show ?case
  proof (cases "in_pass (loop_step E s)")
    case True
    from less.hyps [OF pass_decreases [OF assms(1) less.prems(1) True] True q] st(2) obtain n where
      "Q ((loop_step E ^^ n) (loop_step E s))"
      "final_pass ((loop_step E ^^ n) (loop_step E s)) = final_pass s"
      "pc ((loop_step E ^^ n) (loop_step E s)) = (if final_pass s then Finished else Checking)
        \<or> (\<exists>x. pc ((loop_step E ^^ n) (loop_step E s)) = Dead x)" by metis
    then show ?thesis by (intro exI [of _ "Suc n"]) (simp add: funpow_swap1)
  next
    case False
    with st q show ?thesis by (intro exI [of _ "Suc 0"]) auto
  qed
qed

lemma pass_ends:
  assumes "efd_drains (en_calls E)" and "in_pass s"
  shows "\<exists>n t. t = (loop_step E ^^ n) s
    \<and> (pc t = (if final_pass s then Finished else Checking) \<or> (\<exists>x. pc t = Dead x))
    \<and> created t = created s \<and> set (closed s) \<subseteq> set (closed t)"
  using pass_induct [where Q = "\<lambda>u. created u = created s \<and> set (closed s) \<subseteq> set (closed u)", OF assms] pass_step(2)
  by fastforce

text \<open>The loop thread alone stays within the reachable states.\<close>

lemma thread_reach:
  assumes "run_reach E (loop_new k) s" and "epoll_ok (en_wake_fd E) (en_calls E)" and "fresh_start E k"
  shows "run_reach E (loop_new k) ((loop_step E ^^ n) s)"
proof (induction n)
  case (Suc n)
  let ?u = "(loop_step E ^^ n) s"
  show ?case
  proof (cases "running ?u")
    case True
    have "loop_inv E ?u" by (rule reach_running_inv [OF Suc assms(2,3) True])
    then have "\<not> lock_held ?u" by (simp add: loop_inv_def books_ok_def)
    from run_reach.move [OF Suc run_step.thread [OF True this]] show ?thesis by simp
  next
    case False
    then have "pc ?u = Finished \<or> (\<exists>x. pc ?u = Dead x)" by (auto simp: running_def split: pc.splits)
    then have "loop_step E ?u = ?u" by (auto simp: loop_step_def)
    with Suc show ?thesis by simp
  qed
qed (simp add: assms(1))

lemma thread_dead:
  assumes "run_reach E (loop_new k) s" and "epoll_ok (en_wake_fd E) (en_calls E)" and "fresh_start E k"
    and "pc ((loop_step E ^^ n) s) = Dead x"
  shows "x = Thrown ''event not found''"
  using run_reach_inv [OF thread_reach [OF assms(1-3), of n] assms(2,3)] loop_inv_not_dead assms(4) overtakenD(1)
  by fastforce

text \<open>
  A pass ends.  From every moment in the middle of a pass over what \<open>epoll_wait\<close> reported, in
  every reachable state, the loop thread comes to the next test of \<open>stop_\<close> (or, after the last
  pass, to its end) in finitely many of its own steps, unless an event was overtaken.
\<close>

lemma loop_pass_ends:
  assumes "epoll_ok (en_wake_fd E) (en_calls E)" and "efd_drains (en_calls E)" and "fresh_start E k"
    and "run_reach E (loop_new k) s" and "in_pass s"
  shows "\<exists>n. pc ((loop_step E ^^ n) s) =
    (if final_pass s then Finished else Checking) \<or> pc ((loop_step E ^^ n) s) = Dead (Thrown ''event not found'')"
proof -
  from pass_ends [OF assms(2,5)] obtain n where
    "pc ((loop_step E ^^ n) s) = (if final_pass s then Finished else Checking)
      \<or> (\<exists>x. pc ((loop_step E ^^ n) s) = Dead x)" by blast
  then show ?thesis using thread_dead [OF assms(4,1,3), of n] by blast
qed

lemma scripted_drains: "efd_drains (en_calls demo)"
  by (simp add: efd_drains_def scripted_epoll_def)

lemma loop_pass_ends_witness:
  "\<exists>s n. pc s = Calling 2 1 (Batch []) \<and>
     (pc ((loop_step demo ^^ n) s) = (if final_pass s then Finished else Checking)
       \<or> pc ((loop_step demo ^^ n) s) = Dead (Thrown ''event not found''))"
proof -
  from called obtain s where s: "perform_all demo called_run (loop_new (ek_start [[], [(8, 1)]])) = Some s"
    "pc s = Calling 2 1 (Batch [])" by blast
  have r: "run_reach demo (loop_new (ek_start [[], [(8, 1)]])) s" by (rule perform_all_run [OF s(1)])
  have "in_pass s" by (simp add: in_pass_def s(2))
  from loop_pass_ends [OF demo_ok scripted_drains demo_start r this] s(2) show ?thesis by blast
qed

subsection \<open>An event closed as soon as it is attached\<close>

lemma event_close_queues:
  "event_close E i s = Inr t \<Longrightarrow> attaching t = attaching s \<and> pending_add (ep t) = pending_add (ep s) \<and> pc t = pc s
     \<and> set (pending_remove (ep t)) \<subseteq> insert i (set (pending_remove (ep s)))
     \<and> set (pending_remove (ep s)) \<subseteq> set (pending_remove (ep t))"
  by (auto simp: event_close_def el_remove_def on_ep_def ep_remove_def add_element_def ep_wakeup_def Let_def
      split: if_splits sum.splits prod.splits option.splits)

lemma execute_finish_removes:
  "execute_finish E i s = Inr t \<Longrightarrow> attaching t = attaching s \<and> pending_add (ep t) = pending_add (ep s) \<and> pc t = pc s
     \<and> set (pending_remove (ep t)) \<subseteq> insert i (set (pending_remove (ep s)))
     \<and> set (pending_remove (ep s)) \<subseteq> set (pending_remove (ep t))"
  by (auto simp: execute_finish_def remove_internal_def dest!: event_close_queues split: if_splits sum.splits)

text \<open>The removal is queued or in hand, ahead of the addition.\<close>

definition doomed :: "'k env \<Rightarrow> nat \<Rightarrow> 'k loop \<Rightarrow> bool" where
  "doomed E j s \<longleftrightarrow> loop_inv E s \<and> j \<in> set (pending_add (ep s))
     \<and> (j \<in> set (pending_remove (ep s)) \<and> adds_taken (pc s) \<or> j \<in> set (removing_of (pc s)))"

lemma doomed_step:
  assumes "epoll_ok (en_wake_fd E) (en_calls E)" and "doomed E j s" and "in_pass s" and "0 \<le> en_handle E j"
  shows "doomed E j (loop_step E s) \<or> (\<exists>x. pc (loop_step E s) = Dead x)"
proof (cases "\<exists>x. pc (loop_step E s) = Dead x")
  case False
  then have nd: "\<forall>x. pc (loop_step E s) \<noteq> Dead x" by blast
  from assms(2) have iv: "loop_inv E s" and a: "j \<in> set (pending_add (ep s))"
    and r: "j \<in> set (pending_remove (ep s)) \<and> adds_taken (pc s) \<or> j \<in> set (removing_of (pc s))" by (simp_all add: doomed_def)
  have inv: "loop_inv E (loop_step E s)" using loop_step_inv [OF assms(1) iv] nd overtakenD(1) by blast
  have "j \<in> set (pending_add (ep (loop_step E s))) \<and> (j \<in> set (pending_remove (ep (loop_step E s))) \<and> adds_taken (pc (loop_step E s))
    \<or> j \<in> set (removing_of (pc (loop_step E s))))"
  proof (cases "pc s")
    case (Adding js b)
    with a r nd show ?thesis
      by (cases js) (auto simp: loop_step_def step_add_def die_def add_finalize_def call_or_def Let_def
          split: sum.splits if_splits prod.splits option.splits)
  next
    case (Removing js b)
    show ?thesis
    proof (cases js)
      case (Cons i ks)
      have "i \<noteq> j"
      proof
        assume "i = j"
        moreover from this have "registered (ep s) (en_handle E j) = None"
          using removing_early(1) [OF iv, of j ks b] Removing Cons assms(4) a by (simp add: incoming_def)
        ultimately show False using nd Removing Cons assms(4)
          by (simp add: loop_step_def step_remove_def remove_finalize_def die_def)
      qed
      with Removing Cons a r nd show ?thesis
        by (auto simp: loop_step_def step_remove_def die_def remove_finalize_def Let_def
            split: sum.splits if_splits prod.splits option.splits)
    qed (use Removing r in simp)
  next
    case (Calling i m q)
    with a r nd show ?thesis
      by (auto simp: loop_step_def step_return_def finish_res_def die_def dest!: execute_finish_removes split: sum.splits)
  qed (use a r assms(3) in \<open>auto simp: loop_step_def take_removes_def in_pass_def\<close>)
  with inv show ?thesis by (simp add: doomed_def)
qed blast

text \<open>
  C22: an event closed as soon as it is attached kills the loop.  Let a function given to \<open>ExecuteOnce\<close> be running on
  the loop thread, in any reachable state, and let it attach a new timer with a descriptor and cancel it
  at once, which closes its event.  Then the loop thread, with nobody interfering, dies of
  ''event not found'' in finitely many steps: it takes the removal before the addition.
\<close>

theorem attach_cancel_kills:
  assumes "epoll_ok (en_wake_fd E) (en_calls E)" and "efd_drains (en_calls E)" and "fresh_start E k"
    and "run_reach E (loop_new k) s" and "pc s = Calling i m (Adding is b)" and "en_kind E i = Execute"
    and "en_kind E j = Timer" and "0 \<le> en_handle E j" and "fresh_handle E j s" and "j \<notin> set (gone s)"
    and "attach_internal_begin j s = Inr t" and "attach_end E j t = Inr u" and "event_close E j u = Inr v"
  shows "\<exists>n. pc ((loop_step E ^^ n) v) = Dead (Thrown ''event not found'')"
proof -
  have ok: "efd_ok (en_calls E)" using assms(1) by (simp add: epoll_ok_def)
  have run: "running s" by (simp add: running_def assms(5))
  have iv: "loop_inv E s" by (rule reach_running_inv [OF assms(4,1,3) run])
  then have lk: "\<not> lock_held s" by (simp add: loop_inv_def books_ok_def)
  have st: "run_step E s t"
    by (rule run_step.internal_attach [OF run lk assms(10) _ _ assms(9,11)]) (simp_all add: assms(7))
  from assms(11) have t: "pc t = pc s" "j \<in> set (attaching t)" "j \<in> set (created t)" "j \<notin> set (created s)" "closed t = closed s"
    by (auto simp: attach_internal_begin_def attach_begin_def create_event_def Let_def split: if_splits)
  have rt: "running t" using run t(1) by (simp add: running_def)
  have ivt: "loop_inv E t" using run_step_inv [OF assms(1) iv st] rt overtakenD(1) by (fastforce simp: running_def)
  have tu: "run_step E t u" by (rule run_step.hand_over [OF rt t(2) assms(12)])
  from assms(12) ep_add_cases [OF ok, of j "ep t"] t have u: "pc u = pc s" "j \<in> set (pending_add (ep u))" "j \<in> set (created u)" "closed u = closed s"
    by (auto simp: attach_end_def on_ep_def)
  have ru: "running u" using run u(1) by (simp add: running_def)
  have ivu: "loop_inv E u" by (rule attach_end_inv [OF ok ivt assms(12) t(2)])
  then have lu: "\<not> lock_held u" by (simp add: loop_inv_def books_ok_def)
  have uv: "run_step E u v" by (rule run_step.close [OF ru lu u(3) assms(13)])
  have "j \<notin> set (closed s)" using life_sets(1) [OF loop_invD(1) [OF iv, unfolded lives_def], of j] t(4) by blast
  with assms(13) ep_remove_cases [OF ok, of j "ep u"] u(2,4)
  have q: "j \<in> set (pending_remove (ep v))" "j \<in> set (pending_add (ep v))"
    by (auto simp: event_close_def el_remove_def on_ep_def Let_def split: if_splits sum.splits)
  have pv: "pc v = pc s" using event_close_frame [OF assms(13)] u(1) by simp
  have "loop_inv E v" using event_close_inv [OF ok ivu u(3)] assms(13) by auto
  with q pv assms(5) have dm: "doomed E j v" by (simp add: doomed_def)
  have ip: "in_pass v" using pv assms(5) by (simp add: in_pass_def)
  let ?Q = "\<lambda>w. doomed E j w \<or> (\<exists>x. pc w = Dead x)"
  have step: "?Q (loop_step E w)" if "in_pass w" "?Q w" for w
    using that doomed_step [OF assms(1) _ that(1) assms(8)] by (auto simp: in_pass_def)
  obtain n where n: "?Q ((loop_step E ^^ n) v)"
      "pc ((loop_step E ^^ n) v) = (if final_pass v then Finished else Checking) \<or> (\<exists>x. pc ((loop_step E ^^ n) v) = Dead x)"
    using pass_induct [where Q = ?Q, OF assms(2) ip disjI1 [OF dm] step] by blast
  then obtain x where x: "pc ((loop_step E ^^ n) v) = Dead x" by (auto simp: doomed_def split: if_splits)
  have "run_reach E (loop_new k) v"
    using assms(4) st tu uv by (blast intro: run_reach.move)
  from thread_dead [OF this assms(1,3) x] x show ?thesis by blast
qed

lemma in_function:
  "\<exists>s t u v. perform_all demo ([M_attach 0, M_hand_over 0] @ replicate 7 M_thread) (loop_new (ek_start [])) = Some s
     \<and> pc s = Calling 0 0 (Adding [] []) \<and> fresh_handle demo 1 s \<and> gone s = []
     \<and> attach_internal_begin 1 s = Inr t \<and> attach_end demo 1 t = Inr u \<and> event_close demo 1 u = Inr v"
  by (simp add: numeral_eq_Suc loop_eval)

theorem attach_cancel_kills_witness:
  "\<exists>v n. pc v = Calling 0 0 (Adding [] []) \<and> pc ((loop_step demo ^^ n) v) = Dead (Thrown ''event not found'')"
proof -
  from in_function obtain s t u v where
    s: "perform_all demo ([M_attach 0, M_hand_over 0] @ replicate 7 M_thread) (loop_new (ek_start [])) = Some s"
      "pc s = Calling 0 0 (Adding [] [])" "fresh_handle demo 1 s" "gone s = []"
    and v: "attach_internal_begin 1 s = Inr t" "attach_end demo 1 t = Inr u" "event_close demo 1 u = Inr v" by blast
  have r: "run_reach demo (loop_new (ek_start [])) s" by (rule perform_all_run [OF s(1)])
  have "pc v = pc s" using v event_close_frame [OF v(3)]
    by (auto simp: attach_internal_begin_def attach_begin_def create_event_def attach_end_def on_ep_def Let_def split: if_splits sum.splits)
  with attach_cancel_kills [OF demo_ok scripted_drains demo_start r s(2) _ _ _ s(3) _ v] s(2,4) show ?thesis by auto
qed

subsection \<open>Stopping\<close>

text \<open>Closing all events: one step each, then the last wakeup and the last wait.\<close>

lemma closing_ends:
  assumes "efd_ok (en_calls E)" and "loop_inv E s" and "pc s = Closing is" and "detaching s = []"
  shows "\<exists>n. pc ((loop_step E ^^ n) s) = Waiting \<and> final_pass ((loop_step E ^^ n) s)
    \<and> created ((loop_step E ^^ n) s) = created s
    \<and> set is \<union> set (closed s) \<subseteq> set (closed ((loop_step E ^^ n) s))
    \<and> ep_due (en_calls E) (ep ((loop_step E ^^ n) s))"
  using assms(2-4)
proof (induction "is" arbitrary: s)
  case Nil
  from ep_wakeup_cases [OF assms(1), of "ep s"] obtain k where
    k: "ep_wakeup (en_calls E) (ep s) = Inr ((ep s)\<lparr>ep_kernel := k\<rparr>)" "obs_due (en_calls E) k" by blast
  then have "loop_step E s = go Waiting (s\<lparr>ep := (ep s)\<lparr>ep_kernel := k\<rparr>, final_pass := True\<rparr>)"
    using Nil.prems(2) by (simp add: loop_step_def on_ep_def)
  with k(2) show ?case by (intro exI [of _ 1]) (auto simp: go_def)
next
  case (Cons i js)
  have "i \<in> set (created s)" using loop_invD(3) [OF Cons.prems(1)] Cons.prems(2) by (auto simp: books_ok_def)
  from event_close_inv [OF assms(1) Cons.prems(1) this] obtain t where t: "event_close E i s = Inr t" by blast
  then have st: "loop_step E s = go (Closing js) t" "detaching (go (Closing js) t) = []"
    using Cons.prems(2,3) event_close_detaching(1) [OF t] by (simp_all add: loop_step_def finish_res_def)
  have inv: "loop_inv E (go (Closing js) t)"
    using run_close_inv [OF assms(1) Cons.prems(1,2)] Cons.prems(2) st(1) by (simp add: loop_step_def)
  from Cons.IH [OF this _ st(2)] event_close_final(1) [OF t] obtain n where
    "pc ((loop_step E ^^ n) (loop_step E s)) = Waiting" "final_pass ((loop_step E ^^ n) (loop_step E s))"
    "created ((loop_step E ^^ n) (loop_step E s)) = created s"
    "set js \<union> insert i (set (closed s)) \<subseteq> set (closed ((loop_step E ^^ n) (loop_step E s)))"
    "ep_due (en_calls E) (ep ((loop_step E ^^ n) (loop_step E s)))"
    by (auto simp: st(1))
  then show ?case by (intro exI [of _ "Suc n"]) (simp add: funpow_swap1)
qed

lemma stop_closes:
  assumes "efd_ok (en_calls E)" and "loop_inv E s" and "pc s = Checking" and "stop_flag s" and "detaching s = []"
  shows "\<exists>n. pc ((loop_step E ^^ n) s) = Waiting \<and> final_pass ((loop_step E ^^ n) s)
    \<and> created ((loop_step E ^^ n) s) = created s \<and> set (created s) \<subseteq> set (closed ((loop_step E ^^ n) s))
    \<and> ep_due (en_calls E) (ep ((loop_step E ^^ n) s))"
proof -
  have s1: "loop_step E s = go (Closing (el_events s)) s" using assms(3,4) by (simp add: loop_step_def run_check_def)
  have "loop_inv E (loop_step E s)" using run_check_inv [OF assms(2,3)] assms(3) by (simp add: loop_step_def)
  from closing_ends [OF assms(1) this, of "el_events s"] assms(5) obtain n where
    "pc ((loop_step E ^^ n) (loop_step E s)) = Waiting" "final_pass ((loop_step E ^^ n) (loop_step E s))"
    "created ((loop_step E ^^ n) (loop_step E s)) = created (loop_step E s)"
    "set (el_events s) \<union> set (closed (loop_step E s)) \<subseteq> set (closed ((loop_step E ^^ n) (loop_step E s)))"
    "ep_due (en_calls E) (ep ((loop_step E ^^ n) (loop_step E s)))"
    unfolding s1 go_simps by blast
  moreover have "created (loop_step E s) = created s" "closed (loop_step E s) = closed s" by (simp_all add: s1)
  moreover have "set (created s) \<subseteq> set (el_events s) \<union> set (closed s)"
    using loop_invD(3) [OF assms(2)] by (auto simp: books_ok_def)
  ultimately have "pc ((loop_step E ^^ Suc n) s) = Waiting \<and> final_pass ((loop_step E ^^ Suc n) s)
    \<and> created ((loop_step E ^^ Suc n) s) = created s \<and> set (created s) \<subseteq> set (closed ((loop_step E ^^ Suc n) s))
    \<and> ep_due (en_calls E) (ep ((loop_step E ^^ Suc n) s))"
    unfolding funpow_Suc_right comp_apply by auto
  then show ?thesis by blast
qed

text \<open>
  Stopping works.  When the loop thread finds \<open>stop_\<close> set, in every reachable state and with no
  further calls from outside and none in the middle of a \<open>Close\<close>, it comes to its end in finitely many steps, with every event closed
  that was created, unless an event was overtaken: \<open>Stop\<close>, which waits for the thread, returns.
\<close>

lemma loop_stop_finishes:
  assumes "epoll_ok (en_wake_fd E) (en_calls E)" and "efd_drains (en_calls E)" and "fresh_start E k"
    and "run_reach E (loop_new k) s" and "pc s = Checking" and "stop_flag s" and "detaching s = []"
  shows "\<exists>n t. t = (loop_step E ^^ n) s \<and> set (created t) \<subseteq> set (closed t)
    \<and> (pc t = Finished \<or> pc t = Dead (Thrown ''event not found''))"
proof -
  have ok: "wait_ok (en_wake_fd E) (en_calls E)" "efd_ok (en_calls E)" using assms(1) by (simp_all add: epoll_ok_def)
  have iv: "loop_inv E s" by (rule reach_running_inv [OF assms(4,1,3)]) (simp add: running_def assms(5))
  from stop_closes [OF ok(2) iv assms(5-7)] obtain n where
    n: "pc ((loop_step E ^^ n) s) = Waiting" "final_pass ((loop_step E ^^ n) s)"
      "created ((loop_step E ^^ n) s) = created s" "set (created s) \<subseteq> set (closed ((loop_step E ^^ n) s))" by blast
  define u where "u = (loop_step E ^^ n) s"
  obtain r k where w: "ec_wait (en_calls E) max_events (ep_kernel (ep u)) = (r, k)" by fastforce
  with ok(1) obtain b where "r = Inr b" unfolding wait_ok_def by blast
  note n = n [folded u_def]
  with w \<open>r = Inr b\<close> have v: "loop_step E u = go (Batch b) (u\<lparr>ep := (ep u)\<lparr>ep_kernel := k\<rparr>\<rparr>)"
    by (simp add: loop_step_def step_wait_def)
  have u: "final_pass (loop_step E u)" "created (loop_step E u) = created s" "closed (loop_step E u) = closed u"
    using n(2,3) by (simp_all add: v go_def)
  have "in_pass (loop_step E u)" by (simp add: v in_pass_def)
  from pass_ends [OF assms(2) this, unfolded u(2,3)] u(1) obtain m where
    m: "pc ((loop_step E ^^ m) (loop_step E u)) = Finished \<or> (\<exists>x. pc ((loop_step E ^^ m) (loop_step E u)) = Dead x)"
      "created ((loop_step E ^^ m) (loop_step E u)) = created s"
      "set (closed u) \<subseteq> set (closed ((loop_step E ^^ m) (loop_step E u)))"
    by (simp only: if_True) blast
  define t where "t = (loop_step E ^^ (m + 1 + n)) s"
  have eq: "(loop_step E ^^ m) (loop_step E u) = t"
    unfolding t_def u_def by (simp add: funpow_add funpow_swap1)
  have "set (created t) \<subseteq> set (closed t)"
    using m(2,3) n(4) unfolding eq by auto
  moreover have "pc t = Finished \<or> pc t = Dead (Thrown ''event not found'')"
    using m(1) thread_dead [OF assms(4,1,3)] unfolding eq t_def by blast
  ultimately show ?thesis unfolding t_def by blast
qed


lemma stopped:
  "\<exists>t. perform_all demo [M_attach 2, M_hand_over 2, M_stop] (loop_new (ek_start [])) = Some t
     \<and> pc t = Checking \<and> stop_flag t \<and> created t = [2] \<and> attaching t = [] \<and> detaching t = []
     \<and> ek_script (ep_kernel (ep t)) = []"
  by (simp add: loop_eval)

lemma loop_stop_finishes_witness:
  "\<exists>s n. run_reach demo (loop_new (ek_start [])) s \<and> created s = [2]
    \<and> set (created ((loop_step demo ^^ n) s)) \<subseteq> set (closed ((loop_step demo ^^ n) s))"
proof -
  from stopped obtain s where s: "perform_all demo [M_attach 2, M_hand_over 2, M_stop] (loop_new (ek_start [])) = Some s"
    "pc s = Checking" "stop_flag s" "created s = [2]" "detaching s = []" by blast
  have r: "run_reach demo (loop_new (ek_start [])) s" by (rule perform_all_run [OF s(1)])
  from loop_stop_finishes [OF demo_ok scripted_drains demo_start r s(2,3,5)] r s(4) show ?thesis by blast
qed

subsection \<open>Creation\<close>

text \<open>
  A new event loop.  When its creation returns, the loop is in its initial state over a kernel
  that watches exactly the wakeup descriptor, which is where all the runs above start; when one of
  the three system calls fails, the creation throws its error.
\<close>

lemma loop_create_fresh:
  assumes "ctl_ok K" and "obs_watch K k = (\<lambda>h. None)"
    and "\<And>k. obs_watch K (snd (epoll_create1 k)) = obs_watch K k"
    and "\<And>k. obs_watch K (snd (eventfd k)) = obs_watch K k"
    and "\<And>k h. fst (eventfd k) = Inr h \<Longrightarrow> 0 \<le> h"
  shows "(case el_create A K epoll_create1 eventfd k of
      Inr (w, s) \<Rightarrow> \<exists>k'. s = loop_new k' \<and> (\<forall>E. en_calls E = K \<longrightarrow> en_wake_fd E = w \<longrightarrow> fresh_start E k')
    | Inl x \<Rightarrow> (\<exists>e. fst (epoll_create1 k) = Inl e \<and> x = System_error e ''epoll_create1 failed'')
        \<or> (\<exists>e k1. snd (epoll_create1 k) = k1 \<and> fst (eventfd k1) = Inl e \<and> x = System_error e ''eventfd failed''))"
proof -
  obtain r1 k1 where 1: "epoll_create1 k = (r1, k1)" by fastforce
  obtain r2 k2 where 2: "eventfd k1 = (r2, k2)" by fastforce
  have w: "obs_watch K k2 = (\<lambda>h. None)" using assms(2) assms(3) [of k] assms(4) [of k1] 1 2 by simp
  show ?thesis
  proof (cases r1)
    case (Inl e)
    with 1 show ?thesis by (simp add: el_create_def ep_create_def)
  next
    case r1: (Inr efd)
    show ?thesis
    proof (cases r2)
      case (Inl e)
      with 1 2 r1 show ?thesis by (simp add: el_create_def ep_create_def)
    next
      case r2: (Inr h)
      obtain r3 k3 where 3: "ec_ctl_add K h (EPOLLET A OR EPOLLIN A) k2 = (r3, k3)" by fastforce
      have "0 \<le> h" using assms(5) [of k1 h] 2 r2 by simp
      with assms(1) w 3 have "r3 = None" "obs_watch K k3 = (obs_watch K k2)(h \<mapsto> EPOLLET A OR EPOLLIN A)"
        unfolding ctl_ok_def by metis+
      with 1 2 3 r1 r2 w show ?thesis
        by (auto simp: el_create_def ep_create_def ep_new_def fresh_start_def split: if_splits intro!: exI [of _ k3])
    qed
  qed
qed

definition ek_blank :: ek where
  "ek_blank = (ek_start [])\<lparr>ek_watch := []\<rparr>"

lemma loop_create_fresh_witness:
  "\<exists>s. el_create linux_abi scripted_epoll (\<lambda>k. (Inr 4, k)) (\<lambda>k. (Inr wake, k)) ek_blank = Inr (wake, s)
     \<and> (\<exists>k'. s = loop_new k' \<and> fresh_start demo k')"
proof -
  have "ctl_ok scripted_epoll" using scripted_epoll_ok by (simp add: epoll_ok_def)
  moreover have "obs_watch scripted_epoll ek_blank = (\<lambda>h. None)"
    by (simp add: scripted_epoll_def ek_blank_def)
  moreover have e: "el_create linux_abi scripted_epoll (\<lambda>k. (Inr 4, k)) (\<lambda>k. (Inr wake, k)) ek_blank
      = Inr (wake, loop_new (ek_start []))"
    by (simp add: ek_blank_def el_create_def ep_create_def scripted_epoll_def ek_start_def ek_add_def ep_new_def)
  ultimately have "\<exists>k'. loop_new (ek_start []) = loop_new k'
      \<and> (\<forall>E. en_calls E = scripted_epoll \<longrightarrow> en_wake_fd E = wake \<longrightarrow> fresh_start E k')"
    using loop_create_fresh [of scripted_epoll ek_blank "\<lambda>k. (Inr 4, k)" "\<lambda>k. (Inr wake, k)" linux_abi]
    by (simp add: wake_def)
  then show ?thesis using e demo_simps(2,3) by blast
qed

end
