(* ===== verification/Loop_Ready.thy ===== *)
theory Loop_Ready
  imports Loop_Progress
begin

text \<open>
  Ready events: an event that is in the table and stays open gets every ready event that was queued
  for it, under every interleaving; one that is not in the table yet may lose it.
\<close>

subsection \<open>Ready events on their way\<close>

text \<open>Queued, taken, or delivered since the history was \<open>h\<close>.\<close>

definition ready_coming :: "lobs list \<Rightarrow> nat \<times> mask \<Rightarrow> 'k loop \<Rightarrow> bool" where
  "ready_coming h x s \<longleftrightarrow> (\<exists>ys. history s = h @ ys
     \<and> (x \<in> set (pending_ready (ep s)) \<or> x \<in> set (readying_of (pc s)) \<or> L_call (fst x) (snd x) \<in> set ys))"

definition listed :: "'k env \<Rightarrow> nat \<Rightarrow> 'k loop \<Rightarrow> bool" where
  "listed E i s \<longleftrightarrow> registered (ep s) (en_handle E i) = Some i"

text \<open>
  What a step does to the ready events and the table: it keeps the ready events, takes one from the
  vector in hand and calls the handler, or forgets it because the handler is gone or not listed.
\<close>

definition ready_kept :: "'k loop \<Rightarrow> 'k loop \<Rightarrow> bool" where
  "ready_kept s t \<longleftrightarrow> (\<exists>ys. history t = history s @ ys)
     \<and> set (pending_ready (ep s)) \<union> set (readying_of (pc s)) \<subseteq> set (pending_ready (ep t)) \<union> set (readying_of (pc t))"

lemma coming_kept:
  assumes "ready_coming h x s" and "ready_kept s t"
  shows "ready_coming h x t"
  using assms unfolding ready_coming_def ready_kept_def by fastforce

lemma event_close_ready:
  "event_close E i s = Inr t \<Longrightarrow> history t = history s \<and> pending_ready (ep t) = pending_ready (ep s)
     \<and> registered (ep t) = registered (ep s) \<and> pc t = pc s"
  "event_close E i s = Inl (x, t) \<Longrightarrow> history t = history s \<and> pending_ready (ep t) = pending_ready (ep s)
     \<and> registered (ep t) = registered (ep s) \<and> pc t = pc s"
  by (auto simp: event_close_def el_remove_def on_ep_def ep_remove_def add_element_def ep_wakeup_def Let_def
      split: if_splits sum.splits prod.splits option.splits)

lemma execute_finish_ready:
  "execute_finish E i s = Inr t \<Longrightarrow> history t = history s \<and> pending_ready (ep t) = pending_ready (ep s)
     \<and> registered (ep t) = registered (ep s) \<and> pc t = pc s"
  "execute_finish E i s = Inl (x, t) \<Longrightarrow> history t = history s \<and> pending_ready (ep t) = pending_ready (ep s)
     \<and> registered (ep t) = registered (ep s) \<and> pc t = pc s"
  by (auto simp: execute_finish_def remove_internal_def dest!: event_close_ready split: if_splits sum.splits)

lemma add_finalize_ready:
  "add_finalize A K h m a i e = Inr (c, f) \<Longrightarrow> pending_ready f = pending_ready e"
  by (auto simp: add_finalize_def Let_def split: if_splits prod.splits option.splits)

lemma remove_finalize_ready:
  "remove_finalize K h e = Inr f \<Longrightarrow> pending_ready f = pending_ready e"
  by (auto simp: remove_finalize_def Let_def split: if_splits prod.splits option.splits)

lemma call_or_ready:
  "\<exists>ys. history (call_or q c s) = history s @ ys" "\<exists>ys. history (call_or q c (s\<lparr>ep := e\<rparr>)) = history s @ ys"
  "ep (call_or q c s) = ep s"
  "readying_of (pc (call_or q c s)) = readying_of q"
  by (simp_all add: call_or_def go_def split: option.splits)

lemma thread_ready_kept:
  assumes "\<forall>x xs b. pc s \<noteq> Readying (x # xs) b" and "\<forall>x. pc (loop_step E s) \<noteq> Dead x"
  shows "ready_kept s (loop_step E s)"
proof (cases "pc s")
  case (Batch b)
  then show ?thesis
    by (cases b) (auto simp: loop_step_def step_entry_def ready_kept_def call_or_ready)
next
  case (Adding js b)
  with assms(2) show ?thesis
    by (cases js) (auto simp: loop_step_def step_add_def ready_kept_def call_or_ready die_def
        dest!: add_finalize_ready split: sum.splits prod.splits)
next
  case (Removing js b)
  with assms(2) show ?thesis
    by (cases js) (auto simp: loop_step_def step_remove_def ready_kept_def die_def
        dest!: remove_finalize_ready split: sum.splits)
next
  case (Readying xs b)
  with assms(1) show ?thesis by (cases xs) (auto simp: loop_step_def ready_kept_def)
next
  case (Calling i m q)
  with assms(2) show ?thesis
    by (auto simp: loop_step_def step_return_def finish_res_def ready_kept_def die_def
        dest!: execute_finish_ready split: sum.splits if_splits)
next
  case (Closing js)
  with assms(2) show ?thesis
    by (cases js) (auto simp: loop_step_def finish_res_def ready_kept_def die_def on_ep_def ep_wakeup_def
        dest!: event_close_ready split: sum.splits prod.splits option.splits)
qed (use assms in \<open>auto simp: loop_step_def run_check_def step_wait_def step_read_def take_adds_def take_removes_def
      take_readies_def ready_kept_def die_def split: prod.splits sum.splits\<close>)

lemma thread_coming:
  assumes "ready_coming h x s" and "\<forall>x. pc (loop_step E s) \<noteq> Dead x"
    and "listed E (fst x) s" and "fst x \<notin> set (gone s)"
  shows "ready_coming h x (loop_step E s)"
proof (cases "\<exists>y ys b. pc s = Readying (y # ys) b")
  case False
  then show ?thesis using coming_kept [OF assms(1) thread_ready_kept [OF _ assms(2)]] by blast
next
  case True
  then obtain y ys b where p: "pc s = Readying (y # ys) b" by blast
  show ?thesis
  proof (cases "y = x")
    case True
    with p assms(3,4) have "loop_step E s
        = go (Calling (fst x) (snd x) (Readying ys b)) (s\<lparr>history := history s @ [L_call (fst x) (snd x)]\<rparr>)"
      by (simp add: loop_step_def step_ready_def ready_finalize_def listed_def call_or_def split_def)
    with assms(1) show ?thesis by (auto simp: ready_coming_def go_def)
  next
    case False
    let ?t = "loop_step E s"
    from p obtain c where t: "?t = call_or (Readying ys b) c s" by (auto simp: loop_step_def step_ready_def)
    then obtain zs where z: "history ?t = history s @ zs" using call_or_ready(1) by metis
    have "ep ?t = ep s" "readying_of (pc ?t) = ys" using t call_or_ready(3,4) by (metis, metis readying_of.simps(1))
    with p False assms(1) z show ?thesis by (fastforce simp: ready_coming_def)
  qed
qed

lemma settled_listed:
  assumes "loop_inv E s" and "i \<in> set (created s)" and "i \<notin># incoming s" and "i \<notin> set (closed s)" and "0 \<le> en_handle E i"
  shows "listed E i s"
proof -
  note lf = loop_invD(1) [OF assms(1), unfolded lives_def]
  from life_where(2) [OF lf assms(2,5)] life_sets(2) [OF lf, of i] assms(3,4) show ?thesis
    by (auto simp: listed_def)
qed

lemma event_close_grows:
  "event_close E i s = Inr t \<Longrightarrow> set (closed s) \<subseteq> set (closed t) \<and> gone t = gone s"
  using event_close_internal(1) [of E i s t] event_close_final(1) [of E i s t] by auto

lemma execute_finish_grows:
  "execute_finish E i s = Inr t \<Longrightarrow> set (closed s) \<subseteq> set (closed t) \<and> gone t = gone s"
  by (auto simp: execute_finish_def remove_internal_def dest!: event_close_grows split: if_splits sum.splits)

lemma loop_step_grows:
  assumes "\<forall>x. pc (loop_step E s) \<noteq> Dead x"
  shows "set (closed s) \<subseteq> set (closed (loop_step E s)) \<and> gone (loop_step E s) = gone s
    \<and> created (loop_step E s) = created s \<and> set_mset (incoming (loop_step E s)) \<subseteq> set_mset (incoming s)"
proof -
  have "set_mset (incoming (loop_step E s)) \<subseteq> set_mset (incoming s) \<and> created (loop_step E s) = created s"
  proof (cases "\<exists>i is b. pc s = Adding (i # is) b")
    case True
    with assms show ?thesis
      by (auto simp: loop_step_def step_add_def add_finalize_def call_or_def incoming_def go_def die_def Let_def
          split: if_splits sum.splits prod.splits option.splits)
  next
    case False
    then show ?thesis using loop_step_frame [OF _ assms] by simp
  qed
  moreover have "set (closed s) \<subseteq> set (closed (loop_step E s)) \<and> gone (loop_step E s) = gone s"
  proof (cases "pc s")
    case (Batch b)
    then show ?thesis
      by (cases b) (auto simp: loop_step_def step_entry_def call_or_frame call_or_internal)
  next
    case (Adding js b)
    with assms show ?thesis
      by (cases js) (auto simp: loop_step_def step_add_def call_or_frame call_or_internal die_def split: sum.splits)
  next
    case (Removing js b)
    with assms show ?thesis
      by (cases js) (auto simp: loop_step_def step_remove_def die_def split: sum.splits)
  next
    case (Readying xs b)
    then show ?thesis
      by (cases xs) (auto simp: loop_step_def step_ready_def call_or_frame call_or_internal)
  next
    case (Calling i m q)
    with assms show ?thesis
      by (auto simp: loop_step_def step_return_def finish_res_def die_def dest!: execute_finish_grows
          split: sum.splits if_splits)
  next
    case (Closing js)
    with assms show ?thesis
      by (cases js) (auto simp: loop_step_def finish_res_def die_def on_ep_def
          dest!: event_close_grows split: sum.splits)
  qed (use assms in \<open>auto simp: loop_step_def run_check_def step_wait_def step_read_def take_adds_def take_removes_def
      take_readies_def die_def split: prod.splits sum.splits\<close>)
  ultimately show ?thesis by blast
qed

subsection \<open>Steps that keep the order\<close>

lemma orderly_mono:
  assumes "orderly E s" and "set (attaching t) \<subseteq> set (attaching s)" and "set (pending_add (ep t)) \<subseteq> set (pending_add (ep s))"
    and "\<And>i. 0 \<le> en_handle E i \<Longrightarrow> i \<in> set (pending_remove (ep t)) \<Longrightarrow> i \<in> set (pending_remove (ep s))"
    and "adds_taken (pc t) \<Longrightarrow> adds_taken (pc s)" and "set (removing_of (pc t)) \<subseteq> set (removing_of (pc s))"
    and "set (adding_of (pc t)) \<subseteq> set (adding_of (pc s))"
  shows "orderly E t"
  using assms(1) unfolding orderly_def incoming_def
  by (intro allI impI conjI; use assms(2-7) in \<open>auto dest!: subsetD\<close>)

lemma call_or_taken [simp]:
  "adds_taken (pc (call_or q c s)) = adds_taken q" "removing_of (pc (call_or q c s)) = removing_of q"
  "adding_of (pc (call_or q c s)) = adding_of q" "attaching (call_or q c s) = attaching s" "ep (call_or q c s) = ep s"
  by (simp_all add: call_or_def split: option.splits)

lemma orderly_kept:
  assumes "loop_inv E s" and "orderly E s" and "\<forall>x. pc (loop_step E s) \<noteq> Dead x"
    and "(\<exists>ks. pc s = Closing ks) \<longrightarrow> attaching s = []"
  shows "orderly E (loop_step E s)"
proof (cases "pc s")
  case (Batch b)
  then show ?thesis
    by (cases b; intro orderly_mono [OF assms(2)]) (auto simp: loop_step_def step_entry_def split: if_splits)
next
  case (Reading b)
  then show ?thesis
    by (intro orderly_mono [OF assms(2)]) (auto simp: loop_step_def step_read_def split: prod.splits if_splits)
next
  case (Take_adds b)
  then show ?thesis using assms(2) by (auto simp: loop_step_def take_adds_def orderly_def)
next
  case (Adding js b)
  with assms(3) show ?thesis
    by (cases js; intro orderly_mono [OF assms(2)])
       (auto simp: loop_step_def step_add_def die_def add_finalize_def Let_def split: sum.splits if_splits prod.splits option.splits)
next
  case (Take_removes b)
  then show ?thesis using assms(2) by (auto simp: loop_step_def take_removes_def orderly_def incoming_def)
next
  case (Removing js b)
  with assms(3) show ?thesis
    by (cases js; intro orderly_mono [OF assms(2)])
       (auto simp: loop_step_def step_remove_def die_def remove_finalize_def Let_def split: sum.splits if_splits prod.splits option.splits)
next
  case (Readying xs b)
  then show ?thesis
    by (cases xs; intro orderly_mono [OF assms(2)]) (auto simp: loop_step_def step_ready_def)
next
  case (Calling i m q)
  show ?thesis
  proof (cases "en_kind E i = Execute")
    case True
    have "i \<in> set (created s)" using loop_invD(5) [OF assms(1)] Calling by (simp add: calls_ok_def)
    with True have neg: "en_handle E i < 0" using loop_invD(6) [OF assms(1)] by (simp add: intern_ok_def)
    from Calling True assms(3) obtain t where t: "execute_finish E i s = Inr t" "loop_step E s = go q t"
      by (auto simp: loop_step_def step_return_def finish_res_def die_def split: sum.splits)
    from execute_finish_removes [OF t(1)] neg Calling show ?thesis
      unfolding t(2) by (intro orderly_mono [OF assms(2)]) auto
  next
    case False
    with Calling show ?thesis by (intro orderly_mono [OF assms(2)]) (auto simp: loop_step_def step_return_def)
  qed
next
  case (Closing js)
  have a: "attaching s = []" using assms(4) Closing by blast
  show ?thesis
  proof (cases js)
    case Nil
    with Closing assms(3) show ?thesis
      by (intro orderly_mono [OF assms(2)]) (auto simp: loop_step_def on_ep_def ep_wakeup_def die_def split: sum.splits prod.splits option.splits)
  next
    case (Cons i ks)
    with Closing assms(3) a show ?thesis
      by (auto simp: loop_step_def finish_res_def die_def orderly_def dest!: event_close_queues split: sum.splits if_splits)
  qed
qed (use assms(2,3) in \<open>auto simp: loop_step_def run_check_def step_wait_def take_readies_def die_def orderly_def incoming_def
      split: prod.splits sum.splits\<close>)

lemma orderly_step:
  assumes "epoll_ok (en_wake_fd E) (en_calls E)" and "loop_inv E s" and "orderly E s"
    and "(\<exists>ks. pc s = Closing ks) \<longrightarrow> attaching s = []"
  shows "loop_inv E (loop_step E s)" and "orderly E (loop_step E s)" and "\<forall>x. pc (loop_step E s) \<noteq> Dead x"
proof -
  show inv: "loop_inv E (loop_step E s)"
    by (rule loop_step_kept [OF assms(1,2)]) (use assms(3) in \<open>auto simp: orderly_def\<close>)
  show nd: "\<forall>x. pc (loop_step E s) \<noteq> Dead x" using loop_inv_not_dead [OF inv] by blast
  show "orderly E (loop_step E s)" by (rule orderly_kept [OF assms(2,3) nd assms(4)])
qed

text \<open>With no other thread in the middle of an \<open>Attach\<close>, the order is kept all along.\<close>

lemma orderly_steps:
  assumes "epoll_ok (en_wake_fd E) (en_calls E)" and "loop_inv E s" and "orderly E s" and "attaching s = []"
  shows "loop_inv E ((loop_step E ^^ n) s) \<and> orderly E ((loop_step E ^^ n) s)"
proof -
  have "loop_inv E ((loop_step E ^^ n) s) \<and> orderly E ((loop_step E ^^ n) s) \<and> attaching ((loop_step E ^^ n) s) = []"
  proof (induction n)
    case (Suc n)
    with orderly_step [OF assms(1), of "(loop_step E ^^ n) s"] show ?case by simp
  qed (simp add: assms)
  then show ?thesis by blast
qed

lemma run_step_grows:
  assumes "run_step E s t" and "\<forall>x. pc t \<noteq> Dead x"
  shows "set (closed s) \<subseteq> set (closed t) \<and> set (gone s) \<subseteq> set (gone t)"
  using assms
proof (cases rule: run_step_kinds)
  case thread
  with loop_step_grows [of E s] assms(2) show ?thesis by simp
qed (simp_all add: attach_frame_def call_frame_def)

lemma run_step_from_alive: "run_step E s t \<Longrightarrow> running s"
  by (auto simp: running_def elim: run_step.cases)

lemma run_reach_trans: "run_reach E r s \<Longrightarrow> run_reach E s t \<Longrightarrow> run_reach E r t"
  by (rotate_tac, induction rule: run_reach.induct) (auto intro: run_reach.move)

lemma coming_step:
  assumes "run_step E s t" and "loop_inv E s" and "\<forall>x. pc t \<noteq> Dead x"
    and "ready_coming h (i, m) s" and "i \<in> set (created s)" and "i \<notin># incoming s" and "0 \<le> en_handle E i"
    and "i \<notin> set (closed t)" and "i \<notin> set (gone t)"
  shows "ready_coming h (i, m) t \<and> i \<in> set (created t) \<and> i \<notin># incoming t \<and> i \<notin> set (closed s) \<and> i \<notin> set (gone s)"
  using assms(1,3)
proof (cases rule: run_step_kinds)
  case thread
  with assms(3) have nd: "\<forall>x. pc (loop_step E s) \<noteq> Dead x" by simp
  note g = loop_step_grows [OF nd]
  have o: "i \<notin> set (closed s)" "i \<notin> set (gone s)" using g assms(8,9) thread by auto
  have "listed E i s" by (rule settled_listed [OF assms(2,5,6) o(1) assms(7)])
  with thread_coming [OF assms(4) nd] o g thread assms(5,6) show ?thesis by auto
next
  case (attach j)
  with assms(4-9) show ?thesis by (auto simp: attach_frame_def ready_coming_def)
next
  case other
  with assms(4-9) show ?thesis by (auto simp: call_frame_def ready_coming_def)
qed


subsection \<open>Draining the queues\<close>

text \<open>
  The next \<open>epoll_wait\<close> reports the wakeup: when it is due and what else is ready leaves room in the
  array of 32 entries, or whenever it is due on a kernel that never leaves it for later.
\<close>

definition hears :: "'k env \<Rightarrow> 'k loop \<Rightarrow> bool" where
  "hears E s \<longleftrightarrow> (\<forall>b k'. ec_wait (en_calls E) max_events (ep_kernel (ep s)) = (Inr b, k') \<longrightarrow> wakes (en_wake_fd E) b)"

definition fits :: "'k env \<Rightarrow> 'k loop \<Rightarrow> bool" where
  "fits E s \<longleftrightarrow> obs_ready (en_calls E) (ep_kernel (ep s)) < max_events"

lemma fitting_hears:
  "reports_fitting (en_wake_fd E) (en_calls E) \<Longrightarrow> fits E s \<Longrightarrow> ep_due (en_calls E) (ep s) \<Longrightarrow> hears E s"
  by (auto simp: reports_fitting_def fits_def hears_def)

definition reports_wakeup :: "fd \<Rightarrow> ('k, 'z) epoll_calls_scheme \<Rightarrow> bool" where
  "reports_wakeup p K \<longleftrightarrow> (\<forall>k b k'. obs_due K k \<longrightarrow> ec_wait K max_events k = (Inr b, k') \<longrightarrow> p \<in> fst ` set b)"

lemma reports_hears: "reports_wakeup (en_wake_fd E) (en_calls E) \<Longrightarrow> ep_due (en_calls E) (ep s) \<Longrightarrow> hears E s"
  by (auto simp: reports_wakeup_def hears_def)

definition draining :: "fd \<Rightarrow> 'k loop \<Rightarrow> bool" where
  "draining w s \<longleftrightarrow>
     (pending_add (ep s) = [] \<or> before_adds w (pc s))
   \<and> (pending_remove (ep s) = [] \<or> before_removes w (pc s))
   \<and> (pending_ready (ep s) = [] \<or> before_readies w (pc s))"

definition exec_place :: "'k env \<Rightarrow> 'k loop \<Rightarrow> bool" where
  "exec_place E s \<longleftrightarrow> (\<forall>i m q. pc s = Calling i m q \<longrightarrow> en_kind E i = Execute \<longrightarrow> (\<exists>is b. q = Adding is b))"

lemma call_or_place:
  assumes "\<And>i m. c = Some (i, m) \<Longrightarrow> en_kind E i = Execute \<Longrightarrow> \<exists>is b. q = Adding is b" and "calling q = None"
  shows "exec_place E (call_or q c s)"
  using assms by (auto simp: exec_place_def call_or_def split: option.splits)

lemma table_not_execute:
  assumes "loop_inv E s" and "registered (ep s) h = Some i"
  shows "en_kind E i \<noteq> Execute"
  using table_call [OF assms, of True False] by simp

lemma exec_place_step:
  assumes "loop_inv E s"
  shows "exec_place E (loop_step E s)"
proof (cases "pc s")
  case (Batch b)
  then show ?thesis
  proof (cases b)
    case (Cons x c)
    with Batch show ?thesis using table_not_execute [OF assms]
      by (auto simp: loop_step_def step_entry_def dispatch_def exec_place_def call_or_def split: option.splits if_splits)
  qed (simp add: exec_place_def loop_step_def)
next
  case (Adding js b)
  then show ?thesis
    by (cases js) (auto simp: loop_step_def step_add_def exec_place_def call_or_def die_def split: sum.splits option.splits)
next
  case (Removing js b)
  then show ?thesis
    by (cases js) (auto simp: loop_step_def step_remove_def exec_place_def die_def split: sum.splits)
next
  case (Readying xs b)
  then show ?thesis
  proof (cases xs)
    case (Cons x c)
    with Readying show ?thesis using table_not_execute [OF assms]
      by (auto simp: loop_step_def step_ready_def ready_finalize_def exec_place_def call_or_def
          split: if_splits option.splits prod.splits)
  qed (simp add: exec_place_def loop_step_def)
next
  case (Calling i m q)
  with resume_inv(3) [OF assms Calling] show ?thesis
    by (cases q) (auto simp: loop_step_def step_return_def finish_res_def die_def exec_place_def split: sum.splits)
next
  case (Closing js)
  then show ?thesis
    by (cases js) (auto simp: loop_step_def finish_res_def die_def exec_place_def split: sum.splits)
qed (auto simp: loop_step_def run_check_def step_wait_def step_read_def take_adds_def take_removes_def
      take_readies_def die_def exec_place_def split: prod.splits sum.splits)

lemma draining_call:
  "draining w (call_or q c s) \<longleftrightarrow> draining w (go q s)"
  by (auto simp: draining_def call_or_def split: option.splits)

lemma execute_finish_queues:
  "execute_finish E i s = Inr t \<Longrightarrow>
   pending_add (ep t) = pending_add (ep s) \<and> pending_ready (ep t) = pending_ready (ep s)"
  using execute_finish_frame [of E i s t] execute_finish_ready(1) [of E i s t] by simp

lemma draining_step:
  assumes "in_pass s" and "exec_place E s" and "draining (en_wake_fd E) s" and "\<forall>x. pc (loop_step E s) \<noteq> Dead x"
  shows "draining (en_wake_fd E) (loop_step E s)"
proof (cases "pc s")
  case (Batch b)
  with assms(3) show ?thesis
    by (cases b) (auto simp: loop_step_def step_entry_def draining_call, auto simp: draining_def)
next
  case (Adding js b)
  with assms(3,4) show ?thesis
    by (cases js) (auto simp: loop_step_def step_add_def draining_call die_def add_finalize_def Let_def 
        split: sum.splits, auto simp: draining_def split: if_splits prod.splits option.splits)
next
  case (Removing js b)
  with assms(3,4) show ?thesis
    by (cases js) (auto simp: loop_step_def step_remove_def draining_def die_def remove_finalize_def Let_def
        split: sum.splits if_splits prod.splits option.splits)
next
  case (Readying xs b)
  with assms(3) show ?thesis
    by (cases xs) (auto simp: loop_step_def step_ready_def draining_call, auto simp: draining_def)
next
  case (Calling i m q)
  show ?thesis
  proof (cases "en_kind E i = Execute")
    case True
    with assms(2) Calling obtain "is" b where q: "q = Adding is b" by (auto simp: exec_place_def)
    with Calling assms(3,4) True show ?thesis
      by (auto simp: loop_step_def step_return_def finish_res_def die_def draining_def
          dest!: execute_finish_queues split: sum.splits)
  next
    case False
    with Calling assms(3) show ?thesis by (auto simp: loop_step_def step_return_def draining_def)
  qed
qed (use assms in \<open>auto simp: loop_step_def step_read_def take_adds_def take_removes_def take_readies_def
      draining_def in_pass_def split: prod.splits\<close>)

lemma thread_loop_inv:
  assumes "epoll_ok (en_wake_fd E) (en_calls E)" and "loop_inv E s" and "\<forall>x. pc (loop_step E s) \<noteq> Dead x"
  shows "loop_inv E (loop_step E s)"
  using loop_step_inv [OF assms(1,2)] assms(3) overtakenD(1) by blast

text \<open>A pass whose entries include the wakeup empties the queues.\<close>

lemma pass_drains:
  assumes "epoll_ok (en_wake_fd E) (en_calls E)" and "efd_drains (en_calls E)" and "loop_inv E s" and "orderly E s"
    and "in_pass s" and "exec_place E s" and "draining (en_wake_fd E) s" and "R s"
    and keep: "\<And>u. loop_inv E u \<Longrightarrow> R u \<Longrightarrow> \<forall>x. pc (loop_step E u) \<noteq> Dead x \<Longrightarrow> in_pass u \<or> pc u = Waiting \<Longrightarrow>
      R (loop_step E u)"
  shows "\<exists>n t. t = (loop_step E ^^ n) s \<and> pc t = (if final_pass s then Finished else Checking)
    \<and> loop_inv E t \<and> orderly E t \<and> R t \<and> pending_add (ep t) = [] \<and> pending_remove (ep t) = [] \<and> pending_ready (ep t) = []"
proof -
  let ?Q = "\<lambda>u. loop_inv E u \<and> orderly E u \<and> exec_place E u \<and> draining (en_wake_fd E) u \<and> R u"
  have "?Q (loop_step E u)" if "in_pass u" "?Q u" for u
  proof -
    from that have u: "loop_inv E u" "orderly E u" "exec_place E u" "draining (en_wake_fd E) u" "R u" by auto
    have c: "(\<exists>ks. pc u = Closing ks) \<longrightarrow> attaching u = []" using that(1) by (auto simp: in_pass_def)
    note st = orderly_step [OF assms(1) u(1,2) c]
    from st exec_place_step [OF u(1)] draining_step [OF that(1) u(3,4) st(3)] keep [OF u(1,5) st(3) disjI1 [OF that(1)]]
    show ?thesis by blast
  qed
  with pass_induct [where Q = ?Q, OF assms(2,5)] assms(3,4,6-8) obtain n where
    n: "?Q ((loop_step E ^^ n) s)"
      "pc ((loop_step E ^^ n) s) = (if final_pass s then Finished else Checking) \<or> (\<exists>x. pc ((loop_step E ^^ n) s) = Dead x)"
    by blast
  with loop_inv_not_dead show ?thesis by (intro exI [of _ n]) (auto simp: draining_def split: if_splits)
qed

lemma wait_drains:
  assumes "epoll_ok (en_wake_fd E) (en_calls E)" and "efd_drains (en_calls E)"
    and "loop_inv E s" and "orderly E s" and "pc s = Waiting" and "hears E s" and "R s"
    and keep: "\<And>u. loop_inv E u \<Longrightarrow> R u \<Longrightarrow> \<forall>x. pc (loop_step E u) \<noteq> Dead x \<Longrightarrow> in_pass u \<or> pc u = Waiting \<Longrightarrow>
      R (loop_step E u)"
  shows "\<exists>n t. t = (loop_step E ^^ n) s \<and> pc t = (if final_pass s then Finished else Checking)
    \<and> loop_inv E t \<and> orderly E t \<and> R t \<and> pending_add (ep t) = [] \<and> pending_remove (ep t) = [] \<and> pending_ready (ep t) = []"
proof -
  obtain r k where w: "ec_wait (en_calls E) max_events (ep_kernel (ep s)) = (r, k)" by fastforce
  from assms(1) w obtain b where b: "r = Inr b" unfolding epoll_ok_def wait_ok_def by blast
  with assms(6) w have wk: "wakes (en_wake_fd E) b" unfolding hears_def by blast
  from w b assms(5) have st: "loop_step E s = go (Batch b) (s\<lparr>ep := (ep s)\<lparr>ep_kernel := k\<rparr>\<rparr>)"
    by (simp add: loop_step_def step_wait_def)
  have dr: "draining (en_wake_fd E) (loop_step E s)" by (simp add: st draining_def wk)
  have ip: "in_pass (loop_step E s)" and fp: "final_pass (loop_step E s) = final_pass s"
    by (simp_all add: st in_pass_def)
  have c: "(\<exists>ks. pc s = Closing ks) \<longrightarrow> attaching s = []" by (simp add: assms(5))
  note nx = orderly_step [OF assms(1,3,4) c]
  note kp = keep
  from pass_drains [where R = R, OF assms(1,2) nx(1,2) ip exec_place_step [OF assms(3)] dr
      keep [OF assms(3,7) nx(3) disjI2 [OF assms(5)]] kp, unfolded fp]
  obtain n where "pc ((loop_step E ^^ n) (loop_step E s)) = (if final_pass s then Finished else Checking)
      \<and> loop_inv E ((loop_step E ^^ n) (loop_step E s)) \<and> orderly E ((loop_step E ^^ n) (loop_step E s))
      \<and> R ((loop_step E ^^ n) (loop_step E s))
      \<and> pending_add (ep ((loop_step E ^^ n) (loop_step E s))) = []
      \<and> pending_remove (ep ((loop_step E ^^ n) (loop_step E s))) = []
      \<and> pending_ready (ep ((loop_step E ^^ n) (loop_step E s))) = []"
    by blast
  then show ?thesis by (intro exI [of _ "Suc n"]) (simp add: funpow_swap1)
qed

subsection \<open>Properties\<close>

text \<open>
  C11: no ready event is lost.  Once the event of a handler with a descriptor has been taken from
  the additions, and until it is closed or its handler is gone, a ready event that was queued for it
  is still queued, in the hands of the loop thread, or has been delivered by a call with its mask,
  under every interleaving.
\<close>

theorem ready_not_lost:
  assumes "epoll_ok (en_wake_fd E) (en_calls E)" and "fresh_start E k" and "run_reach E (loop_new k) s"
    and "(i, m) \<in> set (pending_ready (ep s))" and "i \<in> set (created s)" and "i \<notin># incoming s" and "0 \<le> en_handle E i"
    and "run_reach E s t" and "\<forall>x. pc t \<noteq> Dead x" and "i \<notin> set (closed t)" and "i \<notin> set (gone t)"
  shows "(i, m) \<in> set (pending_ready (ep t)) \<or> (i, m) \<in> set (readying_of (pc t))
    \<or> (\<exists>ys. history t = history s @ ys \<and> L_call i m \<in> set ys)"
proof -
  have "ready_coming (history s) (i, m) t \<and> i \<in> set (created t) \<and> i \<notin># incoming t \<and> run_reach E (loop_new k) t"
    using assms(8-11)
  proof (induction rule: run_reach.induct)
    case start
    with assms(3-6) show ?case by (auto simp: ready_coming_def)
  next
    case (move u v)
    have ru: "running u" by (rule run_step_from_alive [OF move.hyps(2)])
    note g = run_step_grows [OF move.hyps(2) move.prems(1)]
    have IH: "ready_coming (history s) (i, m) u \<and> i \<in> set (created u) \<and> i \<notin># incoming u \<and> run_reach E (loop_new k) u"
      by (rule move.IH) (use ru g move.prems in \<open>auto simp: running_def\<close>)
    then have "loop_inv E u" using reach_running_inv [OF _ assms(1,2) ru] by blast
    from coming_step [OF move.hyps(2) this move.prems(1)] IH assms(7) move.prems(2,3) move.hyps(2) show ?case
      by (auto intro: run_reach.move)
  qed
  then show ?thesis by (auto simp: ready_coming_def)
qed


text \<open>What the steps of the loop thread keep of an open handler with a descriptor that was handed over.\<close>

definition open_handler :: "'k env \<Rightarrow> nat \<Rightarrow> 'k loop \<Rightarrow> bool" where
  "open_handler E i s \<longleftrightarrow> 0 \<le> en_handle E i \<and> en_kind E i \<noteq> Execute \<and> i \<in> set (created s)
     \<and> i \<notin> set (closed s) \<and> i \<notin> set (gone s) \<and> i \<notin> set (attaching s)"

lemma execute_finish_open:
  "execute_finish E j s = Inr t \<Longrightarrow> en_kind E j = Execute \<Longrightarrow> open_handler E i s \<Longrightarrow> open_handler E i t"
  by (auto simp: execute_finish_def event_close_def el_remove_def remove_internal_def on_ep_def open_handler_def Let_def
      split: if_splits sum.splits)

lemma call_or_open: "open_handler E i (call_or q c s) \<longleftrightarrow> open_handler E i s"
  by (simp add: open_handler_def call_or_def split: option.splits)

lemma open_go [simp]: "open_handler E i (go q s) \<longleftrightarrow> open_handler E i s"
  by (simp add: open_handler_def)

lemma open_ep [simp]: "open_handler E i (s\<lparr>ep := e\<rparr>) \<longleftrightarrow> open_handler E i s"
  "open_handler E i (s\<lparr>ep := e, history := h\<rparr>) \<longleftrightarrow> open_handler E i s"
  by (simp_all add: open_handler_def)

lemma thread_open:
  assumes "open_handler E i s" and "\<forall>x. pc (loop_step E s) \<noteq> Dead x" and "in_pass s \<or> pc s = Waiting"
  shows "open_handler E i (loop_step E s)"
proof (cases "pc s")
  case (Batch b)
  with assms(1) show ?thesis by (cases b) (auto simp: loop_step_def step_entry_def call_or_open)
next
  case (Adding js b)
  with assms(1,2) show ?thesis
    by (cases js) (auto simp: loop_step_def step_add_def call_or_open die_def split: sum.splits)
next
  case (Removing js b)
  with assms(1,2) show ?thesis
    by (cases js) (auto simp: loop_step_def step_remove_def die_def split: sum.splits)
next
  case (Readying xs b)
  with assms(1) show ?thesis by (cases xs) (auto simp: loop_step_def step_ready_def call_or_open)
next
  case (Calling j m q)
  with assms(1,2) show ?thesis
    by (auto simp: loop_step_def step_return_def finish_res_def die_def dest!: execute_finish_open [where i = i]
        split: sum.splits)
qed (use assms in \<open>auto simp: loop_step_def step_wait_def step_read_def take_adds_def take_removes_def
      take_readies_def die_def in_pass_def split: prod.splits sum.splits\<close>)

lemma scripted_reports: "reports_wakeup (en_wake_fd demo) (en_calls demo)"
  by (auto simp: reports_wakeup_def scripted_epoll_def ek_wait_def ek_batch_def max_events_def)

lemma scripted_fitting: "reports_fitting (en_wake_fd demo) (en_calls demo)"
  by (auto simp: reports_fitting_def scripted_epoll_def ek_wait_def ek_batch_def take_Cons' split: if_splits)

lemma ready_arrives:
  assumes "epoll_ok (en_wake_fd E) (en_calls E)" and "efd_drains (en_calls E)" and "loop_inv E s" and "orderly E s"
    and "pc s = Waiting" and "hears E s" and "(i, m) \<in> set (pending_ready (ep s))"
    and "open_handler E i s" and "i \<notin> set (pending_add (ep s))"
  shows "\<exists>n ys. history ((loop_step E ^^ n) s) = history s @ ys \<and> L_call i m \<in> set ys"
proof -
  let ?R = "\<lambda>u. open_handler E i u \<and> i \<notin># incoming u \<and> ready_coming (history s) (i, m) u"
  have "?R s"
    using assms(5,7-9) by (auto simp: incoming_def open_handler_def ready_coming_def)
  moreover have "?R (loop_step E u)"
    if "loop_inv E u" "?R u" "\<forall>x. pc (loop_step E u) \<noteq> Dead x" "in_pass u \<or> pc u = Waiting" for u
  proof -
    have "listed E i u" using settled_listed [OF that(1)] that(2) by (simp add: open_handler_def)
    with thread_coming [OF _ that(3)] thread_open [OF _ that(3,4)] loop_step_grows [OF that(3)] that(2) show ?thesis
      by (auto simp: open_handler_def)
  qed
  ultimately obtain n where n: "pc ((loop_step E ^^ n) s) = (if final_pass s then Finished else Checking)"
      "?R ((loop_step E ^^ n) s)" "pending_ready (ep ((loop_step E ^^ n) s)) = []"
    using wait_drains [where R = ?R, OF assms(1-6)] by blast
  then have "\<exists>ys. history ((loop_step E ^^ n) s) = history s @ ys \<and> L_call i m \<in> set ys"
    by (auto simp: ready_coming_def split: if_splits)
  then show ?thesis by blast
qed

text \<open>
  C15: ready events arrive.  Let the loop thread wait, with a ready event queued for an open handler
  whose event is out of the additions, with no removal queued of an event in the middle of its \<open>Attach\<close>, and with at
  most 31 other descriptors ready, on a kernel that reports everything that fits into the array.  Then the loop thread
  calls the handler with that mask in finitely many steps of its own.
\<close>

theorem ready_delivered:
  assumes "epoll_ok (en_wake_fd E) (en_calls E)" and "efd_drains (en_calls E)"
    and "reports_fitting (en_wake_fd E) (en_calls E)" and "fresh_start E k" and "run_reach E (loop_new k) s"
    and "pc s = Waiting" and "fits E s" and "orderly E s" and "(i, m) \<in> set (pending_ready (ep s))"
    and "open_handler E i s" and "i \<notin> set (pending_add (ep s))"
  shows "\<exists>n ys. history ((loop_step E ^^ n) s) = history s @ ys \<and> L_call i m \<in> set ys"
proof -
  have iv: "loop_inv E s" by (rule reach_running_inv [OF assms(5,1,4)]) (simp add: running_def assms(6))
  have "ep_due (en_calls E) (ep s)" using loop_invD(4) [OF iv] assms(6,9) by (auto simp: attended_def)
  from ready_arrives [OF assms(1,2) iv assms(8,6) fitting_hears [OF assms(3,7) this] assms(9-11)] show ?thesis .
qed

definition poked_run :: "move list" where
  "poked_run = [M_attach 2, M_hand_over 2] @ replicate 14 M_thread @ [M_ready 2 4]"

lemma poked:
  "\<exists>t. perform_all demo poked_run (loop_new (ek_start [])) = Some t \<and> pc t = Waiting \<and> pending_ready (ep t) = [(2, 4)]
     \<and> open_handler demo 2 t \<and> pending_add (ep t) = [] \<and> history t = [] \<and> fits demo t \<and> orderly demo t"
  by (simp add: poked_run_def numeral_eq_Suc loop_eval open_handler_def fits_def orderly_def)

lemma poked_later:
  "\<exists>s t. perform_all demo poked_run (loop_new (ek_start [])) = Some s \<and> pending_ready (ep s) = [(2, 4)] \<and> created s = [2]
     \<and> incoming s = {#}
     \<and> perform_all demo (replicate 13 M_thread) s = Some t \<and> pc t = Checking \<and> pending_ready (ep t) = []
     \<and> closed t = [] \<and> gone t = []"
  by (simp add: poked_run_def numeral_eq_Suc loop_eval incoming_def)

theorem ready_not_lost_witness:
  "\<exists>s t ys. run_reach demo s t \<and> pending_ready (ep s) = [(2, 4)] \<and> history t = history s @ ys \<and> L_call 2 4 \<in> set ys"
proof -
  from poked_later obtain s t where s: "perform_all demo poked_run (loop_new (ek_start [])) = Some s"
    "pending_ready (ep s) = [(2, 4)]" "created s = [2]" "incoming s = {#}"
    and t: "perform_all demo (replicate 13 M_thread) s = Some t" "pc t = Checking" "pending_ready (ep t) = []"
    "closed t = []" "gone t = []" by blast
  have r: "run_reach demo (loop_new (ek_start [])) s" by (rule perform_all_run [OF s(1)])
  have st: "run_reach demo s t" by (rule perform_all_reach [OF run_reach.start t(1)])
  from ready_not_lost [OF demo_ok demo_start r, of 2 4 t] s(2-4) st t(2-5) show ?thesis by auto
qed

theorem ready_delivered_witness:
  "\<exists>s n. run_reach demo (loop_new (ek_start [])) s \<and> history s = []
     \<and> L_call 2 4 \<in> set (history ((loop_step demo ^^ n) s))"
proof -
  from poked obtain s where s: "perform_all demo poked_run (loop_new (ek_start [])) = Some s" "pc s = Waiting"
    "pending_ready (ep s) = [(2, 4)]" "open_handler demo 2 s" "pending_add (ep s) = []" "history s = []"
    "fits demo s" "orderly demo s" by blast
  have r: "run_reach demo (loop_new (ek_start [])) s" by (rule perform_all_run [OF s(1)])
  from ready_delivered [OF demo_ok scripted_drains scripted_fitting demo_start r s(2,7,8), of 2 4] s(3-6) r show ?thesis
    by fastforce
qed

text \<open>
  Attached handlers are watched.  When the loop thread waits and an open handler with a
  descriptor is in the queue of additions, its event gets into the table and its descriptor into the
  epoll set in finitely many steps of the loop thread, under the same provisions.
\<close>

lemma attached_watched:
  assumes "epoll_ok (en_wake_fd E) (en_calls E)" and "efd_drains (en_calls E)"
    and "reports_fitting (en_wake_fd E) (en_calls E)" and "fresh_start E k" and "run_reach E (loop_new k) s"
    and "pc s = Waiting" and "fits E s" and "orderly E s" and "i \<in> set (pending_add (ep s))" and "open_handler E i s"
  shows "\<exists>n t. t = (loop_step E ^^ n) s \<and> registered (ep t) (en_handle E i) = Some i
    \<and> obs_watch (en_calls E) (ep_kernel (ep t)) (en_handle E i) \<noteq> None"
proof -
  have iv: "loop_inv E s" by (rule reach_running_inv [OF assms(5,1,4)]) (simp add: running_def assms(6))
  have due: "ep_due (en_calls E) (ep s)" using loop_invD(4) [OF iv] assms(6,9) by (auto simp: attended_def)
  obtain n where n: "pc ((loop_step E ^^ n) s) = (if final_pass s then Finished else Checking)"
      "loop_inv E ((loop_step E ^^ n) s)" "open_handler E i ((loop_step E ^^ n) s)" "pending_add (ep ((loop_step E ^^ n) s)) = []"
    using wait_drains [where R = "open_handler E i", OF assms(1,2) iv assms(8,6) fitting_hears [OF assms(3,7) due] assms(10) thread_open]
    by blast
  let ?t = "(loop_step E ^^ n) s"
  have "i \<notin># incoming ?t" using n by (auto simp: open_handler_def incoming_def split: if_splits)
  with n(2,3) have "listed E i ?t" using settled_listed by (auto simp: open_handler_def)
  with loop_invD(2) [OF n(2)] show ?thesis by (auto simp: listed_def table_ok_def)
qed

lemma attached_open:
  "\<exists>t. perform_all demo attached_run (loop_new (ek_start [])) = Some t \<and> pc t = Waiting \<and> pending_add (ep t) = [2]
     \<and> open_handler demo 2 t \<and> fits demo t \<and> orderly demo t"
  by (simp add: attached_run_def loop_eval open_handler_def fits_def orderly_def)

lemma attached_watched_witness:
  "\<exists>s n. run_reach demo (loop_new (ek_start [])) s \<and> pending_add (ep s) = [2]
     \<and> registered (ep ((loop_step demo ^^ n) s)) 8 = Some 2"
proof -
  from attached_open obtain s where s: "perform_all demo attached_run (loop_new (ek_start [])) = Some s" "pc s = Waiting"
    "pending_add (ep s) = [2]" "open_handler demo 2 s" "fits demo s" "orderly demo s" by blast
  have r: "run_reach demo (loop_new (ek_start [])) s" by (rule perform_all_run [OF s(1)])
  from attached_watched [OF demo_ok scripted_drains scripted_fitting demo_start r s(2,5,6), of 2] s(3,4) r show ?thesis
    by auto
qed

text \<open>
  C24: stopping removes everything.  Let the loop thread find \<open>stop_\<close> set, with no other thread in the
  middle of an \<open>Attach\<close> or a \<open>Close\<close> and nobody interfering, and let at most 31 other descriptors be ready when it
  waits, on a kernel that reports everything that fits into the array.  Then it ends, and every event that was created
  has been removed from the EPoll.
\<close>

theorem stop_removes_all:
  assumes "epoll_ok (en_wake_fd E) (en_calls E)" and "efd_drains (en_calls E)"
    and "reports_fitting (en_wake_fd E) (en_calls E)" and "fresh_start E k" and "run_reach E (loop_new k) s"
    and "pc s = Checking" and "stop_flag s" and "attaching s = []" and "detaching s = []"
    and "\<And>n. pc ((loop_step E ^^ n) s) = Waiting \<Longrightarrow> fits E ((loop_step E ^^ n) s)"
  shows "\<exists>n. pc ((loop_step E ^^ n) s) = Finished \<and> (\<forall>i \<in> set (created s). removed ((loop_step E ^^ n) s) i)"
proof -
  have ok: "efd_ok (en_calls E)" using assms(1) by (simp add: epoll_ok_def)
  have iv: "loop_inv E s" by (rule reach_running_inv [OF assms(5,1,4)]) (simp add: running_def assms(6))
  have od: "orderly E s" by (simp add: orderly_def assms(6,8))
  from stop_closes [OF ok iv assms(6,7,9)] obtain n where
    n: "pc ((loop_step E ^^ n) s) = Waiting" "final_pass ((loop_step E ^^ n) s)"
      "created ((loop_step E ^^ n) s) = created s" "set (created s) \<subseteq> set (closed ((loop_step E ^^ n) s))"
      "ep_due (en_calls E) (ep ((loop_step E ^^ n) s))" by blast
  define u where "u = (loop_step E ^^ n) s"
  have h: "hears E u" unfolding u_def by (rule fitting_hears [OF assms(3) assms(10) [OF n(1)] n(5)])
  note n = n [folded u_def]
  have "loop_inv E u \<and> orderly E u" unfolding u_def by (rule orderly_steps [OF assms(1) iv od assms(8)])
  then have ivu: "loop_inv E u" "orderly E u" by simp_all
  let ?R = "\<lambda>v. created v = created s \<and> set (created s) \<subseteq> set (closed v)"
  have "?R u" using n(3,4) by simp
  moreover have "?R (loop_step E v)" if "?R v" "\<forall>x. pc (loop_step E v) \<noteq> Dead x" for v
    using loop_step_grows [OF that(2)] that(1) by auto
  ultimately obtain m where m: "pc ((loop_step E ^^ m) u) = (if final_pass u then Finished else Checking)"
      "loop_inv E ((loop_step E ^^ m) u)" "?R ((loop_step E ^^ m) u)" "pending_remove (ep ((loop_step E ^^ m) u)) = []"
    using wait_drains [where R = ?R, OF assms(1,2) ivu n(1) h] by blast
  define t where "t = (loop_step E ^^ (m + n)) s"
  have eq: "(loop_step E ^^ m) u = t" by (simp add: t_def u_def funpow_add)
  from m n(2) have t: "pc t = Finished" "loop_inv E t" "set (created s) \<subseteq> set (closed t)" "pending_remove (ep t) = []"
    unfolding eq by simp_all
  have "detaching t = []" unfolding t_def by (simp add: assms(9))
  then have "outgoing t = {#}" by (simp add: outgoing_def t(1,4))
  with life_sets(3) [OF loop_invD(1) [OF t(2), unfolded lives_def]] t(3) have "\<forall>i \<in> set (created s). removed t i" by auto
  with t(1) show ?thesis unfolding t_def by blast
qed

text \<open>In the runs of the witness nothing but the wakeup is ever ready.\<close>

lemma quiet_calls:
  "ek_script k = [] \<Longrightarrow> ec_wait scripted_epoll n k = (r, k') \<Longrightarrow> ek_script k' = []"
  "ek_script k = [] \<Longrightarrow> ec_ctl_add scripted_epoll h m k = (r', k') \<Longrightarrow> ek_script k' = []"
  "ek_script k = [] \<Longrightarrow> ec_ctl_del scripted_epoll h k = (r', k') \<Longrightarrow> ek_script k' = []"
  "ek_script k = [] \<Longrightarrow> ec_efd_write scripted_epoll k = (r', k') \<Longrightarrow> ek_script k' = []"
  "ek_script k = [] \<Longrightarrow> ec_efd_read scripted_epoll k = (r', k') \<Longrightarrow> ek_script k' = []"
  by (auto simp: scripted_epoll_def ek_wait_def ek_add_def ek_del_def split: if_splits)

lemma quiet_close:
  "event_close E i s = Inr t \<Longrightarrow> en_calls E = scripted_epoll \<Longrightarrow> ek_script (ep_kernel (ep s)) = [] \<Longrightarrow> ek_script (ep_kernel (ep t)) = []"
  "event_close E i s = Inl (x, t) \<Longrightarrow> en_calls E = scripted_epoll \<Longrightarrow> ek_script (ep_kernel (ep s)) = [] \<Longrightarrow> ek_script (ep_kernel (ep t)) = []"
  by (auto simp: event_close_def el_remove_def on_ep_def ep_remove_def add_element_def ep_wakeup_def Let_def
      dest: quiet_calls(4) [rotated] split: if_splits sum.splits prod.splits option.splits)

lemma quiet_finish:
  "execute_finish E i s = Inr t \<Longrightarrow> en_calls E = scripted_epoll \<Longrightarrow> ek_script (ep_kernel (ep s)) = [] \<Longrightarrow> ek_script (ep_kernel (ep t)) = []"
  "execute_finish E i s = Inl (x, t) \<Longrightarrow> en_calls E = scripted_epoll \<Longrightarrow> ek_script (ep_kernel (ep s)) = [] \<Longrightarrow> ek_script (ep_kernel (ep t)) = []"
  by (auto simp: execute_finish_def remove_internal_def dest!: quiet_close split: if_splits sum.splits)

lemma quiet_script:
  assumes "en_calls E = scripted_epoll" and "ek_script (ep_kernel (ep s)) = []"
  shows "ek_script (ep_kernel (ep (loop_step E s))) = []"
proof (cases "pc s")
  case (Batch b)
  with assms show ?thesis by (cases b) (auto simp: loop_step_def step_entry_def)
next
  case (Adding js b)
  with assms show ?thesis
    by (cases js) (auto simp: loop_step_def step_add_def die_def add_finalize_def Let_def dest: quiet_calls(2) [rotated]
        split: sum.splits if_splits prod.splits option.splits)
next
  case (Removing js b)
  with assms show ?thesis
    by (cases js) (auto simp: loop_step_def step_remove_def die_def remove_finalize_def Let_def dest: quiet_calls(3) [rotated]
        split: sum.splits if_splits prod.splits option.splits)
next
  case (Readying xs b)
  with assms show ?thesis by (cases xs) (auto simp: loop_step_def step_ready_def)
next
  case (Calling i m q)
  with assms show ?thesis
    by (auto simp: loop_step_def step_return_def finish_res_def die_def dest!: quiet_finish split: sum.splits)
next
  case (Closing js)
  with assms show ?thesis
    by (cases js) (auto simp: loop_step_def finish_res_def die_def on_ep_def ep_wakeup_def
        dest: quiet_calls(4) [rotated] dest!: quiet_close split: sum.splits prod.splits option.splits)
qed (use assms in \<open>auto simp: loop_step_def run_check_def step_wait_def step_read_def take_adds_def take_removes_def take_readies_def
    die_def dest: quiet_calls(1) [rotated] quiet_calls(5) [rotated] split: prod.splits sum.splits\<close>)

lemma quiet_ready:
  "el_ready E i m s = Inr t \<Longrightarrow> en_calls E = scripted_epoll \<Longrightarrow> ek_script (ep_kernel (ep s)) = [] \<Longrightarrow> ek_script (ep_kernel (ep t)) = []"
  by (auto simp: el_ready_def on_ep_def ep_ready_def add_element_def ep_wakeup_def Let_def
      dest: quiet_calls(4) [rotated] split: if_splits sum.splits prod.splits option.splits)

lemma quiet_fits:
  assumes "en_calls E = scripted_epoll" and "ek_script (ep_kernel (ep s)) = []"
  shows "fits E ((loop_step E ^^ n) s)"
proof -
  have "ek_script (ep_kernel (ep ((loop_step E ^^ n) s))) = []"
    by (induction n) (simp_all add: assms quiet_script)
  then show ?thesis by (simp add: fits_def assms(1) scripted_epoll_def max_events_def)
qed

theorem stop_removes_all_witness:
  "\<exists>s n. run_reach demo (loop_new (ek_start [])) s \<and> created s = [2] \<and> removed ((loop_step demo ^^ n) s) 2"
proof -
  from stopped obtain s where s: "perform_all demo [M_attach 2, M_hand_over 2, M_stop] (loop_new (ek_start [])) = Some s"
    "pc s = Checking" "stop_flag s" "created s = [2]" "attaching s = []" "detaching s = []" "ek_script (ep_kernel (ep s)) = []" by blast
  have r: "run_reach demo (loop_new (ek_start [])) s" by (rule perform_all_run [OF s(1)])
  have f: "fits demo ((loop_step demo ^^ n) s)" for n by (rule quiet_fits [OF demo_simps(2) s(7)])
  from stop_removes_all [OF demo_ok scripted_drains scripted_fitting demo_start r s(2,3,5,6) f] r s(4) show ?thesis by auto
qed

definition early_start :: "move list" where
  "early_start = [M_attach 0, M_hand_over 0] @ replicate 7 M_thread @ [M_attach 2, M_hand_over 2, M_ready 2 2]"

lemma early:
  "\<exists>s t. perform_all demo early_start (loop_new (ek_start [])) = Some s \<and> (2, 2) \<in> set (pending_ready (ep s))
     \<and> open_handler demo 2 s
     \<and> perform_all demo (replicate 26 M_thread) s = Some t \<and> pc t = Waiting \<and> open_handler demo 2 t
     \<and> pending_ready (ep t) = [] \<and> registered (ep t) (en_handle demo 2) = Some 2
     \<and> history t = [L_call 0 0, L_removed 0]"
  by (simp add: early_start_def numeral_eq_Suc loop_eval open_handler_def)

text \<open>
  A ready event that comes too early is dropped.  There is a run in which a function given to
  \<open>ExecuteOnce\<close> attaches a handler that makes itself ready at once; the ready event is taken in the
  same pass, before the addition, and ignored: at the end the handler is open and in the table, no
  ready event is queued, and it was never called.
\<close>

lemma early_ready_dropped:
  "\<exists>s t. run_reach demo (loop_new (ek_start [])) s \<and> (2, 2) \<in> set (pending_ready (ep s)) \<and> open_handler demo 2 s
     \<and> run_reach demo s t \<and> pc t = Waiting \<and> open_handler demo 2 t \<and> pending_ready (ep t) = []
     \<and> registered (ep t) (en_handle demo 2) = Some 2 \<and> (\<forall>m. L_call 2 m \<notin> set (history t))"
proof -
  from early obtain s t where
    s: "perform_all demo early_start (loop_new (ek_start [])) = Some s" "(2, 2) \<in> set (pending_ready (ep s))"
      "open_handler demo 2 s"
    and t: "perform_all demo (replicate 26 M_thread) s = Some t" "pc t = Waiting" "open_handler demo 2 t"
      "pending_ready (ep t) = []" "registered (ep t) (en_handle demo 2) = Some 2" "history t = [L_call 0 0, L_removed 0]"
    by blast
  have "run_reach demo s t" by (rule perform_all_reach [OF run_reach.start t(1)])
  moreover have "\<forall>m. L_call 2 m \<notin> set (history t)" by (simp add: t(6))
  ultimately show ?thesis using s(2,3) t(2-5) perform_all_run [OF s(1)] by blast
qed

end
