(* ===== verification/Stream_In_Loop.thy ===== *)
theory Stream_In_Loop
  imports Stream_Buffer_Run Loop_Ready
begin

text \<open>
  A stream buffer in an event loop: the calls that the one makes on its event are operations of the
  other, and the loop thread runs its \<open>HandleEvents\<close>.  Every run of the composition is a run of both
  parts, so what is known of them carries over, and the calls on the event never throw.
\<close>

subsection \<open>The composition\<close>

text \<open>What a stream buffer did to its event, handler and queue between two states.\<close>

definition effects :: "('w, 'h) sbuf \<Rightarrow> ('w, 'h) sbuf \<Rightarrow> obs list" where
  "effects s t = drop (length (trace s)) (trace t)"

text \<open>
  The protected calls of \<open>EventHandler\<close>, carried out on the event \<open>i\<close>; \<open>Modify\<close> is called by the loop
  thread.  The calls of the application's handler are none of the loop's business.
\<close>

fun apply_obs :: "'k env \<Rightarrow> nat \<Rightarrow> obs \<Rightarrow> 'k loop \<Rightarrow> exn + 'k loop" where
  "apply_obs E i (Ob_ready m) l = el_ready E i m l"
| "apply_obs E i Ob_close_event l = (case event_close E i l of Inl (x, l) \<Rightarrow> Inl x | Inr l \<Rightarrow> Inr l)"
| "apply_obs E i Ob_modify_event l = el_modify E True i l"
| "apply_obs E i _ l = Inr l"

fun apply_all :: "'k env \<Rightarrow> nat \<Rightarrow> obs list \<Rightarrow> 'k loop \<Rightarrow> exn + 'k loop" where
  "apply_all E i [] l = Inr l"
| "apply_all E i (x # xs) l = bindE (apply_obs E i x l) (apply_all E i xs)"

text \<open>What the loop gets from \<open>GetEvents\<close> of the handler \<open>i\<close>.\<close>

definition answers :: "nat \<Rightarrow> ('w, 'h) sbuf \<Rightarrow> 'k loop \<Rightarrow> 'k loop" where
  "answers i s l = l\<lparr>wants := (wants l)(i := sb_get_events s)\<rparr>"

text \<open>
  The state of the composition: the loop, the stream buffer whose event is \<open>i\<close>, and whether the call
  of its \<open>HandleEvents\<close> that the loop thread is in has been carried out.
\<close>

record ('k, 'w, 'h) system =
  sy_loop :: "'k loop"
  sy_stream :: "('w, 'h) sbuf"
  sy_served :: bool

definition at_stream :: "nat \<Rightarrow> ('k, 'w, 'h) system \<Rightarrow> bool" where
  "at_stream i y \<longleftrightarrow> calling (pc (sy_loop y)) = Some i \<and> \<not> sy_served y"

inductive sys_step ::
  "'k env \<Rightarrow> nat \<Rightarrow> 'w vtable \<Rightarrow> 'h app \<Rightarrow> ('w \<Rightarrow> 'w \<Rightarrow> bool) \<Rightarrow>
     ('k, 'w, 'h) system \<Rightarrow> ('k, 'w, 'h) system \<Rightarrow> bool"
  for E i vt app env where
  serve: "at_stream i y \<Longrightarrow> running (sy_loop y) \<Longrightarrow> handle_events vt app (sy_stream y) = Some (Inr t) \<Longrightarrow>
    apply_all E i (effects (sy_stream y) t) (answers i t (sy_loop y)) = Inr l \<Longrightarrow>
    sys_step E i vt app env y \<lparr>sy_loop = l, sy_stream = t, sy_served = True\<rparr>"
| attach: "running (sy_loop y) \<Longrightarrow> \<not> lock_held (sy_loop y) \<Longrightarrow> i \<notin> set (gone (sy_loop y)) \<Longrightarrow>
    fresh_handle E i (sy_loop y) \<Longrightarrow> attach_begin i (answers i (sy_stream y) (sy_loop y)) = Inr l \<Longrightarrow> \<not> has_event (sy_stream y) \<Longrightarrow>
    sys_step E i vt app env y (y\<lparr>sy_loop := l, sy_stream := (sy_stream y)\<lparr>has_event := True\<rparr>\<rparr>)"
| write_call: "running (sy_loop y) \<Longrightarrow>
    apply_all E i (effects (sy_stream y) (sb_write d (sy_stream y))) (sy_loop y) = Inr l \<Longrightarrow>
    sys_step E i vt app env y (y\<lparr>sy_loop := l, sy_stream := sb_write d (sy_stream y)\<rparr>)"
| close_call: "running (sy_loop y) \<Longrightarrow>
    apply_all E i (effects (sy_stream y) (sb_close (sy_stream y))) (sy_loop y) = Inr l \<Longrightarrow>
    sys_step E i vt app env y (y\<lparr>sy_loop := l, sy_stream := sb_close (sy_stream y)\<rparr>)"
| app_gone: "sys_step E i vt app env y (y\<lparr>sy_stream := (sy_stream y)\<lparr>handler_alive := False\<rparr>\<rparr>)"
| outside: "env (world (sy_stream y)) w \<Longrightarrow> sys_step E i vt app env y (y\<lparr>sy_stream := (sy_stream y)\<lparr>world := w\<rparr>\<rparr>)"
| elsewhere: "run_step E (sy_loop y) l \<Longrightarrow> \<not> at_stream i y \<or> pc l = pc (sy_loop y) \<Longrightarrow>
    set (created l) \<inter> {i} = set (created (sy_loop y)) \<inter> {i} \<Longrightarrow>
    wants l i = wants (sy_loop y) i \<Longrightarrow>
    sys_step E i vt app env y
      (y\<lparr>sy_loop := l, sy_served := (if pc l = pc (sy_loop y) then sy_served y else False)\<rparr>)"

inductive sys_reach ::
  "'k env \<Rightarrow> nat \<Rightarrow> 'w vtable \<Rightarrow> 'h app \<Rightarrow> ('w \<Rightarrow> 'w \<Rightarrow> bool) \<Rightarrow>
     ('k, 'w, 'h) system \<Rightarrow> ('k, 'w, 'h) system \<Rightarrow> bool"
  for E i vt app env y0 where
  start: "sys_reach E i vt app env y0 y0"
| move: "sys_reach E i vt app env y0 y \<Longrightarrow> sys_step E i vt app env y z \<Longrightarrow> sys_reach E i vt app env y0 z"

definition sys_start :: "'k \<Rightarrow> ('w, 'h) sbuf \<Rightarrow> ('k, 'w, 'h) system" where
  "sys_start k s = \<lparr>sy_loop = loop_new k, sy_stream = s, sy_served = False\<rparr>"

subsection \<open>The calls on the event\<close>

definition in_callback :: "nat \<Rightarrow> 'k loop \<Rightarrow> bool" where
  "in_callback i l \<longleftrightarrow> calling (pc l) = Some i"

lemma calling_Some: "calling q = Some i \<longleftrightarrow> (\<exists>m r. q = Calling i m r)"
  by (cases q) auto

text \<open>Each call leaves the frame of the loop alone.\<close>

lemma apply_obs_frame:
  assumes "apply_obs E i x l = Inr l'"
  shows "call_frame l l'"
  using assms
  by (cases x) (auto intro: el_ready_call el_modify_call event_close_call call_frame_refl split: sum.splits)

lemma call_frame_trans: "call_frame a b \<Longrightarrow> call_frame b c \<Longrightarrow> call_frame a c"
  by (auto simp: call_frame_def)

lemma apply_all_frame: "apply_all E i xs l = Inr l' \<Longrightarrow> call_frame l l'"
proof (induction xs arbitrary: l)
  case (Cons x xs)
  then obtain u where "apply_obs E i x l = Inr u" "apply_all E i xs u = Inr l'" by auto
  with Cons.IH [of u] apply_obs_frame [of E i x l u] show ?case by (blast intro: call_frame_trans)
qed (simp add: call_frame_refl)

lemma apply_obs_wants: "apply_obs E i x l = Inr l' \<Longrightarrow> wants l' = wants l"
  by (cases x) (auto simp: el_ready_def el_modify_def event_close_def el_remove_def on_ep_def Let_def split: sum.splits if_splits)

lemma apply_all_wants: "apply_all E i xs l = Inr l' \<Longrightarrow> wants l' = wants l"
proof (induction xs arbitrary: l)
  case (Cons x xs)
  then obtain u where "apply_obs E i x l = Inr u" "apply_all E i xs u = Inr l'" by auto
  with Cons.IH [of u] apply_obs_wants [of E i x l u] show ?case by simp
qed simp

lemma apply_all_closes:
  "apply_all E i xs l = Inr l' \<Longrightarrow> Ob_close_event \<in> set xs \<Longrightarrow> i \<in> set (closed l')"
proof (induction xs arbitrary: l)
  case (Cons x xs)
  then obtain u where u: "apply_obs E i x l = Inr u" "apply_all E i xs u = Inr l'" by auto
  show ?case
  proof (cases "x = Ob_close_event")
    case True
    with u(1) have "i \<in> set (closed u)" by (auto simp: event_close_def split: if_splits sum.splits)
    with apply_all_frame [OF u(2)] show ?thesis by (auto simp: call_frame_def)
  next
    case False
    with Cons.IH [OF u(2)] Cons.prems(2) show ?thesis by auto
  qed
qed simp

lemma answers_simps [simp]:
  "pc (answers i s l) = pc l" "created (answers i s l) = created l" "closed (answers i s l) = closed l"
  "gone (answers i s l) = gone l" "lock_held (answers i s l) = lock_held l" "running (answers i s l) = running l"
  "wants (answers i s l) = (wants l)(i := sb_get_events s)" "ep (answers i s l) = ep l" "history (answers i s l) = history l"
  by (simp_all add: answers_def running_def)

lemma answers_fresh: "fresh_handle E i (answers j s l) \<longleftrightarrow> fresh_handle E i l"
  by (simp add: fresh_handle_def held_def answers_def)

lemma answers_step: "running l \<Longrightarrow> run_step E l (answers i s l)"
  unfolding answers_def by (rule run_step.wants_change)

text \<open>The conditions under which a stream buffer calls its event.\<close>

definition ready_for_calls :: "'k env \<Rightarrow> nat \<Rightarrow> obs list \<Rightarrow> 'k loop \<Rightarrow> bool" where
  "ready_for_calls E i xs l \<longleftrightarrow> loop_inv E l \<and> running l \<and> 0 \<le> en_handle E i
     \<and> (i \<in> set (created l) \<or> (\<forall>x \<in> set xs. \<forall>m. x \<noteq> Ob_ready m \<and> x \<noteq> Ob_close_event \<and> x \<noteq> Ob_modify_event))
     \<and> (Ob_modify_event \<in> set xs \<longrightarrow> in_callback i l)"

lemma apply_obs_total:
  assumes "epoll_ok (en_wake_fd E) (en_calls E)" and "ready_for_calls E i (x # xs) l"
  shows "\<exists>l'. apply_obs E i x l = Inr l' \<and> loop_inv E l' \<and> (run_step E l l' \<or> l' = l)"
proof -
  have ok: "ctl_ok (en_calls E)" "efd_ok (en_calls E)" using assms(1) by (simp_all add: epoll_ok_def)
  note r = assms(2) [unfolded ready_for_calls_def]
  then have iv: "loop_inv E l" and nl: "\<not> lock_held l" using loop_invD(3) by (auto simp: books_ok_def)
  show ?thesis
  proof (cases x)
    case (Ob_ready m)
    from ep_ready_cases [OF ok(2), of "(i, m)" "ep l"] obtain l' where l': "el_ready E i m l = Inr l'"
      by (auto simp: el_ready_def on_ep_def)
    with el_ready_inv [OF ok(2) iv l'] Ob_ready r show ?thesis by (auto intro: run_step.ready)
  next
    case Ob_close_event
    with r have "i \<in> set (created l)" by auto
    from event_close_inv [OF ok(2) iv this] Ob_close_event this r nl show ?thesis by (auto intro: run_step.close)
  next
    case Ob_modify_event
    with r obtain m q where q: "pc l = Calling i m q" by (auto simp: in_callback_def calling_Some)
    from el_modify_inv [OF ok(1) iv q] r obtain l' where "el_modify E True i l = Inr l'" "loop_inv E l'" by auto
    with Ob_modify_event q r show ?thesis by (auto intro: run_step.modify_own)
  qed (use iv in auto)
qed

lemma apply_all_total:
  assumes "epoll_ok (en_wake_fd E) (en_calls E)" and "ready_for_calls E i xs l"
  shows "\<exists>l'. apply_all E i xs l = Inr l' \<and> loop_inv E l' \<and> run_reach E l l'"
  using assms(2)
proof (induction xs arbitrary: l)
  case Nil
  then show ?case by (auto simp: ready_for_calls_def intro: run_reach.start)
next
  case (Cons x xs)
  from apply_obs_total [OF assms(1) Cons.prems] obtain u where
    u: "apply_obs E i x l = Inr u" "loop_inv E u" "run_step E l u \<or> u = l" by blast
  from apply_obs_frame [OF u(1)] Cons.prems u(2) have "ready_for_calls E i xs u"
    by (auto simp: ready_for_calls_def call_frame_def running_def in_callback_def)
  from Cons.IH [OF this] obtain l' where l': "apply_all E i xs u = Inr l'" "loop_inv E l'" "run_reach E u l'" by blast
  have "run_reach E l u" using u(3) by (auto intro: run_reach.intros)
  with l' u(1) show ?case by (auto intro: run_reach_trans)
qed

subsection \<open>Every reachable state of the composition\<close>

definition loop_obs :: "obs \<Rightarrow> bool" where
  "loop_obs x \<longleftrightarrow> (\<exists>m. x = Ob_ready m) \<or> x = Ob_close_event \<or> x = Ob_modify_event"

lemma write_effects:
  "x \<in> set (effects s (sb_write d s)) \<Longrightarrow> x \<noteq> Ob_modify_event \<and> (loop_obs x \<longrightarrow> has_event s)"
  "x \<in> set (effects s (sb_close s)) \<Longrightarrow> x \<noteq> Ob_modify_event \<and> (loop_obs x \<longrightarrow> has_event s)"
  by (auto simp: effects_def sb_write_trace loop_obs_def split: if_splits)

subsection \<open>The end of a stream and its event\<close>

lemma run_actions_effects:
  "evolves s t \<Longrightarrow> trace t = trace s @ effects s t" "evolves s t \<Longrightarrow> has_event t = has_event s"
  by (auto simp: evolves_def effects_def prefix_def)

lemma do_finalize_closes:
  assumes "do_finalize vt app s = Inr t" and "\<not> eof_called s" and "eof_called t" and "has_event s"
  shows "\<exists>ys. trace t = trace s @ ys \<and> Ob_close_event \<in> set ys"
proof (rule do_finalize_elim [OF assms(1)])
  fix u
  assume u: "(if \<not> should_close s \<and> read_closed (top_filter s)
      then do_close vt (s\<lparr>should_close := True\<rparr>) else Inr s) = Inr u"
    and t: "if is_read_closed u \<and> is_write_closed u \<and> \<not> eof_called u
     then \<exists>v. callback Ob_eof (on_eof app) (u\<lparr>eof_called := True\<rparr>) = Inr v \<and> t = close_event v
     else t = u"
  have "evolves s (s\<lparr>should_close := True\<rparr>)" "keeps s (s\<lparr>should_close := True\<rparr>)"
    by (rule evolves_same, simp_all) (rule keeps_same, auto)
  with u have su: "evolves s u" "keeps s u"
    by (auto split: if_splits dest: do_close_evolves do_close_keeps intro: evolves_trans keeps_trans)
  with assms(2,3) t obtain v where v: "callback Ob_eof (on_eof app) (u\<lparr>eof_called := True\<rparr>) = Inr v" "t = close_event v"
    by (auto simp: keeps_def split: if_splits)
  have "evolves (u\<lparr>eof_called := True\<rparr>) v" by (rule callback_evolves [OF v(1)])
  with su(1) assms(4) v(2) show ?thesis
    by (auto simp: evolves_def prefix_def close_event_def emit_def)
qed

lemma handle_events_closes:
  assumes "handle_events vt app s = Some (Inr t)" and "sb_inv s" and "\<not> eof_called s" and "eof_called t"
    and "has_event s"
  shows "Ob_close_event \<in> set (effects s t)"
proof -
  have fin: ?thesis if "evolves s u" "eof_called u = eof_called s" "do_finalize vt app u = Inr t" for u
    using do_finalize_closes [OF that(3)] that(1,2) assms(3-5) by (auto simp: evolves_def prefix_def effects_def)
  have ne: "stream_filters s \<noteq> []" using assms(2) by (simp add: sb_inv_def chain_inv_def)
  show ?thesis
    using assms(1)
  proof (cases rule: handle_events_elim)
    case dead
    with assms(3,4) show ?thesis by (simp add: close_event_def split: if_splits)
  next
    case (closing u)
    from fin [OF do_close_evolves [OF closing(3)] _ closing(4)] do_close_keeps [OF closing(3)] show ?thesis
      by (simp add: keeps_def)
  next
    case (connecting u)
    from fin [OF do_connect_evolves [OF connecting(4)] _ connecting(5)] do_connect_chain [OF connecting(4)] assms(2)
    show ?thesis by (simp add: sb_inv_def)
  next
    case (open_io u v)
    from do_read_keeps [OF open_io(4) ne] do_write_keeps [OF open_io(5)] have "eof_called v = eof_called s"
      by (simp add: keeps_def)
    from fin [OF evolves_trans [OF do_read_evolves [OF open_io(4)] do_write_evolves [OF open_io(5)]] this open_io(6)]
    show ?thesis .
  qed
qed

lemma sb_write_get_events: "sb_get_events (sb_write d s) = sb_get_events s" "sb_get_events (sb_close s) = sb_get_events s"
  by (simp_all add: sb_get_events_def top_ix_def)

subsection \<open>The invariant of the composition\<close>

definition sys_inv ::
  "'k env \<Rightarrow> nat \<Rightarrow> 'w vtable \<Rightarrow> 'h app \<Rightarrow> ('w \<Rightarrow> 'w \<Rightarrow> bool) \<Rightarrow> 'k \<Rightarrow> ('w, 'h) sbuf \<Rightarrow> ('k, 'w, 'h) system \<Rightarrow> bool" where
  "sys_inv E i vt app env k s0 y \<longleftrightarrow>
     run_reach E (loop_new k) (sy_loop y) \<and> sb_reach vt app env s0 (sy_stream y)
   \<and> (has_event (sy_stream y) \<longleftrightarrow> i \<in> set (created (sy_loop y)))
   \<and> (has_event (sy_stream y) \<longrightarrow> wants (sy_loop y) i = sb_get_events (sy_stream y))
   \<and> (eof_called (sy_stream y) \<longrightarrow> (\<forall>x. pc (sy_loop y) \<noteq> Dead x) \<longrightarrow> i \<in> set (closed (sy_loop y)))"

lemma calling_created: "loop_inv E l \<Longrightarrow> calling (pc l) = Some i \<Longrightarrow> i \<in> set (created l)"
  using loop_invD(5) [of E l] by (simp add: calls_ok_def)

lemma at_stream_created: "loop_inv E (sy_loop y) \<Longrightarrow> at_stream i y \<Longrightarrow> i \<in> set (created (sy_loop y))"
  by (simp add: at_stream_def calling_created)

lemma calls_ready:
  assumes "loop_inv E l" and "running l" and "0 \<le> en_handle E i"
    and "\<And>x. x \<in> set xs \<Longrightarrow> loop_obs x \<Longrightarrow> i \<in> set (created l)"
    and "Ob_modify_event \<in> set xs \<Longrightarrow> calling (pc l) = Some i"
  shows "ready_for_calls E i xs l"
  using assms by (auto simp: ready_for_calls_def loop_obs_def in_callback_def)

lemma calls_reach:
  assumes "epoll_ok (en_wake_fd E) (en_calls E)" and "ready_for_calls E i xs l" and "apply_all E i xs l = Inr l'"
    and "run_reach E r l"
  shows "run_reach E r l' \<and> created l' = created l \<and> set (closed l) \<subseteq> set (closed l') \<and> wants l' = wants l \<and> pc l' = pc l"
proof -
  from apply_all_total [OF assms(1,2)] assms(3) have "run_reach E l l'" by auto
  with run_reach_trans [OF assms(4)] apply_all_frame [OF assms(3)] apply_all_wants [OF assms(3)]
  show ?thesis by (simp add: call_frame_def)
qed

text \<open>In a call of the handler, before the calls on the event.\<close>

lemma calling_ready:
  assumes "run_reach E (loop_new k) l" and "epoll_ok (en_wake_fd E) (en_calls E)" and "fresh_start E k"
    and "calling (pc l) = Some i" and "running l" and "0 \<le> en_handle E i"
  shows "ready_for_calls E i xs (answers i t l) \<and> run_reach E (loop_new k) (answers i t l)"
proof -
  have r: "run_reach E (loop_new k) (answers i t l)" by (rule run_reach.move [OF assms(1) answers_step [OF assms(5)]])
  have iv: "loop_inv E (answers i t l)" by (rule reach_running_inv [OF r assms(2,3)]) (simp add: assms(5))
  have "i \<in> set (created l)" by (rule calling_created [OF reach_running_inv [OF assms(1-3,5)] assms(4)])
  then have "ready_for_calls E i xs (answers i t l)"
    by (intro calls_ready [OF iv _ assms(6)]) (use assms(4,5) in simp_all)
  with r show ?thesis by simp
qed

lemma serve_ready:
  assumes "run_reach E (loop_new k) (sy_loop y)" and "epoll_ok (en_wake_fd E) (en_calls E)" and "fresh_start E k"
    and "at_stream i y" and "running (sy_loop y)" and "0 \<le> en_handle E i"
  shows "ready_for_calls E i xs (answers i t (sy_loop y)) \<and> run_reach E (loop_new k) (answers i t (sy_loop y))"
  using calling_ready [OF assms(1-3) _ assms(5,6)] assms(4) by (simp add: at_stream_def)

lemma call_ready:
  assumes "sys_inv E i vt app env k s0 y" and "epoll_ok (en_wake_fd E) (en_calls E)" and "fresh_start E k"
    and "running (sy_loop y)" and "0 \<le> en_handle E i"
    and "\<And>x. x \<in> set xs \<Longrightarrow> x \<noteq> Ob_modify_event \<and> (loop_obs x \<longrightarrow> has_event (sy_stream y))"
  shows "ready_for_calls E i xs (sy_loop y)"
proof (rule calls_ready)
  show "loop_inv E (sy_loop y)" using assms(1,4) reach_running_inv [OF _ assms(2,3)] by (simp add: sys_inv_def)
qed (use assms in \<open>auto simp: sys_inv_def\<close>)

lemma sys_step_inv:
  assumes "sys_step E i vt app env y z" and "sys_inv E i vt app env k s0 y" and "sb_inv s0"
    and "epoll_ok (en_wake_fd E) (en_calls E)" and "fresh_start E k" and "0 \<le> en_handle E i" and "en_kind E i = User"
  shows "sys_inv E i vt app env k s0 z"
proof -
  note inv = assms(2) [unfolded sys_inv_def]
  from inv have r: "run_reach E (loop_new k) (sy_loop y)" and sr: "sb_reach vt app env s0 (sy_stream y)"
    and he: "has_event (sy_stream y) \<longleftrightarrow> i \<in> set (created (sy_loop y))" by simp_all
  from assms(1) show ?thesis
  proof cases
    case (serve t l)
    note sv = serve_ready [OF r assms(4,5) serve(2,3) assms(6), of "effects (sy_stream y) t" t]
    from calls_reach [OF assms(4) conjunct1 [OF sv] serve(5) conjunct2 [OF sv]]
    have l: "run_reach E (loop_new k) l" "created l = created (sy_loop y)" "wants l i = sb_get_events t"
      "set (closed (sy_loop y)) \<subseteq> set (closed l)" "pc l = pc (sy_loop y)" by simp_all
    have cr: "has_event (sy_stream y)"
      using at_stream_created [OF reach_running_inv [OF r assms(4,5) serve(3)] serve(2)] he by simp
    have ht: "has_event t = has_event (sy_stream y)"
      using handle_events_evolves [OF serve(4)] by (simp add: evolves_def)
    have "sb_reach vt app env s0 t" by (rule sb_reach.move [OF sr sb_step.event [OF serve(4)]])
    moreover have "i \<in> set (closed l)" if "eof_called t"
    proof (cases "eof_called (sy_stream y)")
      case True
      with inv serve(3) have "i \<in> set (closed (sy_loop y))" by (auto simp: running_def)
      with l(4) show ?thesis by auto
    next
      case False
      from handle_events_closes [OF serve(4) sb_reach_inv [OF sr assms(3)] False that cr] apply_all_closes [OF serve(5)]
      show ?thesis by simp
    qed
    ultimately show ?thesis using l he serve(1) ht by (simp add: sys_inv_def)
  next
    case (attach l)
    have "run_reach E (loop_new k) (answers i (sy_stream y) (sy_loop y))"
      by (rule run_reach.move [OF r answers_step [OF attach(2)]])
    moreover have "run_step E (answers i (sy_stream y) (sy_loop y)) l"
      by (rule run_step.user_attach [OF _ _ _ assms(7) _ attach(6)]) (use attach(2-5) in \<open>simp_all add: answers_fresh del: fresh_handle_def\<close>)
    moreover have "created l = created (sy_loop y) @ [i]" "closed l = closed (sy_loop y)" "pc l = pc (sy_loop y)"
      using attach_begin_call [OF attach(6)] by (simp_all add: attach_frame_def)
    moreover have "wants l i = sb_get_events (sy_stream y)"
      using attach(6) by (auto simp: attach_begin_def create_event_def split: if_splits)
    moreover have "sb_reach vt app env s0 ((sy_stream y)\<lparr>has_event := True\<rparr>)"
      by (rule sb_reach.move [OF sr sb_step.attach [OF attach(7)]])
    ultimately show ?thesis using run_reach.move attach(1) inv
      by (auto simp: sys_inv_def sb_get_events_def top_ix_def)
  next
    case (write_call d l)
    have "ready_for_calls E i (effects (sy_stream y) (sb_write d (sy_stream y))) (sy_loop y)"
      by (rule call_ready [OF assms(2,4,5) write_call(2) assms(6) write_effects(1)])
    from calls_reach [OF assms(4) this write_call(3) r] sb_reach.move [OF sr sb_step.user_write, of d] inv write_call(1)
    show ?thesis by (auto simp: sys_inv_def sb_write_get_events)
  next
    case (close_call l)
    have "ready_for_calls E i (effects (sy_stream y) (sb_close (sy_stream y))) (sy_loop y)"
      by (rule call_ready [OF assms(2,4,5) close_call(2) assms(6) write_effects(2)])
    from calls_reach [OF assms(4) this close_call(3) r] sb_reach.move [OF sr sb_step.user_close] inv close_call(1)
    show ?thesis by (auto simp: sys_inv_def sb_write_get_events)
  next
    case app_gone
    with inv sb_reach.move [OF sr sb_step.handler_gone] show ?thesis by (simp add: sys_inv_def sb_get_events_def top_ix_def)
  next
    case (outside w)
    from outside(1) inv sb_reach.move [OF sr sb_step.outside [where env = env, OF outside(2)]] show ?thesis
      by (simp add: sys_inv_def sb_get_events_def top_ix_def)
  next
    case (elsewhere l)
    have g: "set (closed (sy_loop y)) \<subseteq> set (closed l)" if "\<forall>x. pc l \<noteq> Dead x"
      using run_step_grows [OF elsewhere(2) that] by simp
    have "\<forall>x. pc (sy_loop y) \<noteq> Dead x" using run_step_from_alive [OF elsewhere(2)] by (auto simp: running_def)
    with elsewhere(1,4,5) run_reach.move [OF r elsewhere(2)] inv g show ?thesis
      by (auto simp: sys_inv_def)
  qed
qed

lemma sys_reach_inv:
  assumes "sys_reach E i vt app env (sys_start k s0) y"
    and "epoll_ok (en_wake_fd E) (en_calls E)" and "fresh_start E k" and "0 \<le> en_handle E i" and "en_kind E i = User"
    and "sb_create ha m w h = Inr s0"
  shows "sys_inv E i vt app env k s0 y"
  using assms(1)
proof (induction rule: sys_reach.induct)
  case start
  from sb_create_start [OF assms(6)] show ?case
    by (auto simp: sys_inv_def sys_start_def loop_new_def intro: run_reach.start sb_reach.start)
next
  case (move y z)
  from sys_step_inv [OF move(2,3) conjunct1 [OF sb_create_inv [OF assms(6)]] assms(2-5)] show ?case .
qed

subsection \<open>A run of the composition\<close>

text \<open>The moves as data, sound for the relation.\<close>

datatype sys_move = S_thread | S_hand_over | S_attach | S_write bytes | S_close | S_serve

fun sys_do ::
  "'k env \<Rightarrow> nat \<Rightarrow> 'w vtable \<Rightarrow> 'h app \<Rightarrow> sys_move \<Rightarrow> ('k, 'w, 'h) system \<Rightarrow> ('k, 'w, 'h) system option" where
  "sys_do E i vt app S_thread y =
     (let l = loop_step E (sy_loop y)
      in if running (sy_loop y) \<and> \<not> lock_held (sy_loop y) \<and> \<not> at_stream i y
           \<and> created l = created (sy_loop y) \<and> wants l i = wants (sy_loop y) i
         then Some (y\<lparr>sy_loop := l, sy_served := (if pc l = pc (sy_loop y) then sy_served y else False)\<rparr>) else None)"
| "sys_do E i vt app S_hand_over y =
     (case attach_end E i (sy_loop y) of
        Inl x \<Rightarrow> None
      | Inr l \<Rightarrow>
          if running (sy_loop y) \<and> i \<in> set (attaching (sy_loop y)) \<and> pc l = pc (sy_loop y)
           \<and> created l = created (sy_loop y) \<and> wants l i = wants (sy_loop y) i
          then Some (y\<lparr>sy_loop := l\<rparr>) else None)"
| "sys_do E i vt app S_attach y =
     (case attach_begin i (answers i (sy_stream y) (sy_loop y)) of
        Inl x \<Rightarrow> None
      | Inr l \<Rightarrow>
          if running (sy_loop y) \<and> \<not> lock_held (sy_loop y) \<and> i \<notin> set (gone (sy_loop y))
           \<and> fresh_handle E i (sy_loop y) \<and> \<not> has_event (sy_stream y)
          then Some (y\<lparr>sy_loop := l, sy_stream := (sy_stream y)\<lparr>has_event := True\<rparr>\<rparr>) else None)"
| "sys_do E i vt app (S_write d) y =
     (case apply_all E i (effects (sy_stream y) (sb_write d (sy_stream y))) (sy_loop y) of
        Inl x \<Rightarrow> None
      | Inr l \<Rightarrow> if running (sy_loop y) then Some (y\<lparr>sy_loop := l, sy_stream := sb_write d (sy_stream y)\<rparr>) else None)"
| "sys_do E i vt app S_close y =
     (case apply_all E i (effects (sy_stream y) (sb_close (sy_stream y))) (sy_loop y) of
        Inl x \<Rightarrow> None
      | Inr l \<Rightarrow> if running (sy_loop y) then Some (y\<lparr>sy_loop := l, sy_stream := sb_close (sy_stream y)\<rparr>) else None)"
| "sys_do E i vt app S_serve y =
     (if at_stream i y \<and> running (sy_loop y)
      then case handle_events vt app (sy_stream y) of
             Some (Inr t) \<Rightarrow>
               (case apply_all E i (effects (sy_stream y) t) (answers i t (sy_loop y)) of
                  Inl x \<Rightarrow> None
                | Inr l \<Rightarrow> Some \<lparr>sy_loop = l, sy_stream = t, sy_served = True\<rparr>)
           | _ \<Rightarrow> None
      else None)"

lemma sys_do_step:
  assumes "sys_do E i vt app m y = Some z"
  shows "sys_step E i vt app env y z"
proof (cases m)
  case S_thread
  with assms have "\<not> at_stream i y" "running (sy_loop y)" "\<not> lock_held (sy_loop y)"
    "created (loop_step E (sy_loop y)) = created (sy_loop y)" "wants (loop_step E (sy_loop y)) i = wants (sy_loop y) i"
    "z = y\<lparr>sy_loop := loop_step E (sy_loop y),
       sy_served := (if pc (loop_step E (sy_loop y)) = pc (sy_loop y) then sy_served y else False)\<rparr>"
    by (simp_all only: sys_do.simps Let_def split: if_splits, simp_all)
  note m = this
  have "run_step E (sy_loop y) (loop_step E (sy_loop y))" by (rule run_step.thread [OF m(2,3)])
  from sys_step.elsewhere [OF this, of i vt app env] m show ?thesis by simp
next
  case S_hand_over
  with assms obtain l where m: "attach_end E i (sy_loop y) = Inr l" "running (sy_loop y)" "i \<in> set (attaching (sy_loop y))"
    "pc l = pc (sy_loop y)" "created l = created (sy_loop y)" "wants l i = wants (sy_loop y) i" "z = y\<lparr>sy_loop := l\<rparr>"
    by (auto split: if_splits sum.splits)
  have "run_step E (sy_loop y) l" by (rule run_step.hand_over [OF m(2,3,1)])
  from sys_step.elsewhere [OF this, of i vt app env] m show ?thesis by simp
next
  case S_attach
  with assms show ?thesis
    by (auto split: if_splits sum.splits simp del: fresh_handle_def intro: sys_step.attach)
qed (use assms in \<open>auto split: if_splits sum.splits option.splits intro: sys_step.intros\<close>)

fun sys_run ::
  "'k env \<Rightarrow> nat \<Rightarrow> 'w vtable \<Rightarrow> 'h app \<Rightarrow> sys_move list \<Rightarrow> ('k, 'w, 'h) system \<Rightarrow> ('k, 'w, 'h) system option" where
  "sys_run E i vt app [] y = Some y"
| "sys_run E i vt app (m # ms) y = Option.bind (sys_do E i vt app m y) (sys_run E i vt app ms)"

lemma sys_run_reach:
  "sys_reach E i vt app env y0 y \<Longrightarrow> sys_run E i vt app ms y = Some z \<Longrightarrow> sys_reach E i vt app env y0 z"
proof (induction ms arbitrary: y)
  case (Cons m ms)
  then obtain u where "sys_do E i vt app m y = Some u" "sys_run E i vt app ms u = Some z" by (auto simp: bind_eq_Some_conv)
  with Cons.IH [OF sys_reach.move [OF Cons.prems(1) sys_do_step]] show ?case by blast
qed simp

text \<open>
  A client is attached, its descriptor is reported and the loop thread is at its call; it connects and
  the loop waits; the application closes it and the loop thread calls it again.
\<close>

definition client_start :: "(ek, script tcp, unit) system" where
  "client_start = sys_start (ek_start [[], [(8, 4)]]) (projr (create_for_client True 8 script_a ()))"

lemma client_create:
  "sb_create True CLIENT_MODE \<lparr>tcp_handle = 8, pending_connect = True, kernel = script_a\<rparr> ()
   = Inr (sy_stream client_start)"
  by (simp add: client_start_def sys_start_def create_for_client_def sb_create_def sb_add_filter_def sb_new_def)

definition calling_run :: "sys_move list" where
  "calling_run = [S_attach, S_hand_over] @ replicate 16 S_thread"

definition waiting_run :: "sys_move list" where
  "waiting_run = calling_run @ [S_serve] @ replicate 3 S_thread"

definition ended_run :: "sys_move list" where
  "ended_run = waiting_run @ [S_close] @ replicate 10 S_thread @ [S_serve]"

lemmas system_eval =
  numeral_eq_Suc loop_eval stream_eval sb_new_def new_filter_def tcp_only_def no_upper_def listener_app_def script_a_def
  at_stream_def answers_def effects_def sb_get_events_def filter_get_events_def
  client_start_def sys_start_def create_for_client_def sb_create_def
  linux_abi_def events_of_epoll_def ev_defs has_def 

lemma client_calling:
  "\<exists>y t. sys_run demo 2 tcp_only listener_app calling_run client_start = Some y \<and> at_stream 2 y
     \<and> running (sy_loop y) \<and> created (sy_loop y) = [2]
     \<and> handle_events tcp_only listener_app (sy_stream y) = Some (Inr t) \<and> effects (sy_stream y) t = [Ob_connected, Ob_modify_event]"
  by (simp add: calling_run_def system_eval)

lemma client_waiting:
  "\<exists>y. sys_run demo 2 tcp_only listener_app waiting_run client_start = Some y \<and> pc (sy_loop y) = Waiting
     \<and> open_handler demo 2 (sy_loop y) \<and> pending_add (ep (sy_loop y)) = [] \<and> \<not> should_close (sy_stream y)
     \<and> pending_writes (sy_stream y) = [] \<and> orderly demo (sy_loop y) \<and> ek_script (ep_kernel (ep (sy_loop y))) = []"
  by (simp add: waiting_run_def calling_run_def system_eval open_handler_def orderly_def)

lemma client_ended:
  "\<exists>y. sys_run demo 2 tcp_only listener_app ended_run client_start = Some y \<and> eof_called (sy_stream y)
     \<and> pc (sy_loop y) = Calling 2 Ev_Close (Readying [] [])"
  by (simp add: ended_run_def waiting_run_def calling_run_def system_eval)


lemma client_reach:
  "sys_run demo 2 tcp_only listener_app ms client_start = Some y \<Longrightarrow>
   sys_reach demo 2 tcp_only listener_app (\<lambda>_ _. False) (sys_start (ek_start [[], [(8, 4)]]) (sy_stream client_start)) y"
proof -
  assume "sys_run demo 2 tcp_only listener_app ms client_start = Some y"
  from sys_run_reach [OF sys_reach.start this] show ?thesis by (simp add: client_start_def sys_start_def)
qed

lemma demo_user: "0 \<le> en_handle demo 2" "en_kind demo 2 = User"
  by simp_all

subsection \<open>Properties\<close>

text \<open>
  The composition refines its parts.  Whatever happens to a stream buffer in an event loop is a
  run of the loop and a run of the stream, as each is understood alone; the stream has an event
  exactly when the loop has created it, and the loop sees the mask of the stream's filters.
\<close>

lemma stream_in_loop_refines:
  assumes "sys_reach E i vt app env (sys_start k s0) y"
    and "epoll_ok (en_wake_fd E) (en_calls E)" and "fresh_start E k" and "0 \<le> en_handle E i" and "en_kind E i = User"
    and "sb_create ha m w h = Inr s0"
  shows "run_reach E (loop_new k) (sy_loop y) \<and> sb_reach vt app env s0 (sy_stream y)
    \<and> (has_event (sy_stream y) \<longleftrightarrow> i \<in> set (created (sy_loop y)))
    \<and> (has_event (sy_stream y) \<longrightarrow> wants (sy_loop y) i = sb_get_events (sy_stream y))"
  using sys_reach_inv [OF assms] by (simp add: sys_inv_def)

lemma stream_in_loop_refines_witness:
  "\<exists>y :: (ek, script tcp, unit) system. eof_called (sy_stream y) \<and> run_reach demo (loop_new (ek_start [[], [(8, 4)]])) (sy_loop y)
     \<and> sb_reach tcp_only listener_app (\<lambda>_ _. False) (sy_stream client_start) (sy_stream y)"
proof -
  from client_ended obtain y where y: "sys_run demo 2 tcp_only listener_app ended_run client_start = Some y"
    "eof_called (sy_stream y)" by blast
  from stream_in_loop_refines [OF client_reach [OF y(1)] demo_ok demo_start demo_user client_create] y(2)
  show ?thesis by (intro exI [of _ y]) simp
qed

text \<open>
  A stream's calls on its event do not throw.  While the loop runs, the ready, close and modify
  calls that \<open>Write\<close>, \<open>Close\<close> and \<open>HandleEvents\<close> make of the event all return, from whatever
  thread and at whatever moment \<open>Write\<close> and \<open>Close\<close> are called.
\<close>

lemma stream_calls_never_throw:
  assumes "sys_reach E i vt app env (sys_start k s0) y"
    and "epoll_ok (en_wake_fd E) (en_calls E)" and "fresh_start E k" and "0 \<le> en_handle E i" and "en_kind E i = User"
    and "sb_create ha m w h = Inr s0" and "running (sy_loop y)"
  shows "(\<exists>l. apply_all E i (effects (sy_stream y) (sb_write d (sy_stream y))) (sy_loop y) = Inr l)
    \<and> (\<exists>l. apply_all E i (effects (sy_stream y) (sb_close (sy_stream y))) (sy_loop y) = Inr l)
    \<and> (\<forall>t. at_stream i y \<longrightarrow> handle_events vt app (sy_stream y) = Some (Inr t) \<longrightarrow>
        (\<exists>l. apply_all E i (effects (sy_stream y) t) (answers i t (sy_loop y)) = Inr l))"
proof -
  note inv = sys_reach_inv [OF assms(1-6)]
  then have r: "run_reach E (loop_new k) (sy_loop y)" by (simp add: sys_inv_def)
  show ?thesis
    using apply_all_total [OF assms(2) call_ready [OF inv assms(2,3,7,4) write_effects(1) [of _ _ d]]]
      apply_all_total [OF assms(2) call_ready [OF inv assms(2,3,7,4) write_effects(2)]]
      apply_all_total [OF assms(2) conjunct1 [OF serve_ready [OF r assms(2,3) _ assms(7,4)]]] by blast
qed

lemma stream_calls_never_throw_witness:
  "\<exists>y t l. at_stream 2 y \<and> handle_events tcp_only listener_app (sy_stream y) = Some (Inr t)
     \<and> effects (sy_stream y) t = [Ob_connected, Ob_modify_event]
     \<and> apply_all demo 2 (effects (sy_stream y) t) (answers 2 t (sy_loop y)) = Inr l"
proof -
  from client_calling obtain y t where y: "sys_run demo 2 tcp_only listener_app calling_run client_start = Some y"
    "at_stream 2 y" "running (sy_loop y)" "handle_events tcp_only listener_app (sy_stream y) = Some (Inr t)"
    "effects (sy_stream y) t = [Ob_connected, Ob_modify_event]" by blast
  from stream_calls_never_throw [OF client_reach [OF y(1)] demo_ok demo_start demo_user client_create y(3)] y(2,4,5)
  show ?thesis by blast
qed

text \<open>
  A write wakes the stream.  When the loop thread waits and the application writes to an open,
  attached stream that has nothing to write, the loop thread calls \<open>HandleEvents\<close> with the write
  event in finitely many steps of its own, provided that at most 31 other descriptors are ready after the
  write and no removal is ahead of its addition.
\<close>

lemma write_reaches_handler:
  assumes "sys_reach E i vt app env (sys_start k s0) y"
    and "epoll_ok (en_wake_fd E) (en_calls E)" and "fresh_start E k" and "efd_drains (en_calls E)"
    and "reports_fitting (en_wake_fd E) (en_calls E)" and "en_kind E i = User" and "sb_create ha m w h = Inr s0"
    and "\<And>l. el_ready E i Ev_Write (sy_loop y) = Inr l \<Longrightarrow> fits E l" and "orderly E (sy_loop y)"
    and "pc (sy_loop y) = Waiting" and "open_handler E i (sy_loop y)" and "i \<notin> set (pending_add (ep (sy_loop y)))"
    and "\<not> should_close (sy_stream y)" and "pending_writes (sy_stream y) = []" and "d \<noteq> []"
  shows "\<exists>l n ys. apply_all E i (effects (sy_stream y) (sb_write d (sy_stream y))) (sy_loop y) = Inr l
    \<and> history ((loop_step E ^^ n) l) = history (sy_loop y) @ ys \<and> L_call i Ev_Write \<in> set ys"
proof -
  have h: "0 \<le> en_handle E i" using assms(11) by (simp add: open_handler_def)
  have ru: "running (sy_loop y)" by (simp add: running_def assms(10))
  note inv = sys_reach_inv [OF assms(1-3) h assms(6,7)]
  then have r: "run_reach E (loop_new k) (sy_loop y)" and he: "has_event (sy_stream y)"
    using assms(11) by (simp_all add: sys_inv_def open_handler_def)
  have ef: "effects (sy_stream y) (sb_write d (sy_stream y)) = [Ob_queued d, Ob_ready Ev_Write]"
    using assms(13-15) he by (simp add: effects_def sb_write_trace)
  note rd = call_ready [OF inv assms(2,3) ru h write_effects(1) [of _ _ d]]
  from apply_all_total [OF assms(2) rd] obtain l where
    l: "apply_all E i (effects (sy_stream y) (sb_write d (sy_stream y))) (sy_loop y) = Inr l" by blast
  then have rl: "el_ready E i Ev_Write (sy_loop y) = Inr l" by (simp add: ef)
  have fr: "pc l = Waiting" "history l = history (sy_loop y)" "open_handler E i l"
    "pending_add (ep l) = pending_add (ep (sy_loop y))" "(i, Ev_Write) \<in> set (pending_ready (ep l))"
    "pending_remove (ep l) = pending_remove (ep (sy_loop y))" "attaching l = attaching (sy_loop y)"
    using rl assms(10,11) by (auto simp: el_ready_def on_ep_def ep_ready_def add_element_def ep_wakeup_def Let_def
        open_handler_def split: if_splits prod.splits option.splits)
  have "run_reach E (loop_new k) l" using calls_reach [OF assms(2) rd l r] by simp
  then have iv: "loop_inv E l" by (rule reach_running_inv [OF _ assms(2,3)]) (simp add: running_def fr(1))
  have od: "orderly E l" by (rule orderly_mono [OF assms(9)]) (simp_all add: fr assms(10))
  have "ep_due (en_calls E) (ep l)" using loop_invD(4) [OF iv] fr(1,5) by (auto simp: attended_def)
  from ready_arrives [OF assms(2,4) iv od fr(1) fitting_hears [OF assms(5) assms(8) [OF rl] this] fr(5,3)] assms(12) fr(2,4) l
  show ?thesis by auto
qed

lemma write_reaches_handler_witness:
  "\<exists>y l n. sys_run demo 2 tcp_only listener_app waiting_run client_start = Some y
     \<and> apply_all demo 2 (effects (sy_stream y) (sb_write [7] (sy_stream y))) (sy_loop y) = Inr l
     \<and> L_call 2 Ev_Write \<in> set (history ((loop_step demo ^^ n) l))"
proof -
  from client_waiting obtain y where y: "sys_run demo 2 tcp_only listener_app waiting_run client_start = Some y"
    "pc (sy_loop y) = Waiting" "open_handler demo 2 (sy_loop y)" "pending_add (ep (sy_loop y)) = []"
    "\<not> should_close (sy_stream y)" "pending_writes (sy_stream y) = []" "orderly demo (sy_loop y)"
    "ek_script (ep_kernel (ep (sy_loop y))) = []" by blast
  have f: "fits demo l" if "el_ready demo 2 Ev_Write (sy_loop y) = Inr l" for l
    using quiet_fits [of demo l 0] quiet_ready [OF that _ y(8)] by simp
  from write_reaches_handler [OF client_reach [OF y(1)] demo_ok demo_start scripted_drains scripted_fitting demo_user(2)
      client_create f y(7,2,3) _ y(5,6), of "[7]"] y(4) obtain l n ys where
    "apply_all demo 2 (effects (sy_stream y) (sb_write [7] (sy_stream y))) (sy_loop y) = Inr l"
    "history ((loop_step demo ^^ n) l) = history (sy_loop y) @ ys" "L_call 2 Ev_Write \<in> set ys" by auto
  then show ?thesis by (intro exI [of _ y] exI [of _ l] exI [of _ n]) (use y(1) in auto)
qed

text \<open>
  C19: the end of a stream closes its event.  When \<open>HandleEOF\<close> has been called and the loop thread is not
  dead, the event of the stream has been closed: its removal is queued or done, and the loop has
  forgotten it.
\<close>

theorem eof_closes_event:
  assumes "sys_reach E i vt app env (sys_start k s0) y"
    and "epoll_ok (en_wake_fd E) (en_calls E)" and "fresh_start E k" and "0 \<le> en_handle E i" and "en_kind E i = User"
    and "sb_create ha m w h = Inr s0" and "running (sy_loop y)" and "eof_called (sy_stream y)"
  shows "i \<in> set (closed (sy_loop y)) \<and> i \<notin> set (el_events (sy_loop y))
    \<and> (i \<in># outgoing (sy_loop y) \<or> removed (sy_loop y) i)"
proof -
  note inv = sys_reach_inv [OF assms(1-6)]
  then have r: "run_reach E (loop_new k) (sy_loop y)" and c: "i \<in> set (closed (sy_loop y))"
    using assms(7,8) by (auto simp: sys_inv_def running_def)
  note iv = reach_running_inv [OF r assms(2,3,7)]
  from life_sets(3) [OF loop_invD(1) [OF iv, unfolded lives_def]] c show ?thesis
    using loop_invD(3) [OF iv] by (auto simp: books_ok_def)
qed

theorem eof_closes_event_witness:
  "\<exists>y :: (ek, script tcp, unit) system. eof_called (sy_stream y) \<and> 2 \<in> set (closed (sy_loop y)) \<and> 2 \<notin> set (el_events (sy_loop y))"
proof -
  from client_ended obtain y where y: "sys_run demo 2 tcp_only listener_app ended_run client_start = Some y"
    "eof_called (sy_stream y)" "pc (sy_loop y) = Calling 2 Ev_Close (Readying [] [])" by blast
  from eof_closes_event [OF client_reach [OF y(1)] demo_ok demo_start demo_user client_create _ y(2)] y(2,3)
  show ?thesis by (intro exI [of _ y]) (simp add: running_def)
qed

end
