(* ===== verification/Loop_Stop.thy ===== *)
theory Loop_Stop
  imports Loop_Ready
begin

text \<open>
  \<open>EventLoop::Stop\<close> from any state: the flag is set, the wakeup written, and the thread joined.  The
  wakeup of a \<open>Stop\<close> is not lost, so that the loop thread does not wait for ever, and it ends.
\<close>

subsection \<open>The wakeup of a stop\<close>

definition stop_heard :: "'k env \<Rightarrow> 'k loop \<Rightarrow> bool" where
  "stop_heard E s \<longleftrightarrow>
     (pc s = Waiting \<longrightarrow> stop_flag s \<longrightarrow> stopping s \<or> ep_due (en_calls E) (ep s))
   \<and> (calling (pc s) \<noteq> None \<longrightarrow> in_pass s)"

text \<open>A call from outside leaves the loop thread and the stop alone, and a due wakeup due.\<close>

definition keeps_due :: "'k env \<Rightarrow> 'k loop \<Rightarrow> 'k loop \<Rightarrow> bool" where
  "keeps_due E s t \<longleftrightarrow> pc t = pc s \<and> stop_flag t = stop_flag s \<and> stopping t = stopping s
     \<and> (ep_due (en_calls E) (ep s) \<longrightarrow> ep_due (en_calls E) (ep t))"

lemma keeps_due_heard: "keeps_due E s t \<Longrightarrow> stop_heard E s \<Longrightarrow> stop_heard E t"
  by (auto simp: keeps_due_def stop_heard_def in_pass_def)

lemma keeps_due_same:
  "pc t = pc s \<Longrightarrow> stop_flag t = stop_flag s \<Longrightarrow> stopping t = stopping s \<Longrightarrow> ep t = ep s \<Longrightarrow> keeps_due E s t"
  by (simp add: keeps_due_def)

lemma event_close_due:
  assumes "efd_ok (en_calls E)"
  shows "event_close E i s = Inr t \<Longrightarrow> keeps_due E s t" and "event_close E i s = Inl (x, t) \<Longrightarrow> keeps_due E s t"
  using ep_remove_cases [OF assms, of i "ep s"]
  by (auto simp: event_close_def el_remove_def on_ep_def keeps_due_def Let_def split: if_splits)

lemma close_begin_due: "close_begin i s = Inr t \<Longrightarrow> keeps_due E s t"
  by (auto simp: close_begin_def keeps_due_def split: if_splits)

lemma close_end_due: "efd_ok (en_calls E) \<Longrightarrow> close_end E i s = Inr t \<Longrightarrow> keeps_due E s t"
  using ep_remove_cases [of "en_calls E" i "ep s"] by (auto simp: close_end_def on_ep_def keeps_due_def)

lemma handler_dtor_due: "efd_ok (en_calls E) \<Longrightarrow> handler_dtor E i s = Inr t \<Longrightarrow> keeps_due E s t"
  by (auto simp: handler_dtor_def keeps_due_same dest: event_close_due split: if_splits)

lemma attach_begin_due: "attach_begin i s = Inr t \<Longrightarrow> keeps_due E s t"
  by (auto simp: attach_begin_def create_event_def keeps_due_def Let_def split: if_splits)

lemma attach_internal_due: "attach_internal_begin i s = Inr t \<Longrightarrow> keeps_due E s t"
  unfolding attach_internal_begin_def by (drule attach_begin_due) (simp add: keeps_due_def)

lemma attach_end_due: "efd_ok (en_calls E) \<Longrightarrow> attach_end E i s = Inr t \<Longrightarrow> keeps_due E s t"
  using ep_add_cases [of "en_calls E" i "ep s"] by (auto simp: attach_end_def on_ep_def keeps_due_def)

lemma el_ready_due: "efd_ok (en_calls E) \<Longrightarrow> el_ready E i m s = Inr t \<Longrightarrow> keeps_due E s t"
  using ep_ready_cases [of "en_calls E" "(i, m)" "ep s"] by (auto simp: el_ready_def on_ep_def keeps_due_def)

lemma stop_wake_due: "efd_ok (en_calls E) \<Longrightarrow> stop_wake E s = Inr t \<Longrightarrow> pc t = pc s \<and> ep_due (en_calls E) (ep t)"
  using ep_wakeup_cases [of "en_calls E" "ep s"] by (auto simp: stop_wake_def on_ep_def)

subsection \<open>The loop thread\<close>

lemma thread_heard:
  assumes "efd_ok (en_calls E)" and "stop_heard E s"
  shows "stop_heard E (loop_step E s)"
proof (cases "in_pass s")
  case True
  from pass_step(1) [OF True, of E] show ?thesis by (auto simp: stop_heard_def in_pass_def split: if_splits)
next
  case False
  show ?thesis
  proof (cases "pc s")
    case (Closing js)
    show ?thesis
    proof (cases js)
      case Nil
      with Closing ep_wakeup_cases [OF assms(1), of "ep s"] show ?thesis
        by (auto simp: loop_step_def on_ep_def stop_heard_def)
    next
      case (Cons i js')
      with Closing show ?thesis
        by (auto simp: loop_step_def finish_res_def stop_heard_def die_def split: sum.splits)
    qed
  next
    case (Calling i m q)
    with assms(2) False show ?thesis by (simp add: stop_heard_def)
  qed (use False assms(2) in \<open>auto simp: loop_step_def run_check_def step_wait_def stop_heard_def in_pass_def die_def
      split: prod.splits sum.splits\<close>)
qed

lemma run_step_heard:
  assumes "efd_ok (en_calls E)" and "run_step E s t" and "stop_heard E s"
  shows "stop_heard E t"
  using assms(2)
proof cases
  case thread
  with thread_heard [OF assms(1,3)] show ?thesis by simp
next
  case stop_begin
  with assms(3) show ?thesis by (simp add: stop_heard_def stop_set_def in_pass_def)
next
  case stop_end
  with stop_wake_due [OF assms(1) stop_end(3)] assms(3) show ?thesis by (simp add: stop_heard_def in_pass_def)
next
  case (modify_own i m q)
  then have "pc t = pc s" by (auto simp: el_modify_def on_ep_def split: if_splits)
  with assms(3) modify_own show ?thesis by (simp add: stop_heard_def in_pass_def)
next
  case (modify_throws i m q x)
  then show ?thesis by (simp add: stop_heard_def die_def)
next
  case (user_attach i)
  show ?thesis by (rule keeps_due_heard [OF attach_begin_due [OF user_attach(6)] assms(3)])
next
  case (internal_attach i)
  show ?thesis by (rule keeps_due_heard [OF attach_internal_due [OF internal_attach(7)] assms(3)])
next
  case (hand_over i)
  show ?thesis by (rule keeps_due_heard [OF attach_end_due [OF assms(1) hand_over(3)] assms(3)])
next
  case (close i)
  show ?thesis by (rule keeps_due_heard [OF event_close_due(1) [OF assms(1) close(4)] assms(3)])
next
  case (close_throws i x)
  show ?thesis by (rule keeps_due_heard [OF event_close_due(2) [OF assms(1) close_throws(4)] assms(3)])
next
  case (close_begin i)
  show ?thesis by (rule keeps_due_heard [OF close_begin_due [OF close_begin(6)] assms(3)])
next
  case (close_end i)
  show ?thesis by (rule keeps_due_heard [OF close_end_due [OF assms(1) close_end(3)] assms(3)])
next
  case (destroy i)
  show ?thesis by (rule keeps_due_heard [OF handler_dtor_due [OF assms(1) destroy(4)] assms(3)])
next
  case (ready i m)
  show ?thesis by (rule keeps_due_heard [OF el_ready_due [OF assms(1) ready(3)] assms(3)])
qed (rule keeps_due_heard [OF _ assms(3)], simp add: keeps_due_def)+

lemma reach_heard:
  assumes "efd_ok (en_calls E)" and "run_reach E (loop_new k) s"
  shows "stop_heard E s"
  using assms(2)
proof (induction rule: run_reach.induct)
  case start
  show ?case by (simp add: stop_heard_def loop_new_def)
next
  case (move s t)
  show ?case by (rule run_step_heard [OF assms(1) move(2,3)])
qed

lemma reach_place: "stop_heard E s \<Longrightarrow> running s \<Longrightarrow>
    in_pass s \<or> pc s = Checking \<or> pc s = Waiting \<or> (\<exists>is. pc s = Closing is)"
  by (cases "pc s") (auto simp: stop_heard_def in_pass_def running_def)

text \<open>The end of the loop thread.\<close>

definition at_end :: "'k loop \<Rightarrow> bool" where
  "at_end s \<longleftrightarrow> pc s = Finished \<or> (\<exists>x. pc s = Dead x)"

lemma later: "P ((loop_step E ^^ m) ((loop_step E ^^ n) s)) \<Longrightarrow> \<exists>n. P ((loop_step E ^^ n) s)"
  by (rule exI [of _ "m + n"]) (simp add: funpow_add)

text \<open>From a pass, the end or the test of \<open>stop_\<close>; from a wait, a pass; from the closing, the last wait.\<close>

lemma pass_to:
  assumes "efd_drains (en_calls E)" and "in_pass s"
  shows "\<exists>n. at_end ((loop_step E ^^ n) s) \<or> \<not> final_pass s \<and> pc ((loop_step E ^^ n) s) = Checking"
  using pass_ends [OF assms] by (auto simp: at_end_def split: if_splits)

lemma wait_to:
  assumes "wait_ok (en_wake_fd E) (en_calls E)" and "pc s = Waiting"
  shows "in_pass (loop_step E s) \<and> final_pass (loop_step E s) = final_pass s"
proof -
  obtain r k where w: "ec_wait (en_calls E) max_events (ep_kernel (ep s)) = (r, k)" by fastforce
  with assms(1) obtain b where "r = Inr b" unfolding wait_ok_def by blast
  with w assms(2) show ?thesis by (simp add: loop_step_def step_wait_def in_pass_def)
qed

lemma wait_final_to:
  assumes "wait_ok (en_wake_fd E) (en_calls E)" and "efd_drains (en_calls E)" and "pc s = Waiting" and "final_pass s"
  shows "\<exists>n. at_end ((loop_step E ^^ n) s)"
  using pass_to [OF assms(2) conjunct1 [OF wait_to [OF assms(1,3)]]] wait_to [OF assms(1,3)] assms(4) later [where P = at_end and E = E and n = 1 and s = s]
  by auto

lemma stop_ends:
  assumes "epoll_ok (en_wake_fd E) (en_calls E)" and "efd_drains (en_calls E)" and "fresh_start E k"
    and "run_reach E (loop_new k) s" and "stop_flag s" and "detaching s = []"
  shows "\<exists>n. at_end ((loop_step E ^^ n) s)"
proof -
  have ok: "wait_ok (en_wake_fd E) (en_calls E)" "efd_ok (en_calls E)" using assms(1) by (simp_all add: epoll_ok_def)
  have check: "\<exists>n. at_end ((loop_step E ^^ n) u)" if u: "u = (loop_step E ^^ m) s" "pc u = Checking" for u m
  proof -
    have r: "run_reach E (loop_new k) u" unfolding u(1) by (rule thread_reach [OF assms(4,1,3)])
    have "stop_flag u" unfolding u(1) by (induction m) (simp_all add: assms(5) thread_flags)
    moreover have "loop_inv E u" by (rule reach_running_inv [OF r assms(1,3)]) (simp add: running_def u(2))
    moreover have "detaching u = []" unfolding u(1) by (simp add: assms(6))
    ultimately obtain n where "pc ((loop_step E ^^ n) u) = Waiting" "final_pass ((loop_step E ^^ n) u)"
      using stop_closes [OF ok(2) _ u(2)] by blast
    from wait_final_to [OF ok(1) assms(2) this] later show ?thesis by blast
  qed
  have pass: "\<exists>n. at_end ((loop_step E ^^ n) u)" if u: "u = (loop_step E ^^ m) s" "in_pass u" for u m
  proof -
    from pass_to [OF assms(2) u(2)] obtain n where
      "at_end ((loop_step E ^^ n) u) \<or> pc ((loop_step E ^^ n) u) = Checking" by blast
    moreover have "(loop_step E ^^ n) u = (loop_step E ^^ (n + m)) s" by (simp add: u(1) funpow_add)
    ultimately show ?thesis using check [of "(loop_step E ^^ n) u" "n + m"] later by blast
  qed
  consider "in_pass s" | "pc s = Checking" | "pc s = Waiting" | js where "pc s = Closing js" | "at_end s"
  proof (cases "running s")
    case True
    from reach_place [OF reach_heard [OF ok(2) assms(4)] True] that show ?thesis by blast
  next
    case False
    then have "at_end s" by (simp add: at_end_def running_def split: pc.splits)
    with that show ?thesis by blast
  qed
  then show ?thesis
  proof cases
    case 1
    with pass [of s 0] show ?thesis by simp
  next
    case 2
    with check [of s 0] show ?thesis by simp
  next
    case 3
    from pass [of "loop_step E s" 1] wait_to [OF ok(1) 3] later [where P = at_end and E = E and n = 1 and s = s] show ?thesis by auto
  next
    case (4 js)
    have "loop_inv E s" by (rule reach_running_inv [OF assms(4,1,3)]) (simp add: running_def 4)
    from closing_ends [OF ok(2) this 4 assms(6)] wait_final_to [OF ok(1) assms(2)] later show ?thesis by blast
  next
    case 5
    then show ?thesis by (intro exI [of _ 0]) simp
  qed
qed

text \<open>
  What is missed otherwise.  There is a run in which another thread is in the middle of a \<open>Close\<close> when the
  loop thread copies the events to close: the loop thread ends without having removed that event, which
  stays in the table and in the epoll set.
\<close>

lemma close_misses_stop:
  "\<exists>s t. run_reach demo (loop_new (ek_start [])) s \<and> stop_flag s \<and> detaching s = [2] \<and> run_reach demo s t
     \<and> pc t = Finished \<and> 2 \<in> set (closed t) \<and> registered (ep t) 8 = Some 2 \<and> \<not> removed t 2"
proof -
  have "\<exists>s t. perform_all demo ([M_attach 2, M_hand_over 2] @ replicate 12 M_thread @ [M_close_begin 2, M_stop]) (loop_new (ek_start [])) = Some s
     \<and> stop_flag s \<and> detaching s = [2] \<and> perform_all demo (replicate 14 M_thread) s = Some t
     \<and> pc t = Finished \<and> 2 \<in> set (closed t) \<and> registered (ep t) 8 = Some 2 \<and> \<not> removed t 2"
    by (simp add: replicate_unfold loop_eval removed_def)
  then show ?thesis using perform_all_run perform_all_reach [OF run_reach.start] by blast
qed

subsection \<open>Properties\<close>

text \<open>
  C5: \<open>Stop\<close> returns.  Let a \<open>Stop\<close> have set its flag and written its wakeup, in any reachable state in
  which the loop thread has not died, no other thread is in the middle of an \<open>Attach\<close> or a \<open>Close\<close>, and no removal
  is ahead of its addition.  Wherever the loop thread is, it comes to the regular end of \<open>Run\<close> in finitely many steps of its own,
  and whenever it waits on the way the wakeup is due, so that it never blocks: the join returns.
\<close>

theorem stop_returns:
  assumes "epoll_ok (en_wake_fd E) (en_calls E)" and "efd_drains (en_calls E)" and "fresh_start E k"
    and "run_reach E (loop_new k) s" and "\<forall>x. pc s \<noteq> Dead x" and "stop_flag s" and "\<not> stopping s"
    and "attaching s = []" and "detaching s = []" and "orderly E s"
  shows "(\<exists>n. pc ((loop_step E ^^ n) s) = Finished)
    \<and> (\<forall>n. pc ((loop_step E ^^ n) s) = Waiting \<longrightarrow> ep_due (en_calls E) (ep ((loop_step E ^^ n) s)))"
proof -
  have ok: "efd_ok (en_calls E)" using assms(1) by (simp add: epoll_ok_def)
  have iv: "loop_inv E s" using run_reach_inv [OF assms(4,1,3)] assms(5) overtakenD(1) by blast
  have "stop_flag ((loop_step E ^^ n) s) \<and> \<not> stopping ((loop_step E ^^ n) s)" for n
    by (induction n) (simp_all add: assms(6,7) thread_flags)
  with reach_heard [OF ok thread_reach [OF assms(4,1,3)]]
  have "pc ((loop_step E ^^ n) s) = Waiting \<longrightarrow> ep_due (en_calls E) (ep ((loop_step E ^^ n) s))" for n
    by (auto simp: stop_heard_def)
  moreover from stop_ends [OF assms(1-4,6,9)] obtain n where "at_end ((loop_step E ^^ n) s)" by blast
  moreover have "pc ((loop_step E ^^ n) s) \<noteq> Dead x" for x
    using orderly_steps [OF assms(1) iv assms(10,8)] loop_inv_not_dead by blast
  ultimately show ?thesis by (auto simp: at_end_def)
qed

lemma stopped_waiting:
  "\<exists>s t. perform_all demo [M_attach 2, M_hand_over 2, M_thread, M_stop] (loop_new (ek_start [])) = Some s
     \<and> pc s = Waiting \<and> stop_wake demo s = Inr t \<and> stop_flag t \<and> \<not> stopping t \<and> attaching t = [] \<and> detaching t = []
     \<and> orderly demo t \<and> pc t = Waiting \<and> running s \<and> stopping s"
  by (simp add: loop_eval stop_wake_def orderly_def)

theorem stop_returns_witness:
  "\<exists>t n. run_reach demo (loop_new (ek_start [])) t \<and> pc t = Waiting \<and> pc ((loop_step demo ^^ n) t) = Finished"
proof -
  from stopped_waiting obtain s t where
    s: "perform_all demo [M_attach 2, M_hand_over 2, M_thread, M_stop] (loop_new (ek_start [])) = Some s"
    and t: "stop_wake demo s = Inr t" "stop_flag t" "\<not> stopping t" "attaching t = []" "detaching t = []" "orderly demo t"
      "pc t = Waiting" "running s" "stopping s" by blast
  have r: "run_reach demo (loop_new (ek_start [])) t"
    by (rule run_reach.move [OF perform_all_run [OF s] run_step.stop_end [OF t(8,9,1)]])
  have "\<forall>x. pc t \<noteq> Dead x" by (simp add: t(7))
  from stop_returns [OF demo_ok scripted_drains demo_start r this t(2-6)] r t(7) show ?thesis by blast
qed

end
