(* ===== verification/Loop_Order.thy ===== *)
theory Loop_Order
  imports Loop_Stop "HOL-Library.Sublist"
begin

text \<open>
  The order in which the loop thread serves what was handed to it, and the well-formedness of the
  state of the loop as a statement on its own.
\<close>

subsection \<open>The line of handlers that wait to be added\<close>

text \<open>
  What the loop thread has in hand, then the queue; of it the execute handlers, and the execute
  handlers that have been called, in the order of the calls.
\<close>

definition line :: "'k loop \<Rightarrow> nat list" where
  "line s = adding_of (pc s) @ pending_add (ep s)"

definition in_line :: "'k env \<Rightarrow> 'k loop \<Rightarrow> nat list" where
  "in_line E s = List.filter (\<lambda>i. en_kind E i = Execute) (line s)"

fun called :: "lobs list \<Rightarrow> nat list" where
  "called [] = []"
| "called (L_call i m # xs) = i # called xs"
| "called (L_removed i # xs) = called xs"

definition executed_by :: "'k env \<Rightarrow> 'k loop \<Rightarrow> nat list" where
  "executed_by E s = List.filter (\<lambda>i. en_kind E i = Execute) (called (history s))"

definition order :: "'k env \<Rightarrow> 'k loop \<Rightarrow> nat list" where
  "order E s = executed_by E s @ in_line E s"

lemma called_append [simp]: "called (xs @ ys) = called xs @ called ys"
  by (induction xs rule: called.induct) simp_all

lemma order_same: "line t = line s \<Longrightarrow> history t = history s \<Longrightarrow> order E t = order E s"
  by (simp add: order_def executed_by_def in_line_def)

text \<open>Execute handlers are not in the table, so that only taking them from the additions calls them.\<close>

lemma execute_not_registered:
  assumes "loop_inv E s" and "registered (ep s) h = Some i"
  shows "en_kind E i \<noteq> Execute"
proof
  assume "en_kind E i = Execute"
  moreover note l = life_reg [OF loop_invD(1) [OF assms(1), unfolded lives_def] assms(2)]
  ultimately have "en_handle E i < 0" using loop_invD(6) [OF assms(1)] by (auto simp: intern_ok_def)
  with l(1,2) show False by simp
qed

lemma call_or_order:
  assumes "line (go q s) = line s" and "\<And>i m. c = Some (i, m) \<Longrightarrow> en_kind E i \<noteq> Execute"
  shows "order E (call_or q c s) = order E s"
proof (cases c)
  case None
  with assms(1) show ?thesis by (simp add: call_or_def go_def order_def line_def executed_by_def in_line_def)
next
  case (Some x)
  then obtain i m where x: "c = Some (i, m)" by (cases x) simp
  with assms show ?thesis by (simp add: call_or_def go_def order_def line_def executed_by_def in_line_def)
qed

lemma step_add_order:
  assumes "loop_inv E s" and "pc s = Adding (i # is) b" and "\<forall>x. pc (loop_step E s) \<noteq> Dead x"
  shows "order E (loop_step E s) = order E s"
proof -
  have st: "loop_step E s = step_add E i (Adding is b) s" using assms(2) by (simp add: loop_step_def)
  have inA: "i \<in># incoming s" using assms(2) by (simp add: incoming_def)
  note iv = loop_invD [OF assms(1)]
  have cr: "i \<in> set (created s)" using life_in(1) [OF iv(1) [unfolded lives_def] inA] .
  have call: "en_handle E i < 0 \<and> alive s i" if "en_kind E i = Execute"
    using that iv(6) cr inA by (auto simp: intern_ok_def)
  show ?thesis
    using assms(2,3) call
    by (cases "en_kind E i = Execute")
       (auto simp: st step_add_def add_finalize_def call_or_def go_def die_def order_def line_def executed_by_def in_line_def Let_def
        split: if_splits sum.splits prod.splits option.splits)
qed

lemma loop_step_order:
  assumes "loop_inv E s" and "\<forall>x. pc (loop_step E s) \<noteq> Dead x"
  shows "order E (loop_step E s) = order E s"
proof (cases "pc s")
  case (Batch b)
  show ?thesis
  proof (cases b)
    case Nil
    with Batch show ?thesis by (auto simp: loop_step_def line_def intro: order_same)
  next
    case (Cons x b')
    have "en_kind E i \<noteq> Execute" if "dispatch (en_abi E) (alive s) x (ep s) = Some (i, m)" for i m
      using that execute_not_registered [OF assms(1)] by (auto simp: dispatch_def split: option.splits if_splits)
    with Batch Cons show ?thesis
      by (auto simp: loop_step_def step_entry_def line_def intro!: order_same call_or_order)
  qed
next
  case (Adding js b)
  with step_add_order [OF assms(1) _ assms(2)] show ?thesis
    by (cases js) (auto simp: loop_step_def line_def intro: order_same)
next
  case (Removing js b)
  with assms(2) show ?thesis
    by (cases js)
       (auto simp: loop_step_def step_remove_def die_def go_def order_def line_def executed_by_def in_line_def
         dest!: remove_finalize_frame split: sum.splits)
next
  case (Readying xs b)
  show ?thesis
  proof (cases xs)
    case Nil
    with Readying show ?thesis by (auto simp: loop_step_def line_def intro: order_same)
  next
    case (Cons x ys)
    have "en_kind E (fst x) \<noteq> Execute" if "ready_finalize (en_handle E (fst x)) a x (ep s) = Some m" for a m
      using that execute_not_registered [OF assms(1)] by (auto simp: ready_finalize_def split: if_splits)
    with Readying Cons show ?thesis
      by (auto simp: loop_step_def step_ready_def line_def intro!: call_or_order)
  qed
next
  case (Calling i m q)
  with assms(2) show ?thesis
    by (auto simp: loop_step_def step_return_def finish_res_def die_def line_def dest!: execute_finish_frame
        split: sum.splits if_splits intro!: order_same)
next
  case (Closing js)
  with assms(2) show ?thesis
    by (cases js) (auto simp: loop_step_def finish_res_def die_def line_def
        dest!: event_close_frame on_ep_frame [OF _ ep_frames(1)] split: sum.splits intro!: order_same)
qed (use assms(2) in \<open>auto simp: loop_step_def run_check_def step_wait_def step_read_def take_adds_def take_removes_def
    take_readies_def line_def die_def split: prod.splits sum.splits intro!: order_same\<close>)

text \<open>A call from outside leaves the line as it is, or adds to its end.\<close>

definition queues :: "'k loop \<Rightarrow> 'k loop \<Rightarrow> bool" where
  "queues s t \<longleftrightarrow> history t = history s \<and> pc t = pc s \<and> (\<exists>xs. pending_add (ep t) = pending_add (ep s) @ xs)"

lemma queues_same: "history t = history s \<Longrightarrow> pc t = pc s \<Longrightarrow> pending_add (ep t) = pending_add (ep s) \<Longrightarrow> queues s t"
  by (simp add: queues_def)

lemma queues_close: "event_close E i s = Inr t \<Longrightarrow> queues s t"
  by (auto dest: event_close_frame intro: queues_same)

lemma queues_close_throws: "event_close E i s = Inl (x, t) \<Longrightarrow> queues s t"
  by (auto simp: event_close_def el_remove_def on_ep_def Let_def split: if_splits sum.splits intro!: queues_same)

lemma queues_close_begin: "close_begin i s = Inr t \<Longrightarrow> queues s t"
  by (auto simp: close_begin_def intro!: queues_same split: if_splits)

lemma queues_dtor: "handler_dtor E i s = Inr t \<Longrightarrow> queues s t"
  by (auto simp: handler_dtor_def dest: event_close_frame intro!: queues_same split: if_splits)

lemma queues_begin: "attach_begin i s = Inr t \<Longrightarrow> queues s t"
  by (auto simp: attach_begin_def create_event_def Let_def intro!: queues_same split: if_splits)

lemma queues_internal: "attach_internal_begin i s = Inr t \<Longrightarrow> queues s t"
  unfolding attach_internal_begin_def by (drule queues_begin) (simp add: queues_def)

lemma queues_hand_over: "attach_end E i s = Inr t \<Longrightarrow> queues s t"
  by (auto simp: queues_def attach_end_def on_ep_def ep_add_def add_element_def ep_wakeup_def Let_def
      split: if_splits prod.splits option.splits)

lemma queues_on_ep:
  assumes "on_ep f s = Inr t" and "\<And>e. f (ep s) = Inr e \<Longrightarrow> pending_add e = pending_add (ep s)"
  shows "queues s t"
  using on_ep_frame [OF assms] by (intro queues_same) simp_all

lemma queues_ready: "el_ready E i m s = Inr t \<Longrightarrow> queues s t"
  unfolding el_ready_def by (erule queues_on_ep [OF _ ep_frames(2)])

lemma queues_modify: "el_modify E b i s = Inr t \<Longrightarrow> queues s t"
  by (auto simp: el_modify_def split: if_splits elim: queues_on_ep [OF _ ep_frames(3)])

lemma queues_stop: "stop_wake E s = Inr t \<Longrightarrow> queues s t"
  unfolding stop_wake_def by (drule queues_on_ep [OF _ ep_frames(1)]) (auto simp: queues_def)

lemma queues_close_end: "close_end E i s = Inr t \<Longrightarrow> queues s t"
  by (auto simp: close_end_def on_ep_def ep_remove_def add_element_def ep_wakeup_def Let_def
      split: if_splits prod.splits option.splits intro!: queues_same)

lemmas queues_calls =
  queues_close queues_close_throws queues_close_begin queues_close_end queues_dtor queues_begin queues_internal queues_hand_over queues_ready queues_modify queues_stop

lemma run_step_queues:
  assumes "run_step E s t" and "\<forall>x. pc t \<noteq> Dead x"
  shows "t = loop_step E s \<or> queues s t"
  using assms(1)
  by cases (use assms(2) in \<open>auto simp: die_def stop_set_def intro: queues_calls simp: queues_same simp del: fresh_handle_def\<close>)

lemma queues_order:
  assumes "queues s t"
  shows "prefix (order E s) (order E t)"
proof -
  from assms obtain xs where "line t = line s @ xs" "history t = history s" by (auto simp: queues_def line_def)
  then show ?thesis by (simp add: order_def executed_by_def in_line_def)
qed

lemma order_reach:
  assumes "epoll_ok (en_wake_fd E) (en_calls E)" and "loop_inv E s" and "run_reach E s t"
  shows "overtaken E t \<or> loop_inv E t \<and> prefix (order E s) (order E t)"
  using assms(3)
proof (induction rule: run_reach.induct)
  case start
  with assms(2) show ?case by simp
next
  case (move t u)
  have "\<not> overtaken E t" using move(2) overtaken_stuck by blast
  with move(3) have t: "loop_inv E t" "prefix (order E s) (order E t)" by simp_all
  show ?case
  proof (cases "loop_inv E u")
    case True
    with loop_inv_not_dead have "\<forall>x. pc u \<noteq> Dead x" by blast
    with run_step_queues [OF move(2)] loop_step_order [OF t(1)] queues_order
    have "prefix (order E t) (order E u)" by fastforce
    with True t(2) show ?thesis by (auto intro: prefix_order.trans)
  next
    case False
    with run_step_inv [OF assms(1) t(1) move(2)] show ?thesis by simp
  qed
qed

lemma overtaken_stays: "run_reach E s t \<Longrightarrow> overtaken E s \<Longrightarrow> t = s"
  by (induction rule: run_reach.induct) (auto dest: overtaken_stuck)

text \<open>What attaching and stopping do to the loop, in full.\<close>

lemma begin_effect:
  assumes "attach_internal_begin i s = Inr t"
  shows "ep t = ep s \<and> pc t = pc s \<and> history t = history s \<and> final_pass t = final_pass s \<and> stop_flag t = stop_flag s
    \<and> stopping t = stopping s \<and> gone t = gone s \<and> created t = created s @ [i] \<and> attaching t = attaching s @ [i]"
  using assms by (auto simp: attach_internal_begin_def attach_begin_def create_event_def split: if_splits)

lemma give_effect:
  assumes "attach_end E i s = Inr t"
  shows "pc t = pc s \<and> history t = history s \<and> final_pass t = final_pass s \<and> stop_flag t = stop_flag s
    \<and> stopping t = stopping s \<and> gone t = gone s \<and> created t = created s \<and> attaching t = remove1 i (attaching s)
    \<and> pending_add (ep t) = pending_add (ep s) @ [i]"
  using assms
  by (auto simp: attach_end_def on_ep_def ep_add_def add_element_def ep_wakeup_def Let_def
      split: if_splits prod.splits option.splits)

lemma wake_effect:
  assumes "stop_wake E s = Inr t"
  shows "pc t = pc s \<and> history t = history s \<and> final_pass t = final_pass s \<and> stop_flag t = stop_flag s
    \<and> \<not> stopping t \<and> gone t = gone s \<and> created t = created s \<and> attaching t = attaching s
    \<and> pending_add (ep t) = pending_add (ep s)"
  using assms by (auto simp: stop_wake_def on_ep_def ep_wakeup_def split: prod.splits option.splits)

subsection \<open>Properties\<close>

text \<open>
  C6: first handed over, first run.  The functions given to \<open>ExecuteOnce\<close> run in the order in which
  they were handed to the EPoll, whatever else happens: those that have run, followed by those that
  wait, can only get longer at the end.
\<close>

theorem execute_fifo:
  assumes "epoll_ok (en_wake_fd E) (en_calls E)" and "fresh_start E k" and "run_reach E (loop_new k) s"
    and "run_reach E s t" and "\<forall>x. pc t \<noteq> Dead x"
  shows "prefix (executed_by E s @ in_line E s) (executed_by E t @ in_line E t)"
proof (cases "overtaken E s")
  case True
  with overtaken_stays [OF assms(4)] show ?thesis by simp
next
  case False
  with run_reach_inv [OF assms(3,1,2)] order_reach [OF assms(1) _ assms(4)] assms(5)
  show ?thesis by (auto simp: order_def dest: overtakenD(1))
qed

text \<open>Two execute handlers.\<close>

definition demo_two :: "ek env" where
  "demo_two = demo\<lparr>en_handle := (\<lambda>i. if i < 2 then -1 else int i + 6), en_kind := (\<lambda>i. if i < 2 then Execute else User)\<rparr>"

lemma demo_two_ok: "epoll_ok (en_wake_fd demo_two) (en_calls demo_two)" "fresh_start demo_two (ek_start bs)"
  using demo_ok demo_start [of bs] by (simp_all add: demo_two_def fresh_start_def)

definition both_queued :: "ek loop" where
  "both_queued = the (perform_all demo_two [M_attach 0, M_hand_over 0, M_attach 1, M_hand_over 1] (loop_new (ek_start [])))"

lemma both_queued_value:
  "perform_all demo_two [M_attach 0, M_hand_over 0, M_attach 1, M_hand_over 1] (loop_new (ek_start [])) = Some both_queued
   \<and> executed_by demo_two both_queued = [] \<and> in_line demo_two both_queued = [0, 1]"
  unfolding both_queued_def
  by (simp add: demo_two_def loop_eval executed_by_def in_line_def line_def)

lemma both_run:
  "\<exists>t. perform_all demo_two (replicate 9 M_thread) both_queued = Some t
     \<and> (\<forall>x. pc t \<noteq> Dead x) \<and> in_line demo_two t = []"
  by (simp add: both_queued_def numeral_eq_Suc demo_two_def loop_eval in_line_def line_def)

theorem execute_fifo_witness:
  "\<exists>t. run_reach demo_two both_queued t \<and> prefix [0, 1] (executed_by demo_two t)"
proof -
  from both_run obtain t where t: "perform_all demo_two (replicate 9 M_thread) both_queued = Some t"
    "\<forall>x. pc t \<noteq> Dead x" "in_line demo_two t = []" by blast
  have r: "run_reach demo_two both_queued t" by (rule perform_all_reach [OF run_reach.start t(1)])
  have s: "run_reach demo_two (loop_new (ek_start [])) both_queued"
    by (rule perform_all_run [OF conjunct1 [OF both_queued_value]])
  from execute_fifo [OF demo_two_ok s r t(2)] both_queued_value t(3) r show ?thesis by auto
qed

text \<open>
  Functions that were handed over run.  When the loop thread waits, additions are queued, no removal is ahead
  of its addition and at most 31 other descriptors are ready, then in
  finitely many of its own steps it has run exactly the functions that wait, in their order, and the
  queue is empty.
\<close>

lemma execute_runs:
  assumes "epoll_ok (en_wake_fd E) (en_calls E)" and "efd_drains (en_calls E)"
    and "reports_fitting (en_wake_fd E) (en_calls E)" and "fresh_start E k" and "run_reach E (loop_new k) s"
    and "pc s = Waiting" and "fits E s" and "orderly E s" and "pending_add (ep s) \<noteq> []"
  shows "\<exists>n. executed_by E ((loop_step E ^^ n) s) = executed_by E s @ in_line E s \<and> in_line E ((loop_step E ^^ n) s) = []"
proof -
  have iv: "loop_inv E s" by (rule reach_running_inv [OF assms(5,1,4)]) (simp add: running_def assms(6))
  have due: "ep_due (en_calls E) (ep s)" using loop_invD(4) [OF iv] assms(6,9) by (auto simp: attended_def)
  obtain n where n: "pc ((loop_step E ^^ n) s) = (if final_pass s then Finished else Checking)"
      "order E ((loop_step E ^^ n) s) = order E s" "pending_add (ep ((loop_step E ^^ n) s)) = []"
    using wait_drains [where R = "\<lambda>u. order E u = order E s", OF assms(1,2) iv assms(8,6) fitting_hears [OF assms(3,7) due] refl]
      loop_step_order by fastforce
  then have "in_line E ((loop_step E ^^ n) s) = []" by (auto simp: in_line_def line_def split: if_splits)
  with n(2) show ?thesis by (intro exI [of _ n]) (simp add: order_def)
qed

lemma demo_two_fitting: "reports_fitting (en_wake_fd demo_two) (en_calls demo_two)" "efd_drains (en_calls demo_two)"
  using scripted_fitting scripted_drains by (simp_all add: demo_two_def)

lemma both_waiting:
  "\<exists>s. perform_all demo_two [M_attach 0, M_hand_over 0, M_attach 1, M_hand_over 1, M_thread] (loop_new (ek_start [])) = Some s
     \<and> pc s = Waiting \<and> pending_add (ep s) = [0, 1] \<and> executed_by demo_two s = [] \<and> in_line demo_two s = [0, 1]
     \<and> fits demo_two s \<and> orderly demo_two s"
  by (simp add: demo_two_def loop_eval executed_by_def in_line_def line_def fits_def orderly_def)

lemma execute_runs_witness:
  "\<exists>s n. run_reach demo_two (loop_new (ek_start [])) s \<and> executed_by demo_two s = []
     \<and> executed_by demo_two ((loop_step demo_two ^^ n) s) = [0, 1]"
proof -
  from both_waiting obtain s where
    s: "perform_all demo_two [M_attach 0, M_hand_over 0, M_attach 1, M_hand_over 1, M_thread] (loop_new (ek_start [])) = Some s"
    "pc s = Waiting" "pending_add (ep s) = [0, 1]" "executed_by demo_two s = []" "in_line demo_two s = [0, 1]"
    "fits demo_two s" "orderly demo_two s" by blast
  have r: "run_reach demo_two (loop_new (ek_start [])) s" by (rule perform_all_run [OF s(1)])
  from execute_runs [OF demo_two_ok(1) demo_two_fitting(2,1) demo_two_ok(2) r s(2,6,7)] s(3-5) r show ?thesis by auto
qed

text \<open>The loop thread alone does not change the order.\<close>

lemma thread_order:
  assumes "epoll_ok (en_wake_fd E) (en_calls E)" and "fresh_start E k" and "run_reach E (loop_new k) s"
    and "\<forall>x. pc ((loop_step E ^^ n) s) \<noteq> Dead x"
  shows "order E ((loop_step E ^^ n) s) = order E s"
  using assms(4)
proof (induction n)
  case (Suc n)
  let ?u = "(loop_step E ^^ n) s"
  have nd: "\<forall>x. pc ?u \<noteq> Dead x"
  proof (intro allI notI)
    fix x assume "pc ?u = Dead x"
    then have "pc ((loop_step E ^^ Suc n) s) = Dead x" by (simp add: loop_step_def)
    with Suc.prems show False by blast
  qed
  then have "loop_inv E ?u"
    using run_reach_inv [OF thread_reach [OF assms(3,1,2)] assms(1,2), of n] overtakenD(1) by blast
  from loop_step_order [OF this] Suc.prems Suc.IH [OF nd] show ?case by simp
qed simp

lemma stop_to_last_wait:
  assumes "epoll_ok (en_wake_fd E) (en_calls E)" and "efd_drains (en_calls E)" and "fresh_start E k"
    and "run_reach E (loop_new k) s" and "stop_flag s" and "\<not> final_pass s" and "running s" and "detaching s = []"
  shows "\<exists>n t. t = (loop_step E ^^ n) s \<and> ((\<exists>x. pc t = Dead x) \<or> pc t = Waiting \<and> final_pass t \<and> ep_due (en_calls E) (ep t))"
proof -
  let ?goal = "\<lambda>t. (\<exists>x. pc t = Dead x) \<or> pc t = Waiting \<and> final_pass t \<and> ep_due (en_calls E) (ep t)"
  have ok: "wait_ok (en_wake_fd E) (en_calls E)" "efd_ok (en_calls E)" using assms(1) by (simp_all add: epoll_ok_def)
  have check: "\<exists>n. ?goal ((loop_step E ^^ n) s)" if u: "pc ((loop_step E ^^ m) s) = Checking" for m
  proof -
    let ?u = "(loop_step E ^^ m) s"
    have r: "run_reach E (loop_new k) ?u" by (rule thread_reach [OF assms(4,1,3)])
    have "stop_flag ?u" by (induction m) (simp_all add: assms(5) thread_flags)
    moreover have "loop_inv E ?u" by (rule reach_running_inv [OF r assms(1,3)]) (simp add: running_def u)
    moreover have "detaching ?u = []" by (simp add: assms(8))
    ultimately show ?thesis using stop_closes [OF ok(2) _ u] later [where P = ?goal and E = E] by blast
  qed
  have pass: "\<exists>n. ?goal ((loop_step E ^^ n) s)"
    if u: "in_pass ((loop_step E ^^ m) s)" "\<not> final_pass ((loop_step E ^^ m) s)" for m
  proof -
    from pass_ends [OF assms(2) u(1)] u(2) obtain n where
      "pc ((loop_step E ^^ (n + m)) s) = Checking \<or> (\<exists>x. pc ((loop_step E ^^ (n + m)) s) = Dead x)"
      by (auto simp: funpow_add)
    with check show ?thesis by blast
  qed
  from reach_place [OF reach_heard [OF ok(2) assms(4)] assms(7)]
  consider "in_pass s" | "pc s = Checking" | "pc s = Waiting" | js where "pc s = Closing js" by blast
  then have "\<exists>n. ?goal ((loop_step E ^^ n) s)"
  proof cases
    case 1
    with pass [of 0] assms(6) show ?thesis by simp
  next
    case 2
    with check [of 0] show ?thesis by simp
  next
    case 3
    with pass [of 1] wait_to [OF ok(1) 3] assms(6) show ?thesis by simp
  next
    case (4 js)
    have "loop_inv E s" by (rule reach_running_inv [OF assms(4,1,3,7)])
    from closing_ends [OF ok(2) this 4 assms(8)] show ?thesis by blast
  qed
  then show ?thesis by blast
qed

text \<open>
  C38: a stop does not cut off what was handed over.  Let \<open>stop_\<close> be set, the last pass not begun, no other
  thread in the middle of an \<open>Attach\<close> or a \<open>Close\<close>, no removal ahead of its addition, and nobody interfere; let
  at most 31 other descriptors be ready when the loop thread waits.
  Then it comes to its end in finitely many steps, and before it does it
  has run exactly the functions that were waiting, in their order.
\<close>

theorem stop_drains:
  assumes "epoll_ok (en_wake_fd E) (en_calls E)" and "efd_drains (en_calls E)"
    and "reports_fitting (en_wake_fd E) (en_calls E)" and "fresh_start E k" and "run_reach E (loop_new k) s"
    and "stop_flag s" and "\<not> final_pass s" and "running s" and "attaching s = []" and "detaching s = []" and "orderly E s"
    and "\<And>n. pc ((loop_step E ^^ n) s) = Waiting \<Longrightarrow> fits E ((loop_step E ^^ n) s)"
  shows "\<exists>n. pc ((loop_step E ^^ n) s) = Finished \<and> executed_by E ((loop_step E ^^ n) s) = executed_by E s @ in_line E s"
proof -
  have iv: "loop_inv E s" by (rule reach_running_inv [OF assms(5,1,4,8)])
  note od = orderly_steps [OF assms(1) iv assms(11,9)]
  then have alive: "\<forall>x. pc ((loop_step E ^^ n) s) \<noteq> Dead x" for n using loop_inv_not_dead by blast
  from stop_to_last_wait [OF assms(1,2,4-8,10)] alive obtain n where
    n: "pc ((loop_step E ^^ n) s) = Waiting" "final_pass ((loop_step E ^^ n) s)"
      "ep_due (en_calls E) (ep ((loop_step E ^^ n) s))" by blast
  define u where "u = (loop_step E ^^ n) s"
  have h: "hears E u" unfolding u_def by (rule fitting_hears [OF assms(3) assms(12) [OF n(1)] n(3)])
  have iu: "loop_inv E u" "orderly E u" unfolding u_def using od by blast+
  note u = n [folded u_def]
  from wait_drains [where R = "\<lambda>_. True", OF assms(1,2) iu u(1) h] u(2) obtain m where
    m: "pc ((loop_step E ^^ m) u) = Finished" "pending_add (ep ((loop_step E ^^ m) u)) = []" by auto
  have t: "(loop_step E ^^ m) u = (loop_step E ^^ (m + n)) s" by (simp add: u_def funpow_add)
  have "order E ((loop_step E ^^ m) u) = order E s" unfolding t by (rule thread_order [OF assms(1,4,5) alive])
  moreover from m have "in_line E ((loop_step E ^^ m) u) = []" by (simp add: in_line_def line_def)
  ultimately have "executed_by E ((loop_step E ^^ m) u) = executed_by E s @ in_line E s" by (simp add: order_def)
  with m(1) show ?thesis unfolding t by blast
qed

lemma both_stopped:
  "\<exists>s. perform_all demo_two [M_attach 0, M_hand_over 0, M_attach 1, M_hand_over 1, M_thread, M_stop] (loop_new (ek_start [])) = Some s
     \<and> stop_flag s \<and> \<not> final_pass s \<and> running s \<and> attaching s = [] \<and> detaching s = [] \<and> orderly demo_two s
     \<and> ek_script (ep_kernel (ep s)) = [] \<and> executed_by demo_two s = [] \<and> in_line demo_two s = [0, 1]"
  by (simp add: demo_two_def loop_eval executed_by_def in_line_def line_def orderly_def)

theorem stop_drains_witness:
  "\<exists>s n. run_reach demo_two (loop_new (ek_start [])) s \<and> executed_by demo_two s = []
     \<and> pc ((loop_step demo_two ^^ n) s) = Finished \<and> executed_by demo_two ((loop_step demo_two ^^ n) s) = [0, 1]"
proof -
  from both_stopped obtain s where
    s: "perform_all demo_two [M_attach 0, M_hand_over 0, M_attach 1, M_hand_over 1, M_thread, M_stop] (loop_new (ek_start [])) = Some s"
    "stop_flag s" "\<not> final_pass s" "running s" "attaching s = []" "detaching s = []" "orderly demo_two s"
    "ek_script (ep_kernel (ep s)) = []" "executed_by demo_two s = []" "in_line demo_two s = [0, 1]" by blast
  have r: "run_reach demo_two (loop_new (ek_start [])) s" by (rule perform_all_run [OF s(1)])
  have c: "en_calls demo_two = scripted_epoll" by (simp add: demo_two_def)
  have f: "fits demo_two ((loop_step demo_two ^^ n) s)" for n by (rule quiet_fits [OF c s(8)])
  from stop_drains [OF demo_two_ok(1) demo_two_fitting(2,1) demo_two_ok(2) r s(2-7) f] s(9,10) r show ?thesis by auto
qed

text \<open>In how many of the stages of its life an event with a descriptor is: on its way in, in the table, removed.\<close>

definition stages :: "'k env \<Rightarrow> 'k loop \<Rightarrow> nat \<Rightarrow> nat" where
  "stages E s i = of_bool (i \<in># incoming s) + of_bool (registered (ep s) (en_handle E i) = Some i) + of_bool (removed s i)"

lemma removed_state:
  "\<exists>t. perform_all demo removed_run (loop_new busy_start) = Some t
     \<and> 2 \<in> set (created t) \<and> (\<forall>x. pc t \<noteq> Dead x) \<and> removed t 2"
  by (simp add: removed_run_def busy_start_def numeral_eq_Suc loop_eval linux_abi_def events_of_epoll_def ev_defs has_def
      removed_def)

text \<open>
  C18: the state is well-formed.  Unless the loop thread is dead, in every reachable state: the table
  holds events under their own descriptors only; every event that was created and has a descriptor is
  in exactly one stage of its life; no event is queued twice for its addition or its removal; the epoll
  set is the wakeup descriptor and the table; the loop keeps exactly the events that were not closed.
\<close>

theorem loop_well_formed:
  assumes "epoll_ok (en_wake_fd E) (en_calls E)" and "fresh_start E k" and "run_reach E (loop_new k) s"
    and "\<forall>x. pc s \<noteq> Dead x"
  shows "(\<forall>h i. registered (ep s) h = Some i \<longrightarrow>
        en_handle E i = h \<and> 0 \<le> h \<and> h \<noteq> en_wake_fd E \<and> i \<in> set (created s))
    \<and> (\<forall>i \<in> set (created s). 0 \<le> en_handle E i \<longrightarrow> stages E s i = 1)
    \<and> (\<forall>i. count (incoming s) i \<le> 1 \<and> count (outgoing s) i \<le> 1)
    \<and> (\<forall>h. obs_watch (en_calls E) (ep_kernel (ep s)) h \<noteq> None \<longleftrightarrow> h = en_wake_fd E \<or> registered (ep s) h \<noteq> None)
    \<and> set (el_events s) = set (created s) - set (closed s) \<and> {i. removed s i} \<subseteq> set (closed s)"
proof -
  from assms(4) run_reach_inv [OF assms(3,1,2)] have iv: "loop_inv E s" using overtakenD(1) by blast
  note l = loop_invD(1) [OF iv, unfolded lives_def]
  have "stages E s i = 1" if "i \<in> set (created s)" "0 \<le> en_handle E i" for i
    using life_where(2) [OF l that] life_in(2,3) [OF l _ that(2)] life_reg(4) [OF l, of "en_handle E i" i]
    by (auto simp: stages_def)
  moreover have "count (incoming s) i \<le> 1 \<and> count (outgoing s) i \<le> 1" for i
    using life_once [OF l] by (simp add: once_def)
  moreover have "set (el_events s) = set (created s) - set (closed s)"
    using loop_invD(3) [OF iv] by (simp add: books_ok_def)
  moreover have "en_handle E i = h \<and> 0 \<le> h \<and> h \<noteq> en_wake_fd E \<and> i \<in> set (created s)" if "registered (ep s) h = Some i" for h i
    using life_reg(1-3) [OF l that] life_where(1) [OF l, of i] by auto
  ultimately show ?thesis
    using loop_invD(2) [OF iv] life_sets(2) [OF l] by (auto simp: table_ok_def)
qed

theorem loop_well_formed_witness:
  "\<exists>t. run_reach demo (loop_new busy_start) t \<and> stages demo t 2 = 1 \<and> removed t 2"
proof -
  from removed_state obtain t where t: "perform_all demo removed_run (loop_new busy_start) = Some t"
    "2 \<in> set (created t)" "\<forall>x. pc t \<noteq> Dead x" "removed t 2" by blast
  have f: "fresh_start demo busy_start" by (simp add: busy_start_def demo_start)
  have r: "run_reach demo (loop_new busy_start) t" by (rule perform_all_run [OF t(1)])
  from loop_well_formed [OF demo_ok f r t(3)] t r show ?thesis by auto
qed

subsection \<open>What the loop thread calls\<close>

lemma called_call_or: "calling q = None \<Longrightarrow>
    called (history (call_or q c s)) = called (history s) @ (case calling (pc (call_or q c s)) of None \<Rightarrow> [] | Some i \<Rightarrow> [i])"
  by (simp add: call_or_def go_def split: option.splits)

lemma thread_called:
  assumes "loop_inv E s" and "running s" and "\<forall>x. pc (loop_step E s) \<noteq> Dead x"
  shows "called (history (loop_step E s))
    = called (history s) @ (case calling (pc (loop_step E s)) of None \<Rightarrow> [] | Some i \<Rightarrow> [i])"
proof (cases "pc s")
  case (Batch b)
  then show ?thesis by (cases b) (auto simp: loop_step_def step_entry_def intro: called_call_or)
next
  case (Adding js b)
  with assms(3) show ?thesis
    by (cases js) (auto simp: loop_step_def step_add_def die_def called_call_or split: sum.splits)
next
  case (Removing js b)
  with assms(3) show ?thesis by (cases js) (auto simp: loop_step_def step_remove_def die_def split: sum.splits)
next
  case (Readying xs b)
  then show ?thesis by (cases xs) (auto simp: loop_step_def step_ready_def called_call_or)
next
  case (Calling i m q)
  then have "calling q = None" using loop_invD(5) [OF assms(1)] by (simp add: calls_ok_def)
  with Calling assms(3) show ?thesis
    by (auto simp: loop_step_def step_return_def finish_res_def die_def dest!: execute_finish_frame split: sum.splits if_splits)
next
  case (Closing js)
  with assms(3) show ?thesis
    by (cases js) (auto simp: loop_step_def finish_res_def die_def dest!: event_close_frame on_ep_frame [OF _ ep_frames(1)]
        split: sum.splits if_splits)
qed (use assms(2,3) in \<open>auto simp: running_def loop_step_def run_check_def step_wait_def step_read_def take_adds_def take_removes_def
    take_readies_def die_def split: prod.splits sum.splits\<close>)

lemma call_left:
  assumes "loop_inv E s" and "calling (pc s) = Some i"
  shows "calling (pc (loop_step E s)) = None"
proof -
  from assms(2) obtain m q where p: "pc s = Calling i m q" by (cases "pc s") auto
  then have "calling q = None" using loop_invD(5) [OF assms(1)] by (simp add: calls_ok_def)
  with p show ?thesis by (auto simp: loop_step_def step_return_def finish_res_def die_def split: sum.splits)
qed

lemma called_In: "L_call i m \<in> set xs \<Longrightarrow> i \<in> set (called xs)"
  by (induction xs rule: called.induct) auto

text \<open>A call that a step of the loop adds to the history is the one that the loop thread is now in.\<close>

lemma new_call_entered:
  assumes "loop_inv E s" and "run_step E s t" and "\<forall>x. pc t \<noteq> Dead x" and "history t = history s @ ys" and "L_call i m \<in> set ys"
  shows "calling (pc t) = Some i \<and> pc t \<noteq> pc s"
proof -
  have "t = loop_step E s" using run_step_queues [OF assms(2,3)] assms(4,5) by (auto simp: queues_def)
  with thread_called [OF assms(1) run_step_from_alive [OF assms(2)]] assms(3,4)
  have "called ys = (case calling (pc t) of None \<Rightarrow> [] | Some i \<Rightarrow> [i])" by simp
  with called_In [OF assms(5)] have c: "calling (pc t) = Some i" by (auto split: option.splits)
  with call_left [OF assms(1)] \<open>t = loop_step E s\<close> have "pc t \<noteq> pc s" by auto
  with c show ?thesis by simp
qed

end
