(* ===== verification/Execute_Instances.thy ===== *)
theory Execute_Instances
  imports Loop_Order
begin

text \<open>
  The functions that are given to \<open>ExecuteOnce\<close> and the objects they are bound to
  (\<open>include/event_loop.h\<close>, \<open>EventLoop::ExecuteHandler\<close> in \<open>lib/event_loop.cc\<close>): the handler keeps a raw
  pointer to the object in its function and a \<open>weak_ptr\<close> beside it, which \<open>HandleEvents\<close> locks before it
  calls the function.
\<close>

subsection \<open>The handler\<close>

text \<open>
  Where the loop thread is in \<open>HandleEvents\<close> of an execute handler: before the lock of the object, before the test of
  what the lock yielded, in the function, or past it, before \<open>event_->Close()\<close>.
\<close>

datatype turn = To_lock | To_test | In_func | Turn_over

text \<open>
  The loop; what the functions work on; the objects that have been destroyed; the one that the loop thread
  holds a \<open>shared_ptr\<close> to; its place; the functions that have returned, in order; and the beginnings and ends of calls, each with the
  function and whether its object was alive then.  \<open>inst i\<close> is the object of the handler \<open>i\<close>.
\<close>

record ('k, 'h) executor =
  in_loop :: "'k loop"
  in_app :: 'h
  in_dead :: "nat list"
  in_locked :: "nat option"
  in_at :: turn
  in_ran :: "nat list"
  in_uses :: "(nat \<times> bool) list"

definition execute_lock :: "(nat \<Rightarrow> nat) \<Rightarrow> nat \<Rightarrow> ('k, 'h) executor \<Rightarrow> ('k, 'h) executor" where
  "execute_lock inst i y =
     y\<lparr>in_locked := (if inst i \<in> set (in_dead y) then None else Some (inst i)), in_at := To_test\<rparr>"

definition execute_begin :: "(nat \<Rightarrow> nat) \<Rightarrow> nat \<Rightarrow> ('k, 'h) executor \<Rightarrow> ('k, 'h) executor" where
  "execute_begin inst i y =
     (if in_locked y \<noteq> None
      then y\<lparr>in_at := In_func, in_uses := in_uses y @ [(i, inst i \<notin> set (in_dead y))]\<rparr>
      else y\<lparr>in_at := Turn_over\<rparr>)"

definition execute_end :: "(nat \<Rightarrow> nat) \<Rightarrow> (nat \<Rightarrow> 'h \<Rightarrow> 'h) \<Rightarrow> nat \<Rightarrow> ('k, 'h) executor \<Rightarrow> ('k, 'h) executor" where
  "execute_end inst func i y =
     y\<lparr>in_at := Turn_over, in_app := func i (in_app y), in_ran := in_ran y @ [i],
       in_uses := in_uses y @ [(i, inst i \<notin> set (in_dead y))]\<rparr>"

text \<open>The next step of the loop thread in \<open>HandleEvents\<close>.\<close>

definition execute_turn :: "(nat \<Rightarrow> nat) \<Rightarrow> (nat \<Rightarrow> 'h \<Rightarrow> 'h) \<Rightarrow> nat \<Rightarrow> ('k, 'h) executor \<Rightarrow> ('k, 'h) executor" where
  "execute_turn inst func i y =
     (case in_at y of
        To_lock \<Rightarrow> execute_lock inst i y
      | To_test \<Rightarrow> execute_begin inst i y
      | In_func \<Rightarrow> execute_end inst func i y
      | Turn_over \<Rightarrow> y)"

text \<open>\<open>HandleEvents\<close> as a whole; the \<open>shared_ptr\<close> is dropped at its end.\<close>

definition execute_call :: "(nat \<Rightarrow> nat) \<Rightarrow> (nat \<Rightarrow> 'h \<Rightarrow> 'h) \<Rightarrow> nat \<Rightarrow> ('k, 'h) executor \<Rightarrow> ('k, 'h) executor" where
  "execute_call inst func i y =
     (let y = execute_begin inst i (execute_lock inst i y)
      in if in_at y = In_func then execute_end inst func i y else y)"

definition execute_handle_events ::
  "'k env \<Rightarrow> (nat \<Rightarrow> nat) \<Rightarrow> (nat \<Rightarrow> 'h \<Rightarrow> 'h) \<Rightarrow> nat \<Rightarrow> ('k, 'h) executor
     \<Rightarrow> (exn \<times> ('k, 'h) executor) + ('k, 'h) executor" where
  "execute_handle_events E inst func i y =
     (let y = execute_call inst func i y
      in case execute_finish E i (in_loop y) of
           Inl (x, l) \<Rightarrow> Inl (x, y\<lparr>in_loop := l, in_locked := None, in_at := To_lock\<rparr>)
         | Inr l \<Rightarrow> Inr (y\<lparr>in_loop := l, in_locked := None, in_at := To_lock\<rparr>))"

text \<open>The loop thread is in \<open>HandleEvents\<close> of an execute handler that is not past the function.\<close>

definition to_execute :: "'k env \<Rightarrow> ('k, 'h) executor \<Rightarrow> bool" where
  "to_execute E y \<longleftrightarrow> (\<exists>i. calling (pc (in_loop y)) = Some i \<and> en_kind E i = Execute) \<and> in_at y \<noteq> Turn_over"

text \<open>
  The loop thread goes on in \<open>HandleEvents\<close>; an object to which it has no \<open>shared_ptr\<close> is destroyed; or the loop goes on,
  the loop thread only when the function has returned or is not called.
\<close>

inductive in_step ::
  "'k env \<Rightarrow> (nat \<Rightarrow> nat) \<Rightarrow> (nat \<Rightarrow> 'h \<Rightarrow> 'h) \<Rightarrow> ('k, 'h) executor \<Rightarrow> ('k, 'h) executor \<Rightarrow> bool" for E inst func where
  call: "pc (in_loop y) = Calling i m q \<Longrightarrow> en_kind E i = Execute \<Longrightarrow> in_at y \<noteq> Turn_over \<Longrightarrow>
    in_step E inst func y (execute_turn inst func i y)"
| destroyed: "in_locked y \<noteq> Some x \<Longrightarrow> in_step E inst func y (y\<lparr>in_dead := List.insert x (in_dead y)\<rparr>)"
| elsewhere: "run_step E (in_loop y) l \<Longrightarrow> \<not> to_execute E y \<or> pc l = pc (in_loop y) \<Longrightarrow>
    in_step E inst func y
      (if pc l = pc (in_loop y) then y\<lparr>in_loop := l\<rparr> else y\<lparr>in_loop := l, in_locked := None, in_at := To_lock\<rparr>)"

inductive in_reach ::
  "'k env \<Rightarrow> (nat \<Rightarrow> nat) \<Rightarrow> (nat \<Rightarrow> 'h \<Rightarrow> 'h) \<Rightarrow> ('k, 'h) executor \<Rightarrow> ('k, 'h) executor \<Rightarrow> bool" for E inst func y0 where
  start: "in_reach E inst func y0 y0"
| move: "in_reach E inst func y0 y \<Longrightarrow> in_step E inst func y z \<Longrightarrow> in_reach E inst func y0 z"

lemma in_reach_trans: "in_reach E inst func x y \<Longrightarrow> in_reach E inst func y z \<Longrightarrow> in_reach E inst func x z"
  by (rotate_tac, induction rule: in_reach.induct) (auto intro: in_reach.move)

definition in_start :: "'k \<Rightarrow> 'h \<Rightarrow> ('k, 'h) executor" where
  "in_start k h = \<lparr>in_loop = loop_new k, in_app = h, in_dead = [], in_locked = None, in_at = To_lock, in_ran = [], in_uses = []\<rparr>"

lemma turn_loop [simp]:
  "in_loop (execute_lock inst i y) = in_loop y" "in_loop (execute_begin inst i y) = in_loop y"
  "in_loop (execute_end inst func i y) = in_loop y" "in_loop (execute_turn inst func i y) = in_loop y"
  "in_loop (execute_call inst func i y) = in_loop y"
  by (simp_all add: execute_lock_def execute_begin_def execute_end_def execute_turn_def execute_call_def Let_def split: turn.split)

lemma call_not_itself: "q \<noteq> Calling i m q"
  by (induction q) auto

text \<open>Undisturbed, the steps of the loop thread are \<open>HandleEvents\<close>.\<close>

lemma execute_call_steps:
  assumes "pc (in_loop y) = Calling i m q" and "en_kind E i = Execute" and "in_at y = To_lock"
  shows "in_reach E inst func y (execute_call inst func i y) \<and> in_at (execute_call inst func i y) = Turn_over"
proof -
  let ?u = "execute_lock inst i y" and ?v = "execute_begin inst i (execute_lock inst i y)"
  have u: "in_at ?u = To_test" by (simp add: execute_lock_def)
  have v: "in_at ?v = In_func \<or> in_at ?v = Turn_over" by (simp add: execute_begin_def)
  have "in_step E inst func y ?u"
    using in_step.call [OF assms(1,2), of inst func] assms(3) by (simp add: execute_turn_def)
  moreover have "in_step E inst func ?u ?v"
    using in_step.call [of ?u i m q E inst func] assms(1,2) u by (simp add: execute_turn_def)
  ultimately have r: "in_reach E inst func y ?v" by (blast intro: in_reach.intros)
  show ?thesis
  proof (cases "in_at ?v = In_func")
    case True
    then have "in_step E inst func ?v (execute_end inst func i ?v)"
      using in_step.call [of ?v i m q E inst func] assms(1,2) by (simp add: execute_turn_def)
    with r True show ?thesis by (auto simp: execute_call_def Let_def execute_end_def intro: in_reach.move)
  next
    case False
    with r v show ?thesis by (simp add: execute_call_def Let_def)
  qed
qed

lemma execute_steps:
  assumes "pc (in_loop y) = Calling i m q" and "en_kind E i = Execute" and "in_at y = To_lock" and "\<not> lock_held (in_loop y)"
    and "execute_handle_events E inst func i y = Inr z"
  shows "in_reach E inst func y (z\<lparr>in_loop := go q (in_loop z)\<rparr>)"
proof -
  let ?u = "execute_call inst func i y"
  note r = execute_call_steps [OF assms(1-3), of inst func]
  from assms(5) obtain l where l: "execute_finish E i (in_loop y) = Inr l"
    "z = ?u\<lparr>in_loop := l, in_locked := None, in_at := To_lock\<rparr>"
    by (auto simp: execute_handle_events_def Let_def split: sum.splits)
  have st: "loop_step E (in_loop ?u) = go q l" "running (in_loop ?u)"
    using assms(1,2) l(1) by (simp_all add: loop_step_def step_return_def finish_res_def running_def)
  have "in_step E inst func ?u (if pc (go q l) = pc (in_loop ?u) then ?u\<lparr>in_loop := go q l\<rparr>
      else ?u\<lparr>in_loop := go q l, in_locked := None, in_at := To_lock\<rparr>)"
    by (rule in_step.elsewhere) (use run_step.thread [OF st(2), of E] st(1) assms(4) r in \<open>simp_all add: to_execute_def\<close>)
  moreover have "z\<lparr>in_loop := go q (in_loop z)\<rparr> = ?u\<lparr>in_loop := go q l, in_locked := None, in_at := To_lock\<rparr>"
    unfolding l(2) by simp
  ultimately have "in_step E inst func ?u (z\<lparr>in_loop := go q (in_loop z)\<rparr>)" using assms(1) call_not_itself [of q i m] by simp
  with r show ?thesis by (blast intro: in_reach.move)
qed

subsection \<open>What the loop thread has called\<close>

text \<open>A step of the loop: the functions that have been called so far, and the place of the loop thread.\<close>

lemma run_step_executed:
  assumes "loop_inv E s" and "run_step E s t" and "\<forall>x. pc t \<noteq> Dead x"
  shows "pc t = pc s \<Longrightarrow> executed_by E t = executed_by E s"
    and "pc t \<noteq> pc s \<Longrightarrow> executed_by E t = executed_by E s
      @ (case calling (pc t) of None \<Rightarrow> [] | Some i \<Rightarrow> if en_kind E i = Execute then [i] else [])"
proof -
  from run_step_queues [OF assms(2,3)] have "(t = loop_step E s) \<or> (history t = history s \<and> pc t = pc s)"
    by (auto simp: queues_def)
  moreover have "running s" by (rule run_step_from_alive [OF assms(2)])
  ultimately have c: "called (history t) = called (history s) @ (case calling (pc t) of None \<Rightarrow> [] | Some i \<Rightarrow> [i])
      \<and> (pc t = pc s \<longrightarrow> calling (pc s) = None) \<or> history t = history s \<and> pc t = pc s"
    using thread_called [OF assms(1)] assms(3) call_left [OF assms(1)] by (cases "calling (pc s)") auto
  show "pc t = pc s \<Longrightarrow> executed_by E t = executed_by E s" using c by (auto simp: executed_by_def)
  show "pc t \<noteq> pc s \<Longrightarrow> executed_by E t = executed_by E s
      @ (case calling (pc t) of None \<Rightarrow> [] | Some i \<Rightarrow> if en_kind E i = Execute then [i] else [])"
    using c by (auto simp: executed_by_def split: option.splits)
qed

subsection \<open>Every reachable state\<close>

text \<open>The functions whose turn is over: all whose handler the loop thread has called, but for the one it is in.\<close>

definition had_turn :: "'k env \<Rightarrow> ('k, 'h) executor \<Rightarrow> nat list" where
  "had_turn E y = (if to_execute E y then butlast (executed_by E (in_loop y)) else executed_by E (in_loop y))"

text \<open>What the loop thread holds at its place, and the calls that it has made.\<close>

definition held_ok :: "'k env \<Rightarrow> (nat \<Rightarrow> nat) \<Rightarrow> ('k, 'h) executor \<Rightarrow> bool" where
  "held_ok E inst y \<longleftrightarrow>
     (in_at y \<noteq> To_lock \<longrightarrow> (\<exists>i. calling (pc (in_loop y)) = Some i \<and> en_kind E i = Execute))
   \<and> (\<forall>i. calling (pc (in_loop y)) = Some i \<longrightarrow>
        (in_at y = To_test \<longrightarrow> in_locked y = Some (inst i) \<or> in_locked y = None \<and> inst i \<in> set (in_dead y))
      \<and> (in_at y = In_func \<longrightarrow> in_locked y = Some (inst i)))
   \<and> (\<forall>x. in_locked y = Some x \<longrightarrow> x \<notin> set (in_dead y))"

definition uses_ok :: "('k, 'h) executor \<Rightarrow> bool" where
  "uses_ok y \<longleftrightarrow> list_all snd (in_uses y)
   \<and> map fst (in_uses y) = concat (map (\<lambda>i. [i, i]) (in_ran y))
       @ (if in_at y = In_func then (case calling (pc (in_loop y)) of None \<Rightarrow> [] | Some i \<Rightarrow> [i]) else [])"

definition in_inv ::
  "'k env \<Rightarrow> (nat \<Rightarrow> nat) \<Rightarrow> (nat \<Rightarrow> 'h \<Rightarrow> 'h) \<Rightarrow> 'h \<Rightarrow> ('k, 'h) executor \<Rightarrow> bool" where
  "in_inv E inst func h y \<longleftrightarrow>
     subseq (in_ran y) (had_turn E y)
   \<and> set (had_turn E y) \<subseteq> set (in_ran y) \<union> {i. inst i \<in> set (in_dead y)}
   \<and> (\<forall>i. calling (pc (in_loop y)) = Some i \<longrightarrow> en_kind E i = Execute \<longrightarrow>
        executed_by E (in_loop y) \<noteq> [] \<and> last (executed_by E (in_loop y)) = i)
   \<and> in_app y = fold func (in_ran y) h"

lemma held_call:
  assumes "held_ok E inst y" and "pc (in_loop y) = Calling i m q" and "en_kind E i = Execute"
  shows "held_ok E inst (execute_turn inst func i y)"
  using assms by (auto simp: held_ok_def execute_turn_def execute_lock_def execute_begin_def execute_end_def split: turn.splits)

lemma uses_call:
  assumes "uses_ok y" and "held_ok E inst y" and "pc (in_loop y) = Calling i m q"
  shows "uses_ok (execute_turn inst func i y)"
  using assms by (auto simp: held_ok_def uses_ok_def execute_turn_def execute_lock_def execute_begin_def execute_end_def split: turn.splits)

lemma in_inv_call:
  assumes "in_inv E inst func h y" and "held_ok E inst y" and "pc (in_loop y) = Calling i m q" and "en_kind E i = Execute"
    and "in_at y \<noteq> Turn_over"
  shows "in_inv E inst func h (execute_turn inst func i y)"
proof (cases "in_at (execute_turn inst func i y) = Turn_over")
  case False
  then have "in_ran (execute_turn inst func i y) = in_ran y" "in_app (execute_turn inst func i y) = in_app y"
    "in_dead (execute_turn inst func i y) = in_dead y" "had_turn E (execute_turn inst func i y) = had_turn E y"
    using assms(5) by (auto simp: had_turn_def to_execute_def execute_turn_def execute_lock_def execute_begin_def execute_end_def split: turn.splits)
  with assms(1) show ?thesis by (simp add: in_inv_def)
next
  case True
  have t: "to_execute E y" "\<not> to_execute E (execute_turn inst func i y)"
    using assms(3-5) True by (auto simp: to_execute_def)
  from assms(1,3,4) have e: "executed_by E (in_loop y) = butlast (executed_by E (in_loop y)) @ [i]"
    unfolding in_inv_def by (metis append_butlast_last_id calling.simps(1))
  have d: "had_turn E (execute_turn inst func i y) = had_turn E y @ [i]"
    unfolding had_turn_def using t e by simp
  have i: "subseq (in_ran y) (had_turn E y)" "set (had_turn E y) \<subseteq> set (in_ran y) \<union> {i. inst i \<in> set (in_dead y)}"
    "in_app y = fold func (in_ran y) h"
    using assms(1) by (simp_all add: in_inv_def)
  have sub: "subseq (in_ran y @ [i]) (had_turn E y @ [i])" "subseq (in_ran y) (had_turn E y @ [i])"
    using i(1) by (simp_all add: list_emb_append_mono subseq_rev_drop_many)
  have "in_ran (execute_turn inst func i y) = in_ran y @ [i] \<and> in_app (execute_turn inst func i y) = func i (in_app y)
      \<and> in_dead (execute_turn inst func i y) = in_dead y
    \<or> in_ran (execute_turn inst func i y) = in_ran y \<and> in_app (execute_turn inst func i y) = in_app y
      \<and> in_dead (execute_turn inst func i y) = in_dead y \<and> inst i \<in> set (in_dead y)"
    using True assms(2,3,5)
    by (auto simp: held_ok_def execute_turn_def execute_lock_def execute_begin_def execute_end_def split: turn.splits if_splits)
  with i sub assms(1) show ?thesis unfolding in_inv_def d by (auto simp: in_inv_def)
qed

text \<open>A step elsewhere.\<close>

definition moved_loop :: "'k loop \<Rightarrow> ('k, 'h) executor \<Rightarrow> ('k, 'h) executor" where
  "moved_loop l y =
     (if pc l = pc (in_loop y) then y\<lparr>in_loop := l\<rparr> else y\<lparr>in_loop := l, in_locked := None, in_at := To_lock\<rparr>)"

lemma held_elsewhere:
  assumes "held_ok E inst y" and "uses_ok y" and "\<not> to_execute E y \<or> pc l = pc (in_loop y)"
  shows "held_ok E inst (moved_loop l y) \<and> uses_ok (moved_loop l y)"
proof (cases "pc l = pc (in_loop y)")
  case True
  with assms(1,2) show ?thesis by (simp add: moved_loop_def held_ok_def uses_ok_def)
next
  case False
  with assms have "in_at y \<noteq> In_func" by (auto simp: to_execute_def held_ok_def)
  with False assms(1,2) show ?thesis by (simp add: moved_loop_def held_ok_def uses_ok_def)
qed

lemma in_inv_elsewhere:
  assumes "in_inv E inst func h y" and "loop_inv E (in_loop y)" and "run_step E (in_loop y) l" and "\<forall>x. pc l \<noteq> Dead x"
    and "\<not> to_execute E y \<or> pc l = pc (in_loop y)"
  shows "in_inv E inst func h (moved_loop l y)"
proof (cases "pc l = pc (in_loop y)")
  case True
  note e = run_step_executed(1) [OF assms(2-4) True]
  have "to_execute E (y\<lparr>in_loop := l\<rparr>) \<longleftrightarrow> to_execute E y" by (simp add: to_execute_def True)
  then have "had_turn E (y\<lparr>in_loop := l\<rparr>) = had_turn E y" by (simp add: had_turn_def e)
  with assms(1) True e show ?thesis by (simp add: in_inv_def moved_loop_def)
next
  case False
  note e = run_step_executed(2) [OF assms(2-4) False]
  have d: "had_turn E y = executed_by E (in_loop y)" using assms(5) False by (simp add: had_turn_def)
  have "had_turn E (y\<lparr>in_loop := l, in_locked := None, in_at := To_lock\<rparr>) = executed_by E (in_loop y)"
    using e by (auto simp: had_turn_def to_execute_def split: option.splits if_splits)
  with assms(1) False e d show ?thesis by (simp add: in_inv_def moved_loop_def split: option.splits)
qed

text \<open>The objects that the loop thread uses are alive, also when it has died; the rest as long as it lives.\<close>

lemma in_reach_held:
  assumes "in_reach E inst func (in_start k h) y"
  shows "held_ok E inst y \<and> uses_ok y"
  using assms
proof (induction rule: in_reach.induct)
  case start
  then show ?case by (simp add: in_start_def held_ok_def uses_ok_def)
next
  case (move y z)
  from move(2) show ?case
  proof cases
    case (call i m q)
    with held_call uses_call move(3) show ?thesis by blast
  next
    case (destroyed x)
    with move(3) show ?thesis by (auto simp: held_ok_def uses_ok_def)
  next
    case (elsewhere l)
    with held_elsewhere [of E inst y l] move(3) show ?thesis by (simp add: moved_loop_def)
  qed
qed

lemma in_reach_inv:
  assumes "epoll_ok (en_wake_fd E) (en_calls E)" and "fresh_start E k" and "in_reach E inst func (in_start k h) y"
  shows "run_reach E (loop_new k) (in_loop y) \<and> ((\<forall>x. pc (in_loop y) \<noteq> Dead x) \<longrightarrow> in_inv E inst func h y)"
  using assms(3)
proof (induction rule: in_reach.induct)
  case start
  then show ?case
    by (auto simp: in_start_def in_inv_def had_turn_def to_execute_def loop_new_def executed_by_def intro: run_reach.start)
next
  case (move y z)
  then have r: "run_reach E (loop_new k) (in_loop y)"
    and iv: "\<forall>x. pc (in_loop y) \<noteq> Dead x \<Longrightarrow> in_inv E inst func h y" by blast+
  from move(2) show ?case
  proof cases
    case (call i m q)
    then have "\<forall>x. pc (in_loop y) \<noteq> Dead x" by simp
    with in_inv_call [OF iv _ call(2-4)] in_reach_held [OF move(1)] r call(1) show ?thesis by simp
  next
    case (destroyed x)
    have "to_execute E z \<longleftrightarrow> to_execute E y" by (simp add: destroyed(1) to_execute_def)
    then have "had_turn E z = had_turn E y" by (simp add: destroyed(1) had_turn_def)
    with destroyed iv r show ?thesis by (auto simp: in_inv_def)
  next
    case (elsewhere l)
    have z: "z = moved_loop l y" by (simp add: elsewhere(1) moved_loop_def)
    then have l: "in_loop z = l" by (simp add: moved_loop_def)
    have run: "running (in_loop y)" by (rule run_step_from_alive [OF elsewhere(2)])
    then have "in_inv E inst func h y" by (intro iv) (auto simp: running_def)
    from in_inv_elsewhere [OF this reach_running_inv [OF r assms(1,2) run] elsewhere(2) _ elsewhere(3)]
    have "(\<forall>x. pc l \<noteq> Dead x) \<longrightarrow> in_inv E inst func h z" unfolding z by (rule impI)
    with run_reach.move [OF r elsewhere(2)] l show ?thesis by simp
  qed
qed

lemma executed_distinct:
  assumes "loop_inv E s"
  shows "distinct (executed_by E s)"
proof -
  have c: "calls_of i xs = count (mset (called xs)) i" for i xs
    by (induction xs rule: called.induct) (auto simp: calls_of_def)
  have "count (mset (executed_by E s)) i \<le> 1" for i
  proof (cases "en_kind E i = Execute \<and> 0 < calls_of i (history s)")
    case True
    then have "en_handle E i < 0" using loop_invD(5,6) [OF assms] by (auto simp: calls_ok_def intern_ok_def)
    then have "calls_of i (history s) \<le> 1" using loop_invD(5) [OF assms] by (fastforce simp: calls_ok_def)
    with True show ?thesis by (simp add: executed_by_def c mset_filter)
  next
    case False
    then show ?thesis by (auto simp: executed_by_def c mset_filter count_mset_0_iff [THEN iffD2])
  qed
  then show ?thesis by (simp add: distinct_count_atmost_1 le_Suc_eq count_eq_zero_iff)
qed

subsection \<open>A run with a destroyed object\<close>

datatype in_move = I_loop move | I_call | I_destroy nat

fun in_do :: "'k env \<Rightarrow> (nat \<Rightarrow> nat) \<Rightarrow> (nat \<Rightarrow> 'h \<Rightarrow> 'h) \<Rightarrow> in_move \<Rightarrow> ('k, 'h) executor \<Rightarrow> ('k, 'h) executor option" where
  "in_do E inst func (I_loop m) y =
     (case perform E m (in_loop y) of
        None \<Rightarrow> None
      | Some l \<Rightarrow>
          if pc l = pc (in_loop y) then Some (y\<lparr>in_loop := l\<rparr>)
          else if in_at y = Turn_over \<or> (case calling (pc (in_loop y)) of None \<Rightarrow> True | Some i \<Rightarrow> en_kind E i \<noteq> Execute)
               then Some (y\<lparr>in_loop := l, in_locked := None, in_at := To_lock\<rparr>) else None)"
| "in_do E inst func I_call y =
     (case pc (in_loop y) of
        Calling i m q \<Rightarrow> if en_kind E i = Execute \<and> in_at y \<noteq> Turn_over then Some (execute_turn inst func i y) else None
      | _ \<Rightarrow> None)"
| "in_do E inst func (I_destroy x) y =
     (if in_locked y \<noteq> Some x then Some (y\<lparr>in_dead := List.insert x (in_dead y)\<rparr>) else None)"

lemma in_do_step: "in_do E inst func m y = Some z \<Longrightarrow> in_step E inst func y z"
proof (cases m)
  case (I_loop mv)
  assume d: "in_do E inst func m y = Some z"
  with I_loop obtain l where l: "perform E mv (in_loop y) = Some l" by (auto split: option.splits)
  show ?thesis
  proof (cases "pc l = pc (in_loop y)")
    case True
    with d l I_loop have "z = y\<lparr>in_loop := l\<rparr>" by simp
    with in_step.elsewhere [OF perform_step [OF l], of inst func] True show ?thesis by simp
  next
    case False
    with d l I_loop have "z = y\<lparr>in_loop := l, in_locked := None, in_at := To_lock\<rparr>" "\<not> to_execute E y"
      by (auto simp: to_execute_def split: if_splits option.splits)
    with in_step.elsewhere [OF perform_step [OF l], of inst func] False show ?thesis by simp
  qed
qed (auto split: pc.splits if_splits intro: in_step.call in_step.destroyed)

fun in_run :: "'k env \<Rightarrow> (nat \<Rightarrow> nat) \<Rightarrow> (nat \<Rightarrow> 'h \<Rightarrow> 'h) \<Rightarrow> in_move list \<Rightarrow> ('k, 'h) executor \<Rightarrow> ('k, 'h) executor option" where
  "in_run E inst func [] y = Some y"
| "in_run E inst func (m # ms) y = (case in_do E inst func m y of None \<Rightarrow> None | Some z \<Rightarrow> in_run E inst func ms z)"

lemma in_run_reach: "in_run E inst func ms y = Some z \<Longrightarrow> in_reach E inst func y0 y \<Longrightarrow> in_reach E inst func y0 z"
proof (induction ms arbitrary: y)
  case (Cons m ms)
  from Cons.prems(1) obtain u where u: "in_do E inst func m y = Some u" "in_run E inst func ms u = Some z"
    by (auto split: option.splits)
  from Cons.IH [OF u(2) in_reach.move [OF Cons.prems(2) in_do_step [OF u(1)]]] show ?case .
qed simp

text \<open>Two functions; the object of the second is destroyed while the first runs.\<close>

definition second_gone :: "in_move list" where
  "second_gone = map I_loop ([M_attach 0, M_hand_over 0, M_attach 1, M_hand_over 1] @ replicate 7 M_thread)
     @ [I_call, I_call, I_destroy 1, I_call] @ replicate 2 (I_loop M_thread) @ [I_call, I_call, I_loop M_thread]"

lemma second_gone_value:
  "\<exists>y. in_run demo_two (\<lambda>i. i) (\<lambda>i xs. xs @ [i]) second_gone (in_start (ek_start []) []) = Some y
     \<and> in_ran y = [0] \<and> in_app y = [0] \<and> in_uses y = [(0, True), (0, True)] \<and> executed_by demo_two (in_loop y) = [0, 1] \<and> (\<forall>x. pc (in_loop y) \<noteq> Dead x)
     \<and> calling (pc (in_loop y)) = None"
  by (simp add: second_gone_def in_start_def execute_turn_def execute_lock_def execute_begin_def execute_end_def replicate_unfold loop_eval demo_two_def executed_by_def)

lemma subseq_distinct: "subseq xs ys \<Longrightarrow> distinct ys \<Longrightarrow> distinct xs"
  by (auto simp: subseq_conv_nths)

subsection \<open>Properties\<close>

text \<open>
  C21: \<open>ExecuteOnce\<close> and the life of its object.  In every interleaving of the lock, the test and the call with the
  destruction of objects: every call begins and ends with its object alive, and the object is alive as long as the loop thread is in the function;
  the calls are made one after the other, each function at most once, in the order in which their turns came; one
  whose turn is over was called, or its object had been destroyed; and what the functions worked on is what they
  make of it in that order.  The loop thread lives, and functions return and do not throw.
\<close>

theorem execute_instances:
  assumes "epoll_ok (en_wake_fd E) (en_calls E)" and "fresh_start E k" and "in_reach E inst func (in_start k h) y"
    and "\<forall>x. pc (in_loop y) \<noteq> Dead x"
  shows "list_all (\<lambda>(i, object_alive). object_alive) (in_uses y)
    \<and> map fst (in_uses y) = concat (map (\<lambda>i. [i, i]) (in_ran y))
        @ (if in_at y = In_func then (case calling (pc (in_loop y)) of None \<Rightarrow> [] | Some i \<Rightarrow> [i]) else [])
    \<and> (in_at y = In_func \<longrightarrow> (\<exists>i. calling (pc (in_loop y)) = Some i \<and> inst i \<notin> set (in_dead y)))
    \<and> distinct (in_ran y) \<and> subseq (in_ran y) (executed_by E (in_loop y))
    \<and> (\<forall>i \<in> set (executed_by E (in_loop y)). i \<in> set (in_ran y) \<or> inst i \<in> set (in_dead y)
        \<or> calling (pc (in_loop y)) = Some i \<and> in_at y \<noteq> Turn_over)
    \<and> in_app y = fold func (in_ran y) h"
proof -
  from in_reach_inv [OF assms(1-3)] assms(4) have r: "run_reach E (loop_new k) (in_loop y)" and iv: "in_inv E inst func h y"
    by blast+
  from in_reach_held [OF assms(3)] have u: "held_ok E inst y" "uses_ok y" by simp_all
  have "loop_inv E (in_loop y)" using run_reach_inv [OF r assms(1,2)] assms(4) overtakenD(1) by blast
  note d = executed_distinct [OF this]
  from iv have s: "subseq (in_ran y) (had_turn E y)" by (simp add: in_inv_def)
  have "subseq (had_turn E y) (executed_by E (in_loop y))"
    by (simp add: had_turn_def butlast_conv_take subseq_order.order_trans [OF prefix_imp_subseq] take_is_prefix prefix_imp_subseq)
  with s have sub: "subseq (in_ran y) (executed_by E (in_loop y))" by (rule subseq_order.order_trans)
  have turns: "i \<in> set (in_ran y) \<or> inst i \<in> set (in_dead y) \<or> calling (pc (in_loop y)) = Some i \<and> in_at y \<noteq> Turn_over"
    if "i \<in> set (executed_by E (in_loop y))" for i
  proof (cases "i \<in> set (had_turn E y)")
    case True
    with iv show ?thesis by (auto simp: in_inv_def)
  next
    case False
    with that have t: "to_execute E y" by (auto simp: had_turn_def split: if_splits)
    then obtain j where j: "calling (pc (in_loop y)) = Some j" "en_kind E j = Execute" by (auto simp: to_execute_def)
    with iv have "executed_by E (in_loop y) = butlast (executed_by E (in_loop y)) @ [j]"
      unfolding in_inv_def by (metis append_butlast_last_id)
    with that False t have "i = j" by (metis Un_iff empty_iff empty_set had_turn_def list.set(2) set_append insertE)
    with j t show ?thesis by (simp add: to_execute_def)
  qed
  have alive: "\<exists>i. calling (pc (in_loop y)) = Some i \<and> inst i \<notin> set (in_dead y)" if "in_at y = In_func"
    using u(1) that by (auto simp: held_ok_def)
  have uses: "list_all (\<lambda>(i, object_alive). object_alive) (in_uses y)" using u(2) by (simp add: uses_ok_def list_all_iff case_prod_unfold)
  show ?thesis
    using uses alive turns sub subseq_distinct [OF sub d] u(2) iv by (simp add: uses_ok_def in_inv_def)
qed

theorem execute_instances_witness:
  "\<exists>y. in_reach demo_two (\<lambda>i. i) (\<lambda>i xs. xs @ [i]) (in_start (ek_start []) []) y \<and> in_ran y = [0] \<and> 1 \<in> set (in_dead y)
     \<and> executed_by demo_two (in_loop y) = [0, 1] \<and> in_uses y = [(0, True), (0, True)]"
proof -
  from second_gone_value obtain y where
    y: "in_run demo_two (\<lambda>i. i) (\<lambda>i xs. xs @ [i]) second_gone (in_start (ek_start []) []) = Some y"
      "in_ran y = [0]" "executed_by demo_two (in_loop y) = [0, 1]" "\<forall>x. pc (in_loop y) \<noteq> Dead x"
      "calling (pc (in_loop y)) = None" "in_uses y = [(0, True), (0, True)]" by blast
  have r: "in_reach demo_two (\<lambda>i. i) (\<lambda>i xs. xs @ [i]) (in_start (ek_start []) []) y" by (rule in_run_reach [OF y(1) in_reach.start])
  from execute_instances [OF demo_two_ok(1) demo_two_ok(2) r y(4)] y r show ?thesis by fastforce
qed

end
