(* ===== verification/Log_Text.thy ===== *)
theory Log_Text
  imports Ael_Prelude
begin

text \<open>
  The text of log messages: decimal numbers as \<open>std::ostream\<close> writes them, the \<open>operator<<\<close> of the
  library's classes (\<open>lib/handle.cc\<close>, \<open>lib/event.cc\<close>, \<open>lib/stream_buffer.cc\<close>,
  \<open>lib/stream_listener.cc\<close>, \<open>lib/tcp_stream_buffer_filter.cc\<close>), the line that \<open>LOG_LEVEL\<close> composes
  (\<open>include/log.h\<close>), and readers for what was written.
\<close>

subsection \<open>Decimal numbers\<close>

definition digit :: "nat \<Rightarrow> char" where
  "digit n = char_of (48 + n)"

definition digit_val :: "char \<Rightarrow> nat" where
  "digit_val c = of_char c - 48"

definition digit_char :: "char \<Rightarrow> bool" where
  "digit_char c \<longleftrightarrow> 48 \<le> (of_char c :: nat) \<and> (of_char c :: nat) < 58"

fun put_nat :: "nat \<Rightarrow> string" where
  "put_nat n = (if n < 10 then [digit n] else put_nat (n div 10) @ [digit (n mod 10)])"

declare put_nat.simps [simp del]

definition put_int :: "int \<Rightarrow> string" where
  "put_int i = (if i < 0 then CHR ''-'' # put_nat (nat (- i)) else put_nat (nat i))"

definition get_nat :: "string \<Rightarrow> nat" where
  "get_nat s = foldl (\<lambda>n c. 10 * n + digit_val c) 0 s"

definition get_int :: "string \<Rightarrow> int" where
  "get_int s = (case s of [] \<Rightarrow> 0 | c # cs \<Rightarrow> if c = CHR ''-'' then - int (get_nat cs) else int (get_nat s))"

lemma digit_val_digit: "n < 10 \<Longrightarrow> digit_val (digit n) = n"
  by (simp add: digit_val_def digit_def)

lemma digit_char_digit: "n < 10 \<Longrightarrow> digit_char (digit n)"
  by (simp add: digit_char_def digit_def)

lemma put_nat_digits: "list_all digit_char (put_nat n) \<and> put_nat n \<noteq> []"
proof (induction n rule: put_nat.induct)
  case (1 n)
  then show ?case by (cases "n < 10") (auto simp: put_nat.simps [of n] digit_char_digit)
qed

lemma get_put_nat: "get_nat (put_nat n) = n"
proof (induction n rule: put_nat.induct)
  case (1 n)
  show ?case
  proof (cases "n < 10")
    case True
    then show ?thesis by (simp add: put_nat.simps [of n] get_nat_def digit_val_digit)
  next
    case False
    with 1 have "get_nat (put_nat n) = 10 * (n div 10) + digit_val (digit (n mod 10))"
      by (simp add: put_nat.simps [of n] get_nat_def)
    then show ?thesis by (simp add: digit_val_digit)
  qed
qed

lemma digit_not_minus: "digit_char c \<Longrightarrow> c \<noteq> CHR ''-''"
  by (auto simp: digit_char_def)

lemma get_put_int: "get_int (put_int i) = i"
proof (cases "i < 0")
  case True
  then show ?thesis by (simp add: put_int_def get_int_def get_put_nat)
next
  case False
  obtain c cs where p: "put_nat (nat i) = c # cs" using put_nat_digits [of "nat i"] by (cases "put_nat (nat i)") auto
  with put_nat_digits [of "nat i"] have "c \<noteq> CHR ''-''" by (auto dest: digit_not_minus)
  with p False get_put_nat [of "nat i"] show ?thesis by (simp add: put_int_def get_int_def)
qed

subsection \<open>The objects\<close>

text \<open>\<open>operator<<\<close> of \<open>Handle\<close>, of \<open>Event\<close>, and of \<open>EventHandler\<close>, which \<open>StreamBuffer\<close> and \<open>StreamListener\<close> reuse.\<close>

definition put_handle :: "int \<Rightarrow> string" where
  "put_handle h = put_int h"

definition put_event :: "nat \<Rightarrow> int \<Rightarrow> string" where
  "put_event i h = ''id='' @ put_nat i @ '' handle='' @ put_handle h"

definition put_handler :: "nat \<Rightarrow> int \<Rightarrow> string" where
  "put_handler i h = ''id='' @ put_nat i @ '' handle='' @ put_handle h"

definition put_stream :: "nat \<Rightarrow> int \<Rightarrow> string" where
  "put_stream i h = put_handler i h"

definition put_listener :: "nat \<Rightarrow> int \<Rightarrow> string" where
  "put_listener i h = put_handler i h"

definition put_filter :: "nat \<Rightarrow> nat \<Rightarrow> string" where
  "put_filter i n = ''id='' @ put_nat i @ '' order='' @ put_nat n"

definition put_tcp_filter :: "nat \<Rightarrow> nat \<Rightarrow> int \<Rightarrow> string" where
  "put_tcp_filter i n h = put_filter i n @ '' handle='' @ put_handle h"

text \<open>The line of \<open>LOG_LEVEL\<close>: what the sink gets, when there is one and the level suffices.\<close>

definition log_line :: "log_sink \<Rightarrow> log_level \<Rightarrow> int \<Rightarrow> string \<Rightarrow> nat \<Rightarrow> string \<Rightarrow> string \<Rightarrow> string option" where
  "log_line sink l ms file line func msg =
     (if sink_set sink \<and> threshold sink \<le> l
      then Some (''['' @ put_int ms @ ''ms] '' @ file @ '':'' @ put_nat line @ '' '' @ func @ ''(...) - '' @ msg)
      else None)"

subsection \<open>Reading it back\<close>

text \<open>The fields of a text are the words after an equals sign.\<close>

function fields :: "string \<Rightarrow> string list" where
  "fields s =
     (case dropWhile (\<lambda>c. c \<noteq> CHR ''='') s of
        [] \<Rightarrow> []
      | _ # r \<Rightarrow> takeWhile (\<lambda>c. c \<noteq> CHR '' '') r # fields (dropWhile (\<lambda>c. c \<noteq> CHR '' '') r))"
  by pat_completeness auto

termination
proof (relation "measure length", goal_cases)
  case (2 s c r)
  have "length (dropWhile (\<lambda>c. c \<noteq> CHR '' '') r) \<le> length r" by (rule length_dropWhile_le)
  moreover have "length (c # r) \<le> length s" using 2 length_dropWhile_le [of _ s] by metis
  ultimately show ?case by simp
qed simp

declare fields.simps [simp del]

lemma drop_no: "c \<notin> set p \<Longrightarrow> dropWhile (\<lambda>x. x \<noteq> c) (p @ q) = dropWhile (\<lambda>x. x \<noteq> c) q"
  by (induction p) auto

lemma take_no: "c \<notin> set p \<Longrightarrow> takeWhile (\<lambda>x. x \<noteq> c) (p @ q) = p @ takeWhile (\<lambda>x. x \<noteq> c) q"
  by (induction p) auto

lemma fields_none: "CHR ''='' \<notin> set s \<Longrightarrow> fields s = []"
  using drop_no [of "CHR ''=''" s "[]"] by (subst fields.simps) (simp del: dropWhile_eq_Nil_conv)

lemma fields_word:
  assumes "CHR ''='' \<notin> set p" and "CHR '' '' \<notin> set w" and "r = [] \<or> hd r = CHR '' ''"
  shows "fields (p @ CHR ''='' # w @ r) = w # fields r"
proof -
  have "dropWhile (\<lambda>c. c \<noteq> CHR ''='') (p @ CHR ''='' # w @ r) = CHR ''='' # w @ r"
    using assms(1) by (simp add: drop_no)
  moreover have "takeWhile (\<lambda>c. c \<noteq> CHR '' '') (w @ r) = w \<and> dropWhile (\<lambda>c. c \<noteq> CHR '' '') (w @ r) = r"
    using assms(2,3) by (cases r) (auto simp: take_no drop_no)
  ultimately show ?thesis by (subst fields.simps) simp
qed

lemma put_nat_plain: "c \<in> set (put_nat n) \<Longrightarrow> c \<noteq> CHR ''='' \<and> c \<noteq> CHR '' ''"
  using put_nat_digits [of n] by (auto simp: list_all_iff digit_char_def)

lemma put_int_plain: "c \<in> set (put_int i) \<Longrightarrow> c \<noteq> CHR ''='' \<and> c \<noteq> CHR '' ''"
  by (auto simp: put_int_def dest: put_nat_plain split: if_splits)

lemma get_int_put_nat: "get_int (put_nat n) = int n"
  using get_put_int [of "int n"] by (simp add: put_int_def)

lemma fields_nat: "CHR ''='' \<notin> set p \<Longrightarrow> r = [] \<or> hd r = CHR '' '' \<Longrightarrow>
    fields (p @ CHR ''='' # put_nat n @ r) = put_nat n # fields r"
  by (rule fields_word) (auto dest: put_nat_plain)

lemma fields_int: "CHR ''='' \<notin> set p \<Longrightarrow> fields (p @ CHR ''='' # put_int i) = [put_int i]"
  using fields_word [of p "put_int i" "[]"] by (auto dest: put_int_plain simp: fields_none)

lemma fields_handle: "fields ('' handle='' @ put_handle h) = [put_int h]"
  using fields_int [of "'' handle''" h] by (simp add: put_handle_def)

lemma fields_id: "r = [] \<or> hd r = CHR '' '' \<Longrightarrow> fields (''id='' @ put_nat i @ r) = put_nat i # fields r"
  using fields_nat [of "''id''" r i] by simp

lemma fields_order: "r = [] \<or> hd r = CHR '' '' \<Longrightarrow> fields ('' order='' @ put_nat n @ r) = put_nat n # fields r"
  using fields_nat [of "'' order''" r n] by simp

lemma fields_put_handler: "fields (put_handler i h) = [put_nat i, put_int h]"
  using fields_id [of "'' handle='' @ put_handle h" i] by (simp add: put_handler_def fields_handle [simplified])

lemma fields_put_filter:
  assumes "r = [] \<or> hd r = CHR '' ''"
  shows "fields (put_filter i n @ r) = put_nat i # put_nat n # fields r"
  using fields_id [of "'' order='' @ put_nat n @ r" i] fields_order [OF assms, of n] by (simp add: put_filter_def)

subsection \<open>Properties\<close>

text \<open>
  C37: what is logged identifies the object.  From the text of an event, a handler, a stream buffer, a
  listener or a filter the ids, the order and the descriptor can be read back, negative descriptors
  and ids of any size included.
\<close>

theorem log_text_roundtrip:
  "map get_int (fields (put_event i h)) = [int i, h]
   \<and> map get_int (fields (put_stream i h)) = [int i, h] \<and> map get_int (fields (put_listener i h)) = [int i, h]
   \<and> map get_int (fields (put_filter i n)) = [int i, int n]
   \<and> map get_int (fields (put_tcp_filter i n h)) = [int i, int n, h]"
proof -
  have e: "put_event i h = put_handler i h" by (simp add: put_event_def put_handler_def)
  show ?thesis
    unfolding e put_stream_def put_listener_def put_tcp_filter_def fields_put_handler
    using fields_put_filter [of "[]" i n] fields_put_filter [of "'' handle='' @ put_handle h" i n] fields_handle [of h]
    by (simp add: fields_none get_put_int get_int_put_nat)
qed

end
