(* ===== verification/Event_Ids.thy ===== *)
theory Event_Ids
  imports Ael_Prelude
begin

text \<open>
  The identity of event handlers and of their events (\<open>include/event.h\<close>, \<open>lib/event.cc\<close>): a 64 bit
  counter that every constructor of \<open>EventHandler\<close> increments, and the \<open>Event\<close> that takes over the id
  and the descriptor of its handler.  The event loop keeps its events in a map by that id.
\<close>

record event_handler =
  eh_id :: "64 word"
  eh_handle :: int

record event =
  ev_id :: "64 word"
  ev_handle :: int

definition fetch_add :: "64 word \<Rightarrow> 64 word \<times> 64 word" where
  "fetch_add c = (c, c + 1)"

text \<open>\<open>EventHandler(Handle)\<close>, and \<open>EventHandler()\<close>, whose descriptor is the invalid one.\<close>

definition handler_new :: "int \<Rightarrow> 64 word \<Rightarrow> event_handler \<times> 64 word" where
  "handler_new h id_counter =
     (case fetch_add id_counter of (i, id_counter) \<Rightarrow> (\<lparr>eh_id = i, eh_handle = h\<rparr>, id_counter))"

definition handler_default :: "64 word \<Rightarrow> event_handler \<times> 64 word" where
  "handler_default id_counter = handler_new (-1) id_counter"

definition event_new :: "event_handler \<Rightarrow> event" where
  "event_new eh = \<lparr>ev_id = eh_id eh, ev_handle = eh_handle eh\<rparr>"

text \<open>A process that constructs one handler after the other; without a descriptor for \<open>None\<close>.\<close>

fun construct :: "int option list \<Rightarrow> 64 word \<Rightarrow> event_handler list \<times> 64 word" where
  "construct [] c = ([], c)"
| "construct (h # hs) c =
     (let (eh, c) = (case h of None \<Rightarrow> handler_default c | Some h \<Rightarrow> handler_new h c);
          (ehs, c) = construct hs c
      in (eh # ehs, c))"

lemma construct_simps:
  "construct (h # hs) c =
     (\<lparr>eh_id = c, eh_handle = (case h of None \<Rightarrow> -1 | Some h \<Rightarrow> h)\<rparr> # fst (construct hs (c + 1)),
      snd (construct hs (c + 1)))"
  by (simp add: handler_default_def handler_new_def fetch_add_def split: option.split prod.split)

lemma construct_length: "length (fst (construct hs c)) = length hs"
  by (induction hs arbitrary: c) (simp_all add: construct_simps del: construct.simps(2))

lemma construct_id: "k < length hs \<Longrightarrow> eh_id (fst (construct hs c) ! k) = c + of_nat k"
  by (induction hs arbitrary: c k)
     (auto simp: construct_simps nth_Cons algebra_simps split: nat.split simp del: construct.simps(2))

lemma construct_ids: "map eh_id (fst (construct hs c)) = map (\<lambda>k. c + of_nat k) [0..<length hs]"
  by (rule nth_equalityI) (simp_all add: construct_length construct_id)

lemma of_nat_word_eq: "(of_nat j :: 64 word) = of_nat k \<longleftrightarrow> j mod 2 ^ 64 = k mod 2 ^ 64"
  by (simp add: word_of_nat_eq_iff take_bit_eq_mod)

text \<open>
  C39: ids are unique until the counter wraps around.  The events of the handlers that a process has
  constructed have pairwise different ids exactly when there are at most \<open>2 ^ 64\<close> of them; the first
  handler after that has the id of the first one of all.
\<close>

theorem event_ids_distinct:
  "distinct (map (\<lambda>eh. ev_id (event_new eh)) (fst (construct hs c))) \<longleftrightarrow> length hs \<le> 2 ^ 64"
proof -
  let ?f = "\<lambda>k. c + of_nat k :: 64 word"
  have ids: "map (\<lambda>eh. ev_id (event_new eh)) (fst (construct hs c)) = map ?f [0..<length hs]"
    by (simp add: event_new_def construct_ids)
  show ?thesis
  proof (cases "length hs \<le> 2 ^ 64")
    case True
    have "inj_on ?f {0..<length hs}"
      using True by (auto simp: inj_on_def of_nat_word_eq)
    with True show ?thesis by (simp add: ids distinct_map)
  next
    case False
    have e: "?f 0 = ?f (2 ^ 64)" by (simp add: of_nat_word_eq [of 0, simplified])
    have "\<not> inj_on ?f {0..<length hs}"
    proof
      assume "inj_on ?f {0..<length hs}"
      moreover have "0 \<in> {0..<length hs}" "2 ^ 64 \<in> {0..<length hs}" using False by auto
      ultimately have "(0::nat) = 2 ^ 64" using e by (blast dest: inj_onD)
      then show False by simp
    qed
    with False show ?thesis by (simp add: ids distinct_map)
  qed
qed

end
