(* ===== verification/Handler_Law.thy ===== *)
theory Handler_Law
  imports Stream_Buffer_Close
begin

text \<open>
  Applications of a stream buffer: what a handler may rely on when it is the only one that writes and
  closes (\<open>served\<close>), and the interface through which a law of a handler (a relation between what it
  was told, what it did and its own state) carries over to every such run (locale \<open>handler_law\<close>).
\<close>

subsection \<open>Streams that only their handler uses\<close>

inductive served ::
  "'w vtable \<Rightarrow> 'h app \<Rightarrow> ('w \<Rightarrow> 'w \<Rightarrow> bool) \<Rightarrow> ('w, 'h) sbuf \<Rightarrow> ('w, 'h) sbuf \<Rightarrow> bool"
  for vt app env s0 where
  fresh: "served vt app env s0 s0"
| attached: "served vt app env s0 s \<Longrightarrow> \<not> has_event s \<Longrightarrow> served vt app env s0 (s\<lparr>has_event := True\<rparr>)"
| handled: "served vt app env s0 s \<Longrightarrow> handle_events vt app s = Some (Inr t) \<Longrightarrow> served vt app env s0 t"
| moved: "served vt app env s0 s \<Longrightarrow> env (world s) w \<Longrightarrow> served vt app env s0 (s\<lparr>world := w\<rparr>)"

lemma served_reach: "served vt app env s0 s \<Longrightarrow> sb_reach vt app env s0 s"
  by (induction rule: served.induct) (auto intro: sb_reach.intros sb_step.intros)

lemma served_moves:
  assumes "set ms \<subseteq> {M_attach, M_event}" and "served vt app env s0 s" and "run_moves vt app ms s = Some (Inr t)"
  shows "served vt app env s0 t"
  using assms
proof (induction ms arbitrary: s)
  case (Cons m ms)
  show ?case
  proof (cases "m = M_attach")
    case True
    with Cons.prems show ?thesis
      by (cases "has_event s") (auto intro: Cons.IH served.attached)
  next
    case False
    with Cons.prems(1) have "m = M_event" by simp
    with Cons.prems show ?thesis by (auto split: option.splits sum.splits intro: Cons.IH served.handled)
  qed
qed simp

subsection \<open>Laws\<close>

text \<open>What a law may speak about.\<close>

definition seen :: "('w, 'h) sbuf \<Rightarrow> obs list \<times> 'h \<times> bool \<times> bool list" where
  "seen s = (trace s, app_state s, should_close s, map connected (stream_filters s))"

text \<open>
  \<open>P\<close> holds between the events, \<open>Q\<close> while data is being read.  The client has to keep them in its
  callbacks, and when the library sets \<open>should_close_\<close> or calls the event.
\<close>

locale handler_law =
  fixes vt :: "'w vtable"
    and app :: "'h app"
    and P Q :: "('w, 'h) sbuf \<Rightarrow> bool"
  assumes same: "P s \<Longrightarrow> seen t = seen s \<Longrightarrow> P t" "Q s \<Longrightarrow> seen t = seen s \<Longrightarrow> Q t"
    and enter: "P s \<Longrightarrow> \<not> should_close s \<Longrightarrow> Q s"
    and leave: "Q s \<Longrightarrow> P s"
    and mark: "P s \<Longrightarrow> P (s\<lparr>should_close := True\<rparr>)"
    and calls: "P s \<Longrightarrow> P (close_event s)" "P s \<Longrightarrow> P (modify_event s)"
    and data: "Q s \<Longrightarrow> callback (Ob_data d) (on_data app d) s = Inr t \<Longrightarrow> Q t"
    and conn: "P s \<Longrightarrow> \<not> should_close s \<Longrightarrow> \<not> is_connected s \<Longrightarrow>
      callback Ob_connected (on_connected app) (set_filter (top_ix s) ((top_filter s)\<lparr>connected := True\<rparr>) s) = Inr t \<Longrightarrow> P t"
    and finish: "P s \<Longrightarrow> callback Ob_eof (on_eof app) s = Inr t \<Longrightarrow> P t"

lemma seen_set_filter:
  "connected f = connected (stream_filters s ! i) \<Longrightarrow> seen (set_filter i f s) = seen s"
  by (cases "i < length (stream_filters s)") (simp_all add: seen_def map_update list_update_same_conv list_update_beyond)

lemma seen_on_filter:
  assumes "on_filter i g s = Inr t"
    and "\<And>f w'. g (stream_filters s ! i) (world s) = Inr (f, w') \<Longrightarrow> connected f = connected (stream_filters s ! i)"
  shows "seen t = seen s"
proof -
  from assms(1) obtain f w where "g (stream_filters s ! i) (world s) = Inr (f, w)" "t = set_filter i f (s\<lparr>world := w\<rparr>)"
    by (auto simp: on_filter_def)
  with assms(2) seen_set_filter [of f "s\<lparr>world := w\<rparr>" i] show ?thesis by (simp add: seen_def)
qed

lemma seen_do_write: "do_write vt s = Inr t \<Longrightarrow> seen t = seen s"
proof (erule do_write_elim)
  fix f w
  assume f: "filter_write vt (top_ix s) (pending_writes s) (top_filter s) (world s) = Inr (f, w)"
    and t: "t = set_filter (top_ix s) f (s\<lparr>pending_writes := [], world := w\<rparr>)"
  from seen_set_filter [of f "s\<lparr>pending_writes := [], world := w\<rparr>" "top_ix s"] filter_write_connected [OF f] t
  show ?thesis by (simp add: seen_def)
qed simp_all

lemma seen_close_down: "close_down vt n s = Inr t \<Longrightarrow> seen t = seen s"
proof (induction n arbitrary: s)
  case (Suc i)
  then obtain u where u: "(if \<not> filter_closed (stream_filters s ! i)
       then on_filter i (filter_close vt i) s else Inr s) = Inr u"
    and t: "(if \<not> filter_closed (stream_filters u ! i) then Inr u else close_down vt i u) = Inr t"
    by auto
  have "seen u = seen s" using u by (auto split: if_splits intro: seen_on_filter dest: filter_close_connected)
  with t Suc.IH show ?case by (auto split: if_splits)
qed simp

lemma seen_do_close: "do_close vt s = Inr t \<Longrightarrow> seen t = seen s"
  by (auto simp: do_close_def Let_def dest!: seen_do_write seen_close_down split: if_splits)

lemma seen_filter_in: "filter_in vt i s = Inr (r, t) \<Longrightarrow> seen t = seen s"
  by (auto simp: filter_in_def seen_def)

context handler_law begin

lemma law_data: "Q s \<Longrightarrow> handle_data app d s = Inr t \<Longrightarrow> Q t"
  using data [of s d t] by (auto simp: handle_data_def split: if_splits)

lemma law_read:
  assumes "P s" and "\<not> should_close s" and "do_read vt app s = Some (Inr t)"
  shows "P t"
  using assms(3)
proof (cases rule: do_read_elim)
  case closed
  with assms(1) show ?thesis by simp
next
  case (read c u)
  have "Q u"
  proof (rule read_loop_rule [OF read(2), where P = Q and Q = "\<lambda>_. Q"])
    show "Q s" using enter [OF assms(1,2)] .
  next
    fix v r v1 assume "Q v" "filter_in vt (top_ix s) v = Inr (r, v1)"
    then show "Q v1" using same(2) seen_filter_in by blast
  next
    fix v r v1 v2 assume "Q v" "filter_in vt (top_ix s) v = Inr (r, v1)" "handle_data app (opt_bytes (in_data r)) v1 = Inr v2"
    then show "Q v2" using same(2) seen_filter_in law_data by blast
  qed
  then have "P u" by (rule leave)
  have "seen t = seen u" using read(3) seen_set_filter [of _ u] by simp
  with \<open>P u\<close> show ?thesis by (rule same(1))
qed

lemma law_connect:
  assumes "P s" and "\<not> should_close s" and "\<not> is_connected s" and "do_connect vt app s = Inr t"
  shows "P t"
  using assms(4)
proof (cases rule: do_connect_elim)
  case (pending w)
  with assms(1) show ?thesis by (auto intro: same(1) simp: seen_def)
next
  case (failed w)
  let ?f = "(top_filter s)\<lparr>read_closed := True, write_closed := True\<rparr>"
  have "seen t = seen s"
    using failed seen_set_filter [of ?f "s\<lparr>world := w\<rparr>" "top_ix s"] by (simp add: seen_def)
  with assms(1) show ?thesis by (rule same(1))
next
  case (success w v)
  let ?s = "s\<lparr>world := w, add_filter_allowed := True\<rparr>"
  have s: "P ?s" "\<not> should_close ?s" "\<not> is_connected ?s"
    using assms same(1) [of s ?s] by (simp_all add: seen_def is_connected_def top_ix_def)
  from conn [OF s, of v] success(1) have "P v" by (simp add: top_ix_def)
  then have "P (v\<lparr>add_filter_allowed := False\<rparr>)" by (rule same(1)) (simp add: seen_def)
  with success(2) calls(2) show ?thesis by simp
qed

lemma law_finalize:
  assumes "P s" and "do_finalize vt app s = Inr t"
  shows "P t"
  using assms(2)
proof (cases rule: do_finalize_elim)
  case (1 u)
  have u: "P u"
    using 1(1) assms(1) mark [OF assms(1)] same(1) [OF _ seen_do_close] by (auto split: if_splits)
  show ?thesis
  proof (cases "is_read_closed u \<and> is_write_closed u \<and> \<not> eof_called u")
    case True
    with 1(2) obtain v where v: "callback Ob_eof (on_eof app) (u\<lparr>eof_called := True\<rparr>) = Inr v" "t = close_event v"
      by auto
    have "P (u\<lparr>eof_called := True\<rparr>)" by (rule same(1) [OF u]) (simp add: seen_def)
    from finish [OF this v(1)] v(2) calls(1) show ?thesis by simp
  next
    case False
    with 1(2) u show ?thesis by auto
  qed
qed

lemma law_handled:
  assumes "P s" and "handle_events vt app s = Some (Inr t)"
  shows "P t"
  using assms(2)
proof (cases rule: handle_events_elim)
  case dead
  with assms(1) calls(1) show ?thesis by simp
next
  case (closing u)
  from law_finalize [OF same(1) [OF assms(1) seen_do_close [OF closing(3)]] closing(4)] show ?thesis .
next
  case (connecting u)
  from law_finalize [OF law_connect [OF assms(1) connecting(2-4)] connecting(5)] show ?thesis .
next
  case (open_io u v)
  from law_finalize [OF same(1) [OF law_read [OF assms(1) open_io(2,4)] seen_do_write [OF open_io(5)]] open_io(6)]
  show ?thesis .
qed

lemma law_served: "served vt app env s0 s \<Longrightarrow> P s0 \<Longrightarrow> P s"
  by (induction rule: served.induct) (auto intro: law_handled same(1) simp: seen_def)

end

end
