(* ===== verification/Ping_Pong.thy ===== *)
theory Ping_Pong
  imports Handler_Law
begin

text \<open>
  The ping-pong sample (\<open>samples/ping_pong/ping_client.cc\<close>, \<open>samples/ping_pong/ping_server.cc\<close>): the
  handlers of the client and of the server as applications of a stream buffer, the server with all
  its connections, and the two ends of one TCP connection together.
\<close>

subsection \<open>Strings as bytes\<close>

definition bytes_of :: "string \<Rightarrow> bytes" where
  "bytes_of s = map of_char s"

text \<open>\<open>std::string::find\<close> of a needle is not \<open>npos\<close>.\<close>

fun contains :: "bytes \<Rightarrow> bytes \<Rightarrow> bool" where
  "contains n [] \<longleftrightarrow> n = []"
| "contains n (x # xs) \<longleftrightarrow> prefix n (x # xs) \<or> contains n xs"

lemma contains_iff: "contains n xs \<longleftrightarrow> sublist n xs"
  by (induction n xs rule: contains.induct) (auto simp: sublist_Cons_right)

abbreviation ping :: bytes where "ping \<equiv> bytes_of ''ping''"
abbreviation pong :: bytes where "pong \<equiv> bytes_of ''pong''"

lemma ping_bytes: "ping = [112, 105, 110, 103]" "pong = [112, 111, 110, 103]"
  by (simp_all add: bytes_of_def)

subsection \<open>The client\<close>

text \<open>
  The lines printed, and how often the promise was set (a second \<open>set_value\<close> would throw).
\<close>

record ping_client =
  printed :: "string list"
  done_promise :: nat

definition client_data :: "bytes \<Rightarrow> ping_client \<Rightarrow> action list \<times> ping_client" where
  "client_data data c =
     (if contains pong data
      then ([Act_close], c\<lparr>printed := printed c @ [''pong received, closing connection'']\<rparr>)
      else ([], c))"

definition client_connected :: "ping_client \<Rightarrow> action list \<times> ping_client" where
  "client_connected c = ([Act_write ping], c\<lparr>printed := printed c @ [''connected, sending ping'']\<rparr>)"

definition client_eof :: "ping_client \<Rightarrow> action list \<times> ping_client" where
  "client_eof c = ([], c\<lparr>printed := printed c @ [''connection closed''], done_promise := done_promise c + 1\<rparr>)"

definition client_app :: "ping_client app" where
  "client_app = \<lparr>on_data = client_data, on_connected = client_connected, on_eof = client_eof\<rparr>"

text \<open>
  The client's \<open>main\<close>, up to the moment it waits for the promise: the stream buffer on the handle of
  the connecting factory, attached; then the loop thread has it.
\<close>

definition client_main :: "fd \<times> bool \<Rightarrow> 'k \<Rightarrow> exn + ('k tcp, ping_client) sbuf" where
  "client_main hc k =
     bindE (create_for_client_addr True hc k \<lparr>printed = [''ping client started''], done_promise = 0\<rparr>)
       (\<lambda>s. Inr (s\<lparr>has_event := True\<rparr>))"

subsection \<open>The server\<close>

text \<open>
  Of one connection: the lines printed for it, and whether \<open>streams_buffers_\<close> has it.
\<close>

record ping_conn =
  said :: "string list"
  kept :: bool

definition server_data :: "bytes \<Rightarrow> ping_conn \<Rightarrow> action list \<times> ping_conn" where
  "server_data data c = (if contains ping data then ([Act_write pong], c) else ([], c))"

definition server_connected :: "ping_conn \<Rightarrow> action list \<times> ping_conn" where
  "server_connected c = ([], c)"

definition server_eof :: "ping_conn \<Rightarrow> action list \<times> ping_conn" where
  "server_eof c = ([], c\<lparr>said := said c @ [''connection closed''], kept := False\<rparr>)"

definition server_app :: "ping_conn app" where
  "server_app = \<lparr>on_data = server_data, on_connected = server_connected, on_eof = server_eof\<rparr>"

text \<open>\<open>HandleNewConnection\<close>: the stream buffer on the accepted handle, kept and attached.\<close>

definition new_conn :: "fd \<Rightarrow> 'k \<Rightarrow> exn + ('k tcp, ping_conn) sbuf" where
  "new_conn h k =
     bindE (create_for_server True h k \<lparr>said = [''new connection''], kept = False\<rparr>)
       (\<lambda>s. Inr (s\<lparr>app_state := (app_state s)\<lparr>kept := True\<rparr>, has_event := True\<rparr>))"

text \<open>The server's connections, and what can happen to them; \<open>streams_buffers_\<close> is a set.\<close>

type_synonym 'k conns = "nat \<Rightarrow> ('k tcp, ping_conn) sbuf option"

inductive server_step :: "'k tcp vtable \<Rightarrow> ('k tcp \<Rightarrow> 'k tcp \<Rightarrow> bool) \<Rightarrow> 'k conns \<Rightarrow> 'k conns \<Rightarrow> bool" for vt env where
  accept: "c i = None \<Longrightarrow> new_conn h k = Inr s \<Longrightarrow> server_step vt env c (c(i \<mapsto> s))"
| event: "c i = Some s \<Longrightarrow> handle_events vt server_app s = Some (Inr t) \<Longrightarrow> server_step vt env c (c(i \<mapsto> t))"
| outside: "c i = Some s \<Longrightarrow> env (world s) w \<Longrightarrow> server_step vt env c (c(i \<mapsto> s\<lparr>world := w\<rparr>))"

inductive server_reach :: "'k tcp vtable \<Rightarrow> ('k tcp \<Rightarrow> 'k tcp \<Rightarrow> bool) \<Rightarrow> 'k conns \<Rightarrow> bool" for vt env where
  started: "server_reach vt env Map.empty"
| stepped: "server_reach vt env c \<Longrightarrow> server_step vt env c c' \<Longrightarrow> server_reach vt env c'"

definition streams_buffers :: "'k conns \<Rightarrow> nat set" where
  "streams_buffers c = {i. \<exists>s. c i = Some s \<and> kept (app_state s)}"

subsection \<open>What the handlers were told and did\<close>

fun chunks :: "obs list \<Rightarrow> bytes list" where
  "chunks [] = []"
| "chunks (Ob_data d # xs) = d # chunks xs"
| "chunks (_ # xs) = chunks xs"

fun views :: "obs list \<Rightarrow> bytes list" where
  "views [] = []"
| "views (Ob_queued d # xs) = d # views xs"
| "views (_ # xs) = views xs"

lemma chunks_append [simp]: "chunks (xs @ ys) = chunks xs @ chunks ys"
  by (induction xs rule: chunks.induct) simp_all

lemma views_append [simp]: "views (xs @ ys) = views xs @ views ys"
  by (induction xs rule: views.induct) simp_all

lemma concat_chunks: "concat (chunks xs) = delivered_bytes xs"
  by (induction xs rule: chunks.induct) simp_all

lemma concat_views: "concat (views xs) = queued_bytes xs"
  by (induction xs rule: views.induct) simp_all

text \<open>
  The client has sent one ping exactly when it was connected, has set its promise as often as it saw
  EOF, and asked to close only after a chunk with pong in it.
\<close>

definition client_law :: "('w, ping_client) sbuf \<Rightarrow> bool" where
  "client_law s \<longleftrightarrow>
     map connected (stream_filters s) = [Ob_connected \<in> set (trace s)]
   \<and> views (trace s) = (if Ob_connected \<in> set (trace s) then [ping] else [])
   \<and> done_promise (app_state s) = count_list (trace s) Ob_eof
   \<and> (if list_ex (contains pong) (chunks (trace s)) then should_close s else Ob_ready Ev_Close \<notin> set (trace s))"

text \<open>The server has answered every chunk with ping in it, never closes, and keeps the stream until EOF.\<close>

definition server_law :: "('w, ping_conn) sbuf \<Rightarrow> bool" where
  "server_law s \<longleftrightarrow>
     length (stream_filters s) = 1
   \<and> views (trace s) = map (\<lambda>_. pong) (List.filter (contains ping) (chunks (trace s)))
   \<and> Ob_ready Ev_Close \<notin> set (trace s)
   \<and> (kept (app_state s) \<longleftrightarrow> Ob_eof \<notin> set (trace s))"

lemma mask_neq: "Ev_Write \<noteq> Ev_Close" "Ev_Close \<noteq> Ev_Write"
  by (simp_all add: ev_defs)

lemmas law_simps =
  callback_def client_app_def client_data_def client_connected_def client_eof_def
  server_app_def server_data_def server_connected_def server_eof_def
  sb_write_def sb_close_def ready_event_def close_event_def modify_event_def emit_def set_filter_def Let_def mask_neq

interpretation client: handler_law vt client_app client_law client_law for vt :: "'w vtable"
proof unfold_locales
  fix s t :: "('w, ping_client) sbuf" and d
  assume "client_law s" "callback (Ob_data d) (on_data client_app d) s = Inr t"
  then show "client_law t"
    by (auto simp: client_law_def law_simps ping_bytes(1) split: if_splits)
next
  fix s t :: "('w, ping_client) sbuf"
  assume "client_law s" "\<not> should_close s" "\<not> is_connected s"
    "callback Ob_connected (on_connected client_app) (set_filter (top_ix s) ((top_filter s)\<lparr>connected := True\<rparr>) s) = Inr t"
  then show "client_law t"
    by (auto simp: client_law_def law_simps is_connected_def top_ix_def ping_bytes(1) map_eq_Cons_conv split: if_splits)
qed (auto simp: client_law_def seen_def law_simps split: if_splits)

interpretation server: handler_law vt server_app server_law "\<lambda>s. server_law s \<and> \<not> should_close s" for vt :: "'w vtable"
proof unfold_locales
  fix s t :: "('w, ping_conn) sbuf"
  assume "server_law s" "seen t = seen s"
  then show "server_law t" by (auto simp: server_law_def seen_def dest: map_eq_imp_length_eq)
qed (auto simp: server_law_def seen_def law_simps ping_bytes(2) dest: map_eq_imp_length_eq split: if_splits)

subsection \<open>Runs of the two ends\<close>

text \<open>TCP between the two ends: what one end was given is a prefix of what the other one sent.\<close>

definition tcp_pair ::
  "('k, 'y) socket_calls_scheme \<Rightarrow> 'k tcp \<Rightarrow> ('l, 'z) socket_calls_scheme \<Rightarrow> 'l tcp \<Rightarrow> bool" where
  "tcp_pair K v L w \<longleftrightarrow>
     prefix (tcp_received L w) (tcp_sent K v) \<and> prefix (tcp_received K v) (tcp_sent L w)"

definition unused :: "('k, 'z) socket_calls_scheme \<Rightarrow> 'k \<Rightarrow> bool" where
  "unused K k \<longleftrightarrow> obs_sent K k = [] \<and> obs_received K k = []"

lemma end_io:
  assumes "socket_ok K" and "silent_env K env" and "sb_create True m w h = Inr s0" and "unused K (kernel w)"
    and "sb_reach (stack_vt sink K up) app env s0 s" and "length (stream_filters s) = 1"
  shows "prefix (tcp_sent K (world s)) (concat (views (trace s)))"
    and "tcp_received K (world s) = concat (chunks (trace s))"
proof -
  from assms(4) have z: "tcp_sent K w = []" "tcp_received K w = []" by (simp_all add: unused_def tcp_sent_def tcp_received_def)
  from stream_output_fifo [OF assms(1-3,5,6)] z show "prefix (tcp_sent K (world s)) (concat (views (trace s)))"
    by (auto simp: concat_views prefix_def eq_commute [of _ "queued s"])
  from stream_input_intact [OF assms(1-3,5,6)] z show "tcp_received K (world s) = concat (chunks (trace s))"
    by (simp add: concat_chunks)
qed

lemma client_main_start:
  assumes "client_main hc k = Inr c"
  obtains s where "sb_create True CLIENT_MODE \<lparr>tcp_handle = fst hc, pending_connect = snd hc, kernel = k\<rparr>
      \<lparr>printed = [''ping client started''], done_promise = 0\<rparr> = Inr s" "\<not> has_event s" "c = s\<lparr>has_event := True\<rparr>" "client_law c"
proof -
  obtain s where s: "sb_create True CLIENT_MODE \<lparr>tcp_handle = fst hc, pending_connect = snd hc, kernel = k\<rparr>
      \<lparr>printed = [''ping client started''], done_promise = 0\<rparr> = Inr s"
    by (simp add: sb_create_def sb_add_filter_def sb_new_def)
  with assms have c: "c = s\<lparr>has_event := True\<rparr>"
    by (simp add: client_main_def create_for_client_addr_def split: prod.splits)
  show thesis
    by (rule that [OF s _ c]) (use sb_create_start [OF s] in \<open>simp_all add: c client_law_def new_filter_def\<close>)
qed

lemma new_conn_start:
  assumes "new_conn h k = Inr c"
  obtains s where "sb_create True SERVER_MODE \<lparr>tcp_handle = h, pending_connect = True, kernel = k\<rparr>
      \<lparr>said = [''new connection''], kept = True\<rparr> = Inr s" "\<not> has_event s" "c = s\<lparr>has_event := True\<rparr>" "server_law c"
proof -
  let ?w = "\<lparr>tcp_handle = h, pending_connect = True, kernel = k\<rparr>"
  obtain a where a: "sb_create True SERVER_MODE ?w \<lparr>said = [''new connection''], kept = False\<rparr> = Inr a"
    by (simp add: sb_create_def sb_add_filter_def sb_new_def)
  obtain s where s: "sb_create True SERVER_MODE ?w \<lparr>said = [''new connection''], kept = True\<rparr> = Inr s"
    by (simp add: sb_create_def sb_add_filter_def sb_new_def)
  from assms a have c: "c = a\<lparr>app_state := (app_state a)\<lparr>kept := True\<rparr>, has_event := True\<rparr>"
    by (simp add: new_conn_def create_for_server_def)
  show thesis
    by (rule that [OF s]) (use sb_create_start [OF a] sb_create_start [OF s] in \<open>simp_all add: c server_law_def\<close>)
qed

lemma attach_reach:
  assumes "\<not> has_event s" and "served vt app env (s\<lparr>has_event := True\<rparr>) t"
  shows "sb_reach vt app env s t"
  by (rule sb_reach_trans [OF sb_reach.move [OF sb_reach.start sb_step.attach] served_reach]) (use assms in simp_all)

lemma client_end:
  assumes "socket_ok K" and "silent_env K env" and "client_main hc k = Inr c0" and "unused K k"
    and "served (stack_vt sink K up) client_app env c0 c"
  shows "client_law c" and "prefix (tcp_sent K (world c)) (concat (views (trace c)))"
    and "tcp_received K (world c) = concat (chunks (trace c))" and "count_list (trace c) Ob_eof = (if eof_called c then 1 else 0)"
proof -
  obtain s where s: "sb_create True CLIENT_MODE \<lparr>tcp_handle = fst hc, pending_connect = snd hc, kernel = k\<rparr>
      \<lparr>printed = [''ping client started''], done_promise = 0\<rparr> = Inr s" "\<not> has_event s" "c0 = s\<lparr>has_event := True\<rparr>" "client_law c0"
    using client_main_start [OF assms(3)] by blast
  show l: "client_law c" by (rule client.law_served [OF assms(5) s(4)])
  then have one: "length (stream_filters c) = 1" by (auto simp: client_law_def dest: map_eq_imp_length_eq)
  have r: "sb_reach (stack_vt sink K up) client_app env s c" by (rule attach_reach [OF s(2)]) (use assms(5) s(3) in simp)
  note io = end_io [OF assms(1,2) s(1) _ r one]
  show "prefix (tcp_sent K (world c)) (concat (views (trace c)))" "tcp_received K (world c) = concat (chunks (trace c))"
    using io assms(4) by simp_all
  show "count_list (trace c) Ob_eof = (if eof_called c then 1 else 0)"
    using stream_end_closed [OF s(1) r] by simp
qed

lemma server_end:
  assumes "socket_ok K" and "silent_env K env" and "new_conn h k = Inr c0" and "unused K k"
    and "served (stack_vt sink K up) server_app env c0 c"
  shows "server_law c" and "prefix (tcp_sent K (world c)) (concat (views (trace c)))"
    and "tcp_received K (world c) = concat (chunks (trace c))"
proof -
  obtain s where s: "sb_create True SERVER_MODE \<lparr>tcp_handle = h, pending_connect = True, kernel = k\<rparr>
      \<lparr>said = [''new connection''], kept = True\<rparr> = Inr s" "\<not> has_event s" "c0 = s\<lparr>has_event := True\<rparr>" "server_law c0"
    using new_conn_start [OF assms(3)] by blast
  show l: "server_law c" by (rule server.law_served [OF assms(5) s(4)])
  then have one: "length (stream_filters c) = 1" by (simp add: server_law_def)
  have r: "sb_reach (stack_vt sink K up) server_app env s c" by (rule attach_reach [OF s(2)]) (use assms(5) s(3) in simp)
  note io = end_io [OF assms(1,2) s(1) _ r one]
  show "prefix (tcp_sent K (world c)) (concat (views (trace c)))" "tcp_received K (world c) = concat (chunks (trace c))"
    using io assms(4) by simp_all
qed

text \<open>A word that fits once into a stream of its own length is in one chunk of it at most.\<close>

lemma filter_contains_nil: "length (concat ds) < length w \<Longrightarrow> List.filter (contains w) ds = []"
  by (induction ds) (auto simp: contains_iff dest!: sublist_length_le)

lemma one_chunk:
  assumes "prefix (concat ds) w" and "w \<noteq> []"
  shows "List.filter (contains w) ds = (if list_ex (contains w) ds then [w] else []) \<and> (list_ex (contains w) ds \<longrightarrow> concat ds = w)"
  using assms(1)
proof (induction ds)
  case (Cons d ds)
  have len: "length d + length (concat ds) \<le> length w" using Cons.prems by (auto dest: prefix_length_le)
  show ?case
  proof (cases "contains w d")
    case True
    then have "length w \<le> length d" by (auto simp: contains_iff dest: sublist_length_le)
    with len have "length d = length w" and z: "length (concat ds) = 0" by linarith+
    with True have d: "d = w" by (auto simp: contains_iff sublist_def)
    from z have r: "concat ds = []" by (simp only: length_0_conv)
    have "List.filter (contains w) ds = []" by (rule filter_contains_nil) (use assms(2) in \<open>simp only: z length_greater_0_conv not_False_eq_True\<close>)
    with True d r show ?thesis by simp
  next
    case False
    show ?thesis
    proof (cases "list_ex (contains w) ds")
      case True
      then obtain e where "e \<in> set ds" "sublist w e" by (auto simp: list_ex_iff contains_iff)
      then have "length w \<le> length (concat ds)"
        using member_le_sum_list [of "length e" "map length ds"] sublist_length_le [of w e] by (simp add: length_concat)
      with len have "length d = 0" by linarith
      then have "d = []" by (simp only: length_0_conv)
      with Cons False show ?thesis by simp
    next
      case none: False
      with False show ?thesis by (auto simp: list_ex_iff filter_empty_conv)
    qed
  qed
qed simp

subsection \<open>Runs that compute\<close>

definition client_start :: "script \<Rightarrow> (script tcp, ping_client) sbuf" where
  "client_start k = projr (client_main (7, True) k)"

definition conn_start :: "script \<Rightarrow> (script tcp, ping_conn) sbuf" where
  "conn_start k = projr (new_conn 8 k)"

lemma starts: "client_main (7, True) k = Inr (client_start k)" "new_conn 8 k = Inr (conn_start k)"
  by (simp_all add: client_start_def conn_start_def client_main_def create_for_client_addr_def new_conn_def create_for_server_def
      sb_create_def sb_add_filter_def sb_new_def)

definition client_run :: "nat \<Rightarrow> (errno + bytes) list \<Rightarrow> (script tcp, ping_client) sbuf" where
  "client_run n rs = projr (the (run_moves tcp_only client_app (replicate n M_event) (client_start (script_start rs [Inr 4]))))"

definition conn_run :: "nat \<Rightarrow> (errno + bytes) list \<Rightarrow> (script tcp, ping_conn) sbuf" where
  "conn_run n rs = projr (the (run_moves tcp_only server_app (replicate n M_event) (conn_start (script_start rs [Inr 4]))))"

lemmas ping_eval =
  ping_bytes stream_eval tcp_only_def new_filter_def sb_new_def sb_create_def create_for_client_addr_def create_for_server_def
  client_start_def conn_start_def client_main_def new_conn_def client_app_def client_data_def client_connected_def
  client_eof_def server_app_def server_data_def server_connected_def server_eof_def replicate_unfold

abbreviation pong_input :: "(errno + bytes) list" where
  "pong_input \<equiv> [Inl EAGAIN, Inr [112, 111, 110, 103], Inl EAGAIN]"

abbreviation split_input :: "(errno + bytes) list" where
  "split_input \<equiv> [Inl EAGAIN, Inr [112, 111], Inr [110, 103], Inl EAGAIN]"

abbreviation ping_input :: "(errno + bytes) list" where
  "ping_input \<equiv> [Inr [112, 105, 110, 103], Inl EAGAIN, Inr []]"

lemma client_run_value:
  "run_moves tcp_only client_app (replicate 4 M_event) (client_start (script_start pong_input [Inr 4])) = Some (Inr (client_run 4 pong_input))
   \<and> trace (client_run 4 pong_input) = [Ob_connected, Ob_queued ping, Ob_ready Ev_Write, Ob_modify_event, Ob_data pong, Ob_ready Ev_Close,
        Ob_eof, Ob_close_event]
   \<and> sc_taken (kernel (world (client_run 4 pong_input))) = ping \<and> sc_handed (kernel (world (client_run 4 pong_input))) = pong
   \<and> done_promise (app_state (client_run 4 pong_input)) = 1"
  unfolding client_run_def by (simp add: ping_eval)

lemma split_run_value:
  "run_moves tcp_only client_app (replicate 3 M_event) (client_start (script_start split_input [Inr 4])) = Some (Inr (client_run 3 split_input))
   \<and> delivered_bytes (trace (client_run 3 split_input)) = pong \<and> chunks (trace (client_run 3 split_input)) = [[112, 111], [110, 103]]"
  unfolding client_run_def by (simp add: ping_eval)

lemma conn_run_value:
  "run_moves tcp_only server_app (replicate 3 M_event) (conn_start (script_start ping_input [Inr 4])) = Some (Inr (conn_run 3 ping_input))
   \<and> trace (conn_run 3 ping_input) = [Ob_connected, Ob_modify_event, Ob_data ping, Ob_queued pong, Ob_ready Ev_Write, Ob_eof, Ob_close_event]
   \<and> sc_taken (kernel (world (conn_run 3 ping_input))) = pong \<and> sc_handed (kernel (world (conn_run 3 ping_input))) = ping
   \<and> \<not> kept (app_state (conn_run 3 ping_input))"
  unfolding conn_run_def by (simp add: ping_eval)

lemma events_served: "run_moves vt app (replicate n M_event) s = Some (Inr t) \<Longrightarrow> served vt app env s t"
  by (rule served_moves [OF _ served.fresh]) auto

lemma runs_served:
  "served tcp_only client_app env (client_start (script_start pong_input [Inr 4])) (client_run 4 pong_input)"
  "served tcp_only client_app env (client_start (script_start split_input [Inr 4])) (client_run 3 split_input)"
  "served tcp_only server_app env (conn_start (script_start ping_input [Inr 4])) (conn_run 3 ping_input)"
  using events_served client_run_value split_run_value conn_run_value by blast+

lemma script_unused: "unused scripted (script_start rs ss)"
  by (simp add: unused_def scripted_def script_start_def)

subsection \<open>Properties\<close>

text \<open>
  C17: the exchange.  In every state of the two ends of a TCP connection, between any kernels that keep
  their promises: the client has written nothing or one ping; the server answers with one pong at most,
  and only when it has been given all of the ping; what each end was given is a prefix of its word;
  the client that sees pong has been given all of it, and then the server got all of the ping.
\<close>

theorem ping_pong_exchange:
  assumes "socket_ok K" and "silent_env K env" and "client_main hc k = Inr c0" and "unused K k"
    and "served (stack_vt sink K up) client_app env c0 c"
    and "socket_ok L" and "silent_env L env'" and "new_conn h l = Inr s0" and "unused L l"
    and "served (stack_vt sink' L up') server_app env' s0 s"
    and "tcp_pair K (world c) L (world s)"
  shows "views (trace c) \<in> {[], [ping]}
    \<and> prefix (concat (chunks (trace s))) ping
    \<and> (views (trace s) = [] \<or> views (trace s) = [pong] \<and> concat (chunks (trace s)) = ping)
    \<and> prefix (concat (chunks (trace c))) pong
    \<and> (list_ex (contains pong) (chunks (trace c)) \<longrightarrow>
        concat (chunks (trace c)) = pong \<and> concat (chunks (trace s)) = ping)"
proof -
  note c = client_end [OF assms(1-5)] and s = server_end [OF assms(6-10)]
  from assms(11) c(2,3) s(2,3) have
    p: "prefix (concat (chunks (trace s))) (concat (views (trace c)))"
       "prefix (concat (chunks (trace c))) (concat (views (trace s)))"
    by (auto simp: tcp_pair_def intro: prefix_order.trans)
  have cv: "views (trace c) \<in> {[], [ping]}" using c(1) by (simp add: client_law_def)
  have d: "prefix (concat (chunks (trace s))) ping" by (rule prefix_order.trans [OF p(1)]) (use cv in auto)
  have ne: "ping \<noteq> []" "pong \<noteq> []" by (simp_all add: ping_bytes)
  have sv: "views (trace s) = [] \<or> views (trace s) = [pong] \<and> concat (chunks (trace s)) = ping"
    using s(1) one_chunk [OF d ne(1)] by (auto simp: server_law_def)
  have e: "prefix (concat (chunks (trace c))) pong" by (rule prefix_order.trans [OF p(2)]) (use sv in auto)
  have "concat (chunks (trace c)) = pong \<and> concat (chunks (trace s)) = ping" if "list_ex (contains pong) (chunks (trace c))"
  proof -
    have "concat (chunks (trace c)) = pong" using one_chunk [OF e ne(2)] that by blast
    with p(2) sv ne(2) show ?thesis by auto
  qed
  with cv d sv e show ?thesis by blast
qed

theorem ping_pong_exchange_witness:
  "concat (chunks (trace (client_run 4 pong_input))) = pong \<and> concat (chunks (trace (conn_run 3 ping_input))) = ping"
proof -
  have "tcp_pair scripted (world (client_run 4 pong_input)) scripted (world (conn_run 3 ping_input))"
    using client_run_value conn_run_value by (simp add: tcp_pair_def tcp_sent_def tcp_received_def scripted_def)
  moreover have "list_ex (contains pong) (chunks (trace (client_run 4 pong_input)))"
    using client_run_value by (simp add: contains_iff)
  ultimately show ?thesis
    using ping_pong_exchange [OF scripted_ok silent_nothing starts(1) script_unused runs_served(1) [unfolded tcp_only_def]
        scripted_ok silent_nothing starts(2) script_unused runs_served(3) [unfolded tcp_only_def]] by blast
qed

text \<open>
  The client's promise.  Whatever the kernel does, the client's promise is set once at most, so that
  \<open>set_value\<close> never throws, and it is set exactly when the stream has ended.
\<close>

lemma client_promise_once:
  assumes "socket_ok K" and "silent_env K env" and "client_main hc k = Inr c0" and "unused K k"
    and "served (stack_vt sink K up) client_app env c0 c"
  shows "done_promise (app_state c) = (if eof_called c then 1 else 0)"
  using client_end(1,4) [OF assms] by (simp add: client_law_def)

lemma client_promise_once_witness:
  "done_promise (app_state (client_run 4 pong_input)) = 1 \<and> eof_called (client_run 4 pong_input)"
proof -
  have "done_promise (app_state (client_run 4 pong_input)) = 1" using client_run_value by blast
  with client_promise_once [OF scripted_ok silent_nothing starts(1) script_unused runs_served(1) [unfolded tcp_only_def]]
  show ?thesis by (cases "eof_called (client_run 4 pong_input)") auto
qed

text \<open>
  A pong in pieces.  A client that gets pong in several chunks, none of which has all of it, never
  asks to close, although it was given everything it waits for; this happens.
\<close>

lemma split_pong_ignored:
  assumes "client_main hc k = Inr c0" and "served vt client_app env c0 c"
    and "\<forall>d \<in> set (chunks (trace c)). \<not> contains pong d"
  shows "Ob_ready Ev_Close \<notin> set (trace c)"
proof -
  have "client_law c" by (rule client_main_start [OF assms(1)]) (rule client.law_served [OF assms(2)])
  with assms(3) show ?thesis by (auto simp: client_law_def list_ex_iff split: if_splits)
qed

lemma split_pong_ignored_witness:
  "delivered_bytes (trace (client_run 3 split_input)) = pong \<and> Ob_ready Ev_Close \<notin> set (trace (client_run 3 split_input))"
  using split_pong_ignored [OF starts(1) runs_served(2)] split_run_value by (simp add: ping_bytes)

lemma server_reach_conn:
  assumes "server_reach vt env c" and "c i = Some s"
  shows "\<exists>h k s0. new_conn h k = Inr s0 \<and> served vt server_app env s0 s"
  using assms
proof (induction arbitrary: i s rule: server_reach.induct)
  case (stepped c c')
  from stepped(2) show ?case
  proof cases
    case (accept j h k t)
    with stepped.IH stepped.prems show ?thesis by (cases "i = j") (auto intro: served.fresh)
  next
    case (event j u t)
    with stepped.IH stepped.prems show ?thesis by (cases "i = j") (auto intro: served.handled dest!: stepped.IH)
  next
    case (outside j u w)
    with stepped.IH stepped.prems show ?thesis by (cases "i = j") (auto intro: served.moved dest!: stepped.IH)
  qed
qed simp

text \<open>
  C27: the server's connections.  In every state of the server, for any number of connections accepted in
  any order: a connection is in \<open>streams_buffers_\<close>, which keeps it alive, exactly until its EOF was
  reported, and it has answered every chunk with ping in it with one pong.
\<close>

theorem server_keeps_open:
  assumes "server_reach vt env c"
  shows "streams_buffers c = {i. \<exists>s. c i = Some s \<and> \<not> eof_called s}
    \<and> (\<forall>i s. c i = Some s \<longrightarrow> views (trace s) = map (\<lambda>_. pong) (List.filter (contains ping) (chunks (trace s))))"
proof -
  have "server_law s \<and> (Ob_eof \<in> set (trace s) \<longleftrightarrow> eof_called s)" if c: "c i = Some s" for i s
  proof -
    from server_reach_conn [OF assms c] obtain h k s0 where s0: "new_conn h k = Inr s0" "served vt server_app env s0 s" by blast
    obtain u where u: "sb_create True SERVER_MODE \<lparr>tcp_handle = h, pending_connect = True, kernel = k\<rparr>
        \<lparr>said = [''new connection''], kept = True\<rparr> = Inr u" "\<not> has_event u" "s0 = u\<lparr>has_event := True\<rparr>" "server_law s0"
      using new_conn_start [OF s0(1)] by blast
    have "sb_reach vt server_app env u s" by (rule attach_reach [OF u(2)]) (use s0(2) u(3) in simp)
    from stream_end_closed [OF u(1) this] have "count_list (trace s) Ob_eof = (if eof_called s then 1 else 0)" by blast
    then have "Ob_eof \<in> set (trace s) \<longleftrightarrow> eof_called s"
      using count_list_0_iff [of "trace s" Ob_eof] by (cases "eof_called s") auto
    with server.law_served [OF s0(2) u(4)] show ?thesis by blast
  qed
  then show ?thesis by (auto simp: streams_buffers_def server_law_def)
qed

theorem server_keeps_open_witness:
  "streams_buffers [0 \<mapsto> conn_start (script_start [] []), 1 \<mapsto> conn_start (script_start ping_input [Inr 4])] = {0, 1}"
proof -
  let ?c = "[0 \<mapsto> conn_start (script_start [] []), 1 \<mapsto> conn_start (script_start ping_input [Inr 4])]"
  have "server_reach tcp_only (\<lambda>_ _. False) ?c"
    by (rule server_reach.stepped [OF server_reach.stepped [OF server_reach.started
            server_step.accept [OF _ starts(2)]] server_step.accept [OF _ starts(2)]]) simp_all
  moreover have "\<not> eof_called (conn_start k)" for k
    by (rule new_conn_start [OF starts(2) [of k]]) (auto dest: sb_create_start)
  ultimately show ?thesis using server_keeps_open [of tcp_only "\<lambda>_ _. False" ?c] by (auto split: if_splits)
qed

end
