(* ===== verification/Loop_Dispatch.thy ===== *)
theory Loop_Dispatch
  imports Loop_Ready
begin

text \<open>
  What \<open>epoll_wait\<close> reports is delivered: the entries of a batch on their way through
  \<open>EPoll::Process\<close> (\<open>lib/epoll.cc\<close>).
\<close>

subsection \<open>Entries on their way\<close>

text \<open>The entries that the loop thread has not yet looked at.\<close>

fun batch_of :: "pc \<Rightarrow> batch" where
  "batch_of (Batch b) = b"
| "batch_of (Reading b) = b"
| "batch_of (Take_adds b) = b"
| "batch_of (Adding is b) = b"
| "batch_of (Take_removes b) = b"
| "batch_of (Removing is b) = b"
| "batch_of (Take_readies b) = b"
| "batch_of (Readying xs b) = b"
| "batch_of (Calling i m q) = batch_of q"
| "batch_of _ = []"

definition entry_coming :: "lobs list \<Rightarrow> fd \<times> mask \<Rightarrow> lobs \<Rightarrow> 'k loop \<Rightarrow> bool" where
  "entry_coming h x c s \<longleftrightarrow> (\<exists>ys. history s = h @ ys \<and> (x \<in> set (batch_of (pc s)) \<or> c \<in> set ys))"

lemma coming_longer:
  assumes "entry_coming h x c s" and "history t = history s @ ys" and "x \<in> set (batch_of (pc s)) \<Longrightarrow> x \<in> set (batch_of (pc t)) \<or> c \<in> set ys"
  shows "entry_coming h x c t"
  using assms unfolding entry_coming_def by fastforce

lemma call_or_batch [simp]: "batch_of (pc (call_or q c s)) = batch_of q"
  by (simp add: call_or_def split: option.splits)

text \<open>Every step of a pass leaves the entries that it does not handle.\<close>

lemma pass_batch:
  assumes "in_pass s" and "\<forall>x. pc (loop_step E s) \<noteq> Dead x" and "\<And>x b. pc s \<noteq> Batch (x # b)"
  shows "(\<exists>ys. history (loop_step E s) = history s @ ys) \<and> set (batch_of (pc s)) \<subseteq> set (batch_of (pc (loop_step E s)))"
proof (cases "pc s")
  case (Batch b)
  with assms(3) show ?thesis by (cases b) (auto simp: loop_step_def)
next
  case (Adding js b)
  with assms(2) call_or_ready(2) show ?thesis
    by (cases js) (auto simp: loop_step_def step_add_def die_def split: sum.splits)
next
  case (Removing js b)
  with assms(2) show ?thesis
    by (cases js) (auto simp: loop_step_def step_remove_def die_def split: sum.splits)
next
  case (Readying xs b)
  with call_or_ready(1) show ?thesis by (cases xs) (auto simp: loop_step_def step_ready_def)
next
  case (Calling i m q)
  with assms(2) show ?thesis
    by (auto simp: loop_step_def step_return_def finish_res_def die_def dest!: execute_finish_ready(1) split: sum.splits)
qed (use assms(1) in \<open>auto simp: loop_step_def step_read_def take_adds_def take_removes_def take_readies_def
    in_pass_def split: prod.splits\<close>)

lemma entry_step:
  assumes "in_pass s" and "\<forall>x. pc (loop_step E s) \<noteq> Dead x" and "registered (ep s) h = Some i" and "i \<notin> set (gone s)"
    and "h \<noteq> en_wake_fd E" and "entry_coming hs (h, m) (L_call i (events_of_epoll (en_abi E) m)) s"
  shows "entry_coming hs (h, m) (L_call i (events_of_epoll (en_abi E) m)) (loop_step E s)"
proof (cases "\<exists>x b. pc s = Batch (x # b)")
  case False
  with pass_batch [OF assms(1,2)] coming_longer [OF assms(6)] show ?thesis by blast
next
  case True
  then obtain x b where p: "pc s = Batch (x # b)" by blast
  show ?thesis
  proof (cases "x = (h, m)")
    case True
    with assms(3-5) p have "loop_step E s = go (Calling i (events_of_epoll (en_abi E) m) (Batch b))
        (s\<lparr>history := history s @ [L_call i (events_of_epoll (en_abi E) m)]\<rparr>)"
      by (simp add: loop_step_def step_entry_def dispatch_def call_or_def)
    then show ?thesis
      by (intro coming_longer [OF assms(6), where ys = "[L_call i (events_of_epoll (en_abi E) m)]"]) simp_all
  next
    case False
    have "\<exists>ys. history (loop_step E s) = history s @ ys"
      using p call_or_ready(1) [of "Batch b" _ s] by (cases "fst x = en_wake_fd E") (simp_all add: loop_step_def step_entry_def)
    then obtain ys where "history (loop_step E s) = history s @ ys" ..
    moreover from p have "batch_of (pc (loop_step E s)) = b" by (auto simp: loop_step_def step_entry_def)
    ultimately show ?thesis using coming_longer [OF assms(6)] p False by auto
  qed
qed

lemma entry_arrives:
  assumes "epoll_ok (en_wake_fd E) (en_calls E)" and "efd_drains (en_calls E)" and "loop_inv E s" and "orderly E s"
    and "(h, m) \<in> set (batch_of (pc s))" and "in_pass s" and "registered (ep s) h = Some i" and "open_handler E i s"
  shows "\<exists>n ys. history ((loop_step E ^^ n) s) = history s @ ys \<and> L_call i (events_of_epoll (en_abi E) m) \<in> set ys"
proof -
  let ?c = "L_call i (events_of_epoll (en_abi E) m)"
  let ?Q = "\<lambda>u. loop_inv E u \<and> orderly E u \<and> open_handler E i u \<and> i \<notin># incoming u \<and> entry_coming (history s) (h, m) ?c u"
  note l = loop_invD(1) [OF assms(3), unfolded lives_def]
  have h: "en_handle E i = h" using life_reg(1) [OF l assms(7)] .
  have "i \<notin># incoming s" using life_in(2) [OF l, of i] assms(7,8) h by (auto simp: open_handler_def)
  with assms(3-5,8) have "?Q s" by (auto simp: entry_coming_def)
  moreover have "?Q (loop_step E u)" if "in_pass u" "?Q u" for u
  proof -
    from that have u: "loop_inv E u" "orderly E u" "open_handler E i u" "i \<notin># incoming u"
      "entry_coming (history s) (h, m) ?c u" by auto
    have c: "(\<exists>ks. pc u = Closing ks) \<longrightarrow> attaching u = []" using that(1) by (auto simp: in_pass_def)
    note st = orderly_step [OF assms(1) u(1,2) c]
    have reg: "registered (ep u) h = Some i"
      using settled_listed [OF u(1) _ u(4)] u(3) h by (simp add: open_handler_def listed_def)
    have "h \<noteq> en_wake_fd E"
      using life_where(1) [OF loop_invD(1) [OF u(1), unfolded lives_def], of i] u(3) h by (simp add: open_handler_def)
    with entry_step [OF that(1) st(3) reg _ _ u(5)] u(3) thread_open [OF u(3) st(3) disjI1 [OF that(1)]]
      loop_step_grows [OF st(3)] st(1,2) u(4) show ?thesis
      by (auto simp: open_handler_def)
  qed
  ultimately obtain n where n: "?Q ((loop_step E ^^ n) s)"
    "pc ((loop_step E ^^ n) s) = (if final_pass s then Finished else Checking) \<or> (\<exists>x. pc ((loop_step E ^^ n) s) = Dead x)"
    using pass_induct [where Q = ?Q, OF assms(2,6)] by blast
  then have "pc ((loop_step E ^^ n) s) = (if final_pass s then Finished else Checking)" using loop_inv_not_dead by blast
  with n(1) have "\<exists>ys. history ((loop_step E ^^ n) s) = history s @ ys \<and> ?c \<in> set ys"
    by (auto simp: entry_coming_def split: if_splits)
  then show ?thesis by blast
qed

lemma entry_reported:
  assumes "epoll_ok (en_wake_fd E) (en_calls E)" and "efd_drains (en_calls E)" and "fresh_start E k"
    and "run_reach E (loop_new k) s" and "pc s = Waiting" and "orderly E s"
    and "ec_wait (en_calls E) max_events (ep_kernel (ep s)) = (Inr b, k')" and "(h, m) \<in> set b"
    and "registered (ep s) h = Some i" and "open_handler E i s"
  shows "\<exists>n ys. history ((loop_step E ^^ n) s) = history s @ ys \<and> L_call i (events_of_epoll (en_abi E) m) \<in> set ys"
proof -
  let ?u = "loop_step E s"
  have iv: "loop_inv E s" by (rule reach_running_inv [OF assms(4,1,3)]) (simp add: running_def assms(5))
  have c: "(\<exists>ks. pc s = Closing ks) \<longrightarrow> attaching s = []" by (simp add: assms(5))
  have u: "?u = go (Batch b) (s\<lparr>ep := (ep s)\<lparr>ep_kernel := k'\<rparr>\<rparr>)"
    using assms(5,7) by (simp add: loop_step_def step_wait_def)
  from entry_arrives [OF assms(1,2) orderly_step(1,2) [OF assms(1) iv assms(6) c], of h m i] assms(8-10) u obtain n ys where
    "history ((loop_step E ^^ n) ?u) = history s @ ys" "L_call i (events_of_epoll (en_abi E) m) \<in> set ys"
    by (auto simp: in_pass_def)
  then show ?thesis by (intro exI [of _ "Suc n"]) (simp add: funpow_swap1)
qed

subsection \<open>Properties\<close>

text \<open>
  C16: what the kernel reports is delivered.  When the loop thread waits, no removal is queued of an event
  that is in the middle of its \<open>Attach\<close>, and \<open>epoll_wait\<close> reports an entry
  for the descriptor of an open handler that is in the table, the loop thread calls the handler with the
  translated mask in finitely many steps of its own, whatever else was reported and queued.
\<close>

theorem reported_delivered:
  assumes "epoll_ok (en_wake_fd E) (en_calls E)" and "efd_drains (en_calls E)" and "fresh_start E k"
    and "run_reach E (loop_new k) s" and "pc s = Waiting" and "orderly E s"
    and "ec_wait (en_calls E) max_events (ep_kernel (ep s)) = (Inr b, k')" and "(h, m) \<in> set b"
    and "registered (ep s) h = Some i" and "open_handler E i s"
  shows "\<exists>n ys. history ((loop_step E ^^ n) s) = history s @ ys \<and> L_call i (events_of_epoll (en_abi E) m) \<in> set ys"
  by (rule entry_reported [OF assms])

lemma reported:
  "\<exists>s. perform_all demo ([M_attach 2, M_hand_over 2] @ replicate 14 M_thread) (loop_new (ek_start [[], [(8, 1)]])) = Some s
     \<and> pc s = Waiting \<and> fst (ec_wait (en_calls demo) max_events (ep_kernel (ep s))) = Inr [(8, 1)]
     \<and> registered (ep s) 8 = Some 2 \<and> open_handler demo 2 s \<and> orderly demo s \<and> history s = []"
  by (simp add: numeral_eq_Suc loop_eval open_handler_def orderly_def)

theorem reported_delivered_witness:
  "\<exists>s n. run_reach demo (loop_new (ek_start [[], [(8, 1)]])) s \<and> history s = []
     \<and> L_call 2 Ev_Read \<in> set (history ((loop_step demo ^^ n) s))"
proof -
  from reported obtain s where
    s: "perform_all demo ([M_attach 2, M_hand_over 2] @ replicate 14 M_thread) (loop_new (ek_start [[], [(8, 1)]])) = Some s"
    "pc s = Waiting" "fst (ec_wait (en_calls demo) max_events (ep_kernel (ep s))) = Inr [(8, 1)]"
    "registered (ep s) 8 = Some 2" "open_handler demo 2 s" "orderly demo s" "history s = []" by blast
  have r: "run_reach demo (loop_new (ek_start [[], [(8, 1)]])) s" by (rule perform_all_run [OF s(1)])
  from s(3) obtain k' where w: "ec_wait (en_calls demo) max_events (ep_kernel (ep s)) = (Inr [(8, 1)], k')"
    by (metis prod.collapse)
  have m: "events_of_epoll (en_abi demo) 1 = Ev_Read"
    by (simp add: linux_abi_def events_of_epoll_def ev_defs has_def)
  from reported_delivered [OF demo_ok scripted_drains demo_start r s(2,6) w, of 8 1 2] s(4,5,7) r m show ?thesis by fastforce
qed

end
