(* ===== verification/Timers_In_Loop.thy ===== *)
theory Timers_In_Loop
  imports Stream_In_Loop Loop_Dispatch Timer_Handler
begin

text \<open>
  Timers in an event loop (\<open>lib/event_loop.cc\<close>): the \<open>TimerHandler\<close>s that the \<open>Execute...\<close> functions
  attach, run by the loop thread and cancelled by any thread, their closing of the event carried out
  on the loop.  Every run of the composition is a run of the loop and of each timer.
\<close>

subsection \<open>What a timer does to its event\<close>

fun timer_obs :: "tobs \<Rightarrow> obs list" where
  "timer_obs Ob_func = []"
| "timer_obs Ob_close_timer = [Ob_close_event]"

definition event_calls :: "'h timer \<Rightarrow> 'h timer \<Rightarrow> obs list" where
  "event_calls s t = concat (map timer_obs (drop (length (tm_trace s)) (tm_trace t)))"

text \<open>
  From one state of a timer to a later one: the trace gets longer, a timer that is cancelled on the
  way closes its event, if it has one, and one without closes nothing.
\<close>

definition timer_ext :: "'h timer \<Rightarrow> 'h timer \<Rightarrow> bool" where
  "timer_ext s t \<longleftrightarrow> (\<exists>ys. tm_trace t = tm_trace s @ ys
     \<and> (tm_canceled s \<longrightarrow> tm_canceled t)
     \<and> (tm_has_event s \<longrightarrow> tm_canceled t \<longrightarrow> \<not> tm_canceled s \<longrightarrow> Ob_close_timer \<in> set ys)
     \<and> (\<not> tm_has_event s \<longrightarrow> Ob_close_timer \<notin> set ys))
     \<and> tm_has_event t = tm_has_event s \<and> tm_run_once t = tm_run_once s"

lemma timer_ext_refl: "timer_ext s s"
  by (simp add: timer_ext_def)

lemma timer_ext_trans: "timer_ext s t \<Longrightarrow> timer_ext t u \<Longrightarrow> timer_ext s u"
  by (fastforce simp: timer_ext_def)

lemma timer_close_ext: "timer_ext s (timer_close_event s)"
  by (simp add: timer_ext_def timer_close_event_def)

lemma timer_cancel_ext: "timer_ext s (timer_cancel s)"
  by (simp add: timer_ext_def timer_close_event_def timer_cancel_def)

lemma timer_call_ext:
  assumes "timer_call func s = Inr t"
  shows "timer_ext s t"
proof -
  have "timer_ext s (s\<lparr>tm_app := h, tm_trace := tm_trace s @ [Ob_func]\<rparr>)" for h by (simp add: timer_ext_def)
  with timer_ext_trans [OF _ timer_cancel_ext] assms show ?thesis
    by (auto simp: timer_call_def Let_def split: if_splits sum.splits)
qed

lemma timer_calls_ext: "timer_calls func n s = Inr t \<Longrightarrow> timer_ext s t"
proof (induction n arbitrary: s)
  case (Suc n)
  then obtain u where "timer_call func s = Inr u" "timer_calls func n u = Inr t" by auto
  with timer_call_ext Suc.IH timer_ext_trans show ?case by blast
qed (simp add: timer_ext_refl)

lemma event_calls_mem:
  assumes "timer_ext s t" and "x \<in> set (event_calls s t)"
  shows "x = Ob_close_event \<and> tm_has_event s"
proof -
  from assms obtain y where "y \<in> set (drop (length (tm_trace s)) (tm_trace t))" "x \<in> set (timer_obs y)"
    by (auto simp: event_calls_def)
  with assms(1) show ?thesis by (cases y) (auto simp: timer_ext_def)
qed

lemma event_calls_close:
  assumes "timer_ext s t" and "tm_has_event s" and "\<not> tm_canceled s" and "tm_canceled t"
  shows "Ob_close_event \<in> set (event_calls s t)"
proof -
  have "Ob_close_timer \<in> set (drop (length (tm_trace s)) (tm_trace t))" using assms by (auto simp: timer_ext_def)
  then show ?thesis unfolding event_calls_def by (force intro: rev_bexI [of Ob_close_timer])
qed

subsection \<open>HandleEvents in steps\<close>

text \<open>
  Where the loop thread is in \<open>TimerHandler::HandleEvents\<close>: before the test of \<open>canceled_\<close>, past it and before the read
  of the descriptor, with so many calls of the function left, or at the end.  Other threads come between.
\<close>

datatype stage = Fresh | Tested | Runs nat | Served

text \<open>
  The steps: the one test of \<open>canceled_\<close> and the mask; the read and the lock of the instance; one call of the
  function; the \<open>Cancel\<close> of a timer that runs once.  \<open>ret\<close> is what \<open>read\<close> yields.
\<close>

fun hand_step ::
  "('h \<Rightarrow> exn + bool \<times> 'h) \<Rightarrow> mask \<Rightarrow> errno + 64 word \<Rightarrow> stage \<times> 'h timer \<Rightarrow> exn + stage \<times> 'h timer" where
  "hand_step func m ret (Fresh, s) = Inr (if tm_canceled s \<or> \<not> has m Ev_Read then Served else Tested, s)"
| "hand_step func m ret (Tested, s) =
     (case ret of
        Inl e \<Rightarrow> if e = EAGAIN then Inr (Served, s) else Inl (System_error e ''timerfd read - failed'')
      | Inr occurrences \<Rightarrow>
          if \<not> tm_instance_alive s then Inr (Served, timer_close_event s)
          else
            let limit = (ucast (interval_occurrences_limit global_config) :: 64 word);
                occurrences = (if occurrences > limit then limit else occurrences)
            in Inr (Runs (unat occurrences), s))"
| "hand_step func m ret (Runs 0, s) = Inr (Served, if tm_run_once s then timer_cancel s else s)"
| "hand_step func m ret (Runs (Suc n), s) = bindE (timer_call func s) (\<lambda>t. Inr (Runs n, t))"
| "hand_step func m ret (Served, s) = Inr (Served, s)"

fun hand_run ::
  "('h \<Rightarrow> exn + bool \<times> 'h) \<Rightarrow> mask \<Rightarrow> errno + 64 word \<Rightarrow> nat \<Rightarrow> stage \<times> 'h timer \<Rightarrow> exn + stage \<times> 'h timer" where
  "hand_run func m ret 0 x = Inr x"
| "hand_run func m ret (Suc n) x = bindE (hand_step func m ret x) (hand_run func m ret n)"

lemma hand_run_add: "hand_run func m ret (a + b) x = bindE (hand_run func m ret a x) (hand_run func m ret b)"
proof (induction a arbitrary: x)
  case (Suc a)
  then show ?case by (cases "hand_step func m ret x") simp_all
qed simp

lemma hand_calls: "hand_run func m ret n (Runs n, s) = bindE (timer_calls func n s) (\<lambda>t. Inr (Runs 0, t))"
proof (induction n arbitrary: s)
  case (Suc n)
  then show ?case by (cases "timer_call func s") simp_all
qed simp

lemma hand_step_numeral:
  "hand_step func m ret (Runs (numeral n), s) = bindE (timer_call func s) (\<lambda>t. Inr (Runs (pred_numeral n), t))"
  by (simp add: numeral_eq_Suc)

text \<open>Undisturbed, the steps compute \<open>HandleEvents\<close>.\<close>

lemma hand_run_computes:
  "\<exists>n. hand_run func m ret n (Fresh, s) = bindE (timer_handle_events global_config func m ret s) (\<lambda>t. Inr (Served, t))"
proof (cases "tm_canceled s \<or> \<not> has m Ev_Read")
  case True
  then show ?thesis by (intro exI [of _ 1]) (auto simp: timer_handle_events_def)
next
  case False
  show ?thesis
  proof (cases ret)
    case (Inl e)
    with False show ?thesis by (intro exI [of _ 2]) (simp add: timer_handle_events_def numeral_2_eq_2)
  next
    case (Inr occ)
    show ?thesis
    proof (cases "tm_instance_alive s")
      case True
      define n where "n = unat (if occ > (ucast (interval_occurrences_limit global_config) :: 64 word)
        then ucast (interval_occurrences_limit global_config) else occ)"
      have "hand_run func m ret (2 + (n + 1)) (Fresh, s)
        = bindE (timer_calls func n s) (\<lambda>t. Inr (Served, if tm_run_once t then timer_cancel t else t))"
        unfolding hand_run_add using False Inr True
        by (simp add: numeral_2_eq_2 Let_def hand_calls bindE_assoc n_def [symmetric] del: if_split)
      moreover have "timer_handle_events global_config func m ret s
        = bindE (timer_calls func n s) (\<lambda>t. Inr (if tm_run_once t then timer_cancel t else t))"
        using False Inr True by (simp add: timer_handle_events_def Let_def n_def)
      ultimately show ?thesis by (intro exI [of _ "2 + (n + 1)"]) (simp add: bindE_assoc del: hand_run.simps)
    next
      case dead: False
      with False Inr show ?thesis by (intro exI [of _ 2]) (simp add: timer_handle_events_def numeral_2_eq_2)
    qed
  qed
qed

lemma hand_step_cases:
  assumes "hand_step func m ret (st, s) = Inr (st', t)"
  shows "st = Fresh \<and> t = s \<and> (st' = Served \<or> st' = Tested \<and> \<not> tm_canceled s)
    \<or> st = Tested \<and> (t = s \<and> (st' = Served \<or> (\<exists>occ n. ret = Inr occ \<and> st' = Runs n \<and> n \<le> 10 \<and> (occ = 1 \<longrightarrow> n = 1))) \<or> t = timer_close_event s \<and> st' = Served)
    \<or> (\<exists>n. st = Runs (Suc n) \<and> st' = Runs n \<and> timer_call func s = Inr t)
    \<or> st = Runs 0 \<and> st' = Served \<and> t = (if tm_run_once s then timer_cancel s else s)
    \<or> st = Served \<and> st' = Served \<and> t = s"
proof (cases st)
  case Tested
  show ?thesis
  proof (cases ret)
    case (Inr occ)
    define n where "n = unat (if occ > (ucast (interval_occurrences_limit global_config) :: 64 word)
        then ucast (interval_occurrences_limit global_config) else occ)"
    have n: "n \<le> 10" "occ = 1 \<longrightarrow> n = 1" unfolding n_def occurrences_bound by auto
    from assms Tested Inr have "t = timer_close_event s \<and> st' = Served \<or> t = s \<and> st' = Runs n"
      by (auto simp: Let_def n_def split: if_splits)
    with Tested Inr n show ?thesis by blast
  qed (use assms Tested in \<open>auto split: if_splits\<close>)
next
  case (Runs n)
  with assms show ?thesis by (cases n) auto
qed (use assms in \<open>auto split: if_splits\<close>)

lemma hand_step_ext:
  assumes "hand_step func m ret (st, s) = Inr (st', t)"
  shows "timer_ext s t"
  using hand_step_cases [OF assms] timer_ext_refl timer_close_ext timer_cancel_ext timer_call_ext by metis

subsection \<open>The composition\<close>

text \<open>
  The loop, its timers, where the loop thread is in the \<open>HandleEvents\<close> of the timer that it is calling, and of each
  timer how many \<open>Cancel\<close>s have set \<open>canceled_\<close> and not closed the event yet.
\<close>

record ('k, 'h) timed =
  tl_loop :: "'k loop"
  tl_timer :: "nat \<Rightarrow> 'h timer option"
  tl_at :: stage
  tl_owed :: "nat \<Rightarrow> nat"

text \<open>The handler \<open>i\<close> answers the loop with the mask of \<open>GetEvents\<close>.\<close>

definition timer_answers :: "nat \<Rightarrow> 'k loop \<Rightarrow> 'k loop" where
  "timer_answers i l = l\<lparr>wants := (wants l)(i := timer_get_events)\<rparr>"

text \<open>The loop thread is in a call of \<open>HandleEvents\<close> of a timer that has not come to its end.\<close>

definition at_timer :: "('k, 'h) timed \<Rightarrow> bool" where
  "at_timer y \<longleftrightarrow> (\<exists>i s. calling (pc (tl_loop y)) = Some i \<and> tl_timer y i = Some s) \<and> tl_at y \<noteq> Served"

text \<open>What other steps of the loop leave to the timers.\<close>

definition untouched :: "('k, 'h) timed \<Rightarrow> 'k loop \<Rightarrow> bool" where
  "untouched y l \<longleftrightarrow> (\<forall>i s. tl_timer y i = Some s \<longrightarrow>
     (i \<in> set (created l) \<longleftrightarrow> i \<in> set (created (tl_loop y))) \<and> (i \<in> set (gone l) \<longleftrightarrow> i \<in> set (gone (tl_loop y))))"

text \<open>The instance of the timer \<open>i\<close> is locked: the loop thread is between the lock and the end of \<open>HandleEvents\<close>.\<close>

definition locks_instance :: "nat \<Rightarrow> ('k, 'h) timed \<Rightarrow> bool" where
  "locks_instance i y \<longleftrightarrow> calling (pc (tl_loop y)) = Some i \<and> (\<exists>n. tl_at y = Runs n)"

text \<open>
  The steps.  \<open>reads i\<close> says what a read of the descriptor of the timer \<open>i\<close> may yield.  \<open>Execute...\<close>
  creates the timer, its event and hands it over (a step of the loop) before anybody has the handle to
  cancel it with.  The loop thread handles an event of a timer step by step.  A \<open>Cancel\<close> sets \<open>canceled_\<close>, then closes the event, in one step or up to the
  hand-over of its removal, which is then a step of the loop.  Functions that throw end the process and are left out.
\<close>

inductive tl_step ::
  "'k env \<Rightarrow> (nat \<Rightarrow> 'h \<Rightarrow> exn + bool \<times> 'h) \<Rightarrow> (nat \<Rightarrow> errno + 64 word \<Rightarrow> bool) \<Rightarrow>
     ('k, 'h) timed \<Rightarrow> ('k, 'h) timed \<Rightarrow> bool"
  for E func reads where
  make: "running (tl_loop y) \<Longrightarrow> tl_timer y i = None \<Longrightarrow> i \<notin> set (created (tl_loop y)) \<Longrightarrow> i \<notin> set (gone (tl_loop y)) \<Longrightarrow>
    en_kind E i = Timer \<Longrightarrow> 0 \<le> en_handle E i \<Longrightarrow>
    tl_step E func reads y (y\<lparr>tl_timer := (tl_timer y)(i \<mapsto> timer_new run_once h)\<rparr>)"
| enter: "running (tl_loop y) \<Longrightarrow> \<not> lock_held (tl_loop y) \<Longrightarrow> tl_timer y i = Some s \<Longrightarrow> \<not> tm_has_event s \<Longrightarrow>
    fresh_handle E i (tl_loop y) \<Longrightarrow> attach_internal_begin i (timer_answers i (tl_loop y)) = Inr l \<Longrightarrow>
    tl_step E func reads y (y\<lparr>tl_loop := l, tl_timer := (tl_timer y)(i \<mapsto> s\<lparr>tm_has_event := True\<rparr>)\<rparr>)"
| handle: "running (tl_loop y) \<Longrightarrow> pc (tl_loop y) = Calling i m q \<Longrightarrow> tl_timer y i = Some s \<Longrightarrow> tl_at y \<noteq> Served \<Longrightarrow>
    tl_at y = Tested \<longrightarrow> reads i ret \<Longrightarrow> hand_step (func i) m ret (tl_at y, s) = Inr (st, t) \<Longrightarrow>
    apply_all E i (event_calls s t) (tl_loop y) = Inr l \<Longrightarrow>
    tl_step E func reads y (y\<lparr>tl_loop := l, tl_timer := (tl_timer y)(i \<mapsto> t), tl_at := st\<rparr>)"
| cancel_flag: "tl_timer y i = Some s \<Longrightarrow> tm_has_event s \<Longrightarrow>
    tl_step E func reads y (y\<lparr>tl_timer := (tl_timer y)(i \<mapsto> s\<lparr>tm_canceled := True\<rparr>), tl_owed := (tl_owed y)(i := tl_owed y i + 1)\<rparr>)"
| cancel_close: "running (tl_loop y) \<Longrightarrow> tl_timer y i = Some s \<Longrightarrow> 0 < tl_owed y i \<Longrightarrow>
    apply_all E i (event_calls s (timer_close_event s)) (tl_loop y) = Inr l \<Longrightarrow>
    tl_step E func reads y (y\<lparr>tl_loop := l, tl_timer := (tl_timer y)(i \<mapsto> timer_close_event s), tl_owed := (tl_owed y)(i := tl_owed y i - 1)\<rparr>)"
| cancel_begin: "running (tl_loop y) \<Longrightarrow> \<not> lock_held (tl_loop y) \<Longrightarrow> tl_timer y i = Some s \<Longrightarrow> 0 < tl_owed y i \<Longrightarrow>
    i \<notin> set (closed (tl_loop y)) \<Longrightarrow> close_begin i (tl_loop y) = Inr l \<Longrightarrow>
    tl_step E func reads y (y\<lparr>tl_loop := l, tl_timer := (tl_timer y)(i \<mapsto> timer_close_event s), tl_owed := (tl_owed y)(i := tl_owed y i - 1)\<rparr>)"
| instance_gone: "tl_timer y i = Some s \<Longrightarrow> \<not> locks_instance i y \<Longrightarrow>
    tl_step E func reads y (y\<lparr>tl_timer := (tl_timer y)(i \<mapsto> s\<lparr>tm_instance_alive := False\<rparr>)\<rparr>)"
| elsewhere: "run_step E (tl_loop y) l \<Longrightarrow> \<not> at_timer y \<or> pc l = pc (tl_loop y) \<Longrightarrow> untouched y l \<Longrightarrow>
    tl_step E func reads y
      (y\<lparr>tl_loop := l, tl_at := (if pc l = pc (tl_loop y) then tl_at y else Fresh)\<rparr>)"

inductive tl_reach ::
  "'k env \<Rightarrow> (nat \<Rightarrow> 'h \<Rightarrow> exn + bool \<times> 'h) \<Rightarrow> (nat \<Rightarrow> errno + 64 word \<Rightarrow> bool) \<Rightarrow>
     ('k, 'h) timed \<Rightarrow> ('k, 'h) timed \<Rightarrow> bool"
  for E func reads y0 where
  start: "tl_reach E func reads y0 y0"
| move: "tl_reach E func reads y0 y \<Longrightarrow> tl_step E func reads y z \<Longrightarrow> tl_reach E func reads y0 z"

lemma tl_reach_trans: "tl_reach E func reads x y \<Longrightarrow> tl_reach E func reads y z \<Longrightarrow> tl_reach E func reads x z"
  by (rotate_tac, induction rule: tl_reach.induct) (auto intro: tl_reach.move)

definition tl_start :: "'k \<Rightarrow> ('k, 'h) timed" where
  "tl_start k = \<lparr>tl_loop = loop_new k, tl_timer = Map.empty, tl_at = Fresh, tl_owed = (\<lambda>_. 0)\<rparr>"

subsection \<open>The invariant of the composition\<close>

definition timer_at :: "'k env \<Rightarrow> 'k loop \<Rightarrow> nat \<Rightarrow> nat \<Rightarrow> 'h timer \<Rightarrow> bool" where
  "timer_at E l n i s \<longleftrightarrow>
     en_kind E i = Timer \<and> 0 \<le> en_handle E i \<and> i \<notin> set (gone l)
   \<and> (tm_has_event s \<longleftrightarrow> i \<in> set (created l)) \<and> (\<not> tm_has_event s \<longrightarrow> \<not> tm_canceled s \<and> n = 0)
   \<and> (tm_canceled s \<longrightarrow> (\<forall>x. pc l \<noteq> Dead x) \<longrightarrow> i \<in> set (closed l) \<or> 0 < n)"

definition tl_inv :: "'k env \<Rightarrow> 'k \<Rightarrow> ('k, 'h) timed \<Rightarrow> bool" where
  "tl_inv E k y \<longleftrightarrow> run_reach E (loop_new k) (tl_loop y)
     \<and> (\<forall>i s. tl_timer y i = Some s \<longrightarrow> timer_at E (tl_loop y) (tl_owed y i) i s)
     \<and> (\<forall>i. tl_timer y i = None \<longrightarrow> tl_owed y i = 0)"

text \<open>A later state of the loop, in which the timer has not been touched.\<close>

lemma timer_at_later:
  assumes "timer_at E l n i s" and "i \<in> set (created l') \<longleftrightarrow> i \<in> set (created l)"
    and "i \<in> set (gone l') \<longleftrightarrow> i \<in> set (gone l)"
    and "\<forall>x. pc l' \<noteq> Dead x \<Longrightarrow> (\<forall>x. pc l \<noteq> Dead x) \<and> set (closed l) \<subseteq> set (closed l')"
  shows "timer_at E l' n i s"
  using assms unfolding timer_at_def by blast

text \<open>The calls of a timer on its event return, and close the event of one that was cancelled.\<close>

lemma timer_calls_done:
  assumes "epoll_ok (en_wake_fd E) (en_calls E)" and "fresh_start E k" and "tl_inv E k y"
    and "tl_timer y i = Some s" and "running (tl_loop y)" and "timer_ext s t"
  shows "\<exists>l. apply_all E i (event_calls s t) (tl_loop y) = Inr l"
    and "apply_all E i (event_calls s t) (tl_loop y) = Inr l \<Longrightarrow>
      run_reach E (loop_new k) l \<and> call_frame (tl_loop y) l \<and> gone l = gone (tl_loop y)
      \<and> (tm_has_event s \<longrightarrow> tm_canceled t \<longrightarrow> i \<in> set (closed l) \<or> 0 < tl_owed y i)
      \<and> (Ob_close_event \<in> set (event_calls s t) \<longrightarrow> i \<in> set (closed l))"
proof -
  from assms(3,4) have r: "run_reach E (loop_new k) (tl_loop y)" and a: "timer_at E (tl_loop y) (tl_owed y i) i s"
    by (simp_all add: tl_inv_def)
  have rd: "ready_for_calls E i (event_calls s t) (tl_loop y)"
  proof (rule calls_ready [OF reach_running_inv [OF r assms(1,2,5)] assms(5)])
    show "0 \<le> en_handle E i" using a by (simp add: timer_at_def)
  qed (use event_calls_mem [OF assms(6)] a in \<open>auto simp: timer_at_def\<close>)
  from apply_all_total [OF assms(1) rd] show "\<exists>l. apply_all E i (event_calls s t) (tl_loop y) = Inr l" by blast
  assume l: "apply_all E i (event_calls s t) (tl_loop y) = Inr l"
  have f: "call_frame (tl_loop y) l" by (rule apply_all_frame [OF l])
  have g: "gone l' = gone m" if "apply_all E i xs m = Inr l'" "set xs \<subseteq> {Ob_close_event}" for xs m l'
    using that by (induction xs arbitrary: m) (auto dest!: event_close_grows split: sum.splits)
  have "gone l = gone (tl_loop y)" by (rule g [OF l]) (use event_calls_mem [OF assms(6)] in blast)
  moreover have "i \<in> set (closed l) \<or> 0 < tl_owed y i" if "tm_has_event s" "tm_canceled t"
  proof (cases "tm_canceled s")
    case True
    with a assms(5) have "i \<in> set (closed (tl_loop y)) \<or> 0 < tl_owed y i" by (auto simp: timer_at_def running_def)
    with f show ?thesis by (auto simp: call_frame_def)
  next
    case False
    from apply_all_closes [OF l event_calls_close [OF assms(6) that(1) False that(2)]] show ?thesis ..
  qed
  moreover have "i \<in> set (closed l)" if "Ob_close_event \<in> set (event_calls s t)" by (rule apply_all_closes [OF l that])
  ultimately show "run_reach E (loop_new k) l \<and> call_frame (tl_loop y) l \<and> gone l = gone (tl_loop y)
      \<and> (tm_has_event s \<longrightarrow> tm_canceled t \<longrightarrow> i \<in> set (closed l) \<or> 0 < tl_owed y i)
      \<and> (Ob_close_event \<in> set (event_calls s t) \<longrightarrow> i \<in> set (closed l))"
    using calls_reach [OF assms(1) rd l r] f by blast
qed

text \<open>The timer \<open>i\<close> moved on from \<open>s\<close> to \<open>t\<close>, and the loop carried its calls out.\<close>

lemma timer_moved:
  assumes "epoll_ok (en_wake_fd E) (en_calls E)" and "fresh_start E k" and "tl_inv E k y"
    and "tl_timer y i = Some s" and "running (tl_loop y)" and "timer_ext s t"
    and "apply_all E i (event_calls s t) (tl_loop y) = Inr l" and "tm_has_event s"
    and "n = tl_owed y i \<or> Ob_close_event \<in> set (event_calls s t)"
  shows "tl_inv E k (y\<lparr>tl_loop := l, tl_timer := (tl_timer y)(i \<mapsto> t), tl_at := st, tl_owed := (tl_owed y)(i := n)\<rparr>)"
proof -
  note d = timer_calls_done(2) [OF assms(1-7)]
  have a: "timer_at E (tl_loop y) (tl_owed y i) i s" using assms(3,4) by (simp add: tl_inv_def)
  have "timer_at E l n i t" using a d assms(6,8,9) by (auto simp: timer_at_def timer_ext_def call_frame_def)
  moreover have "timer_at E l (tl_owed y j) j u" if "tl_timer y j = Some u" for j u
  proof (rule timer_at_later)
    show "timer_at E (tl_loop y) (tl_owed y j) j u" using assms(3) that by (simp add: tl_inv_def)
  qed (use d in \<open>auto simp: call_frame_def\<close>)
  ultimately show ?thesis using d assms(3) by (auto simp: tl_inv_def)
qed

lemma tl_enter_inv:
  assumes "tl_inv E k y" and "running (tl_loop y)" and "\<not> lock_held (tl_loop y)" and "tl_timer y i = Some s"
    and "\<not> tm_has_event s" and "fresh_handle E i (tl_loop y)"
    and "attach_internal_begin i (timer_answers i (tl_loop y)) = Inr l"
  shows "tl_inv E k (y\<lparr>tl_loop := l, tl_timer := (tl_timer y)(i \<mapsto> s\<lparr>tm_has_event := True\<rparr>)\<rparr>)"
proof -
  from assms(1,4) have r: "run_reach E (loop_new k) (tl_loop y)" and a: "timer_at E (tl_loop y) (tl_owed y i) i s"
    by (simp_all add: tl_inv_def)
  have an: "run_step E (tl_loop y) (timer_answers i (tl_loop y))"
    unfolding timer_answers_def by (rule run_step.wants_change [OF assms(2)])
  have "run_step E (timer_answers i (tl_loop y)) l"
    by (rule run_step.internal_attach [OF _ _ _ _ _ _ assms(7)])
       (use a assms(2,3,6) in \<open>simp_all add: timer_answers_def running_def timer_at_def fresh_handle_def held_def\<close>)
  then have rl: "run_reach E (loop_new k) l" using run_reach.move [OF run_reach.move [OF r an]] by blast
  have f: "created l = created (tl_loop y) @ [i]" "closed l = closed (tl_loop y)" "gone l = gone (tl_loop y)"
    "pc l = pc (tl_loop y)"
    using attach_internal_call [OF assms(7)] by (simp_all add: attach_frame_def timer_answers_def)
  with a assms(5) have "timer_at E l (tl_owed y i) i (s\<lparr>tm_has_event := True\<rparr>)" by (auto simp: timer_at_def)
  moreover have "timer_at E l (tl_owed y j) j u" if "tl_timer y j = Some u" "j \<noteq> i" for j u
  proof (rule timer_at_later)
    show "timer_at E (tl_loop y) (tl_owed y j) j u" using assms(1) that by (simp add: tl_inv_def)
  qed (use f that in auto)
  ultimately show ?thesis using rl assms(1,4) by (auto simp: tl_inv_def)
qed

lemma tl_begin_inv:
  assumes "tl_inv E k y" and "running (tl_loop y)" and "\<not> lock_held (tl_loop y)" and "tl_timer y i = Some s"
    and "0 < tl_owed y i" and "i \<notin> set (closed (tl_loop y))" and "close_begin i (tl_loop y) = Inr l"
  shows "tl_inv E k (y\<lparr>tl_loop := l, tl_timer := (tl_timer y)(i \<mapsto> timer_close_event s), tl_owed := (tl_owed y)(i := tl_owed y i - 1)\<rparr>)"
proof -
  have r: "run_reach E (loop_new k) (tl_loop y)" and a: "timer_at E (tl_loop y) (tl_owed y i) i s"
    using assms(1,4) by (simp_all add: tl_inv_def)
  have ev: "tm_has_event s" using a assms(5) by (auto simp: timer_at_def)
  have f: "call_frame (tl_loop y) l" by (rule close_begin_call [OF assms(7)])
  have g: "gone l = gone (tl_loop y)" "i \<in> set (closed l)"
    using assms(6,7) by (auto simp: close_begin_def split: if_splits)
  have "timer_at E l (tl_owed y i - 1) i (timer_close_event s)"
    using a ev g f by (auto simp: timer_at_def call_frame_def timer_close_event_def)
  moreover have "timer_at E l (tl_owed y j) j u" if "tl_timer y j = Some u" for j u
  proof (rule timer_at_later)
    show "timer_at E (tl_loop y) (tl_owed y j) j u" using assms(1) that by (simp add: tl_inv_def)
  qed (use f g in \<open>auto simp: call_frame_def\<close>)
  moreover have "run_step E (tl_loop y) l"
    by (rule run_step.close_begin [OF assms(2,3) _ assms(6) _ assms(7)]) (use a ev in \<open>simp_all add: timer_at_def\<close>)
  ultimately show ?thesis unfolding tl_inv_def using run_reach.move [OF r] assms(1) by (auto simp: tl_inv_def)
qed

lemma handled_created:
  assumes "epoll_ok (en_wake_fd E) (en_calls E)" and "fresh_start E k" and "tl_inv E k y"
    and "running (tl_loop y)" and "calling (pc (tl_loop y)) = Some i"
  shows "i \<in> set (created (tl_loop y))"
proof -
  have "loop_inv E (tl_loop y)"
    using assms(3) by (intro reach_running_inv [OF _ assms(1,2,4)]) (simp add: tl_inv_def)
  from calling_created [OF this assms(5)] show ?thesis .
qed

lemma tl_step_inv:
  assumes "epoll_ok (en_wake_fd E) (en_calls E)" and "fresh_start E k" and "tl_step E func reads y z" and "tl_inv E k y"
  shows "tl_inv E k z"
  using assms(3)
proof cases
  case (make i ro h)
  with assms(4) have "timer_at E (tl_loop y) (tl_owed y i) i (timer_new ro h)"
    by (simp add: timer_at_def tl_inv_def) (simp add: timer_new_def)
  with make(1,3) assms(4) show ?thesis by (simp add: tl_inv_def)
next
  case (enter i s l)
  from tl_enter_inv [OF assms(4) enter(2-7)] enter(1) show ?thesis by simp
next
  case (handle i m q s ret st t l)
  have "i \<in> set (created (tl_loop y))" by (rule handled_created [OF assms(1,2,4) handle(2)]) (simp add: handle(3))
  with assms(4) handle(4) have h: "tm_has_event s" by (auto simp: tl_inv_def timer_at_def)
  from timer_moved [OF assms(1,2,4) handle(4,2) hand_step_ext [OF handle(7)] handle(8) h, of "tl_owed y i" st] handle(1)
  show ?thesis by (simp add: tl_inv_def)
next
  case (cancel_flag i s)
  with assms(4) have "timer_at E (tl_loop y) (tl_owed y i + 1) i (s\<lparr>tm_canceled := True\<rparr>)" by (simp add: timer_at_def tl_inv_def)
  with cancel_flag(1,2) assms(4) show ?thesis by (simp add: tl_inv_def)
next
  case (cancel_close i s l)
  have "timer_at E (tl_loop y) (tl_owed y i) i s" using assms(4) cancel_close(3) by (simp add: tl_inv_def)
  with cancel_close(4) have h: "tm_has_event s" unfolding timer_at_def by linarith
  then have c: "Ob_close_event \<in> set (event_calls s (timer_close_event s))"
    by (simp add: event_calls_def timer_close_event_def)
  from timer_moved [OF assms(1,2,4) cancel_close(3,2) timer_close_ext cancel_close(5) h disjI2 [OF c], of "tl_owed y i - 1" "tl_at y"] cancel_close(1)
  show ?thesis by (simp add: tl_inv_def)
next
  case (cancel_begin i s l)
  from tl_begin_inv [OF assms(4) cancel_begin(2-7)] cancel_begin(1) show ?thesis by simp
next
  case (instance_gone i s)
  with assms(4) have "timer_at E (tl_loop y) (tl_owed y i) i (s\<lparr>tm_instance_alive := False\<rparr>)" by (simp add: timer_at_def tl_inv_def)
  with instance_gone(1,2) assms(4) show ?thesis by (simp add: tl_inv_def)
next
  case (elsewhere l)
  have rl: "run_reach E (loop_new k) l"
    using run_reach.move [OF _ elsewhere(2)] assms(4) by (simp add: tl_inv_def)
  have "timer_at E l (tl_owed y i) i s" if "tl_timer y i = Some s" for i s
  proof (rule timer_at_later)
    show "timer_at E (tl_loop y) (tl_owed y i) i s" using assms(4) that by (simp add: tl_inv_def)
    show "(i \<in> set (created l)) = (i \<in> set (created (tl_loop y)))" "(i \<in> set (gone l)) = (i \<in> set (gone (tl_loop y)))"
      using elsewhere(4) that by (simp_all add: untouched_def)
  next
    assume "\<forall>x. pc l \<noteq> Dead x"
    with run_step_grows [OF elsewhere(2)] run_step_from_alive [OF elsewhere(2)]
    show "(\<forall>x. pc (tl_loop y) \<noteq> Dead x) \<and> set (closed (tl_loop y)) \<subseteq> set (closed l)" by (auto simp: running_def)
  qed
  with rl elsewhere(1) assms(4) show ?thesis by (simp add: tl_inv_def)
qed

lemma tl_reach_inv:
  assumes "epoll_ok (en_wake_fd E) (en_calls E)" and "fresh_start E k" and "tl_reach E func reads (tl_start k) y"
  shows "tl_inv E k y"
  using assms(3)
proof (induction rule: tl_reach.induct)
  case start
  show ?case by (simp add: tl_inv_def tl_start_def run_reach.start)
next
  case (move y z)
  from tl_step_inv [OF assms(1,2) move(2,3)] show ?case .
qed

subsection \<open>What a timer keeps\<close>

text \<open>From one state of the composition to a later one, a timer stays, and a cancelled one stays cancelled.\<close>

definition timer_kept :: "('k, 'h) timed \<Rightarrow> ('k, 'h) timed \<Rightarrow> bool" where
  "timer_kept y z \<longleftrightarrow> (\<forall>i s. tl_timer y i = Some s \<longrightarrow> (\<exists>t. tl_timer z i = Some t
     \<and> (tm_canceled s \<longrightarrow> tm_canceled t) \<and> runs s \<le> runs t \<and> tm_run_once t = tm_run_once s))"

lemma runs_update [simp]:
  "runs (s\<lparr>tm_has_event := b\<rparr>) = runs s" "runs (s\<lparr>tm_instance_alive := b\<rparr>) = runs s" "runs (s\<lparr>tm_canceled := b\<rparr>) = runs s"
  by (simp_all add: runs_def)

lemma timer_close_kept [simp]: "tm_run_once (timer_close_event s) = tm_run_once s"
  by (simp add: timer_close_event_def)

lemma hand_step_kept:
  assumes "hand_step func m ret (st, s) = Inr (st', t)"
  shows "(tm_canceled s \<longrightarrow> tm_canceled t) \<and> runs s \<le> runs t \<and> tm_run_once t = tm_run_once s"
  using hand_step_cases [OF assms] timer_call_facts [of func s t] by (elim disjE conjE exE) (simp_all split: if_splits)

lemma tl_step_kept:
  assumes "tl_step E func reads y z"
  shows "timer_kept y z"
  using assms
proof cases
  case (handle i m q s ret st t l)
  from hand_step_kept [OF handle(7)] handle(1,4) show ?thesis by (simp add: timer_kept_def)
qed (auto simp: timer_kept_def)

lemma tl_reach_kept: "tl_reach E func reads y z \<Longrightarrow> timer_kept y z"
proof (induction rule: tl_reach.induct)
  case (move u z)
  from tl_step_kept [OF move(2)] move(3) show ?case by (fastforce simp: timer_kept_def)
qed (simp add: timer_kept_def)

text \<open>
  How often the function of the timer \<open>i\<close> may still run in the \<open>HandleEvents\<close> that the loop thread is in: not at all
  before the test of \<open>canceled_\<close> (when it is set), ten times before the read, and then as often as there are calls left.
\<close>

definition calls_left :: "nat \<Rightarrow> ('k, 'h) timed \<Rightarrow> nat" where
  "calls_left i y = (if calling (pc (tl_loop y)) = Some i then (case tl_at y of Tested \<Rightarrow> 10 | Runs n \<Rightarrow> n | _ \<Rightarrow> 0) else 0)"

lemma calls_left_same:
  "pc (tl_loop z) = pc (tl_loop y) \<Longrightarrow> tl_at z = tl_at y \<Longrightarrow> calls_left i z = calls_left i y"
  by (simp add: calls_left_def)

lemma hand_step_left:
  assumes "hand_step func m ret (st, s) = Inr (st', t)" and "tm_canceled s"
  shows "runs t + (case st' of Tested \<Rightarrow> 10 | Runs n \<Rightarrow> n | _ \<Rightarrow> 0) \<le> runs s + (case st of Tested \<Rightarrow> 10 | Runs n \<Rightarrow> n | _ \<Rightarrow> 0)"
  using hand_step_cases [OF assms(1)] timer_call_facts [of func s t] assms(2) by auto

lemma cancelled_step:
  assumes "tl_step E func reads y z" and "tl_timer y i = Some s" and "tm_canceled s"
  shows "\<exists>t. tl_timer z i = Some t \<and> tm_canceled t \<and> runs t + calls_left i z \<le> runs s + calls_left i y"
  using assms(1)
proof cases
  case (make j ro h)
  with assms(2,3) show ?thesis by (auto simp: calls_left_def)
next
  case (enter j u l)
  have "pc l = pc (tl_loop y)" using attach_internal_call [OF enter(7)] by (simp add: attach_frame_def timer_answers_def)
  then have "calls_left i z = calls_left i y" by (intro calls_left_same) (simp_all add: enter(1))
  with enter(1,4) assms(2,3) show ?thesis by auto
next
  case (handle j m q u ret st t l)
  have p: "pc l = pc (tl_loop y)" using apply_all_frame [OF handle(8)] by (simp add: call_frame_def)
  show ?thesis
  proof (cases "j = i")
    case True
    with handle(4) assms(2) have u: "u = s" by simp
    from hand_step_left [OF handle(7) [unfolded u] assms(3)] hand_step_kept [OF handle(7) [unfolded u]] assms(3) handle(1,3) p True
    show ?thesis by (simp add: calls_left_def)
  next
    case False
    with handle(1,3) p assms(2,3) show ?thesis by (simp add: calls_left_def)
  qed
next
  case (cancel_flag j u)
  with assms(2,3) show ?thesis by (auto simp: calls_left_def)
next
  case (cancel_close j u l)
  have "pc l = pc (tl_loop y)" using apply_all_frame [OF cancel_close(5)] by (simp add: call_frame_def)
  then have "calls_left i z = calls_left i y" by (intro calls_left_same) (simp_all add: cancel_close(1))
  with cancel_close(1,3) assms(2,3) show ?thesis by auto
next
  case (cancel_begin j u l)
  have "pc l = pc (tl_loop y)" using close_begin_call [OF cancel_begin(7)] by (simp add: call_frame_def)
  then have "calls_left i z = calls_left i y" by (intro calls_left_same) (simp_all add: cancel_begin(1))
  with cancel_begin(1,4) assms(2,3) show ?thesis by auto
next
  case (instance_gone j u)
  with assms(2,3) show ?thesis by (auto simp: calls_left_def)
next
  case (elsewhere l)
  with assms(2,3) show ?thesis by (auto simp: calls_left_def)
qed

lemma cancelled_stays:
  assumes "tl_reach E func reads y z" and "tl_timer y i = Some s" and "tm_canceled s"
  shows "\<exists>t. tl_timer z i = Some t \<and> tm_canceled t \<and> runs s \<le> runs t \<and> runs t + calls_left i z \<le> runs s + calls_left i y"
  using assms(1)
proof (induction rule: tl_reach.induct)
  case start
  with assms(2,3) show ?case by simp
next
  case (move u z)
  then obtain t where t: "tl_timer u i = Some t" "tm_canceled t" "runs s \<le> runs t"
    "runs t + calls_left i u \<le> runs s + calls_left i y" by blast
  from cancelled_step [OF move(2) t(1,2)] tl_step_kept [OF move(2)] t show ?case by (fastforce simp: timer_kept_def)
qed

text \<open>What a \<open>Cancel\<close> has closed stays closed.\<close>

lemma tl_step_closed:
  assumes "tl_step E func reads y z" and "\<forall>x. pc (tl_loop z) \<noteq> Dead x"
  shows "(\<forall>x. pc (tl_loop y) \<noteq> Dead x) \<and> set (closed (tl_loop y)) \<subseteq> set (closed (tl_loop z))"
  using assms
proof cases
  case (enter j u l)
  with attach_internal_call [OF enter(7)] assms(2) show ?thesis by (simp add: attach_frame_def timer_answers_def)
next
  case (handle j m q u ret st t l)
  with apply_all_frame [OF handle(8)] assms(2) show ?thesis by (simp add: call_frame_def)
next
  case (cancel_close j u l)
  with apply_all_frame [OF cancel_close(5)] assms(2) show ?thesis by (simp add: call_frame_def)
next
  case (cancel_begin j u l)
  with close_begin_call [OF cancel_begin(7)] assms(2) show ?thesis by (simp add: call_frame_def)
next
  case (elsewhere l)
  with run_step_grows [OF elsewhere(2)] run_step_from_alive [OF elsewhere(2)] assms(2) show ?thesis by (auto simp: running_def)
qed (use assms(2) in auto)

subsection \<open>Runs that compute\<close>

datatype tl_move = T_make nat bool | T_enter nat | T_hand_over nat | T_thread | T_handle "errno + 64 word" | T_flag nat | T_close nat
  | T_mark nat | T_detach nat

text \<open>A step of the loop that leaves the timers alone.\<close>

definition tl_else :: "'k loop \<Rightarrow> ('k, 'h) timed \<Rightarrow> ('k, 'h) timed option" where
  "tl_else l y =
     (if created l = created (tl_loop y) \<and> gone l = gone (tl_loop y)
      then Some (y\<lparr>tl_loop := l, tl_at := (if pc l = pc (tl_loop y) then tl_at y else Fresh)\<rparr>) else None)"

fun tl_do ::
  "'k env \<Rightarrow> (nat \<Rightarrow> 'h \<Rightarrow> exn + bool \<times> 'h) \<Rightarrow> 'h \<Rightarrow> tl_move \<Rightarrow> ('k, 'h) timed \<Rightarrow> ('k, 'h) timed option" where
  "tl_do E func h (T_make i ro) y =
     (if running (tl_loop y) \<and> tl_timer y i = None \<and> i \<notin> set (created (tl_loop y)) \<and> i \<notin> set (gone (tl_loop y))
       \<and> en_kind E i = Timer \<and> 0 \<le> en_handle E i
      then Some (y\<lparr>tl_timer := (tl_timer y)(i \<mapsto> timer_new ro h)\<rparr>) else None)"
| "tl_do E func h (T_enter i) y =
     (case (tl_timer y i, attach_internal_begin i (timer_answers i (tl_loop y))) of
        (Some s, Inr l) \<Rightarrow>
          if running (tl_loop y) \<and> \<not> lock_held (tl_loop y) \<and> \<not> tm_has_event s \<and> fresh_handle E i (tl_loop y)
          then Some (y\<lparr>tl_loop := l, tl_timer := (tl_timer y)(i \<mapsto> s\<lparr>tm_has_event := True\<rparr>)\<rparr>) else None
      | _ \<Rightarrow> None)"
| "tl_do E func h (T_hand_over i) y =
     (case attach_end E i (tl_loop y) of
        Inl x \<Rightarrow> None
      | Inr l \<Rightarrow>
          if running (tl_loop y) \<and> i \<in> set (attaching (tl_loop y)) \<and> pc l = pc (tl_loop y) then tl_else l y else None)"
| "tl_do E func h T_thread y =
     (if running (tl_loop y) \<and> \<not> lock_held (tl_loop y)
        \<and> (tl_at y = Served \<or> (case calling (pc (tl_loop y)) of None \<Rightarrow> True | Some i \<Rightarrow> tl_timer y i = None))
      then tl_else (loop_step E (tl_loop y)) y else None)"
| "tl_do E func h (T_handle ret) y =
     (case pc (tl_loop y) of
        Calling i m q \<Rightarrow>
          (case tl_timer y i of
             None \<Rightarrow> None
           | Some s \<Rightarrow>
               (case hand_step (func i) m ret (tl_at y, s) of
                  Inl x \<Rightarrow> None
                | Inr (st, t) \<Rightarrow>
                    (case apply_all E i (event_calls s t) (tl_loop y) of
                       Inl x \<Rightarrow> None
                     | Inr l \<Rightarrow>
                         if running (tl_loop y) \<and> tl_at y \<noteq> Served
                         then Some (y\<lparr>tl_loop := l, tl_timer := (tl_timer y)(i \<mapsto> t), tl_at := st\<rparr>) else None)))
      | _ \<Rightarrow> None)"
| "tl_do E func h (T_flag i) y =
     (case tl_timer y i of
        None \<Rightarrow> None
      | Some s \<Rightarrow>
          if tm_has_event s
          then Some (y\<lparr>tl_timer := (tl_timer y)(i \<mapsto> s\<lparr>tm_canceled := True\<rparr>), tl_owed := (tl_owed y)(i := tl_owed y i + 1)\<rparr>)
          else None)"
| "tl_do E func h (T_close i) y =
     (case tl_timer y i of
        None \<Rightarrow> None
      | Some s \<Rightarrow>
          (case apply_all E i (event_calls s (timer_close_event s)) (tl_loop y) of
             Inl x \<Rightarrow> None
           | Inr l \<Rightarrow>
               if running (tl_loop y) \<and> 0 < tl_owed y i
               then Some (y\<lparr>tl_loop := l, tl_timer := (tl_timer y)(i \<mapsto> timer_close_event s), tl_owed := (tl_owed y)(i := tl_owed y i - 1)\<rparr>)
               else None))"
| "tl_do E func h (T_mark i) y =
     (case (tl_timer y i, close_begin i (tl_loop y)) of
        (Some s, Inr l) \<Rightarrow>
          if running (tl_loop y) \<and> \<not> lock_held (tl_loop y) \<and> 0 < tl_owed y i \<and> i \<notin> set (closed (tl_loop y))
          then Some (y\<lparr>tl_loop := l, tl_timer := (tl_timer y)(i \<mapsto> timer_close_event s), tl_owed := (tl_owed y)(i := tl_owed y i - 1)\<rparr>)
          else None
      | _ \<Rightarrow> None)"
| "tl_do E func h (T_detach i) y =
     (case close_end E i (tl_loop y) of
        Inl x \<Rightarrow> None
      | Inr l \<Rightarrow>
          if running (tl_loop y) \<and> i \<in> set (detaching (tl_loop y)) \<and> pc l = pc (tl_loop y) then tl_else l y else None)"

lemma tl_else_step:
  assumes "tl_else l y = Some z" and "run_step E (tl_loop y) l" and "\<not> at_timer y \<or> pc l = pc (tl_loop y)"
  shows "tl_step E func reads y z"
proof -
  from assms(1) have z: "z = y\<lparr>tl_loop := l, tl_at := (if pc l = pc (tl_loop y) then tl_at y else Fresh)\<rparr>"
    and u: "untouched y l" by (auto simp: tl_else_def untouched_def split: if_splits)
  show ?thesis unfolding z by (rule tl_step.elsewhere [OF assms(2,3) u])
qed

text \<open>Every move is a step; what the read yields is allowed.\<close>

fun reads_ok :: "(nat \<Rightarrow> errno + 64 word \<Rightarrow> bool) \<Rightarrow> tl_move \<Rightarrow> bool" where
  "reads_ok reads (T_handle ret) \<longleftrightarrow> (\<forall>i. reads i ret)"
| "reads_ok reads m \<longleftrightarrow> True"

lemma tl_do_step:
  assumes "tl_do E func h m y = Some z" and "reads_ok reads m"
  shows "tl_step E func reads y z"
proof (cases m)
  case (T_hand_over i)
  with assms(1) obtain l where l: "attach_end E i (tl_loop y) = Inr l" "running (tl_loop y)" "i \<in> set (attaching (tl_loop y))"
    "pc l = pc (tl_loop y)" "tl_else l y = Some z" by (auto split: sum.splits if_splits)
  show ?thesis by (rule tl_else_step [OF l(5) run_step.hand_over [OF l(2,3,1)]]) (simp add: l(4))
next
  case (T_detach i)
  with assms(1) obtain l where l: "close_end E i (tl_loop y) = Inr l" "running (tl_loop y)" "i \<in> set (detaching (tl_loop y))"
    "pc l = pc (tl_loop y)" "tl_else l y = Some z" by (auto split: sum.splits if_splits)
  show ?thesis by (rule tl_else_step [OF l(5) run_step.close_end [OF l(2,3,1)]]) (simp add: l(4))
next
  case T_thread
  with assms(1) have t: "running (tl_loop y)" "\<not> lock_held (tl_loop y)" "\<not> at_timer y" "tl_else (loop_step E (tl_loop y)) y = Some z"
    by (auto simp: at_timer_def split: if_splits option.splits)
  show ?thesis by (rule tl_else_step [OF t(4) run_step.thread [OF t(1,2)]]) (simp add: t(3))
next
  case (T_enter i)
  with assms(1) show ?thesis
    by (auto simp del: fresh_handle_def split: option.splits sum.splits if_splits intro: tl_step.enter)
next
  case (T_handle ret)
  with assms obtain i c q s st t l where h: "pc (tl_loop y) = Calling i c q" "tl_timer y i = Some s"
    "hand_step (func i) c ret (tl_at y, s) = Inr (st, t)" "apply_all E i (event_calls s t) (tl_loop y) = Inr l"
    "running (tl_loop y)" "tl_at y \<noteq> Served" "z = y\<lparr>tl_loop := l, tl_timer := (tl_timer y)(i \<mapsto> t), tl_at := st\<rparr>"
    by (auto split: option.splits sum.splits if_splits pc.splits simp del: hand_step.simps)
  have r: "tl_at y = Tested \<longrightarrow> reads i ret" using assms(2) T_handle by simp
  show ?thesis unfolding h(7)
    by (rule tl_step.handle [where ret = ret and s = s and q = q and m = c]) (use h r in blast)+
qed (use assms(1) in \<open>auto split: option.splits sum.splits if_splits intro: tl_step.make tl_step.cancel_flag [simplified] tl_step.cancel_close [simplified]
      tl_step.cancel_begin [simplified]\<close>)

fun tl_run ::
  "'k env \<Rightarrow> (nat \<Rightarrow> 'h \<Rightarrow> exn + bool \<times> 'h) \<Rightarrow> 'h \<Rightarrow> tl_move list \<Rightarrow> ('k, 'h) timed \<Rightarrow> ('k, 'h) timed option" where
  "tl_run E func h [] y = Some y"
| "tl_run E func h (m # ms) y = Option.bind (tl_do E func h m y) (tl_run E func h ms)"

lemma tl_run_reach:
  "tl_run E func h ms y = Some z \<Longrightarrow> list_all (reads_ok reads) ms \<Longrightarrow> tl_reach E func reads y0 y \<Longrightarrow> tl_reach E func reads y0 z"
proof (induction ms arbitrary: y)
  case (Cons m ms)
  then obtain u where u: "tl_do E func h m y = Some u" "tl_run E func h ms u = Some z" by (auto simp: bind_eq_Some_conv)
  show ?case
    by (rule Cons.IH [OF u(2) _ tl_reach.move [OF Cons.prems(3) tl_do_step [OF u(1)]]]) (use Cons.prems(2) in simp_all)
qed simp

text \<open>
  Handler 1 of \<open>demo\<close> is a timer on descriptor 7, attached and waiting in the table; its descriptor is
  readable at the next wait.
\<close>

abbreviation idle_func :: "nat \<Rightarrow> unit \<Rightarrow> exn + bool \<times> unit" where
  "idle_func i u \<equiv> Inr (False, u)"

definition timer_waits :: "bool \<Rightarrow> tl_move list" where
  "timer_waits ro = [T_make 1 ro, T_enter 1, T_hand_over 1] @ replicate 14 T_thread"

definition timer_ran :: "tl_move list" where
  "timer_ran = replicate 2 T_thread @ replicate 4 (T_handle (Inr 1))"

definition timer_kernel :: ek where
  "timer_kernel = ek_start [[], [(7, 1)]]"

lemmas tl_eval =
  tl_start_def tl_else_def timer_answers_def timer_get_events_def timer_new_def timer_handle_events_def
  timer_cancel_def timer_close_event_def timer_call_def event_calls_def global_config_def ev_defs has_def
  linux_abi_def events_of_epoll_def replicate_unfold

lemma timer_waiting:
  "\<exists>y. tl_run demo idle_func () (timer_waits True) (tl_start timer_kernel) = Some y
     \<and> pc (tl_loop y) = Waiting \<and> fst (ec_wait (en_calls demo) max_events (ep_kernel (ep (tl_loop y)))) = Inr [(7, 1)]
     \<and> registered (ep (tl_loop y)) 7 = Some 1 \<and> closed (tl_loop y) = [] \<and> orderly demo (tl_loop y)
     \<and> tl_timer y 1 = Some ((timer_new True ())\<lparr>tm_has_event := True\<rparr>)"
  by (simp add: timer_waits_def timer_kernel_def loop_eval tl_eval orderly_def)

lemma timer_served:
  "\<exists>y s. tl_run demo idle_func () (timer_waits True @ timer_ran) (tl_start timer_kernel) = Some y
     \<and> tl_timer y 1 = Some s \<and> runs s = 1 \<and> tm_canceled s \<and> tm_run_once s \<and> pc (tl_loop y) = Calling 1 Ev_Read (Batch [])"
  by (simp add: timer_waits_def timer_ran_def timer_kernel_def loop_eval tl_eval runs_def)

text \<open>
  A timer with an interval is cancelled by another thread when the loop thread is past the test of \<open>canceled_\<close>: its
  function still runs for the three expirations that the read yields.
\<close>

lemma timer_late:
  "\<exists>y z s t. tl_run demo idle_func () (timer_waits False @ replicate 2 T_thread @ [T_handle (Inr 3), T_flag 1, T_close 1]) (tl_start timer_kernel) = Some y
     \<and> tl_timer y 1 = Some s \<and> tm_canceled s \<and> runs s = 0 \<and> calls_left 1 y = 10 \<and> tl_owed y 1 = 0
     \<and> tl_run demo idle_func () (replicate 5 (T_handle (Inr 3)) @ replicate 3 T_thread) y = Some z
     \<and> tl_timer z 1 = Some t \<and> runs t = 3 \<and> calls_left 1 z = 0 \<and> tl_owed z 1 = 0 \<and> pc (tl_loop z) = Waiting"
  by (simp add: timer_waits_def timer_kernel_def loop_eval tl_eval runs_def calls_left_def hand_step_numeral)

text \<open>A timer that runs once has run at most once, and is cancelled when it has, if its descriptor expires once.\<close>

definition one_shot :: "(errno + 64 word \<Rightarrow> bool) \<Rightarrow> bool" where
  "one_shot r \<longleftrightarrow> (\<forall>n. r (Inr n) \<longrightarrow> n = 1)"

fun coming :: "stage \<Rightarrow> nat option" where
  "coming Tested = Some 1"
| "coming (Runs n) = Some n"
| "coming _ = None"

definition ran_once :: "nat \<Rightarrow> ('k, 'h) timed \<Rightarrow> 'h timer \<Rightarrow> bool" where
  "ran_once i y s \<longleftrightarrow>
     (case if calling (pc (tl_loop y)) = Some i then coming (tl_at y) else None of
        Some n \<Rightarrow> runs s + n \<le> 1
      | None \<Rightarrow> runs s \<le> (if tm_canceled s then 1 else 0))"

lemma ran_once_same:
  "ran_once i y s \<Longrightarrow> pc (tl_loop z) = pc (tl_loop y) \<Longrightarrow> tl_at z = tl_at y \<Longrightarrow> runs t = runs s \<Longrightarrow>
   (tm_canceled s \<longrightarrow> tm_canceled t) \<Longrightarrow> ran_once i z t"
  by (auto simp: ran_once_def split: option.splits if_splits)

lemma hand_step_once:
  assumes "hand_step func m ret (st, s) = Inr (st', t)" and "st = Tested \<longrightarrow> r ret" and "one_shot r" and "tm_run_once s"
    and "case coming st of Some n \<Rightarrow> runs s + n \<le> 1 | None \<Rightarrow> runs s \<le> (if tm_canceled s then 1 else 0)" and "st \<noteq> Served"
  shows "case coming st' of Some n \<Rightarrow> runs t + n \<le> 1 | None \<Rightarrow> runs t \<le> (if tm_canceled t then 1 else 0)"
proof -
  have n: "occ = 1" if "st = Tested" "ret = Inr occ" for occ using assms(2,3) that by (auto simp: one_shot_def)
  from hand_step_cases [OF assms(1)] timer_call_facts [of func s t] n assms(4-6) show ?thesis
    by (elim disjE conjE exE) (auto split: if_splits)
qed

lemma tl_step_ran_once:
  assumes "tl_step E func reads y z" and "one_shot (reads i)" and "\<And>j. calling (pc (tl_loop y)) = Some j \<Longrightarrow> j \<in> set (created (tl_loop y))"
    and "\<And>s. tl_timer y i = Some s \<Longrightarrow> tm_run_once s \<Longrightarrow> ran_once i y s" and "tl_timer z i = Some t" and "tm_run_once t"
  shows "ran_once i z t"
  using assms(1)
proof cases
  case (make j ro h)
  show ?thesis
  proof (cases "j = i")
    case True
    with make(4) assms(3) have "calling (pc (tl_loop y)) \<noteq> Some i" by blast
    with make(1) True assms(5) show ?thesis by (auto simp: ran_once_def timer_new_def runs_def)
  next
    case False
    with make(1) assms(5,6) have "ran_once i y t" by (intro assms(4)) simp_all
    then show ?thesis by (rule ran_once_same) (simp_all add: make(1))
  qed
next
  case (enter j s l)
  have p: "pc l = pc (tl_loop y)" using attach_internal_call [OF enter(7)] by (simp add: attach_frame_def timer_answers_def)
  from enter(1,4) assms(5,6) obtain u where "tl_timer y i = Some u" "tm_run_once u" "runs t = runs u" "tm_canceled t = tm_canceled u"
    by (auto split: if_splits)
  with ran_once_same [OF assms(4), of u z t] p enter(1) show ?thesis by simp
next
  case (handle j m q s ret st u l)
  have p: "pc l = pc (tl_loop y)" using apply_all_frame [OF handle(8)] by (simp add: call_frame_def)
  show ?thesis
  proof (cases "j = i")
    case True
    with handle(1) assms(5) have u: "u = t" by simp
    with hand_step_kept [OF handle(7)] assms(6) have ro: "tm_run_once s" by simp
    have "case coming (tl_at y) of Some n \<Rightarrow> runs s + n \<le> 1 | None \<Rightarrow> runs s \<le> (if tm_canceled s then 1 else 0)"
      using assms(4) [OF _ ro] handle(3,4) True by (simp add: ran_once_def)
    from hand_step_once [where r = "reads j", OF handle(7) _ _ ro this handle(5)] handle(6) assms(2) True handle(1,3) p u show ?thesis
      by (auto simp: ran_once_def split: option.splits if_splits)
  next
    case False
    with handle(1) assms(5,6) have "ran_once i y t" by (intro assms(4)) simp_all
    with False handle(1,3) p show ?thesis by (simp add: ran_once_def)
  qed
next
  case (cancel_flag j s)
  from cancel_flag(1,2) assms(5,6) obtain u where "tl_timer y i = Some u" "tm_run_once u" "runs t = runs u" "tm_canceled u \<longrightarrow> tm_canceled t"
    by (auto split: if_splits)
  with ran_once_same [OF assms(4), of u z t] cancel_flag(1) show ?thesis by simp
next
  case (cancel_close j s l)
  have p: "pc l = pc (tl_loop y)" using apply_all_frame [OF cancel_close(5)] by (simp add: call_frame_def)
  from cancel_close(1,3) assms(5,6) obtain u where "tl_timer y i = Some u" "tm_run_once u" "runs t = runs u" "tm_canceled u = tm_canceled t"
    by (auto split: if_splits)
  with ran_once_same [OF assms(4), of u z t] p cancel_close(1) show ?thesis by simp
next
  case (cancel_begin j s l)
  have p: "pc l = pc (tl_loop y)" using close_begin_call [OF cancel_begin(7)] by (simp add: call_frame_def)
  from cancel_begin(1,4) assms(5,6) obtain u where "tl_timer y i = Some u" "tm_run_once u" "runs t = runs u" "tm_canceled u = tm_canceled t"
    by (auto split: if_splits)
  with ran_once_same [OF assms(4), of u z t] p cancel_begin(1) show ?thesis by simp
next
  case (instance_gone j s)
  from instance_gone(1,2) assms(5,6) obtain u where "tl_timer y i = Some u" "tm_run_once u" "runs t = runs u" "tm_canceled u = tm_canceled t"
    by (auto split: if_splits)
  with ran_once_same [OF assms(4), of u z t] instance_gone(1) show ?thesis by simp
next
  case (elsewhere l)
  with assms(5,6) have o: "ran_once i y t" and y: "tl_timer y i = Some t" by (auto intro: assms(4))
  show ?thesis
  proof (cases "pc l = pc (tl_loop y)")
    case True
    then show ?thesis by (intro ran_once_same [OF o]) (simp_all add: elsewhere(1))
  next
    case False
    with elsewhere(3) have "\<not> at_timer y" by blast
    with y have "calling (pc (tl_loop y)) \<noteq> Some i \<or> tl_at y = Served" by (auto simp: at_timer_def)
    with o have "runs t \<le> (if tm_canceled t then 1 else 0)" by (auto simp: ran_once_def split: if_splits)
    with False elsewhere(1) show ?thesis by (simp add: ran_once_def)
  qed
qed

subsection \<open>Properties\<close>

text \<open>
  Timers in an event loop.  In every reachable state of a loop with any number of timers, the loop is
  in a reachable state of its own, and as long as the loop
  thread runs every cancellation and every step of \<open>HandleEvents\<close> can make its calls on the event: none throws.
\<close>

lemma timers_in_loop_refine:
  assumes "epoll_ok (en_wake_fd E) (en_calls E)" and "fresh_start E k" and "tl_reach E func reads (tl_start k) y"
  shows "run_reach E (loop_new k) (tl_loop y)
    \<and> (\<forall>i s. tl_timer y i = Some s \<longrightarrow> running (tl_loop y) \<longrightarrow>
            (\<exists>l. apply_all E i (event_calls s (timer_close_event s)) (tl_loop y) = Inr l)
          \<and> (\<forall>m ret st t. hand_step (func i) m ret (tl_at y, s) = Inr (st, t) \<longrightarrow>
               (\<exists>l. apply_all E i (event_calls s t) (tl_loop y) = Inr l)))"
proof -
  note iv = tl_reach_inv [OF assms]
  have "\<exists>l. apply_all E i (event_calls s t) (tl_loop y) = Inr l"
    if "tl_timer y i = Some s" "running (tl_loop y)" "timer_ext s t" for i s t
    by (rule timer_calls_done(1) [OF assms(1,2) iv that])
  then show ?thesis using iv timer_close_ext hand_step_ext by (fastforce simp: tl_inv_def)
qed

lemma demo_timer_reach:
  assumes "tl_run demo idle_func () ms (tl_start timer_kernel) = Some y" and "list_all (reads_ok (\<lambda>_ r. r = Inr n)) ms"
  shows "tl_reach demo idle_func (\<lambda>_ r. r = Inr n) (tl_start timer_kernel) y"
  by (rule tl_run_reach [OF assms tl_reach.start])

lemma timer_kernel_start: "fresh_start demo timer_kernel"
  by (simp add: timer_kernel_def demo_start)

lemma timers_in_loop_refine_witness:
  "\<exists>y. tl_reach demo idle_func (\<lambda>_ r. r = Inr 1) (tl_start timer_kernel) y \<and> run_reach demo (loop_new timer_kernel) (tl_loop y)
     \<and> tl_timer y 1 \<noteq> None"
proof -
  from timer_served obtain y s where y: "tl_run demo idle_func () (timer_waits True @ timer_ran) (tl_start timer_kernel) = Some y"
    "tl_timer y 1 = Some s" by blast
  have r: "tl_reach demo idle_func (\<lambda>_ r. r = Inr 1) (tl_start timer_kernel) y"
    by (rule demo_timer_reach [OF y(1)]) (simp add: timer_waits_def timer_ran_def list_all_iff)
  from timers_in_loop_refine [OF demo_ok timer_kernel_start r] r y(2) show ?thesis by blast
qed

text \<open>
  C33: a cancelled timer.  Once \<open>Cancel\<close> of a timer has set \<open>canceled_\<close>, in every later state of every
  interleaving with the steps of \<open>HandleEvents\<close> its function has run at most as often again as it still had to in the
  \<open>HandleEvents\<close> that the loop thread was in: ten times at most when the loop thread was past the test of \<open>canceled_\<close>, and never
  when it was not; and the event is closed when every \<open>Cancel\<close> of it has come past \<open>CloseEvent\<close>.
\<close>

theorem cancelled_timer_silent:
  assumes "epoll_ok (en_wake_fd E) (en_calls E)" and "fresh_start E k" and "tl_reach E func reads (tl_start k) y"
    and "tl_timer y i = Some s" and "tm_canceled s" and "tl_reach E func reads y z"
  shows "\<exists>t. tl_timer z i = Some t \<and> tm_canceled t \<and> runs s \<le> runs t \<and> runs t \<le> runs s + calls_left i y
    \<and> (tl_owed z i = 0 \<longrightarrow> (\<forall>x. pc (tl_loop z) \<noteq> Dead x) \<longrightarrow> i \<in> set (closed (tl_loop z)))"
proof -
  from cancelled_stays [OF assms(6,4,5)] obtain t where t: "tl_timer z i = Some t" "tm_canceled t" "runs s \<le> runs t"
    "runs t \<le> runs s + calls_left i y" by fastforce
  have "timer_at E (tl_loop z) (tl_owed z i) i t"
    using tl_reach_inv [OF assms(1,2) tl_reach_trans [OF assms(3,6)]] t(1) by (simp add: tl_inv_def)
  with t show ?thesis unfolding timer_at_def by (metis less_numeral_extra(3))
qed

theorem cancelled_timer_silent_witness:
  "\<exists>y z s t. tl_timer y 1 = Some s \<and> runs s = 0 \<and> tl_reach demo idle_func (\<lambda>_ r. r = Inr 3) y z
     \<and> tl_timer z 1 = Some t \<and> runs t = 3 \<and> runs t \<le> runs s + calls_left 1 y \<and> 1 \<in> set (closed (tl_loop z))"
proof -
  from timer_late obtain y z s t where
    y: "tl_run demo idle_func () (timer_waits False @ replicate 2 T_thread @ [T_handle (Inr 3), T_flag 1, T_close 1]) (tl_start timer_kernel) = Some y"
      "tl_timer y 1 = Some s" "tm_canceled s" "runs s = 0"
    and z: "tl_run demo idle_func () (replicate 5 (T_handle (Inr 3)) @ replicate 3 T_thread) y = Some z"
      "tl_timer z 1 = Some t" "runs t = 3" "tl_owed z 1 = 0" "pc (tl_loop z) = Waiting" by blast
  have r: "tl_reach demo idle_func (\<lambda>_ r. r = Inr 3) (tl_start timer_kernel) y"
    by (rule demo_timer_reach [OF y(1)]) (simp add: timer_waits_def list_all_iff)
  have q: "tl_reach demo idle_func (\<lambda>_ r. r = Inr 3) y z"
    by (rule tl_run_reach [OF z(1) _ tl_reach.start]) (simp add: list_all_iff)
  from cancelled_timer_silent [OF demo_ok timer_kernel_start r y(2,3) q] z(2,4,5)
  have "runs t \<le> runs s + calls_left 1 y" "1 \<in> set (closed (tl_loop z))" by simp_all
  with z(2,3) y(2,4) q show ?thesis by blast
qed

text \<open>
  A timer that runs once.  In every interleaving, the function of a timer of \<open>ExecuteOnceIn\<close>, whose
  descriptor expires once, has been run at most once.
\<close>

lemma once_timer_runs:
  assumes "epoll_ok (en_wake_fd E) (en_calls E)" and "fresh_start E k" and "tl_reach E func reads (tl_start k) y"
    and "one_shot (reads i)" and "tl_timer y i = Some s" and "tm_run_once s"
  shows "runs s \<le> 1"
proof -
  have "ran_once i y s"
    using assms(3,5,6)
  proof (induction arbitrary: s rule: tl_reach.induct)
    case start
    then show ?case by (simp add: tl_start_def)
  next
    case (move y z)
    show ?case
    proof (cases "running (tl_loop y)")
      case True
      show ?thesis
        by (rule tl_step_ran_once [OF move(2) assms(4) handled_created [OF assms(1,2) tl_reach_inv [OF assms(1,2) move(1)] True] move(3) move(4,5)])
    next
      case False
      then have "calling (pc (tl_loop y)) = None" by (auto simp: running_def split: pc.splits)
      with tl_step_ran_once [OF move(2) assms(4) _ move(3) move(4,5)] show ?thesis by simp
    qed
  qed
  then show ?thesis by (auto simp: ran_once_def split: if_splits option.splits)
qed

lemma once_timer_runs_witness:
  "\<exists>y s. tl_reach demo idle_func (\<lambda>_ r. r = Inr 1) (tl_start timer_kernel) y \<and> tl_timer y 1 = Some s \<and> runs s = 1 \<and> runs s \<le> 1"
proof -
  from timer_served obtain y s where y: "tl_run demo idle_func () (timer_waits True @ timer_ran) (tl_start timer_kernel) = Some y"
    "tl_timer y 1 = Some s" "runs s = 1" "tm_run_once s" by blast
  have r: "tl_reach demo idle_func (\<lambda>_ r. r = Inr 1) (tl_start timer_kernel) y"
    by (rule demo_timer_reach [OF y(1)]) (simp add: timer_waits_def timer_ran_def list_all_iff)
  from once_timer_runs [OF demo_ok timer_kernel_start r _ y(2,4)] r y(2,3) show ?thesis by (auto simp: one_shot_def)
qed

text \<open>
  C32: timers fire.  When the loop thread waits, no removal is queued of an event in the middle of its \<open>Attach\<close>, and the
  kernel reports the descriptor of an open timer that is not cancelled as
  readable, the loop thread calls its \<open>HandleEvents\<close> in finitely many steps of its own; and the steps of that call, when it finds
  \<open>occ\<close> expirations and nobody interferes, come to their end and run the function \<open>occ\<close> times, but at most ten times.
\<close>

theorem timer_fires:
  assumes "epoll_ok (en_wake_fd E) (en_calls E)" and "efd_drains (en_calls E)" and "fresh_start E k"
    and "tl_reach E func reads (tl_start k) y" and "pc (tl_loop y) = Waiting" and "orderly E (tl_loop y)"
    and "ec_wait (en_calls E) max_events (ep_kernel (ep (tl_loop y))) = (Inr b, k')" and "(h, m) \<in> set b"
    and "has (events_of_epoll (en_abi E) m) Ev_Read"
    and "registered (ep (tl_loop y)) h = Some i" and "i \<notin> set (closed (tl_loop y))"
    and "tl_timer y i = Some s" and "\<not> tm_canceled s" and "tm_instance_alive s" and "\<And>h. \<exists>r. func i h = Inr r"
  shows "(\<exists>n. L_call i (events_of_epoll (en_abi E) m) \<in> set (drop (length (history (tl_loop y))) (history ((loop_step E ^^ n) (tl_loop y)))))
    \<and> (\<exists>n t. hand_run (func i) (events_of_epoll (en_abi E) m) (Inr occ) n (Fresh, s) = Inr (Served, t)
        \<and> runs t = runs s + min (unat occ) 10)"
proof -
  note iv = tl_reach_inv [OF assms(1,3,4)]
  then have r: "run_reach E (loop_new k) (tl_loop y)" and a: "timer_at E (tl_loop y) (tl_owed y i) i s"
    using assms(12) by (simp_all add: tl_inv_def)
  have lv: "loop_inv E (tl_loop y)" by (rule reach_running_inv [OF r assms(1,3)]) (simp add: running_def assms(5))
  note l = loop_invD(1) [OF lv, unfolded lives_def]
  have "i \<notin># incoming (tl_loop y)" using life_in(2) [OF l, of i] life_reg(1) [OF l assms(10)] assms(10) a
    by (auto simp: timer_at_def)
  with a assms(11) table_not_execute [OF lv assms(10)] life_reg(3) [OF l assms(10)] have "open_handler E i (tl_loop y)"
    by (auto simp: open_handler_def timer_at_def incoming_def)
  from entry_reported [OF assms(1-3) r assms(5-8,10) this] obtain n ys where
    n: "history ((loop_step E ^^ n) (tl_loop y)) = history (tl_loop y) @ ys" "L_call i (events_of_epoll (en_abi E) m) \<in> set ys"
    by blast
  from timer_handle_runs [where func = "func i" and occ = occ, OF assms(13,9,14,15)] obtain t where
    t: "timer_handle_events global_config (func i) (events_of_epoll (en_abi E) m) (Inr occ) s = Inr t"
      "runs t = runs s + min (unat occ) 10" by blast
  have "L_call i (events_of_epoll (en_abi E) m) \<in> set (drop (length (history (tl_loop y))) (history ((loop_step E ^^ n) (tl_loop y))))"
    using n by simp
  with hand_run_computes [of "func i" "events_of_epoll (en_abi E) m" "Inr occ" s] t show ?thesis by auto
qed

theorem timer_fires_witness:
  "\<exists>y. tl_reach demo idle_func (\<lambda>_ r. r = Inr 1) (tl_start timer_kernel) y
     \<and> (\<exists>n. L_call 1 Ev_Read \<in> set (history ((loop_step demo ^^ n) (tl_loop y))))"
proof -
  from timer_waiting obtain y where y: "tl_run demo idle_func () (timer_waits True) (tl_start timer_kernel) = Some y"
    "pc (tl_loop y) = Waiting" "fst (ec_wait (en_calls demo) max_events (ep_kernel (ep (tl_loop y)))) = Inr [(7, 1)]"
    "registered (ep (tl_loop y)) 7 = Some 1" "closed (tl_loop y) = []" "orderly demo (tl_loop y)"
    "tl_timer y 1 = Some ((timer_new True ())\<lparr>tm_has_event := True\<rparr>)" by blast
  have r: "tl_reach demo idle_func (\<lambda>_ r. r = Inr 1) (tl_start timer_kernel) y"
    by (rule demo_timer_reach [OF y(1)]) (simp add: timer_waits_def list_all_iff)
  from y(3) obtain k' where w: "ec_wait (en_calls demo) max_events (ep_kernel (ep (tl_loop y))) = (Inr [(7, 1)], k')"
    by (metis prod.collapse)
  have m: "events_of_epoll (en_abi demo) 1 = Ev_Read" by (simp add: linux_abi_def events_of_epoll_def ev_defs has_def)
  have "(7, 1) \<in> set [(7::int, 1::mask)]" by simp
  from timer_fires [OF demo_ok scripted_drains timer_kernel_start r y(2,6) w this _ y(4) _ y(7)] m y(5) have
    "\<exists>n. L_call 1 Ev_Read \<in> set (drop (length (history (tl_loop y))) (history ((loop_step demo ^^ n) (tl_loop y))))"
    by (auto simp: timer_new_def ev_defs has_def)
  with r show ?thesis by (blast dest: in_set_dropD)
qed

end
