(* ===== verification/Samples_Execute.thy ===== *)
theory Samples_Execute
  imports Loop_Order Timers_In_Loop
begin

text \<open>
  The samples \<open>samples/execute_once/execute_once.cc\<close> and \<open>samples/execute_interval/execute_interval.cc\<close>:
  their \<open>main\<close> as a program that runs beside the loop thread.
\<close>

subsection \<open>The last pass\<close>

text \<open>
  After the last wait the loop thread has still to take the additions, or there are none; the last pass
  comes after a stop only.
\<close>

definition last_ok :: "'k env \<Rightarrow> 'k loop \<Rightarrow> bool" where
  "last_ok E s \<longleftrightarrow>
     (final_pass s \<longrightarrow> pc s = Waiting
       \<or> (in_pass s \<or> pc s = Finished) \<and> (pending_add (ep s) = [] \<or> before_adds (en_wake_fd E) (pc s)))
   \<and> (pc s = Finished \<longrightarrow> final_pass s) \<and> (final_pass s \<or> (\<exists>is. pc s = Closing is) \<longrightarrow> stop_flag s)"

lemma call_or_adds:
  "ep (call_or q c s) = ep s" "before_adds w (pc (call_or q c s)) = before_adds w q"
  by (simp_all add: call_or_def split: option.splits)

text \<open>In a pass, no step of the loop thread adds, and the additions are taken before the entry of the wakeup is gone.\<close>

lemma adds_step:
  assumes "in_pass s" and "\<forall>x. pc (loop_step E s) \<noteq> Dead x"
    and "pending_add (ep s) = [] \<or> before_adds (en_wake_fd E) (pc s)"
  shows "pending_add (ep (loop_step E s)) = [] \<or> before_adds (en_wake_fd E) (pc (loop_step E s))"
proof (cases "pc s")
  case (Batch b)
  with assms(3) show ?thesis by (cases b) (auto simp: loop_step_def step_entry_def call_or_adds)
next
  case (Adding js b)
  with assms(2,3) show ?thesis
    by (cases js) (auto simp: loop_step_def step_add_def call_or_adds die_def add_finalize_def Let_def
        split: sum.splits if_splits prod.splits option.splits)
next
  case (Removing js b)
  with assms(2,3) show ?thesis
    by (cases js) (auto simp: loop_step_def step_remove_def die_def dest!: remove_finalize_frame split: sum.splits)
next
  case (Readying xs b)
  with assms(3) show ?thesis by (cases xs) (auto simp: loop_step_def step_ready_def call_or_adds)
next
  case (Calling i m q)
  with assms(2,3) show ?thesis
    by (auto simp: loop_step_def step_return_def finish_res_def die_def dest!: execute_finish_frame split: sum.splits)
qed (use assms(1,3) in \<open>auto simp: loop_step_def step_read_def take_adds_def take_removes_def take_readies_def
      in_pass_def split: prod.splits\<close>)

lemma thread_last:
  assumes "epoll_ok (en_wake_fd E) (en_calls E)" and "reports_wakeup (en_wake_fd E) (en_calls E)"
    and "loop_inv E s" and "running s" and "stop_heard E s" and "\<forall>x. pc (loop_step E s) \<noteq> Dead x" and "last_ok E s"
  shows "last_ok E (loop_step E s)"
proof -
  from reach_place [OF assms(5,4)] consider "in_pass s" | "pc s = Checking" | "pc s = Waiting" | js where "pc s = Closing js"
    by blast
  then show ?thesis
  proof cases
    case 1
    with assms(7) have nc: "\<forall>is. pc s \<noteq> Closing is" and nw: "pc s \<noteq> Waiting" by (auto simp: in_pass_def)
    show ?thesis
    proof (cases "final_pass s")
      case True
      with assms(7) nw have "pending_add (ep s) = [] \<or> before_adds (en_wake_fd E) (pc s)" "stop_flag s"
        by (auto simp: last_ok_def)
      with adds_step [OF 1 assms(6)] pass_step [OF 1, of E] thread_flags [of E s] assms(6) True show ?thesis
        by (auto simp: last_ok_def)
    next
      case False
      with pass_step [OF 1, of E] assms(6) show ?thesis by (auto simp: last_ok_def in_pass_def)
    qed
  next
    case 2
    with assms(7) show ?thesis by (auto simp: last_ok_def loop_step_def run_check_def in_pass_def)
  next
    case 3
    obtain r k where w: "ec_wait (en_calls E) max_events (ep_kernel (ep s)) = (r, k)" by fastforce
    from assms(1) w obtain b where b: "r = Inr b" unfolding epoll_ok_def wait_ok_def by blast
    have due: "pending_add (ep s) \<noteq> [] \<longrightarrow> ep_due (en_calls E) (ep s)"
      using loop_invD(4) [OF assms(3)] 3 by (auto simp: attended_def)
    have "wakes (en_wake_fd E) b" if "ep_due (en_calls E) (ep s)"
      using assms(2) w b that unfolding reports_wakeup_def by blast
    with 3 w b due assms(7) show ?thesis
      by (auto simp: last_ok_def loop_step_def step_wait_def in_pass_def)
  next
    case (4 js)
    show ?thesis
    proof (cases js)
      case Nil
      with 4 assms(6,7) show ?thesis
        by (auto simp: last_ok_def loop_step_def on_ep_def die_def in_pass_def split: sum.splits)
    next
      case (Cons i js')
      with 4 assms(7) have "\<not> final_pass s" "stop_flag s" by (auto simp: last_ok_def in_pass_def)
      moreover have "\<exists>is. pc (loop_step E s) = Closing is" "final_pass (loop_step E s) = final_pass s"
        using 4 Cons assms(6)
        by (auto simp: loop_step_def finish_res_def die_def dest!: event_close_final(1) split: sum.splits if_splits)
      ultimately show ?thesis using thread_flags [of E s] by (auto simp: last_ok_def)
    qed
  qed
qed

text \<open>A call from outside that hands nothing over, or is made before the last pass.\<close>

lemma outside_last:
  assumes "last_ok E s" and "pc t = pc s" and "final_pass t = final_pass s" and "stop_flag s \<longrightarrow> stop_flag t"
    and "final_pass s \<longrightarrow> pending_add (ep s) = [] \<longrightarrow> pending_add (ep t) = []"
  shows "last_ok E t"
  using assms by (auto simp: last_ok_def in_pass_def)

lemma run_step_last:
  assumes "epoll_ok (en_wake_fd E) (en_calls E)" and "reports_wakeup (en_wake_fd E) (en_calls E)" and "loop_inv E s"
    and "stop_heard E s" and "run_step E s t" and "\<forall>x. pc t \<noteq> Dead x" and "attaching t = attaching s"
    and "stop_flag t = stop_flag s" and "created t = created s" and "last_ok E s"
  shows "last_ok E t"
  using assms(5,6)
proof (cases rule: run_step_kinds)
  case thread
  with thread_last [OF assms(1-3) _ assms(4) _ assms(10)] assms(6) show ?thesis by simp
next
  case (attach i)
  with assms(9) show ?thesis by (simp add: attach_frame_def)
next
  case other
  then have "incoming t = incoming s" "pc t = pc s" by (simp_all add: call_frame_def)
  then have "mset (pending_add (ep t)) = mset (pending_add (ep s))" using assms(7) by (simp add: incoming_def)
  with other assms(8) show ?thesis by (intro outside_last [OF assms(10)]) (auto simp: call_frame_def)
qed

text \<open>A step that creates and hands over nothing keeps the line and the calls together.\<close>

lemma run_step_order:
  assumes "loop_inv E s" and "run_step E s t" and "\<forall>x. pc t \<noteq> Dead x" and "attaching t = attaching s" and "created t = created s"
  shows "order E t = order E s"
  using assms(2,3)
proof (cases rule: run_step_kinds)
  case thread
  with loop_step_order [OF assms(1)] assms(3) show ?thesis by simp
next
  case (attach i)
  with assms(5) show ?thesis by (simp add: attach_frame_def)
next
  case other
  then have f: "incoming t = incoming s" "pc t = pc s" "history t = history s" by (simp_all add: call_frame_def)
  then have m: "mset (pending_add (ep t)) = mset (pending_add (ep s))" using assms(4) by (simp add: incoming_def)
  from run_step_queues [OF assms(2,3)] show ?thesis
  proof
    assume "t = loop_step E s"
    with loop_step_order [OF assms(1)] assms(3) show ?thesis by simp
  next
    assume "queues s t"
    then obtain xs where "pending_add (ep t) = pending_add (ep s) @ xs" by (auto simp: queues_def)
    with m have "pending_add (ep t) = pending_add (ep s)" by simp
    with f show ?thesis by (intro order_same) (simp_all add: line_def)
  qed
qed

text \<open>Without descriptors nothing can be overtaken.\<close>

lemma reach_alive:
  assumes "epoll_ok (en_wake_fd E) (en_calls E)" and "fresh_start E k" and "run_reach E (loop_new k) s"
    and "\<forall>i \<in> set (created s). en_handle E i < 0"
  shows "\<forall>x. pc s \<noteq> Dead x"
proof -
  have "\<not> overtaken E s"
  proof
    assume "overtaken E s"
    then obtain u i where u: "loop_inv E u" "s = die (Thrown ''event not found'') u" "0 \<le> en_handle E i" "i \<in> set (closed u)"
      unfolding overtaken_def by blast
    from life_sets(1) [OF loop_invD(1) [OF u(1), unfolded lives_def] u(4)] u(2) have "i \<in> set (created s)"
      by (simp add: die_def)
    with assms(4) u(3) show False by auto
  qed
  with run_reach_inv [OF assms(3,1,2)] loop_inv_not_dead show ?thesis by blast
qed

lemma execute_not_detaching:
  assumes "epoll_ok (en_wake_fd E) (en_calls E)" and "fresh_start E k" and "run_reach E (loop_new k) s"
    and "\<forall>x. pc s \<noteq> Dead x" and "\<forall>i \<in> set (created s). en_kind E i = Execute"
  shows "detaching s = []"
proof -
  have "loop_inv E s" using run_reach_inv [OF assms(3,1,2)] assms(4) overtakenD(1) by blast
  with assms(5) reach_detaching [OF assms(3)] detaching_closed(2) [of E s] show ?thesis
    by (meson last_in_set)
qed

subsection \<open>The program of \<open>execute_once\<close>\<close>

text \<open>
  The calls of \<open>main\<close>, each at the places where the loop thread may come between: an \<open>ExecuteOnce\<close> is the
  creation of its event and the hand-over, \<open>DestroyAll\<close> is the flag and the wakeup of \<open>Stop\<close>.
\<close>

datatype main_call = Begin nat | Give nat | Set_stop | Wake_stop

definition once_main :: "main_call list" where
  "once_main = [Begin 0, Give 0, Begin 1, Give 1, Set_stop, Wake_stop]"

definition once_print :: "nat \<Rightarrow> string" where
  "once_print i = (if i = 0 then ''Print1 100'' else ''Print2 2000 hello'')"

fun main_do :: "'k env \<Rightarrow> main_call \<Rightarrow> 'k loop \<Rightarrow> exn + 'k loop" where
  "main_do E (Begin i) s = attach_internal_begin i s"
| "main_do E (Give i) s = attach_end E i s"
| "main_do E Set_stop s = Inr (stop_set s)"
| "main_do E Wake_stop s = stop_wake E s"

text \<open>
  \<open>main\<close> makes its next call, or something else happens to the loop: the loop thread, the kernel, handlers
  that are destroyed; nobody else attaches or stops, and handlers not yet made are not gone.
\<close>

inductive once_step :: "'k env \<Rightarrow> main_call list \<times> 'k loop \<Rightarrow> main_call list \<times> 'k loop \<Rightarrow> bool" for E where
  main_thread: "running s \<Longrightarrow> \<not> lock_held s \<Longrightarrow> main_do E c s = Inr t \<Longrightarrow> once_step E (c # cs, s) (cs, t)"
| otherwise: "run_step E s t \<Longrightarrow> created t = created s \<Longrightarrow> attaching t = attaching s \<Longrightarrow> stop_flag t = stop_flag s \<Longrightarrow>
    stopping t = stopping s \<Longrightarrow> set (gone t) \<subseteq> set (gone s) \<union> set (created s) \<Longrightarrow> once_step E (cs, s) (cs, t)"

inductive once_reach :: "'k env \<Rightarrow> main_call list \<times> 'k loop \<Rightarrow> main_call list \<times> 'k loop \<Rightarrow> bool" for E x0 where
  begin_main: "once_reach E x0 x0"
| next_step: "once_reach E x0 x \<Longrightarrow> once_step E x y \<Longrightarrow> once_reach E x0 y"

text \<open>A \<open>main\<close> with any list of functions.\<close>

definition execute_program :: "nat list \<Rightarrow> main_call list" where
  "execute_program is = concat (map (\<lambda>i. [Begin i, Give i]) is) @ [Set_stop, Wake_stop]"

lemma execute_program_simps:
  "execute_program [] = [Set_stop, Wake_stop]" "execute_program (i # is) = Begin i # Give i # execute_program is"
  by (simp_all add: execute_program_def)

lemma once_main_program: "once_main = execute_program [0, 1]"
  by (simp add: once_main_def execute_program_def)

text \<open>Where \<open>main\<close> is, when the functions \<open>given\<close> have been handed over and \<open>rest\<close> are left.\<close>

definition main_at :: "nat list \<Rightarrow> nat list \<Rightarrow> main_call list \<Rightarrow> 'k loop \<Rightarrow> bool" where
  "main_at given rest cs s \<longleftrightarrow>
     (cs = execute_program rest \<and> created s = given \<and> attaching s = [] \<and> \<not> stop_flag s)
   \<or> (\<exists>i rest'. rest = i # rest' \<and> cs = Give i # execute_program rest' \<and> created s = given @ [i] \<and> attaching s = [i]
        \<and> \<not> stop_flag s)
   \<or> (rest = [] \<and> created s = given \<and> attaching s = [] \<and> stop_flag s
        \<and> (cs = [Wake_stop] \<and> stopping s \<or> cs = [] \<and> \<not> stopping s))"

definition once_inv :: "'k env \<Rightarrow> 'k \<Rightarrow> nat list \<Rightarrow> main_call list \<times> 'k loop \<Rightarrow> bool" where
  "once_inv E k is x \<longleftrightarrow>
     run_reach E (loop_new k) (snd x) \<and> last_ok E (snd x) \<and> set (gone (snd x)) \<subseteq> set (created (snd x))
   \<and> (\<exists>given rest. is = given @ rest \<and> order E (snd x) = given \<and> main_at given rest (fst x) (snd x))"

definition all_execute :: "'k env \<Rightarrow> nat list \<Rightarrow> bool" where
  "all_execute E is \<longleftrightarrow> distinct is \<and> (\<forall>i \<in> set is. en_kind E i = Execute \<and> en_handle E i < 0)"

lemma main_created: "main_at given rest cs s \<Longrightarrow> set (created s) \<subseteq> set (given @ rest)"
  by (auto simp: main_at_def)

lemma once_start: "once_inv E k is (execute_program is, loop_new k)"
  by (auto simp: once_inv_def main_at_def last_ok_def loop_new_def ep_new_def order_def executed_by_def in_line_def line_def
      in_pass_def intro: run_reach.start)

lemma give_order:
  assumes "attach_end E i s = Inr t" and "en_kind E i = Execute"
  shows "order E t = order E s @ [i]"
  using give_effect [OF assms(1)] assms(2) by (simp add: order_def executed_by_def in_line_def line_def)

lemma main_step_inv:
  assumes "epoll_ok (en_wake_fd E) (en_calls E)" and "fresh_start E k" and "all_execute E is"
    and "once_inv E k is (c # cs, s)" and "running s" and "\<not> lock_held s" and "main_do E c s = Inr t"
  shows "once_inv E k is (cs, t)"
proof -
  from assms(4) obtain given rest where
    g: "is = given @ rest" "order E s = given" "main_at given rest (c # cs) s"
    and r: "run_reach E (loop_new k) s" and lk: "last_ok E s" and gn: "set (gone s) \<subseteq> set (created s)"
    by (auto simp: once_inv_def)
  have ex: "en_kind E i = Execute \<and> en_handle E i < 0" if "i \<in> set is" for i
    using assms(3) that by (simp add: all_execute_def)
  show ?thesis
  proof (cases c)
    case (Begin i)
    with g(3) obtain rest' where m: "rest = i # rest'" "cs = Give i # execute_program rest'" "created s = given"
      "attaching s = []" "\<not> stop_flag s"
      by (cases rest) (auto simp: main_at_def execute_program_simps)
    with Begin assms(7) have t: "attach_internal_begin i s = Inr t" by simp
    note e = begin_effect [OF t]
    have i: "i \<in> set is" "i \<notin> set given" using m(1) g(1) assms(3) by (auto simp: all_execute_def)
    have "run_step E s t"
      by (rule run_step.internal_attach [OF assms(5,6) _ _ _ _ t]) (use i ex gn m(3) in \<open>auto simp: fresh_handle_def\<close>)
    with r have "run_reach E (loop_new k) t" by (rule run_reach.move)
    moreover have "last_ok E t" by (rule outside_last [OF lk]) (use e in simp_all)
    moreover have "order E t = given" using e g(2) order_same [of t s E] by (simp add: line_def)
    moreover have "main_at given rest cs t" using e m by (auto simp: main_at_def)
    ultimately show ?thesis using g(1) e gn by (auto simp: once_inv_def)
  next
    case (Give i)
    with g(3) obtain rest' where m: "rest = i # rest'" "cs = execute_program rest'" "created s = given @ [i]"
      "attaching s = [i]" "\<not> stop_flag s"
      by (cases rest) (auto simp: main_at_def execute_program_simps)
    with Give assms(7) have t: "attach_end E i s = Inr t" by simp
    note e = give_effect [OF t]
    have "run_step E s t" by (rule run_step.hand_over [OF assms(5) _ t]) (simp add: m(4))
    with r have "run_reach E (loop_new k) t" by (rule run_reach.move)
    moreover have "last_ok E t" by (rule outside_last [OF lk]) (use e m(5) lk in \<open>auto simp: last_ok_def\<close>)
    moreover have "order E t = given @ [i]" using give_order [OF t] ex m(1) g(1,2) by simp
    moreover have "main_at (given @ [i]) rest' cs t" using e m by (auto simp: main_at_def)
    ultimately show ?thesis using g(1) m(1) e gn by (force simp: once_inv_def)
  next
    case Set_stop
    with g(3) have m: "rest = []" "cs = [Wake_stop]" "created s = given" "attaching s = []"
      by (cases rest; auto simp: main_at_def execute_program_simps)+
    from Set_stop assms(7) have t: "t = stop_set s" by simp
    have "run_reach E (loop_new k) t" unfolding t by (rule run_reach.move [OF r run_step.stop_begin [OF assms(5)]])
    moreover have "last_ok E t" by (rule outside_last [OF lk]) (simp_all add: t stop_set_def)
    moreover have "order E t = given" using g(2) order_same [of t s E] by (simp add: line_def t stop_set_def)
    ultimately show ?thesis using g(1) m gn by (auto simp: once_inv_def main_at_def t stop_set_def)
  next
    case Wake_stop
    with g(3) have m: "rest = []" "cs = []" "created s = given" "attaching s = []" "stop_flag s" "stopping s"
      by (cases rest; auto simp: main_at_def execute_program_simps)+
    from Wake_stop assms(7) have t: "stop_wake E s = Inr t" by simp
    note e = wake_effect [OF t]
    have "run_reach E (loop_new k) t" by (rule run_reach.move [OF r run_step.stop_end [OF assms(5) m(6) t]])
    moreover have "last_ok E t" by (rule outside_last [OF lk]) (use e in simp_all)
    moreover have "order E t = given" using e g(2) order_same [of t s E] by (simp add: line_def)
    ultimately show ?thesis using g(1) m gn e by (auto simp: once_inv_def main_at_def)
  qed
qed

lemma once_step_inv:
  assumes "epoll_ok (en_wake_fd E) (en_calls E)" and "reports_wakeup (en_wake_fd E) (en_calls E)" and "fresh_start E k"
    and "all_execute E is" and "once_inv E k is x" and "once_step E x y"
  shows "once_inv E k is y"
  using assms(6)
proof cases
  case (main_thread s c t cs)
  with main_step_inv [OF assms(1,3,4)] assms(5) show ?thesis by blast
next
  case (otherwise s t cs)
  from assms(5) otherwise(1) obtain given rest where
    g: "is = given @ rest" "order E s = given" "main_at given rest cs s"
    and r: "run_reach E (loop_new k) s" and lk: "last_ok E s" and gn: "set (gone s) \<subseteq> set (created s)"
    by (auto simp: once_inv_def)
  have iv: "loop_inv E s" by (rule reach_running_inv [OF r assms(1,3) run_step_from_alive [OF otherwise(3)]])
  have rt: "run_reach E (loop_new k) t" by (rule run_reach.move [OF r otherwise(3)])
  have nd: "\<forall>x. pc t \<noteq> Dead x"
    by (rule reach_alive [OF assms(1,3) rt])
       (use main_created [OF g(3)] g(1) otherwise(4) assms(4) in \<open>auto simp: all_execute_def\<close>)
  have "stop_heard E s" using reach_heard [OF _ r] assms(1) by (simp add: epoll_ok_def)
  from run_step_last [OF assms(1,2) iv this otherwise(3) nd otherwise(5,6,4) lk]
    run_step_order [OF iv otherwise(3) nd otherwise(5,4)] g rt gn otherwise(2,4-8)
  show ?thesis by (auto simp: once_inv_def main_at_def)
qed

lemma once_reach_inv:
  assumes "epoll_ok (en_wake_fd E) (en_calls E)" and "reports_wakeup (en_wake_fd E) (en_calls E)" and "fresh_start E k"
    and "all_execute E is" and "once_reach E (execute_program is, loop_new k) x"
  shows "once_inv E k is x"
  using assms(5)
proof (induction rule: once_reach.induct)
  case begin_main
  show ?case by (rule once_start)
next
  case (next_step x y)
  from once_step_inv [OF assms(1-4) next_step(3,2)] show ?case .
qed

text \<open>The loop thread goes on alone.\<close>

lemma once_thread:
  assumes "epoll_ok (en_wake_fd E) (en_calls E)" and "reports_wakeup (en_wake_fd E) (en_calls E)" and "fresh_start E k"
    and "all_execute E is" and "once_inv E k is (cs, s)"
  shows "once_inv E k is (cs, (loop_step E ^^ n) s)"
proof (induction n)
  case (Suc n)
  let ?u = "(loop_step E ^^ n) s"
  have r: "run_reach E (loop_new k) ?u" using Suc by (simp add: once_inv_def)
  show ?case
  proof (cases "running ?u")
    case True
    have iv: "loop_inv E ?u" by (rule reach_running_inv [OF r assms(1,3) True])
    then have st: "run_step E ?u (loop_step E ?u)" using True by (intro run_step.thread) (simp_all add: loop_inv_def books_ok_def)
    from Suc obtain given rest where "is = given @ rest" "main_at given rest cs ?u" by (auto simp: once_inv_def)
    with assms(4) main_created [of given rest cs ?u] have "\<forall>i \<in> set (created (loop_step E ?u)). en_handle E i < 0"
      by (auto simp: all_execute_def thread_flags)
    with reach_alive [OF assms(1,3) run_reach.move [OF r st]] have "\<forall>x. pc (loop_step E ?u) \<noteq> Dead x" by blast
    with loop_step_grows [of E ?u] have "gone (loop_step E ?u) = gone ?u" by blast
    with thread_flags [of E ?u] have "once_step E (cs, ?u) (cs, loop_step E ?u)"
      by (intro once_step.otherwise [OF st]) simp_all
    from once_step_inv [OF assms(1-4) Suc this] show ?thesis by simp
  next
    case False
    then have "loop_step E ?u = ?u" by (auto simp: loop_step_def running_def split: pc.splits)
    with Suc show ?thesis by simp
  qed
qed (simp add: assms(5))

lemma program_runs:
  assumes "epoll_ok (en_wake_fd E) (en_calls E)" and "efd_drains (en_calls E)"
    and "reports_wakeup (en_wake_fd E) (en_calls E)" and "fresh_start E k" and "all_execute E is"
    and "once_inv E k is (cs, s)"
  shows "\<forall>x. pc s \<noteq> Dead x" and "prefix (executed_by E s) is" and "pc s = Finished \<Longrightarrow> executed_by E s = is"
    and "cs = [] \<Longrightarrow> \<exists>n. pc ((loop_step E ^^ n) s) = Finished"
proof -
  have alive: "\<forall>x. pc u \<noteq> Dead x" if u: "once_inv E k is (cs, u)" for u
  proof -
    from u obtain given rest where "is = given @ rest" "main_at given rest cs u" by (auto simp: once_inv_def)
    with assms(5) main_created [of given rest cs u] have "\<forall>i \<in> set (created u). en_handle E i < 0" by (auto simp: all_execute_def)
    with reach_alive [OF assms(1,4)] u show ?thesis by (auto simp: once_inv_def)
  qed
  show "\<forall>x. pc s \<noteq> Dead x" by (rule alive [OF assms(6)])
  from assms(6) obtain given rest where g: "is = given @ rest" "order E s = given" "main_at given rest cs s"
    and lk: "last_ok E s" and r: "run_reach E (loop_new k) s" by (auto simp: once_inv_def)
  from g show "prefix (executed_by E s) is" by (auto simp: order_def)
  show "executed_by E s = is" if f: "pc s = Finished"
  proof -
    have "final_pass s" "stop_flag s" "pending_add (ep s) = []" using lk f by (auto simp: last_ok_def)
    with f g show ?thesis by (auto simp: main_at_def order_def in_line_def line_def)
  qed
  show "\<exists>n. pc ((loop_step E ^^ n) s) = Finished" if c: "cs = []"
  proof -
    from g(3) c have "stop_flag s" "\<not> stopping s" by (auto simp: main_at_def execute_program_def)
    moreover have "detaching s = []"
      by (rule execute_not_detaching [OF assms(1,4) r alive [OF assms(6)]])
         (use main_created [OF g(3)] g(1) assms(5) in \<open>auto simp: all_execute_def\<close>)
    ultimately obtain n where "at_end ((loop_step E ^^ n) s)" using stop_ends [OF assms(1,2,4) r] by blast
    with alive [OF once_thread [OF assms(1,3,4,5,6), of n]] show ?thesis by (auto simp: at_end_def)
  qed
qed

text \<open>The calls of \<open>main\<close> one after the other.\<close>

fun run_main :: "'k env \<Rightarrow> main_call list \<Rightarrow> 'k loop \<Rightarrow> 'k loop option" where
  "run_main E [] s = Some s"
| "run_main E (c # cs) s =
     (if running s \<and> \<not> lock_held s
      then case main_do E c s of Inl x \<Rightarrow> None | Inr t \<Rightarrow> run_main E cs t else None)"

lemma run_main_reach: "run_main E cs s = Some t \<Longrightarrow> once_reach E x0 (cs, s) \<Longrightarrow> once_reach E x0 ([], t)"
proof (induction cs arbitrary: s)
  case (Cons c cs)
  then obtain u where u: "running s" "\<not> lock_held s" "main_do E c s = Inr u" "run_main E cs u = Some t"
    by (auto split: if_splits sum.splits)
  from Cons.IH [OF u(4) once_reach.next_step [OF Cons.prems(2) once_step.main_thread [OF u(1-3)]]] show ?case .
qed simp

lemma demo_two_reports: "reports_wakeup (en_wake_fd demo_two) (en_calls demo_two)" "efd_drains (en_calls demo_two)"
  using scripted_reports scripted_drains by (simp_all add: demo_two_def)

text \<open>
  C7: the sample \<open>execute_once\<close>.  In every interleaving of its \<open>main\<close> with the loop thread and whatever the
  kernel does: the loop thread does not die; the lines come in the order of the calls; when the loop thread has
  ended both have been printed; and when \<open>main\<close> is in the join of \<open>DestroyAll\<close>, the loop thread ends.
\<close>

theorem execute_once_prints:
  assumes "epoll_ok (en_wake_fd E) (en_calls E)" and "efd_drains (en_calls E)"
    and "reports_wakeup (en_wake_fd E) (en_calls E)" and "fresh_start E k" and "all_execute E [0, 1]"
    and "once_reach E (once_main, loop_new k) (cs, s)"
  shows "(\<forall>x. pc s \<noteq> Dead x)
    \<and> prefix (map once_print (executed_by E s)) [''Print1 100'', ''Print2 2000 hello'']
    \<and> (pc s = Finished \<longrightarrow> map once_print (executed_by E s) = [''Print1 100'', ''Print2 2000 hello''])
    \<and> (cs = [] \<longrightarrow> (\<exists>n. pc ((loop_step E ^^ n) s) = Finished))"
proof -
  have iv: "once_inv E k [0, 1] (cs, s)"
    by (rule once_reach_inv [OF assms(1,3-5)]) (use assms(6) in \<open>simp add: once_main_program\<close>)
  note p = program_runs [OF assms(1-5) iv]
  have l: "map once_print [0, 1] = [''Print1 100'', ''Print2 2000 hello'']" by (simp add: once_print_def)
  from p show ?thesis unfolding l [symmetric] by (metis map_mono_prefix)
qed

theorem execute_once_prints_witness:
  "\<exists>s n. once_reach demo_two (once_main, loop_new (ek_start [])) ([], s) \<and> pc ((loop_step demo_two ^^ n) s) = Finished"
proof -
  obtain s where s: "run_main demo_two once_main (loop_new (ek_start [])) = Some s"
    by (simp add: once_main_def demo_two_def loop_eval stop_wake_def)
  have r: "once_reach demo_two (once_main, loop_new (ek_start [])) ([], s)"
    by (rule run_main_reach [OF s once_reach.begin_main])
  have "all_execute demo_two [0, 1]" by (simp add: all_execute_def demo_two_def)
  from execute_once_prints [OF demo_two_ok(1) demo_two_reports(2,1) demo_two_ok(2) this r] r show ?thesis by blast
qed

subsection \<open>The program of \<open>execute_interval\<close>\<close>

text \<open>
  The calls of \<open>main\<close>: \<open>ExecuteInterval\<close> and \<open>ExecuteOnceIn\<close> are the creation of the timer, with its durations
  in nanoseconds, of its event, and the hand-over; \<open>Cancel\<close> sets \<open>canceled_\<close>, closes the event unless it is closed, and
  hands the removal over if it closed it.  Between the calls \<open>main\<close> sleeps.
\<close>

datatype interval_call = Make nat int int | Enter nat | Hand nat | Cancel_flag nat | Cancel_mark nat | Cancel_hand nat
  | Stop_flag | Stop_wake

definition interval_main :: "interval_call list" where
  "interval_main =
     [Make 0 100000000 0, Enter 0, Hand 0, Make 1 200000000 0, Enter 1, Hand 1, Make 2 0 500000000, Enter 2, Hand 2,
      Cancel_flag 0, Cancel_mark 0, Cancel_hand 0, Stop_flag, Stop_wake]"

fun timer_of :: "('k, 'h) timed \<Rightarrow> nat \<Rightarrow> exn + 'h timer" where
  "timer_of y i = (case tl_timer y i of None \<Rightarrow> Inl (Thrown ''no timer'') | Some s \<Rightarrow> Inr s)"

fun interval_do :: "'k env \<Rightarrow> 'h \<Rightarrow> interval_call \<Rightarrow> ('k, 'h) timed \<Rightarrow> exn + ('k, 'h) timed" where
  "interval_do E h (Make i interval execute_in) y = Inr (y\<lparr>tl_timer := (tl_timer y)(i \<mapsto> timer_new (interval = 0) h)\<rparr>)"
| "interval_do E h (Enter i) y =
     bindE (timer_of y i) (\<lambda>s. bindE (attach_internal_begin i (timer_answers i (tl_loop y))) (\<lambda>l.
       Inr (y\<lparr>tl_loop := l, tl_timer := (tl_timer y)(i \<mapsto> s\<lparr>tm_has_event := True\<rparr>)\<rparr>)))"
| "interval_do E h (Hand i) y = bindE (attach_end E i (tl_loop y)) (\<lambda>l. Inr (y\<lparr>tl_loop := l\<rparr>))"
| "interval_do E h (Cancel_flag i) y =
     bindE (timer_of y i) (\<lambda>s.
       Inr (y\<lparr>tl_timer := (tl_timer y)(i \<mapsto> s\<lparr>tm_canceled := True\<rparr>), tl_owed := (tl_owed y)(i := tl_owed y i + 1)\<rparr>))"
| "interval_do E h (Cancel_mark i) y =
     bindE (timer_of y i) (\<lambda>s.
       case close_begin i (tl_loop y) of
         Inl (x, l) \<Rightarrow> Inl x
       | Inr l \<Rightarrow>
           Inr (y\<lparr>tl_loop := l, tl_timer := (tl_timer y)(i \<mapsto> timer_close_event s), tl_owed := (tl_owed y)(i := tl_owed y i - 1)\<rparr>))"
| "interval_do E h (Cancel_hand i) y =
     (if i \<in> set (detaching (tl_loop y)) then bindE (close_end E i (tl_loop y)) (\<lambda>l. Inr (y\<lparr>tl_loop := l\<rparr>)) else Inr y)"
| "interval_do E h Stop_flag y = Inr (y\<lparr>tl_loop := stop_set (tl_loop y)\<rparr>)"
| "interval_do E h Stop_wake y = bindE (stop_wake E (tl_loop y)) (\<lambda>l. Inr (y\<lparr>tl_loop := l\<rparr>))"

text \<open>
  \<open>main\<close> makes its next call, as a step of the composition, or has nothing to hand over; or something else happens, but
  nobody else makes timers.
\<close>

inductive interval_step ::
  "'k env \<Rightarrow> (nat \<Rightarrow> 'h \<Rightarrow> exn + bool \<times> 'h) \<Rightarrow> (nat \<Rightarrow> errno + 64 word \<Rightarrow> bool) \<Rightarrow> 'h \<Rightarrow>
     interval_call list \<times> ('k, 'h) timed \<Rightarrow> interval_call list \<times> ('k, 'h) timed \<Rightarrow> bool"
  for E func reads h where
  main_thread: "interval_do E h c y = Inr z \<Longrightarrow> tl_step E func reads y z \<or> z = y \<Longrightarrow>
    interval_step E func reads h (c # cs, y) (cs, z)"
| otherwise: "tl_step E func reads y z \<Longrightarrow> dom (tl_timer z) = dom (tl_timer y) \<Longrightarrow>
    interval_step E func reads h (cs, y) (cs, z)"

inductive interval_reach ::
  "'k env \<Rightarrow> (nat \<Rightarrow> 'h \<Rightarrow> exn + bool \<times> 'h) \<Rightarrow> (nat \<Rightarrow> errno + 64 word \<Rightarrow> bool) \<Rightarrow> 'h \<Rightarrow>
     interval_call list \<times> ('k, 'h) timed \<Rightarrow> interval_call list \<times> ('k, 'h) timed \<Rightarrow> bool"
  for E func reads h x0 where
  begin_main: "interval_reach E func reads h x0 x0"
| next_step: "interval_reach E func reads h x0 x \<Longrightarrow> interval_step E func reads h x y \<Longrightarrow> interval_reach E func reads h x0 y"

lemma interval_tl:
  assumes "interval_reach E func reads h x y"
  shows "tl_reach E func reads (snd x) (snd y)"
  using assms
proof (induction rule: interval_reach.induct)
  case (next_step u v)
  from next_step(2,3) show ?case by cases (auto intro: tl_reach.move)
qed (rule tl_reach.start)

text \<open>
  What is left of \<open>main\<close>; the timers it made, with the one that runs once; and behind the two parts of \<open>Cancel\<close>, the
  flag and the closed event.
\<close>

definition interval_inv :: "interval_call list \<times> ('k, 'h) timed \<Rightarrow> bool" where
  "interval_inv x \<longleftrightarrow>
     suffix (fst x) interval_main
   \<and> (\<forall>i s. tl_timer (snd x) i = Some s \<longrightarrow> tm_run_once s = (i = 2))
   \<and> (length (fst x) \<le> 4 \<longrightarrow> (\<exists>s. tl_timer (snd x) 0 = Some s \<and> tm_canceled s))
   \<and> (length (fst x) \<le> 3 \<longrightarrow> (\<forall>x'. pc (tl_loop (snd x)) \<noteq> Dead x') \<longrightarrow> 0 \<in> set (closed (tl_loop (snd x))))"

lemma interval_suffix:
  assumes "suffix (c # cs) interval_main"
  shows "(length cs \<le> 4 \<and> \<not> length (c # cs) \<le> 4 \<longrightarrow> c = Cancel_flag 0)
    \<and> (length cs \<le> 3 \<and> \<not> length (c # cs) \<le> 3 \<longrightarrow> c = Cancel_mark 0)
    \<and> (\<forall>i d e. c = Make i d e \<longrightarrow> (d = 0) = (i = 2))"
proof -
  from assms have "c # cs \<in> set (suffixes interval_main)" by simp
  then show ?thesis by (auto simp: interval_main_def)
qed

lemma interval_do_timers:
  assumes "interval_do E h c y = Inr z" and "tl_timer z i = Some t" and "tl_timer y i = None"
  shows "\<exists>d e. c = Make i d e \<and> t = timer_new (d = 0) h"
  using assms by (cases c) (auto split: if_splits option.splits sum.splits prod.splits)

lemma interval_kept:
  assumes "interval_step E func reads h x y"
  shows "timer_kept (snd x) (snd y)" and "\<forall>x'. pc (tl_loop (snd y)) \<noteq> Dead x' \<Longrightarrow>
    (\<forall>x'. pc (tl_loop (snd x)) \<noteq> Dead x') \<and> set (closed (tl_loop (snd x))) \<subseteq> set (closed (tl_loop (snd y)))"
proof -
  have "tl_step E func reads (snd x) (snd y) \<or> snd y = snd x" using assms by cases auto
  with tl_step_kept [of E func reads "snd x" "snd y"] tl_step_closed [of E func reads "snd x" "snd y"]
  show "timer_kept (snd x) (snd y)" and "\<forall>x'. pc (tl_loop (snd y)) \<noteq> Dead x' \<Longrightarrow>
    (\<forall>x'. pc (tl_loop (snd x)) \<noteq> Dead x') \<and> set (closed (tl_loop (snd x))) \<subseteq> set (closed (tl_loop (snd y)))"
    by (auto simp: timer_kept_def)
qed

lemma interval_step_inv:
  assumes "interval_step E func reads h x y" and "interval_inv x"
  shows "interval_inv y"
proof -
  note kp = interval_kept(1) [OF assms(1)] and cl = interval_kept(2) [OF assms(1)]
  have old: "tm_run_once t = (i = 2)" if "tl_timer (snd y) i = Some t" "tl_timer (snd x) i \<noteq> None" for i t
    using kp assms(2) that by (fastforce simp: timer_kept_def interval_inv_def)
  have cancelled: "\<exists>t. tl_timer (snd y) 0 = Some t \<and> tm_canceled t" if "tl_timer (snd x) 0 = Some s" "tm_canceled s" for s
    using kp that by (fastforce simp: timer_kept_def)
  have closes: "0 \<in> set (closed (tl_loop (snd y)))"
    if "length (fst x) \<le> 3" "\<forall>x'. pc (tl_loop (snd y)) \<noteq> Dead x'"
    using cl [OF that(2)] assms(2) that(1) by (auto simp: interval_inv_def)
  from assms(1) show ?thesis
  proof cases
    case (main_thread c u z cs)
    from assms(2) main_thread(1) have sf: "suffix (c # cs) interval_main" by (simp add: interval_inv_def)
    note f = interval_suffix [OF sf]
    have "tm_run_once t = (i = 2)" if "tl_timer z i = Some t" for i t
    proof (cases "tl_timer u i")
      case None
      from interval_do_timers [OF main_thread(3) that None] f show ?thesis by (auto simp: timer_new_def)
    next
      case Some
      with old [of i t] that main_thread(1,2) show ?thesis by simp
    qed
    moreover have "\<exists>s. tl_timer z 0 = Some s \<and> tm_canceled s" if "length cs \<le> 4"
    proof (cases "length (c # cs) \<le> 4")
      case True
      with assms(2) main_thread(1,2) cancelled show ?thesis by (auto simp: interval_inv_def)
    next
      case False
      with f that have "c = Cancel_flag 0" by blast
      with main_thread(3) show ?thesis by (auto split: option.splits)
    qed
    moreover have "0 \<in> set (closed (tl_loop z))" if "length cs \<le> 3" "\<forall>x'. pc (tl_loop z) \<noteq> Dead x'"
    proof (cases "length (c # cs) \<le> 3")
      case True
      with closes main_thread(1,2) that(2) show ?thesis by simp
    next
      case False
      with f that have "c = Cancel_mark 0" by blast
      with main_thread(3) show ?thesis by (auto simp: close_begin_def split: option.splits if_splits)
    qed
    moreover have "suffix cs interval_main" using sf by (rule suffix_ConsD)
    ultimately show ?thesis using main_thread(2) by (simp add: interval_inv_def)
  next
    case (otherwise u z cs)
    have "tm_run_once t = (i = 2)" if "tl_timer z i = Some t" for i t
      using old [of i t] that otherwise(1,2,4) by (auto simp: dom_def)
    with assms(2) otherwise(1,2) cancelled closes show ?thesis by (auto simp: interval_inv_def)
  qed
qed

lemma interval_reach_inv:
  assumes "interval_reach E func reads h (interval_main, tl_start k) x"
  shows "interval_inv x"
  using assms
proof (induction rule: interval_reach.induct)
  case begin_main
  show ?case by (simp add: interval_inv_def tl_start_def) (simp add: interval_main_def)
next
  case (next_step x y)
  from interval_step_inv [OF next_step(2,3)] show ?case .
qed

text \<open>Runs to evaluate: the next call of \<open>main\<close>, or a move of the loop and the timers.\<close>

fun move_of :: "interval_call \<Rightarrow> tl_move option" where
  "move_of (Make i d e) = Some (T_make i (d = 0))"
| "move_of (Enter i) = Some (T_enter i)"
| "move_of (Hand i) = Some (T_hand_over i)"
| "move_of (Cancel_flag i) = Some (T_flag i)"
| "move_of (Cancel_mark i) = Some (T_mark i)"
| "move_of (Cancel_hand i) = Some (T_detach i)"
| "move_of c = None"

fun interval_run ::
  "'k env \<Rightarrow> (nat \<Rightarrow> 'h \<Rightarrow> exn + bool \<times> 'h) \<Rightarrow> 'h \<Rightarrow> tl_move option list \<Rightarrow>
     interval_call list \<Rightarrow> ('k, 'h) timed \<Rightarrow> (interval_call list \<times> ('k, 'h) timed) option" where
  "interval_run E func h [] cs y = Some (cs, y)"
| "interval_run E func h (None # ms) cs y =
     (case cs of
        [] \<Rightarrow> None
      | c # cs \<Rightarrow> Option.bind (move_of c) (\<lambda>m. Option.bind (tl_do E func h m y) (\<lambda>z. interval_run E func h ms cs z)))"
| "interval_run E func h (Some m # ms) cs y =
     (if m = T_thread \<or> (\<exists>r. m = T_handle r)
      then Option.bind (tl_do E func h m y) (\<lambda>z. interval_run E func h ms cs z) else None)"

lemma move_of_do:
  assumes "move_of c = Some m" and "tl_do E func h m y = Some z" and "tl_at z = tl_at y"
  shows "interval_do E h c y = Inr z"
  using assms
  by (cases c) (auto simp: tl_else_def split: if_splits option.splits sum.splits)

lemma tl_do_dom:
  assumes "tl_do E func h m y = Some z" and "m = T_thread \<or> (\<exists>r. m = T_handle r)"
  shows "dom (tl_timer z) = dom (tl_timer y)"
  using assms by (auto simp: tl_else_def split: if_splits option.splits sum.splits pc.splits)

lemma move_of_served:
  assumes "move_of c = Some m" and "tl_do E func h m y = Some z"
  shows "tl_at z = tl_at y"
  using assms by (cases c) (auto simp: tl_else_def split: if_splits option.splits sum.splits)

lemma interval_run_reach:
  assumes "interval_run E func h ms cs y = Some x" and "interval_reach E func reads h x0 (cs, y)"
    and "\<forall>r. Some (T_handle r) \<in> set ms \<longrightarrow> (\<forall>i. reads i r)"
  shows "interval_reach E func reads h x0 x"
  using assms
proof (induction E func h ms cs y rule: interval_run.induct)
  case (2 E func h ms cs y)
  then obtain c cs' m z where c: "cs = c # cs'" "move_of c = Some m" "tl_do E func h m y = Some z"
    "interval_run E func h ms cs' z = Some x" by (auto simp: bind_eq_Some_conv split: list.splits)
  have "reads_ok reads m" using c(2) by (cases c) auto
  with c interval_step.main_thread [OF move_of_do [OF c(2,3) move_of_served [OF c(2,3)]] disjI1 [OF tl_do_step [OF c(3)]]]
  have "interval_step E func reads h (cs, y) (cs', z)" by simp
  from 2(1) [OF c(1,2,3,4) interval_reach.next_step [OF 2(3) this]] 2(4) show ?case by simp
next
  case (3 E func h m ms cs y)
  from 3(2) have m: "m = T_thread \<or> (\<exists>r. m = T_handle r)" by (simp split: if_splits)
  with 3(2) obtain z where z: "tl_do E func h m y = Some z" "interval_run E func h ms cs z = Some x"
    by (auto simp: bind_eq_Some_conv)
  have "reads_ok reads m" using m 3(4) by (cases m) auto
  from interval_step.otherwise [OF tl_do_step [OF z(1) this] tl_do_dom [OF z(1) m]]
  have "interval_step E func reads h (cs, y) (cs, z)" .
  from 3(1) [OF m z(1,2) interval_reach.next_step [OF 3(3) this]] 3(4) show ?case by simp
qed simp

definition demo_timers :: "ek env" where
  "demo_timers = demo\<lparr>en_handle := (\<lambda>i. int i + 7), en_kind := (\<lambda>i. Timer)\<rparr>"

lemma demo_timers_ok: "epoll_ok (en_wake_fd demo_timers) (en_calls demo_timers)" "fresh_start demo_timers (ek_start bs)"
  using demo_ok demo_start [of bs] by (simp_all add: demo_timers_def fresh_start_def)

text \<open>\<open>main\<close> sets \<open>canceled_\<close> when the loop thread is past the test of it: \<open>Print1\<close> still runs, behind the call of \<open>Cancel\<close>.\<close>

definition sample_begin :: "tl_move option list" where
  "sample_begin = replicate 9 None @ replicate 18 (Some T_thread) @ [Some (T_handle (Inr 1)), None]"

definition sample_end :: "tl_move option list" where
  "sample_end = replicate 3 (Some (T_handle (Inr 1))) @ [None, None]"

lemma sample_value:
  "\<exists>y z s t. interval_run demo_timers idle_func () sample_begin interval_main (tl_start (ek_start [[], [(7, 1)]]))
       = Some ([Cancel_mark 0, Cancel_hand 0, Stop_flag, Stop_wake], y)
     \<and> tl_timer y 0 = Some s \<and> runs s = 0
     \<and> interval_run demo_timers idle_func () sample_end [Cancel_mark 0, Cancel_hand 0, Stop_flag, Stop_wake] y
       = Some ([Stop_flag, Stop_wake], z)
     \<and> tl_timer z 0 = Some t \<and> runs t = 1 \<and> (\<forall>x. pc (tl_loop z) \<noteq> Dead x)"
  by (simp add: sample_begin_def sample_end_def interval_main_def demo_timers_def loop_eval tl_eval runs_def
      close_begin_def close_end_def)

text \<open>
  C34: the sample \<open>execute_interval\<close>.  In every interleaving of its \<open>main\<close> with the loop thread, the timers
  and the kernel: from where \<open>handle->Cancel()\<close> has set \<open>canceled_\<close>, \<open>Print1\<close> runs at most as often again as it still had to in the
  \<open>HandleEvents\<close> that the loop thread was in (ten times at most, and never when the loop thread was not past the test of
  \<open>canceled_\<close> there); once \<open>Cancel\<close> has closed the event it stays closed, as long as the loop thread
  lives; and \<open>Print3\<close>, whose timer expires once, has run at most once.
\<close>

theorem execute_interval_cancels:
  assumes "epoll_ok (en_wake_fd E) (en_calls E)" and "fresh_start E k" and "one_shot (reads 2)"
    and "interval_reach E func reads h (interval_main, tl_start k) (cs, y)"
    and "suffix cs [Cancel_mark 0, Cancel_hand 0, Stop_flag, Stop_wake]"
    and "interval_reach E func reads h (cs, y) (cs', z)"
  shows "(\<exists>s t. tl_timer y 0 = Some s \<and> tl_timer z 0 = Some t \<and> runs s \<le> runs t \<and> runs t \<le> runs s + calls_left 0 y)
    \<and> (suffix cs' [Cancel_hand 0, Stop_flag, Stop_wake] \<longrightarrow> (\<forall>x. pc (tl_loop z) \<noteq> Dead x) \<longrightarrow> 0 \<in> set (closed (tl_loop z)))
    \<and> (\<forall>u. tl_timer z 2 = Some u \<longrightarrow> runs u \<le> 1)"
proof -
  have r: "tl_reach E func reads (tl_start k) y" "tl_reach E func reads y z"
    using interval_tl [OF assms(4)] interval_tl [OF assms(6)] by simp_all
  have q: "interval_reach E func reads h (interval_main, tl_start k) (cs', z)"
    using assms(6,4) by (induction rule: interval_reach.induct) (auto intro: interval_reach.next_step)
  have "length cs \<le> 4" using suffix_length_le [OF assms(5)] by simp
  with interval_reach_inv [OF assms(4)] obtain s where s: "tl_timer y 0 = Some s" "tm_canceled s"
    by (auto simp: interval_inv_def)
  have "runs u \<le> 1" if "tl_timer z 2 = Some u" for u
  proof (rule once_timer_runs [where reads = reads and i = 2, OF assms(1,2) _ assms(3) that])
    show "tl_reach E func reads (tl_start k) z" using interval_tl [OF q] by simp
    show "tm_run_once u" using interval_reach_inv [OF q] that by (simp add: interval_inv_def)
  qed
  moreover have "0 \<in> set (closed (tl_loop z))"
    if "suffix cs' [Cancel_hand 0, Stop_flag, Stop_wake]" "\<forall>x. pc (tl_loop z) \<noteq> Dead x"
    using interval_reach_inv [OF q] suffix_length_le [OF that(1)] that(2) by (simp add: interval_inv_def)
  ultimately show ?thesis using cancelled_stays [OF r(2) s] s(1) by fastforce
qed

theorem execute_interval_cancels_witness:
  "\<exists>y z s t. interval_reach demo_timers idle_func (\<lambda>_ r. r = Inr 1) ()
       (interval_main, tl_start (ek_start [[], [(7, 1)]])) ([Cancel_mark 0, Cancel_hand 0, Stop_flag, Stop_wake], y)
     \<and> interval_reach demo_timers idle_func (\<lambda>_ r. r = Inr 1) ()
       ([Cancel_mark 0, Cancel_hand 0, Stop_flag, Stop_wake], y) ([Stop_flag, Stop_wake], z)
     \<and> tl_timer y 0 = Some s \<and> runs s = 0 \<and> tl_timer z 0 = Some t \<and> runs t = 1 \<and> 0 \<in> set (closed (tl_loop z))"
proof -
  let ?c = "[Cancel_mark 0, Cancel_hand 0, Stop_flag, Stop_wake]"
  let ?r = "interval_reach demo_timers idle_func (\<lambda>_ r. r = Inr 1) ()"
  obtain y z s t where
    y: "interval_run demo_timers idle_func () sample_begin interval_main (tl_start (ek_start [[], [(7, 1)]])) = Some (?c, y)"
      "tl_timer y 0 = Some s" "runs s = 0"
    and z: "interval_run demo_timers idle_func () sample_end ?c y = Some ([Stop_flag, Stop_wake], z)"
      "tl_timer z 0 = Some t" "runs t = 1" "\<forall>x. pc (tl_loop z) \<noteq> Dead x"
    using sample_value by blast
  have r: "?r (interval_main, tl_start (ek_start [[], [(7, 1)]])) (?c, y)"
    by (rule interval_run_reach [OF y(1) interval_reach.begin_main]) (simp add: sample_begin_def)
  have q: "?r (?c, y) ([Stop_flag, Stop_wake], z)"
    by (rule interval_run_reach [OF z(1) interval_reach.begin_main]) (simp add: sample_end_def)
  have o: "one_shot (\<lambda>r. r = Inr 1)" by (simp add: one_shot_def)
  have "suffix [Stop_flag, Stop_wake] [Cancel_hand 0, Stop_flag, Stop_wake]" by (simp add: suffix_def)
  with execute_interval_cancels [where reads = "\<lambda>_ r. r = Inr 1", OF demo_timers_ok o r suffix_order.refl q] z(4)
  have "0 \<in> set (closed (tl_loop z))" by blast
  with r q y(2,3) z(2,3) show ?thesis by blast
qed

end
