(* ===== verification/Streams_In_Loop.thy ===== *)
theory Streams_In_Loop
  imports Stream_In_Loop
begin

text \<open>
  Any number of stream buffers in one event loop, with whatever else is attached to it.  For each of
  them the composition is a run of \<open>Stream_In_Loop\<close>, so that everything that holds there holds for
  every stream of the loop.
\<close>

subsection \<open>The composition\<close>

text \<open>The handlers of \<open>S\<close> are the streams.\<close>

record ('k, 'w, 'h) streams =
  ms_loop :: "'k loop"
  ms_stream :: "nat \<Rightarrow> ('w, 'h) sbuf option"
  ms_served :: bool

definition at_some :: "('k, 'w, 'h) streams \<Rightarrow> bool" where
  "at_some y \<longleftrightarrow> (\<exists>i s. calling (pc (ms_loop y)) = Some i \<and> ms_stream y i = Some s) \<and> \<not> ms_served y"

definition leaves :: "nat set \<Rightarrow> 'k loop \<Rightarrow> 'k loop \<Rightarrow> bool" where
  "leaves S l l' \<longleftrightarrow> (\<forall>i \<in> S. (i \<in> set (created l') \<longleftrightarrow> i \<in> set (created l)) \<and> wants l' i = wants l i)"

inductive ms_step ::
  "'k env \<Rightarrow> nat set \<Rightarrow> 'w vtable \<Rightarrow> 'h app \<Rightarrow> ('w \<Rightarrow> 'w \<Rightarrow> bool) \<Rightarrow>
     ('k, 'w, 'h) streams \<Rightarrow> ('k, 'w, 'h) streams \<Rightarrow> bool"
  for E S vt app env where
  make: "i \<in> S \<Longrightarrow> ms_stream y i = None \<Longrightarrow> sb_create ha m w h = Inr s \<Longrightarrow>
    ms_step E S vt app env y (y\<lparr>ms_stream := (ms_stream y)(i \<mapsto> s)\<rparr>)"
| attach: "ms_stream y i = Some s \<Longrightarrow> running (ms_loop y) \<Longrightarrow> \<not> lock_held (ms_loop y) \<Longrightarrow> i \<notin> set (gone (ms_loop y)) \<Longrightarrow>
    fresh_handle E i (ms_loop y) \<Longrightarrow> attach_begin i (answers i s (ms_loop y)) = Inr l \<Longrightarrow> \<not> has_event s \<Longrightarrow>
    ms_step E S vt app env y (y\<lparr>ms_loop := l, ms_stream := (ms_stream y)(i \<mapsto> s\<lparr>has_event := True\<rparr>)\<rparr>)"
| serve: "calling (pc (ms_loop y)) = Some i \<Longrightarrow> \<not> ms_served y \<Longrightarrow> ms_stream y i = Some s \<Longrightarrow> running (ms_loop y) \<Longrightarrow>
    handle_events vt app s = Some (Inr t) \<Longrightarrow> apply_all E i (effects s t) (answers i t (ms_loop y)) = Inr l \<Longrightarrow>
    ms_step E S vt app env y \<lparr>ms_loop = l, ms_stream = (ms_stream y)(i \<mapsto> t), ms_served = True\<rparr>"
| write_call: "ms_stream y i = Some s \<Longrightarrow> running (ms_loop y) \<Longrightarrow>
    apply_all E i (effects s (sb_write d s)) (ms_loop y) = Inr l \<Longrightarrow>
    ms_step E S vt app env y (y\<lparr>ms_loop := l, ms_stream := (ms_stream y)(i \<mapsto> sb_write d s)\<rparr>)"
| close_call: "ms_stream y i = Some s \<Longrightarrow> running (ms_loop y) \<Longrightarrow>
    apply_all E i (effects s (sb_close s)) (ms_loop y) = Inr l \<Longrightarrow>
    ms_step E S vt app env y (y\<lparr>ms_loop := l, ms_stream := (ms_stream y)(i \<mapsto> sb_close s)\<rparr>)"
| app_gone: "ms_stream y i = Some s \<Longrightarrow>
    ms_step E S vt app env y (y\<lparr>ms_stream := (ms_stream y)(i \<mapsto> s\<lparr>handler_alive := False\<rparr>)\<rparr>)"
| outside: "ms_stream y i = Some s \<Longrightarrow> env (world s) w \<Longrightarrow>
    ms_step E S vt app env y (y\<lparr>ms_stream := (ms_stream y)(i \<mapsto> s\<lparr>world := w\<rparr>)\<rparr>)"
| elsewhere: "run_step E (ms_loop y) l \<Longrightarrow> \<not> at_some y \<or> pc l = pc (ms_loop y) \<Longrightarrow> leaves S (ms_loop y) l \<Longrightarrow>
    ms_step E S vt app env y
      (y\<lparr>ms_loop := l, ms_served := (if pc l = pc (ms_loop y) then ms_served y else False)\<rparr>)"

inductive ms_reach ::
  "'k env \<Rightarrow> nat set \<Rightarrow> 'w vtable \<Rightarrow> 'h app \<Rightarrow> ('w \<Rightarrow> 'w \<Rightarrow> bool) \<Rightarrow>
     ('k, 'w, 'h) streams \<Rightarrow> ('k, 'w, 'h) streams \<Rightarrow> bool"
  for E S vt app env y0 where
  start: "ms_reach E S vt app env y0 y0"
| move: "ms_reach E S vt app env y0 y \<Longrightarrow> ms_step E S vt app env y z \<Longrightarrow> ms_reach E S vt app env y0 z"

definition ms_start :: "'k \<Rightarrow> ('k, 'w, 'h) streams" where
  "ms_start k = \<lparr>ms_loop = loop_new k, ms_stream = Map.empty, ms_served = False\<rparr>"

subsection \<open>The view of one stream\<close>

text \<open>Calls of others, which leave the event of \<open>i\<close> and the place of the loop thread alone.\<close>

definition other_call :: "'k env \<Rightarrow> nat \<Rightarrow> 'k loop \<Rightarrow> 'k loop \<Rightarrow> bool" where
  "other_call E i l l' \<longleftrightarrow> run_step E l l' \<and> pc l' = pc l \<and> (i \<in> set (created l') \<longleftrightarrow> i \<in> set (created l)) \<and> wants l' i = wants l i"

abbreviation others :: "'k env \<Rightarrow> nat \<Rightarrow> 'k loop \<Rightarrow> 'k loop \<Rightarrow> bool" where
  "others E i \<equiv> (other_call E i)\<^sup>*\<^sup>*"

lemma sys_others:
  assumes "others E i l l'" and "sys_reach E i vt app env y0 \<lparr>sy_loop = l, sy_stream = s, sy_served = b\<rparr>"
  shows "sys_reach E i vt app env y0 \<lparr>sy_loop = l', sy_stream = s, sy_served = b\<rparr>"
  using assms(1)
proof (induction rule: rtranclp_induct)
  case base
  show ?case by (rule assms(2))
next
  case (step u v)
  let ?y = "\<lparr>sy_loop = u, sy_stream = s, sy_served = b\<rparr>"
  from step(2) have "run_step E (sy_loop ?y) v" "pc v = pc (sy_loop ?y)"
    "set (created v) \<inter> {i} = set (created (sy_loop ?y)) \<inter> {i}" "wants v i = wants (sy_loop ?y) i"
    by (auto simp: other_call_def)
  from sys_reach.move [OF step(3) sys_step.elsewhere [OF this(1) disjI2 [OF this(2)] this(3,4)]] this(2) show ?case
    by simp
qed

text \<open>The calls of another stream on its event are such calls.\<close>

lemma apply_all_others:
  assumes "epoll_ok (en_wake_fd E) (en_calls E)"
  shows "ready_for_calls E j xs l \<Longrightarrow> apply_all E j xs l = Inr l' \<Longrightarrow> others E i l l'"
proof (induction xs arbitrary: l)
  case (Cons x xs)
  from apply_obs_total [OF assms Cons.prems(1)] obtain u where
    u: "apply_obs E j x l = Inr u" "loop_inv E u" "run_step E l u \<or> u = l" by blast
  note f = apply_obs_frame [OF u(1)]
  from f Cons.prems(1) u(2) have "ready_for_calls E j xs u"
    by (auto simp: ready_for_calls_def call_frame_def running_def in_callback_def)
  moreover from Cons.prems(2) u(1) have "apply_all E j xs u = Inr l'" by simp
  ultimately have "others E i u l'" by (rule Cons.IH)
  moreover have "others E i l u"
    using u(3) f apply_obs_wants [OF u(1)] by (auto simp: other_call_def call_frame_def)
  ultimately show ?case by (rule rtranclp_trans [rotated])
qed simp

lemma answers_others: "running l \<Longrightarrow> i \<noteq> j \<Longrightarrow> others E i l (answers j s l)"
  using answers_step [of l E j s] by (intro r_into_rtranclp) (simp add: other_call_def)

definition view ::
  "'k env \<Rightarrow> 'w vtable \<Rightarrow> 'h app \<Rightarrow> ('w \<Rightarrow> 'w \<Rightarrow> bool) \<Rightarrow> 'k \<Rightarrow> nat \<Rightarrow> ('w, 'h) sbuf \<Rightarrow> ('w, 'h) sbuf \<Rightarrow> 'k loop \<Rightarrow> bool \<Rightarrow> bool" where
  "view E vt app env k i s0 s l served \<longleftrightarrow>
     (\<exists>b. sys_reach E i vt app env (sys_start k s0) \<lparr>sy_loop = l, sy_stream = s, sy_served = b\<rparr>
        \<and> (calling (pc l) = Some i \<longrightarrow> b = served))"

lemma view_others:
  assumes "view E vt app env k i s0 s l served" and "others E i l l'" and "calling (pc l) = Some i \<Longrightarrow> served' = served"
  shows "view E vt app env k i s0 s l' served'"
proof -
  have "pc l' = pc l" using assms(2) by (induction rule: rtranclp_induct) (auto simp: other_call_def)
  with assms sys_others [OF assms(2)] show ?thesis unfolding view_def by fastforce
qed

lemma view_loop_inv:
  assumes "view E vt app env k i s0 s l b" and "epoll_ok (en_wake_fd E) (en_calls E)" and "fresh_start E k"
    and "0 \<le> en_handle E i" and "en_kind E i = User" and "sb_create ha m w h = Inr s0"
  shows "\<exists>b'. sys_inv E i vt app env k s0 \<lparr>sy_loop = l, sy_stream = s, sy_served = b'\<rparr>
     \<and> (calling (pc l) = Some i \<longrightarrow> b' = b)"
  using assms(1) sys_reach_inv [OF _ assms(2-6)] unfolding view_def by blast

subsection \<open>Every stream of the composition\<close>

definition ms_inv ::
  "'k env \<Rightarrow> nat set \<Rightarrow> 'w vtable \<Rightarrow> 'h app \<Rightarrow> ('w \<Rightarrow> 'w \<Rightarrow> bool) \<Rightarrow> 'k \<Rightarrow> ('k, 'w, 'h) streams \<Rightarrow> bool" where
  "ms_inv E S vt app env k y \<longleftrightarrow>
     run_reach E (loop_new k) (ms_loop y)
   \<and> (\<forall>i s. ms_stream y i = Some s \<longrightarrow> i \<in> S
        \<and> (\<exists>s0 ha m w h. sb_create ha m w h = Inr s0 \<and> view E vt app env k i s0 s (ms_loop y) (ms_served y)))
   \<and> (\<forall>i \<in> S. ms_stream y i = None \<longrightarrow> i \<notin> set (created (ms_loop y))
        \<and> (\<forall>s0. \<not> has_event s0 \<longrightarrow> view E vt app env k i s0 s0 (ms_loop y) (ms_served y)))"

definition users :: "'k env \<Rightarrow> nat set \<Rightarrow> bool" where
  "users E S \<longleftrightarrow> (\<forall>i \<in> S. 0 \<le> en_handle E i \<and> en_kind E i = User)"

lemma others_frame:
  "others E i l l' \<Longrightarrow> pc l' = pc l \<and> (i \<in> set (created l') \<longleftrightarrow> i \<in> set (created l)) \<and> run_reach E l l'"
  by (induction rule: rtranclp_induct) (auto simp: other_call_def intro: run_reach.intros)

text \<open>The stream \<open>j\<close> moved, and the others saw calls of others only.\<close>

lemma ms_inv_moved:
  assumes "ms_inv E S vt app env k y" and "ms_stream y j = Some s" and "run_reach E (loop_new k) l"
    and "\<And>i. i \<in> S \<Longrightarrow> i \<noteq> j \<Longrightarrow> others E i (ms_loop y) l"
    and "\<And>i. i \<noteq> j \<Longrightarrow> calling (pc (ms_loop y)) = Some i \<Longrightarrow> sv = ms_served y"
    and "\<And>s0. view E vt app env k j s0 s (ms_loop y) (ms_served y) \<Longrightarrow> view E vt app env k j s0 t l sv"
  shows "ms_inv E S vt app env k \<lparr>ms_loop = l, ms_stream = (ms_stream y)(j \<mapsto> t), ms_served = sv\<rparr>"
proof -
  have o: "view E vt app env k i s0 u l sv"
    if "i \<in> S" "i \<noteq> j" "view E vt app env k i s0 u (ms_loop y) (ms_served y)" for i s0 u
    by (rule view_others [OF that(3) assms(4) [OF that(1,2)] assms(5) [OF that(2)]])
  have c: "i \<in> set (created l) \<longleftrightarrow> i \<in> set (created (ms_loop y))" if "i \<in> S" "i \<noteq> j" for i
    using others_frame [OF assms(4) [OF that]] by blast
  have st: "i \<in> S \<and> (\<exists>s0 ha m w h. sb_create ha m w h = Inr s0 \<and> view E vt app env k i s0 u l sv)"
    if u: "((ms_stream y)(j \<mapsto> t)) i = Some u" for i u
  proof (cases "i = j")
    case True
    with u have "u = t" by simp
    with True assms(1,2,6) show ?thesis unfolding ms_inv_def by blast
  next
    case False
    with u have y: "ms_stream y i = Some u" by simp
    with assms(1) have "i \<in> S" unfolding ms_inv_def by blast
    with o [OF this False] y assms(1) show ?thesis unfolding ms_inv_def by blast
  qed
  have no: "i \<notin> set (created l) \<and> (\<forall>s0. \<not> has_event s0 \<longrightarrow> view E vt app env k i s0 s0 l sv)"
    if "i \<in> S" "((ms_stream y)(j \<mapsto> t)) i = None" for i
  proof -
    from that(2) have i: "i \<noteq> j" "ms_stream y i = None" by (auto split: if_splits)
    with c [OF that(1)] o [OF that(1)] that(1) assms(1) show ?thesis unfolding ms_inv_def by blast
  qed
  from st no assms(3) show ?thesis unfolding ms_inv_def by simp
qed

lemma ms_calls:
  assumes "ms_inv E S vt app env k y" and "epoll_ok (en_wake_fd E) (en_calls E)" and "fresh_start E k" and "users E S"
    and "ms_stream y j = Some s" and "running (ms_loop y)"
    and "\<And>x. x \<in> set xs \<Longrightarrow> x \<noteq> Ob_modify_event \<and> (loop_obs x \<longrightarrow> has_event s)"
  shows "ready_for_calls E j xs (ms_loop y)"
proof -
  from assms(1,5) obtain s0 ha m w h where j: "j \<in> S" "sb_create ha m w h = Inr s0"
    "view E vt app env k j s0 s (ms_loop y) (ms_served y)" unfolding ms_inv_def by blast
  with assms(4) have u: "0 \<le> en_handle E j" "en_kind E j = User" by (auto simp: users_def)
  from view_loop_inv [OF j(3) assms(2,3) u j(2)] obtain b where
    "sys_inv E j vt app env k s0 \<lparr>sy_loop = ms_loop y, sy_stream = s, sy_served = b\<rparr>" by blast
  from call_ready [OF this assms(2,3) _ u(1), of xs] assms(6,7) show ?thesis by simp
qed

text \<open>A call from outside on the stream \<open>j\<close>.\<close>

lemma ms_call_inv:
  assumes "ms_inv E S vt app env k y" and "epoll_ok (en_wake_fd E) (en_calls E)" and "fresh_start E k" and "users E S"
    and "ms_stream y j = Some s" and "running (ms_loop y)" and "apply_all E j (effects s t) (ms_loop y) = Inr l"
    and "\<And>x. x \<in> set (effects s t) \<Longrightarrow> x \<noteq> Ob_modify_event \<and> (loop_obs x \<longrightarrow> has_event s)"
    and "\<And>b. sys_step E j vt app env \<lparr>sy_loop = ms_loop y, sy_stream = s, sy_served = b\<rparr> \<lparr>sy_loop = l, sy_stream = t, sy_served = b\<rparr>"
  shows "ms_inv E S vt app env k (y\<lparr>ms_loop := l, ms_stream := (ms_stream y)(j \<mapsto> t)\<rparr>)"
proof -
  have r: "run_reach E (loop_new k) (ms_loop y)" using assms(1) by (simp add: ms_inv_def)
  note rd = ms_calls [OF assms(1-6,8)]
  note cr = calls_reach [OF assms(2) rd assms(7) r]
  have "ms_inv E S vt app env k \<lparr>ms_loop = l, ms_stream = (ms_stream y)(j \<mapsto> t), ms_served = ms_served y\<rparr>"
  proof (rule ms_inv_moved [OF assms(1,5)])
    show "run_reach E (loop_new k) l" using cr by simp
    show "others E i (ms_loop y) l" for i by (rule apply_all_others [OF assms(2) rd assms(7)])
    show "view E vt app env k j s0 t l (ms_served y)" if v: "view E vt app env k j s0 s (ms_loop y) (ms_served y)" for s0
      using v sys_reach.move [OF _ assms(9)] cr unfolding view_def by fastforce
  qed simp
  then show ?thesis by (cases y) simp
qed

lemma ms_attach_inv:
  assumes "ms_inv E S vt app env k y" and "users E S" and "ms_stream y j = Some s" and "running (ms_loop y)"
    and "\<not> lock_held (ms_loop y)" and "j \<notin> set (gone (ms_loop y))" and "fresh_handle E j (ms_loop y)"
    and "attach_begin j (answers j s (ms_loop y)) = Inr l" and "\<not> has_event s"
  shows "ms_inv E S vt app env k (y\<lparr>ms_loop := l, ms_stream := (ms_stream y)(j \<mapsto> s\<lparr>has_event := True\<rparr>)\<rparr>)"
proof -
  let ?a = "answers j s (ms_loop y)"
  have jS: "j \<in> S" using assms(1,3) by (auto simp: ms_inv_def)
  have st: "run_step E ?a l"
    by (rule run_step.user_attach [OF _ _ _ _ _ assms(8)])
       (use assms(2,4-7) jS in \<open>simp_all add: answers_fresh users_def del: fresh_handle_def\<close>)
  have f: "created l = created (ms_loop y) @ [j]" "pc l = pc (ms_loop y)"
    using attach_begin_call [OF assms(8)] by (simp_all add: attach_frame_def)
  have w: "wants l = wants ?a" using assms(8) by (auto simp: attach_begin_def create_event_def split: if_splits)
  have "ms_inv E S vt app env k \<lparr>ms_loop = l, ms_stream = (ms_stream y)(j \<mapsto> s\<lparr>has_event := True\<rparr>), ms_served = ms_served y\<rparr>"
  proof (rule ms_inv_moved [OF assms(1,3)])
    show "run_reach E (loop_new k) l"
      using assms(1) run_reach.move [OF run_reach.move [OF _ answers_step [OF assms(4)]] st] by (simp add: ms_inv_def)
    show "others E i (ms_loop y) l" if "i \<noteq> j" for i
    proof -
      have "other_call E i ?a l" using st f w that by (simp add: other_call_def)
      with answers_others [OF assms(4) that] show ?thesis by (rule rtranclp.rtrancl_into_rtrancl)
    qed
    show "view E vt app env k j s0 (s\<lparr>has_event := True\<rparr>) l (ms_served y)"
      if "view E vt app env k j s0 s (ms_loop y) (ms_served y)" for s0
    proof -
      from that obtain b where b: "sys_reach E j vt app env (sys_start k s0) \<lparr>sy_loop = ms_loop y, sy_stream = s, sy_served = b\<rparr>"
        "calling (pc (ms_loop y)) = Some j \<longrightarrow> b = ms_served y" unfolding view_def by blast
      let ?y = "\<lparr>sy_loop = ms_loop y, sy_stream = s, sy_served = b\<rparr>"
      have "sys_step E j vt app env ?y (?y\<lparr>sy_loop := l, sy_stream := (sy_stream ?y)\<lparr>has_event := True\<rparr>\<rparr>)"
        by (rule sys_step.attach) (use assms(4-9) in simp_all)
      from sys_reach.move [OF b(1) this] b(2) f(2) show ?thesis unfolding view_def by auto
    qed
  qed simp
  then show ?thesis by (cases y) simp
qed

lemma ms_serve_inv:
  assumes "ms_inv E S vt app env k y" and "epoll_ok (en_wake_fd E) (en_calls E)" and "fresh_start E k" and "users E S"
    and "calling (pc (ms_loop y)) = Some j" and "\<not> ms_served y" and "ms_stream y j = Some s" and "running (ms_loop y)"
    and "handle_events vt app s = Some (Inr t)" and "apply_all E j (effects s t) (answers j t (ms_loop y)) = Inr l"
  shows "ms_inv E S vt app env k \<lparr>ms_loop = l, ms_stream = (ms_stream y)(j \<mapsto> t), ms_served = True\<rparr>"
proof (rule ms_inv_moved [OF assms(1,7)])
  have r: "run_reach E (loop_new k) (ms_loop y)" and h: "0 \<le> en_handle E j"
    using assms(1,4,7) by (auto simp: ms_inv_def users_def)
  let ?y = "\<lparr>sy_loop = ms_loop y, sy_stream = s, sy_served = False\<rparr>"
  have at: "at_stream j ?y" by (simp add: at_stream_def assms(5))
  have rd: "ready_for_calls E j (effects s t) (answers j t (ms_loop y))" "run_reach E (loop_new k) (answers j t (ms_loop y))"
    using serve_ready [of E k ?y j "effects s t" t] r assms(2,3,8) at h by simp_all
  note cr = calls_reach [OF assms(2) rd(1) assms(10) rd(2)]
  show "run_reach E (loop_new k) l" using cr by simp
  show "others E i (ms_loop y) l" if "i \<noteq> j" for i
    using answers_others [OF assms(8) that] apply_all_others [OF assms(2) rd(1) assms(10)] by (rule rtranclp_trans)
  show "True = ms_served y" if "i \<noteq> j" "calling (pc (ms_loop y)) = Some i" for i
    using that assms(5) by simp
  show "view E vt app env k j s0 t l True" if v: "view E vt app env k j s0 s (ms_loop y) (ms_served y)" for s0
  proof -
    from v assms(5,6) have y: "sys_reach E j vt app env (sys_start k s0) ?y" by (auto simp: view_def)
    have "sys_step E j vt app env ?y \<lparr>sy_loop = l, sy_stream = t, sy_served = True\<rparr>"
      by (rule sys_step.serve [OF at]) (use assms(8-10) in simp_all)
    from sys_reach.move [OF y this] show ?thesis by (auto simp: view_def)
  qed
qed

lemma ms_elsewhere_inv:
  assumes "ms_inv E S vt app env k y" and "epoll_ok (en_wake_fd E) (en_calls E)" and "fresh_start E k"
    and "run_step E (ms_loop y) l" and "\<not> at_some y \<or> pc l = pc (ms_loop y)" and "leaves S (ms_loop y) l"
  shows "ms_inv E S vt app env k
    (y\<lparr>ms_loop := l, ms_served := (if pc l = pc (ms_loop y) then ms_served y else False)\<rparr>)"
proof -
  let ?sv = "if pc l = pc (ms_loop y) then ms_served y else False"
  have r: "run_reach E (loop_new k) (ms_loop y)" using assms(1) by (simp add: ms_inv_def)
  have iv: "loop_inv E (ms_loop y)" by (rule reach_running_inv [OF r assms(2,3) run_step_from_alive [OF assms(4)]])
  have v: "view E vt app env k i s0 u l ?sv"
    if i: "i \<in> S" "view E vt app env k i s0 u (ms_loop y) (ms_served y)"
      and c: "calling (pc (ms_loop y)) = Some i \<Longrightarrow> \<exists>s. ms_stream y i = Some s" for i s0 u
  proof -
    from i(2) obtain b where b: "sys_reach E i vt app env (sys_start k s0) \<lparr>sy_loop = ms_loop y, sy_stream = u, sy_served = b\<rparr>"
      "calling (pc (ms_loop y)) = Some i \<longrightarrow> b = ms_served y" unfolding view_def by blast
    let ?y = "\<lparr>sy_loop = ms_loop y, sy_stream = u, sy_served = b\<rparr>"
    have "\<not> at_stream i ?y \<or> pc l = pc (ms_loop y)" using assms(5) b(2) c by (auto simp: at_stream_def at_some_def)
    then have "sys_step E i vt app env ?y (?y\<lparr>sy_loop := l, sy_served := (if pc l = pc (sy_loop ?y) then sy_served ?y else False)\<rparr>)"
      by (intro sys_step.elsewhere) (use assms(4,6) i(1) in \<open>auto simp: leaves_def\<close>)
    from sys_reach.move [OF b(1) this] b(2) show ?thesis unfolding view_def by (auto split: if_splits)
  qed
  have st: "i \<in> S \<and> (\<exists>s0 ha m w h. sb_create ha m w h = Inr s0 \<and> view E vt app env k i s0 u l ?sv)"
    if u: "ms_stream y i = Some u" for i u
  proof -
    from u assms(1) obtain s0 ha m w h where i: "i \<in> S" "sb_create ha m w h = Inr s0"
      "view E vt app env k i s0 u (ms_loop y) (ms_served y)" unfolding ms_inv_def by blast
    from v [OF i(1,3)] u i(1,2) show ?thesis by blast
  qed
  have no: "i \<notin> set (created l) \<and> (\<forall>s0. \<not> has_event s0 \<longrightarrow> view E vt app env k i s0 s0 l ?sv)"
    if i: "i \<in> S" "ms_stream y i = None" for i
  proof -
    from i assms(1) have n: "i \<notin> set (created (ms_loop y))"
      "\<And>s0. \<not> has_event s0 \<Longrightarrow> view E vt app env k i s0 s0 (ms_loop y) (ms_served y)" unfolding ms_inv_def by blast+
    have "calling (pc (ms_loop y)) \<noteq> Some i" using n(1) calling_created [OF iv] by blast
    with v [OF i(1) n(2)] have "\<forall>s0. \<not> has_event s0 \<longrightarrow> view E vt app env k i s0 s0 l ?sv" by blast
    moreover have "i \<notin> set (created l)" using n(1) assms(6) i(1) by (auto simp: leaves_def)
    ultimately show ?thesis by blast
  qed
  from st no run_reach.move [OF r assms(4)] show ?thesis unfolding ms_inv_def by simp
qed

text \<open>A step of the stream \<open>j\<close> that the loop does not see.\<close>

lemma ms_alone_inv:
  assumes "ms_inv E S vt app env k y" and "ms_stream y j = Some s"
    and "\<And>b. sys_step E j vt app env \<lparr>sy_loop = ms_loop y, sy_stream = s, sy_served = b\<rparr>
      \<lparr>sy_loop = ms_loop y, sy_stream = t, sy_served = b\<rparr>"
  shows "ms_inv E S vt app env k (y\<lparr>ms_stream := (ms_stream y)(j \<mapsto> t)\<rparr>)"
proof -
  have "ms_inv E S vt app env k \<lparr>ms_loop = ms_loop y, ms_stream = (ms_stream y)(j \<mapsto> t), ms_served = ms_served y\<rparr>"
  proof (rule ms_inv_moved [OF assms(1,2)])
    show "run_reach E (loop_new k) (ms_loop y)" using assms(1) by (simp add: ms_inv_def)
    show "view E vt app env k j s0 t (ms_loop y) (ms_served y)"
      if "view E vt app env k j s0 s (ms_loop y) (ms_served y)" for s0
      using that sys_reach.move [OF _ assms(3)] unfolding view_def by blast
  qed simp_all
  then show ?thesis by (cases y) simp
qed

lemma ms_step_inv:
  assumes "ms_step E S vt app env y z" and "ms_inv E S vt app env k y"
    and "epoll_ok (en_wake_fd E) (en_calls E)" and "fresh_start E k" and "users E S"
  shows "ms_inv E S vt app env k z"
  using assms(1)
proof cases
  case (make i ha m w h s)
  from sb_create_start [OF make(4)] have "\<not> has_event s" by simp
  with assms(2) make(2,3) have "view E vt app env k i s s (ms_loop y) (ms_served y)" by (auto simp: ms_inv_def)
  with make(4) have new: "\<exists>s0 ha m w h. sb_create ha m w h = Inr s0 \<and> view E vt app env k i s0 s (ms_loop y) (ms_served y)"
    by blast
  show ?thesis unfolding make(1) ms_inv_def
  proof (intro conjI allI ballI impI)
    fix j t assume "ms_stream (y\<lparr>ms_stream := (ms_stream y)(i \<mapsto> s)\<rparr>) j = Some t"
    with new make(2) assms(2) show "j \<in> S"
      "\<exists>s0 ha m w h. sb_create ha m w h = Inr s0 \<and> view E vt app env k j s0 t (ms_loop (y\<lparr>ms_stream := (ms_stream y)(i \<mapsto> s)\<rparr>))
        (ms_served (y\<lparr>ms_stream := (ms_stream y)(i \<mapsto> s)\<rparr>))"
      by (cases "j = i"; simp add: ms_inv_def)+
  qed (use assms(2) in \<open>auto simp: ms_inv_def split: if_splits\<close>)
next
  case (attach i s l)
  from ms_attach_inv [OF assms(2,5) attach(2-8)] attach(1) show ?thesis by simp
next
  case (serve i s t l)
  from ms_serve_inv [OF assms(2-5) serve(2-7)] serve(1) show ?thesis by simp
next
  case (write_call i s d l)
  have "sys_step E i vt app env \<lparr>sy_loop = ms_loop y, sy_stream = s, sy_served = b\<rparr>
      \<lparr>sy_loop = l, sy_stream = sb_write d s, sy_served = b\<rparr>" for b
    using sys_step.write_call [where E = E and i = i and d = d and y = "\<lparr>sy_loop = ms_loop y, sy_stream = s, sy_served = b\<rparr>"]
      write_call(3,4) by simp
  from ms_call_inv [OF assms(2-5) write_call(2-4) write_effects(1) this] write_call(1) show ?thesis by simp
next
  case (close_call i s l)
  have "sys_step E i vt app env \<lparr>sy_loop = ms_loop y, sy_stream = s, sy_served = b\<rparr>
      \<lparr>sy_loop = l, sy_stream = sb_close s, sy_served = b\<rparr>" for b
    using sys_step.close_call [where E = E and i = i and y = "\<lparr>sy_loop = ms_loop y, sy_stream = s, sy_served = b\<rparr>"]
      close_call(3,4) by simp
  from ms_call_inv [OF assms(2-5) close_call(2-4) write_effects(2) this] close_call(1) show ?thesis by simp
next
  case (app_gone i s)
  have "sys_step E i vt app env \<lparr>sy_loop = ms_loop y, sy_stream = s, sy_served = b\<rparr>
      \<lparr>sy_loop = ms_loop y, sy_stream = s\<lparr>handler_alive := False\<rparr>, sy_served = b\<rparr>" for b
    using sys_step.app_gone [where E = E and i = i and y = "\<lparr>sy_loop = ms_loop y, sy_stream = s, sy_served = b\<rparr>"] by simp
  from ms_alone_inv [OF assms(2) app_gone(2) this] app_gone(1) show ?thesis by simp
next
  case (outside i s w)
  have "sys_step E i vt app env \<lparr>sy_loop = ms_loop y, sy_stream = s, sy_served = b\<rparr>
      \<lparr>sy_loop = ms_loop y, sy_stream = s\<lparr>world := w\<rparr>, sy_served = b\<rparr>" for b
    using sys_step.outside [where E = E and i = i and y = "\<lparr>sy_loop = ms_loop y, sy_stream = s, sy_served = b\<rparr>" and env = env and w = w]
      outside(3) by simp
  from ms_alone_inv [OF assms(2) outside(2) this] outside(1) show ?thesis by simp
next
  case (elsewhere l)
  from ms_elsewhere_inv [OF assms(2-4) elsewhere(2-4)] elsewhere(1) show ?thesis by simp
qed

lemma ms_reach_inv:
  assumes "ms_reach E S vt app env (ms_start k) y" and "epoll_ok (en_wake_fd E) (en_calls E)" and "fresh_start E k" and "users E S"
  shows "ms_inv E S vt app env k y"
  using assms(1)
proof (induction rule: ms_reach.induct)
  case start
  show ?case
    by (auto simp: ms_inv_def ms_start_def view_def sys_start_def loop_new_def intro: run_reach.start sys_reach.start)
next
  case (move y z)
  from ms_step_inv [OF move(2,3) assms(2-4)] show ?case .
qed

lemma ms_stream_facts:
  assumes "ms_inv E S vt app env k y" and "epoll_ok (en_wake_fd E) (en_calls E)" and "fresh_start E k" and "users E S"
    and "ms_stream y i = Some s"
  shows "(\<exists>s0 ha m w h b. sb_create ha m w h = Inr s0 \<and> sb_reach vt app env s0 s
      \<and> sys_reach E i vt app env (sys_start k s0) \<lparr>sy_loop = ms_loop y, sy_stream = s, sy_served = b\<rparr>)
    \<and> (has_event s \<longleftrightarrow> i \<in> set (created (ms_loop y)))
    \<and> (has_event s \<longrightarrow> wants (ms_loop y) i = sb_get_events s)
    \<and> (eof_called s \<longrightarrow> running (ms_loop y) \<longrightarrow> i \<in> set (closed (ms_loop y)))"
proof -
  from assms(1,5) obtain s0 ha m w h where i: "i \<in> S" "sb_create ha m w h = Inr s0"
    "view E vt app env k i s0 s (ms_loop y) (ms_served y)" unfolding ms_inv_def by blast
  with assms(4) have u: "0 \<le> en_handle E i" "en_kind E i = User" by (auto simp: users_def)
  from i(3) obtain b where b: "sys_reach E i vt app env (sys_start k s0) \<lparr>sy_loop = ms_loop y, sy_stream = s, sy_served = b\<rparr>"
    unfolding view_def by blast
  from sys_reach_inv [OF b assms(2,3) u i(2)] have
    v: "sb_reach vt app env s0 s" "has_event s \<longleftrightarrow> i \<in> set (created (ms_loop y))"
      "has_event s \<longrightarrow> wants (ms_loop y) i = sb_get_events s"
      "eof_called s \<longrightarrow> (\<forall>x. pc (ms_loop y) \<noteq> Dead x) \<longrightarrow> i \<in> set (closed (ms_loop y))"
    by (simp_all add: sys_inv_def)
  have "running (ms_loop y) \<Longrightarrow> \<forall>x. pc (ms_loop y) \<noteq> Dead x" by (auto simp: running_def)
  with b i(2) v show ?thesis by blast
qed

subsection \<open>A run of two streams\<close>

text \<open>Two clients, attached one after the other, the first one in its callback.\<close>

definition two_start :: "(ek, script tcp, unit) streams" where
  "two_start = ms_start (ek_start [])"

definition client_on :: "fd \<Rightarrow> (script tcp, unit) sbuf" where
  "client_on h = projr (create_for_client True h script_a ())"

lemma client_on_create:
  "sb_create True CLIENT_MODE \<lparr>tcp_handle = h, pending_connect = True, kernel = script_a\<rparr> () = Inr (client_on h)" 
  by (simp add: client_on_def create_for_client_def sb_create_def sb_add_filter_def sb_new_def)

lemma two_attached:
  "\<exists>y :: (ek, script tcp, unit) streams. ms_reach demo {2, 3} tcp_only listener_app (\<lambda>_ _. False) two_start y
     \<and> (\<exists>s. ms_stream y 2 = Some s \<and> has_event s) \<and> (\<exists>s. ms_stream y 3 = Some s \<and> has_event s)"
proof -
  let ?step = "ms_step demo {2, 3} tcp_only listener_app (\<lambda>_ _. False)"
  define y1 where "y1 = two_start\<lparr>ms_stream := [2 \<mapsto> client_on 8, 3 \<mapsto> client_on 9]\<rparr>"
  have n: "\<not> has_event (client_on h)" for h using sb_create_start [OF client_on_create] by simp
  have r1: "ms_reach demo {2, 3} tcp_only listener_app (\<lambda>_ _. False) two_start y1"
  proof (rule ms_reach.move [OF ms_reach.move [OF ms_reach.start ms_step.make [OF _ _ client_on_create]]])
    show "?step (two_start\<lparr>ms_stream := (ms_stream two_start)(2 \<mapsto> client_on 8)\<rparr>) y1"
      using ms_step.make [where i = 3 and S = "{2, 3}" and E = demo and vt = tcp_only and app = listener_app and env = "\<lambda>_ _. False"
          and y = "two_start\<lparr>ms_stream := (ms_stream two_start)(2 \<mapsto> client_on 8)\<rparr>", OF _ _ client_on_create [of 9]]
      by (simp add: y1_def two_start_def ms_start_def fun_upd_twist)
  qed (simp_all add: two_start_def ms_start_def)
  obtain l2 where l2: "attach_begin 2 (answers 2 (client_on 8) (loop_new (ek_start []))) = Inr l2"
    by (simp add: attach_begin_def loop_new_def answers_def Let_def)
  have f2: "created l2 = [2]" "pc l2 = Checking" "gone l2 = []" "running l2" "\<not> lock_held l2"
    "pending_ready (ep l2) = [] \<and> registered (ep l2) = Map.empty"
    using l2 by (auto simp: attach_begin_def create_event_def answers_def loop_new_def ep_new_def running_def Let_def)
  let ?y2 = "y1\<lparr>ms_loop := l2, ms_stream := (ms_stream y1)(2 \<mapsto> (client_on 8)\<lparr>has_event := True\<rparr>)\<rparr>"
  have s2: "?step y1 ?y2"
    by (rule ms_step.attach)
       (use n l2 in \<open>simp_all add: y1_def two_start_def ms_start_def loop_new_def running_def fresh_handle_def wake_def del: answers_simps\<close>)
  obtain l3 where l3: "attach_begin 3 (answers 3 (client_on 9) l2) = Inr l3"
    using f2 by (simp add: attach_begin_def answers_def Let_def)
  let ?y3 = "?y2\<lparr>ms_loop := l3, ms_stream := (ms_stream ?y2)(3 \<mapsto> (client_on 9)\<lparr>has_event := True\<rparr>)\<rparr>"
  have s3: "?step ?y2 ?y3"
    by (rule ms_step.attach) (use f2 n l3 in \<open>simp_all add: y1_def fresh_handle_def wake_def\<close>)
  from ms_reach.move [OF ms_reach.move [OF r1 s2] s3] show ?thesis by (intro exI [of _ ?y3]) simp
qed

subsection \<open>Properties\<close>

text \<open>
  C14: many streams in one loop.  Whatever number of stream buffers share an event loop, each of them is, in
  every reachable state, in a state that it can reach alone in that loop, with the others as callers; it has an
  event exactly when the loop has created it, the loop sees the mask of its filters, and once its \<open>HandleEOF\<close>
  has been called its event is closed.
\<close>

theorem streams_in_loop_refine:
  assumes "ms_reach E S vt app env (ms_start k) y"
    and "epoll_ok (en_wake_fd E) (en_calls E)" and "fresh_start E k" and "users E S" and "ms_stream y i = Some s"
  shows "(\<exists>s0 ha m w h b. sb_create ha m w h = Inr s0 \<and> sb_reach vt app env s0 s
      \<and> sys_reach E i vt app env (sys_start k s0) \<lparr>sy_loop = ms_loop y, sy_stream = s, sy_served = b\<rparr>)
    \<and> (has_event s \<longleftrightarrow> i \<in> set (created (ms_loop y)))
    \<and> (has_event s \<longrightarrow> wants (ms_loop y) i = sb_get_events s)
    \<and> (eof_called s \<longrightarrow> running (ms_loop y) \<longrightarrow> i \<in> set (closed (ms_loop y)))"
  by (rule ms_stream_facts [OF ms_reach_inv [OF assms(1-4)] assms(2-5)])

theorem streams_in_loop_refine_witness:
  "\<exists>y :: (ek, script tcp, unit) streams. ms_reach demo {2, 3} tcp_only listener_app (\<lambda>_ _. False) (ms_start (ek_start [])) y
     \<and> {2, 3} \<subseteq> set (created (ms_loop y))"
proof -
  from two_attached obtain y :: "(ek, script tcp, unit) streams" and s t where
    y: "ms_reach demo {2, 3} tcp_only listener_app (\<lambda>_ _. False) (ms_start (ek_start [])) y"
      "ms_stream y 2 = Some s" "has_event s" "ms_stream y 3 = Some t" "has_event t" unfolding two_start_def by blast
  have u: "users demo {2, 3}" by (simp add: users_def)
  from streams_in_loop_refine [OF y(1) demo_ok demo_start u y(2)] streams_in_loop_refine [OF y(1) demo_ok demo_start u y(4)] y
  show ?thesis by blast
qed

end
