(* ===== verification/Server_In_Loop.thy ===== *)
theory Server_In_Loop
  imports Streams_In_Loop Stream_Listener Loop_Order
begin

text \<open>
  A server: a \<open>StreamListener\<close> in an event loop whose \<open>HandleNewConnection\<close> makes a stream buffer of every
  accepted descriptor and attaches it, as in \<open>samples/ping_pong/ping_server.cc\<close>, beside any number of streams.
\<close>

subsection \<open>The composition\<close>

record ('k, 'v, 'h, 'a) server =
  sv_streams :: "('k, 'v tcp, 'h) streams"
  sv_listener :: "('a, fd list) listener"

text \<open>The descriptors that the listener gave to its handler, in order.\<close>

definition collect :: "fd \<Rightarrow> fd list \<Rightarrow> exn + fd list" where
  "collect h hs = Inr (hs @ [h])"

text \<open>
  \<open>HandleNewConnection\<close> for each of them: a stream buffer in server mode, with an id of its own, is created,
  attached and handed over.
\<close>

inductive accepted ::
  "'k env \<Rightarrow> nat set \<Rightarrow> fd list \<Rightarrow> ('k, 'v tcp, 'h) streams \<Rightarrow> ('k, 'v tcp, 'h) streams \<Rightarrow> bool" for E S where
  no_more: "accepted E S [] y y"
| connection: "i \<in> S \<Longrightarrow> ms_stream y i = None \<Longrightarrow> en_handle E i = h \<Longrightarrow> create_for_server True h v a = Inr s \<Longrightarrow>
    running (ms_loop y) \<Longrightarrow> \<not> lock_held (ms_loop y) \<Longrightarrow> i \<notin> set (gone (ms_loop y)) \<Longrightarrow> fresh_handle E i (ms_loop y) \<Longrightarrow>
    attach_begin i (Stream_In_Loop.answers i s (ms_loop y)) = Inr l \<Longrightarrow> attach_end E i l = Inr l' \<Longrightarrow>
    accepted E S hs (y\<lparr>ms_loop := l', ms_stream := (ms_stream y)(i \<mapsto> s\<lparr>has_event := True\<rparr>)\<rparr>) z \<Longrightarrow>
    accepted E S (h # hs) y z"

definition listener_rearmed :: "('a, 'h) listener \<Rightarrow> ('a, 'h) listener \<Rightarrow> bool" where
  "listener_rearmed s t \<longleftrightarrow> Ob_ready_read \<in> set (drop (length (l_trace s)) (l_trace t))"

text \<open>The loop thread carries out the call of \<open>HandleEvents\<close> of the listener, whose event is \<open>i\<close>.\<close>

definition listens ::
  "'k env \<Rightarrow> nat set \<Rightarrow> nat \<Rightarrow> ('a \<Rightarrow> (errno + fd) \<times> 'a) \<Rightarrow> mask \<Rightarrow> ('k, 'v, 'h, 'a) server \<Rightarrow> ('k, 'v, 'h, 'a) server \<Rightarrow> bool" where
  "listens E S i accept m y z \<longleftrightarrow>
     (\<exists>u l. listener_handle_events global_config accept collect m (sv_listener y) = Inr (sv_listener z)
        \<and> accepted E S (drop (length (l_app (sv_listener y))) (l_app (sv_listener z))) (sv_streams y) u
        \<and> (if listener_rearmed (sv_listener y) (sv_listener z) then el_ready E i Ev_Read (ms_loop u) else Inr (ms_loop u)) = Inr l
        \<and> sv_streams z = u\<lparr>ms_loop := l, ms_served := True\<rparr>)"

definition listener_due :: "nat \<Rightarrow> ('k, 'v, 'h, 'a) server \<Rightarrow> bool" where
  "listener_due i y \<longleftrightarrow> calling (pc (ms_loop (sv_streams y))) = Some i \<and> \<not> ms_served (sv_streams y)"

inductive sv_step ::
  "'k env \<Rightarrow> nat set \<Rightarrow> nat \<Rightarrow> 'v tcp vtable \<Rightarrow> 'h app \<Rightarrow> ('v tcp \<Rightarrow> 'v tcp \<Rightarrow> bool) \<Rightarrow> ('a \<Rightarrow> fd list) \<Rightarrow> ('a \<Rightarrow> (errno + fd) \<times> 'a) \<Rightarrow>
     ('k, 'v, 'h, 'a) server \<Rightarrow> ('k, 'v, 'h, 'a) server \<Rightarrow> bool"
  for E S i vt app env backlog accept where
  attach_listener: "running (ms_loop (sv_streams y)) \<Longrightarrow> \<not> lock_held (ms_loop (sv_streams y)) \<Longrightarrow>
    i \<notin> set (gone (ms_loop (sv_streams y))) \<Longrightarrow> fresh_handle E i (ms_loop (sv_streams y)) \<Longrightarrow> \<not> l_has_event (sv_listener y) \<Longrightarrow>
    l0 = (ms_loop (sv_streams y))\<lparr>wants := (wants (ms_loop (sv_streams y)))(i := listener_get_events)\<rparr> \<Longrightarrow>
    attach_begin i l0 = Inr l \<Longrightarrow>
    sv_step E S i vt app env backlog accept y
      \<lparr>sv_streams = (sv_streams y)\<lparr>ms_loop := l\<rparr>, sv_listener = (sv_listener y)\<lparr>l_has_event := True\<rparr>\<rparr>"
| listen: "running (ms_loop (sv_streams y)) \<Longrightarrow> pc (ms_loop (sv_streams y)) = Calling i m q \<Longrightarrow> \<not> ms_served (sv_streams y) \<Longrightarrow>
    listens E S i accept m y z \<Longrightarrow> sv_step E S i vt app env backlog accept y z"
| arrive: "backlog a = backlog (l_kernel (sv_listener y)) @ hs \<Longrightarrow>
    sv_step E S i vt app env backlog accept y (y\<lparr>sv_listener := (sv_listener y)\<lparr>l_kernel := a\<rparr>\<rparr>)"
| handler_gone: "sv_step E S i vt app env backlog accept y (y\<lparr>sv_listener := (sv_listener y)\<lparr>l_handler_alive := False\<rparr>\<rparr>)"
| elsewhere: "ms_step E S vt app env (sv_streams y) u \<Longrightarrow>
    \<not> listener_due i y \<or> pc (ms_loop u) = pc (ms_loop (sv_streams y)) \<Longrightarrow>
    (i \<in> set (created (ms_loop u)) \<longleftrightarrow> i \<in> set (created (ms_loop (sv_streams y)))) \<Longrightarrow>
    sv_step E S i vt app env backlog accept y (y\<lparr>sv_streams := u\<rparr>)"

inductive sv_reach ::
  "'k env \<Rightarrow> nat set \<Rightarrow> nat \<Rightarrow> 'v tcp vtable \<Rightarrow> 'h app \<Rightarrow> ('v tcp \<Rightarrow> 'v tcp \<Rightarrow> bool) \<Rightarrow> ('a \<Rightarrow> fd list) \<Rightarrow> ('a \<Rightarrow> (errno + fd) \<times> 'a) \<Rightarrow>
     ('k, 'v, 'h, 'a) server \<Rightarrow> ('k, 'v, 'h, 'a) server \<Rightarrow> bool"
  for E S i vt app env backlog accept y0 where
  start: "sv_reach E S i vt app env backlog accept y0 y0"
| move: "sv_reach E S i vt app env backlog accept y0 y \<Longrightarrow> sv_step E S i vt app env backlog accept y z \<Longrightarrow>
    sv_reach E S i vt app env backlog accept y0 z"

definition sv_start :: "'k \<Rightarrow> ('a, fd list) listener \<Rightarrow> ('k, 'v, 'h, 'a) server" where
  "sv_start k s = \<lparr>sv_streams = ms_start k, sv_listener = s\<rparr>"

subsection \<open>What accepting does\<close>

lemma create_server_event: "create_for_server ha h v a = Inr s \<Longrightarrow> \<not> has_event s"
  unfolding create_for_server_def by (drule sb_create_start) simp

lemma connection_steps:
  assumes "i \<in> S" and "ms_stream y i = None" and "create_for_server True h v a = Inr s"
    and "running (ms_loop y)" and "\<not> lock_held (ms_loop y)" and "i \<notin> set (gone (ms_loop y))" and "fresh_handle E i (ms_loop y)"
    and "attach_begin i (Stream_In_Loop.answers i s (ms_loop y)) = Inr l" and "attach_end E i l = Inr l'"
  shows "ms_reach E S vt app env y (y\<lparr>ms_loop := l', ms_stream := (ms_stream y)(i \<mapsto> s\<lparr>has_event := True\<rparr>)\<rparr>)"
    and "pc l' = pc (ms_loop y)" and "created l' = created (ms_loop y) @ [i]"
    and "pending_add (ep l') = pending_add (ep (ms_loop y)) @ [i]"
proof -
  have b: "pc l = pc (ms_loop y)" "created l = created (ms_loop y) @ [i]" "ep l = ep (ms_loop y)"
    "attaching l = attaching (ms_loop y) @ [i]" "wants l = wants (Stream_In_Loop.answers i s (ms_loop y))"
    using assms(8) by (auto simp: attach_begin_def create_event_def Stream_In_Loop.answers_def split: if_splits)
  note e = give_effect [OF assms(9)]
  have w: "wants l' = wants l" using assms(9) by (auto simp: attach_end_def on_ep_def split: if_splits)
  show "pc l' = pc (ms_loop y)" "created l' = created (ms_loop y) @ [i]"
    "pending_add (ep l') = pending_add (ep (ms_loop y)) @ [i]" using b e by simp_all
  let ?y1 = "y\<lparr>ms_stream := (ms_stream y)(i \<mapsto> s)\<rparr>"
  let ?y2 = "?y1\<lparr>ms_loop := l, ms_stream := (ms_stream ?y1)(i \<mapsto> s\<lparr>has_event := True\<rparr>)\<rparr>"
  have "ms_step E S vt app env y ?y1"
    using ms_step.make [OF assms(1,2)] assms(3) unfolding create_for_server_def by blast
  moreover have "ms_step E S vt app env ?y1 ?y2"
    by (rule ms_step.attach) (use assms(4-8) create_server_event [OF assms(3)] in simp_all)
  moreover have "ms_step E S vt app env ?y2 (?y2\<lparr>ms_loop := l', ms_served := (if pc l' = pc (ms_loop ?y2) then ms_served ?y2 else False)\<rparr>)"
  proof (rule ms_step.elsewhere)
    show "run_step E (ms_loop ?y2) l'"
      using run_step.hand_over [of l i E l'] assms(4,9) b by (simp add: running_def)
  qed (use e b w in \<open>simp_all add: leaves_def\<close>)
  ultimately have "ms_reach E S vt app env y (?y2\<lparr>ms_loop := l', ms_served := (if pc l' = pc (ms_loop ?y2) then ms_served ?y2 else False)\<rparr>)"
    by (meson ms_reach.intros)
  moreover have "?y2\<lparr>ms_loop := l', ms_served := (if pc l' = pc (ms_loop ?y2) then ms_served ?y2 else False)\<rparr>
      = y\<lparr>ms_loop := l', ms_stream := (ms_stream y)(i \<mapsto> s\<lparr>has_event := True\<rparr>)\<rparr>"
    using e by (cases y) simp
  ultimately show "ms_reach E S vt app env y (y\<lparr>ms_loop := l', ms_stream := (ms_stream y)(i \<mapsto> s\<lparr>has_event := True\<rparr>)\<rparr>)"
    by simp
qed

lemma ms_reach_trans: "ms_reach E S vt app env y z \<Longrightarrow> ms_reach E S vt app env x y \<Longrightarrow> ms_reach E S vt app env x z"
  by (induction rule: ms_reach.induct) (auto intro: ms_reach.move)

text \<open>The connections of an accepting call: streams with events, queued in the order of acceptance.\<close>

definition connected ::
  "'k env \<Rightarrow> nat set \<Rightarrow> fd list \<Rightarrow> ('k, 'v tcp, 'h) streams \<Rightarrow> ('k, 'v tcp, 'h) streams \<Rightarrow> nat list \<Rightarrow> bool" where
  "connected E S hs y z ids \<longleftrightarrow> map (en_handle E) ids = hs \<and> set ids \<subseteq> S
     \<and> pending_add (ep (ms_loop z)) = pending_add (ep (ms_loop y)) @ ids
     \<and> set (created (ms_loop z)) = set (created (ms_loop y)) \<union> set ids
     \<and> (\<forall>i \<in> set ids. \<exists>s. ms_stream z i = Some s \<and> has_event s)
     \<and> (\<forall>i s. ms_stream y i = Some s \<longrightarrow> ms_stream z i = Some s)"

lemma connected_Cons:
  assumes "connected E S hs u z ids" and "u = y\<lparr>ms_loop := l, ms_stream := (ms_stream y)(i \<mapsto> s)\<rparr>"
    and "i \<in> S" and "ms_stream y i = None" and "has_event s"
    and "created l = created (ms_loop y) @ [i]" and "pending_add (ep l) = pending_add (ep (ms_loop y)) @ [i]"
  shows "connected E S (en_handle E i # hs) y z (i # ids)"
proof -
  have k: "ms_stream z j = Some t" if "ms_stream u j = Some t" for j t
    using assms(1) that unfolding connected_def by blast
  have "ms_stream z j = Some t" if "ms_stream y j = Some t" for j t
    using that assms(2,4) k [of j t] by (cases "j = i") simp_all
  moreover have "ms_stream z i = Some s" using k [of i s] assms(2) by simp
  ultimately show ?thesis using assms unfolding connected_def by simp
qed

lemma accepted_facts:
  assumes "accepted E S hs y z"
  shows "ms_reach E S vt app env y z" and "pc (ms_loop z) = pc (ms_loop y)" and "ms_served z = ms_served y"
    and "\<exists>ids. connected E S hs y z ids"
  using assms
proof (induction rule: accepted.induct)
  case (no_more y)
  have "connected E S [] y y []" by (simp add: connected_def)
  then show "ms_reach E S vt app env y y" "pc (ms_loop y) = pc (ms_loop y)" "ms_served y = ms_served y"
    "\<exists>ids. connected E S [] y y ids" by (auto intro: ms_reach.start)
next
  case (connection i y h v a s l l' hs z)
  let ?u = "y\<lparr>ms_loop := l', ms_stream := (ms_stream y)(i \<mapsto> s\<lparr>has_event := True\<rparr>)\<rparr>"
  note c = connection_steps(2-4) [OF connection(1,2,4-10)]
  show "ms_reach E S vt app env y z"
    by (rule ms_reach_trans [OF connection.IH(1) connection_steps(1) [OF connection(1,2,4-10)]])
  show "pc (ms_loop z) = pc (ms_loop y)" "ms_served z = ms_served y" using connection.IH(2,3) c(1) by simp_all
  from connection.IH(4) obtain ids where "connected E S hs ?u z ids" by blast
  from connected_Cons [OF this refl connection(1,2) _ c(2,3)] connection(3)
  show "\<exists>ids. connected E S (h # hs) y z ids" by (intro exI [of _ "i # ids"]) simp
qed

text \<open>What the listener hands on.\<close>

lemma collect_loop:
  "accept_loop accept collect n s = Inr (limit, t) \<Longrightarrow>
   \<exists>hs. l_app t = l_app s @ hs \<and> new_connections (l_trace t) = new_connections (l_trace s) @ hs \<and> l_has_event t = l_has_event s"
proof (induction n arbitrary: s)
  case (Suc n)
  obtain r k' where a: "accept (l_kernel s) = (r, k')" by fastforce
  show ?case
  proof (cases r)
    case (Inl e)
    with Suc.prems a have "t = s\<lparr>l_kernel := k'\<rparr> \<or> accept_loop accept collect n (s\<lparr>l_kernel := k'\<rparr>) = Inr (limit, t)"
      by (auto simp: Let_def split: if_splits)
    with Suc.IH [of "s\<lparr>l_kernel := k'\<rparr>"] show ?thesis by auto
  next
    case (Inr h)
    show ?thesis
    proof (cases "l_handler_alive s")
      case True
      have "collect h (l_app s) = Inr (l_app s @ [h])" by (simp add: collect_def)
      with True Suc.prems a Inr have "accept_loop accept collect n
          (s\<lparr>l_kernel := k', l_app := l_app s @ [h], l_trace := l_trace s @ [Ob_new_connection h]\<rparr>) = Inr (limit, t)"
        by simp
      from Suc.IH [OF this] show ?thesis by force
    next
      case False
      with Suc.prems a Inr have "accept_loop accept collect n (s\<lparr>l_kernel := k'\<rparr>) = Inr (limit, t)" by simp
      from Suc.IH [OF this] show ?thesis by simp
    qed
  qed
qed simp

lemma listener_hands_on:
  assumes "accept_ok backlog accept" and "listener_handle_events global_config accept collect m s = Inr t"
  shows "l_has_event t = l_has_event s"
    and "has m Ev_Read \<Longrightarrow> l_handler_alive s \<Longrightarrow> l_has_event s \<Longrightarrow> \<exists>hs. l_app t = l_app s @ hs
      \<and> backlog (l_kernel s) = hs @ backlog (l_kernel t) \<and> length hs \<le> 50
      \<and> (backlog (l_kernel t) = [] \<or> listener_rearmed s t)"
proof -
  have "l_has_event t = l_has_event s \<and> (has m Ev_Read \<longrightarrow> l_handler_alive s \<longrightarrow> l_has_event s \<longrightarrow> (\<exists>hs. l_app t = l_app s @ hs
      \<and> backlog (l_kernel s) = hs @ backlog (l_kernel t) \<and> length hs \<le> 50
      \<and> (backlog (l_kernel t) = [] \<or> listener_rearmed s t)))"
  proof (cases "has m Ev_Read")
    case False
    with assms(2) show ?thesis by (simp add: listener_handle_events_def)
  next
    case True
    have "bindE (accept_loop accept collect 50 s) (\<lambda>(limit, s).
        if limit \<and> l_has_event s then Inr (s\<lparr>l_trace := l_trace s @ [Ob_ready_read]\<rparr>) else Inr s) = Inr t"
      using assms(2) True by (simp add: listener_handle_events_def global_config_def del: bindE_eq_Inr)
    then obtain limit u where u: "accept_loop accept collect 50 s = Inr (limit, u)"
      "t = (if limit \<and> l_has_event u then u\<lparr>l_trace := l_trace u @ [Ob_ready_read]\<rparr> else u)"
      by (auto simp del: bindE_eq_Inr if_split simp: bindE_eq_Inr if_distrib [of Inr, symmetric])
    note sp = accept_loop_spec [OF assms(1) u(1)]
    from collect_loop [OF u(1)] obtain hs where hs: "l_app u = l_app s @ hs"
      "new_connections (l_trace u) = new_connections (l_trace s) @ hs" "l_has_event u = l_has_event s" by blast
    have "backlog (l_kernel s) = hs @ backlog (l_kernel u) \<and> length hs \<le> 50" if "l_handler_alive s"
    proof -
      from sp that obtain xs where xs: "l_trace u = l_trace s @ xs" "length xs \<le> 50"
        "backlog (l_kernel s) = new_connections xs @ backlog (l_kernel u)" by auto
      have "length (new_connections xs) \<le> length xs" by (induction xs rule: new_connections.induct) auto
      with xs hs(2) show ?thesis by auto
    qed
    moreover have "backlog (l_kernel t) = [] \<or> listener_rearmed s t" if "l_has_event s"
    proof (cases limit)
      case True
      from sp obtain xs where "l_trace u = l_trace s @ xs" by blast
      with True u(2) hs(3) that show ?thesis by (simp add: listener_rearmed_def)
    next
      case False
      with sp u(2) show ?thesis by simp
    qed
    ultimately show ?thesis using hs u(2) by auto
  qed
  then show "l_has_event t = l_has_event s"
    and "has m Ev_Read \<Longrightarrow> l_handler_alive s \<Longrightarrow> l_has_event s \<Longrightarrow> \<exists>hs. l_app t = l_app s @ hs
      \<and> backlog (l_kernel s) = hs @ backlog (l_kernel t) \<and> length hs \<le> 50
      \<and> (backlog (l_kernel t) = [] \<or> listener_rearmed s t)" by blast+
qed

subsection \<open>The composition keeps what the streams keep\<close>

lemma ms_inv_reach:
  assumes "ms_reach E S vt app env y z" and "ms_inv E S vt app env k y"
    and "epoll_ok (en_wake_fd E) (en_calls E)" and "fresh_start E k" and "users E S"
  shows "ms_inv E S vt app env k z"
  using assms(1)
proof (induction rule: ms_reach.induct)
  case (move u v)
  from ms_step_inv [OF move(2,3) assms(3-5)] show ?case .
qed (rule assms(2))

text \<open>A call of another handler says nothing of the streams.\<close>

lemma ms_inv_served:
  assumes "ms_inv E S vt app env k y" and "calling (pc (ms_loop y)) = Some i" and "i \<notin> S"
  shows "ms_inv E S vt app env k (y\<lparr>ms_served := b\<rparr>)"
proof -
  have v: "view E vt app env k j s0 s (ms_loop y) b" if "j \<in> S" "view E vt app env k j s0 s (ms_loop y) (ms_served y)" for j s0 s
    by (rule view_others [OF that(2) rtranclp.rtrancl_refl]) (use assms(2,3) that(1) in auto)
  have st: "j \<in> S \<and> (\<exists>s0 ha m w h. sb_create ha m w h = Inr s0 \<and> view E vt app env k j s0 s (ms_loop y) b)"
    if "ms_stream y j = Some s" for j s
  proof -
    from assms(1) that obtain s0 ha m w h where "j \<in> S" "sb_create ha m w h = Inr s0"
      "view E vt app env k j s0 s (ms_loop y) (ms_served y)" unfolding ms_inv_def by blast
    with v show ?thesis by blast
  qed
  have no: "j \<notin> set (created (ms_loop y)) \<and> (\<forall>s0. \<not> has_event s0 \<longrightarrow> view E vt app env k j s0 s0 (ms_loop y) b)"
    if "j \<in> S" "ms_stream y j = None" for j
    using assms(1) that v [OF that(1)] unfolding ms_inv_def by blast
  from st no assms(1) show ?thesis unfolding ms_inv_def by simp
qed

definition sv_inv ::
  "'k env \<Rightarrow> nat set \<Rightarrow> nat \<Rightarrow> 'v tcp vtable \<Rightarrow> 'h app \<Rightarrow> ('v tcp \<Rightarrow> 'v tcp \<Rightarrow> bool) \<Rightarrow> 'k \<Rightarrow> ('k, 'v, 'h, 'a) server \<Rightarrow> bool" where
  "sv_inv E S i vt app env k y \<longleftrightarrow> ms_inv E S vt app env k (sv_streams y)
     \<and> (l_has_event (sv_listener y) \<longleftrightarrow> i \<in> set (created (ms_loop (sv_streams y))))"

lemma ready_effect:
  assumes "el_ready E i m l = Inr l'"
  shows "pc l' = pc l" and "created l' = created l" and "wants l' = wants l"
    and "pending_add (ep l') = pending_add (ep l)" and "pending_ready (ep l') = pending_ready (ep l) @ [(i, m)]"
  using assms by (auto simp: el_ready_def on_ep_def ep_ready_def add_element_def ep_wakeup_def Let_def
      split: if_splits prod.splits option.splits)

lemma attach_listener_inv:
  assumes "sv_inv E S i vt app env k y" and "epoll_ok (en_wake_fd E) (en_calls E)" and "fresh_start E k"
    and "i \<notin> S" and "en_kind E i = User" and "running (ms_loop (sv_streams y))" and "\<not> lock_held (ms_loop (sv_streams y))"
    and "i \<notin> set (gone (ms_loop (sv_streams y)))" and "fresh_handle E i (ms_loop (sv_streams y))"
    and "attach_begin i ((ms_loop (sv_streams y))\<lparr>wants := (wants (ms_loop (sv_streams y)))(i := listener_get_events)\<rparr>) = Inr l"
  shows "ms_inv E S vt app env k ((sv_streams y)\<lparr>ms_loop := l\<rparr>)" and "i \<in> set (created l)"
proof -
  let ?y = "sv_streams y"
  let ?l = "(ms_loop ?y)\<lparr>wants := (wants (ms_loop ?y))(i := listener_get_events)\<rparr>"
  have "ms_inv E S vt app env k (?y\<lparr>ms_loop := ?l, ms_served := (if pc ?l = pc (ms_loop ?y) then ms_served ?y else False)\<rparr>)"
    by (rule ms_elsewhere_inv [OF _ assms(2,3) run_step.wants_change [OF assms(6)]])
       (use assms(1,4) in \<open>auto simp: sv_inv_def leaves_def\<close>)
  then have w: "ms_inv E S vt app env k (?y\<lparr>ms_loop := ?l\<rparr>)" by simp
  have st: "run_step E ?l l"
    by (rule run_step.user_attach [OF _ _ _ assms(5) _ assms(10)])
       (use assms(6-9) in \<open>simp_all add: running_def fresh_handle_def held_def\<close>)
  have f: "created l = created (ms_loop ?y) @ [i]" "pc l = pc (ms_loop ?y)" "wants l = wants ?l"
    using assms(10) by (auto simp: attach_begin_def create_event_def split: if_splits)
  have "ms_inv E S vt app env k (?y\<lparr>ms_loop := l, ms_served := (if pc l = pc ?l then ms_served ?y else False)\<rparr>)"
    using ms_elsewhere_inv [OF w assms(2,3), of l] st f assms(4) by (auto simp: leaves_def)
  then show "ms_inv E S vt app env k (?y\<lparr>ms_loop := l\<rparr>)" using f(2) by simp
  show "i \<in> set (created l)" using f(1) by simp
qed

text \<open>The call of the listener, in the part that the loop sees.\<close>

lemma listens_facts:
  assumes "sv_inv E S i vt app env k y" and "epoll_ok (en_wake_fd E) (en_calls E)" and "fresh_start E k" and "users E S"
    and "accept_ok backlog accept" and "i \<notin> S" and "running (ms_loop (sv_streams y))"
    and "pc (ms_loop (sv_streams y)) = Calling i m q" and "listens E S i accept m y z"
  shows "sv_inv E S i vt app env k z" and "pc (ms_loop (sv_streams z)) = Calling i m q"
    and "has m Ev_Read \<Longrightarrow> l_handler_alive (sv_listener y) \<Longrightarrow> \<exists>ids.
      backlog (l_kernel (sv_listener y)) = map (en_handle E) ids @ backlog (l_kernel (sv_listener z)) \<and> length ids \<le> 50
      \<and> connected E S (map (en_handle E) ids) (sv_streams y) (sv_streams z) ids
      \<and> (backlog (l_kernel (sv_listener z)) = [] \<or> (i, Ev_Read) \<in> set (pending_ready (ep (ms_loop (sv_streams z)))))"
proof -
  from assms(9) obtain u l where h: "listener_handle_events global_config accept collect m (sv_listener y) = Inr (sv_listener z)"
    and a: "accepted E S (drop (length (l_app (sv_listener y))) (l_app (sv_listener z))) (sv_streams y) u"
    and r: "(if listener_rearmed (sv_listener y) (sv_listener z) then el_ready E i Ev_Read (ms_loop u) else Inr (ms_loop u)) = Inr l"
    and z: "sv_streams z = u\<lparr>ms_loop := l, ms_served := True\<rparr>" unfolding listens_def by blast
  from assms(1) have y: "ms_inv E S vt app env k (sv_streams y)" "l_has_event (sv_listener y) \<longleftrightarrow> i \<in> set (created (ms_loop (sv_streams y)))"
    by (simp_all add: sv_inv_def)
  have rr: "run_reach E (loop_new k) (ms_loop (sv_streams y))" using y(1) by (simp add: ms_inv_def)
  have cr: "i \<in> set (created (ms_loop (sv_streams y)))"
    using calling_created [OF reach_running_inv [OF rr assms(2,3)]] assms(7,8) by simp
  have ui: "ms_inv E S vt app env k u" by (rule ms_inv_reach [OF accepted_facts(1) [OF a] y(1) assms(2-4)])
  have up: "pc (ms_loop u) = Calling i m q" using accepted_facts(2) [OF a] assms(8) by simp
  from accepted_facts(4) [OF a] obtain ids where
    c: "connected E S (drop (length (l_app (sv_listener y))) (l_app (sv_listener z))) (sv_streams y) u ids" by blast
  have cu: "i \<in> set (created (ms_loop u))" and ci: "i \<notin> set ids"
    using c cr assms(6) by (auto simp: connected_def)
  have run: "running (ms_loop u)" using up by (simp add: running_def)
  have l: "run_step E (ms_loop u) l \<or> l = ms_loop u" "pc l = pc (ms_loop u)" "created l = created (ms_loop u)"
    "wants l = wants (ms_loop u)" "pending_add (ep l) = pending_add (ep (ms_loop u))"
    "listener_rearmed (sv_listener y) (sv_listener z) \<Longrightarrow> (i, Ev_Read) \<in> set (pending_ready (ep l))"
    using r ready_effect [of E i Ev_Read "ms_loop u" l] run_step.ready [OF run cu] by (auto split: if_splits)
  show "pc (ms_loop (sv_streams z)) = Calling i m q" using z l(2) up by simp
  have li: "ms_inv E S vt app env k (u\<lparr>ms_loop := l\<rparr>)"
  proof (cases "l = ms_loop u")
    case True
    with ui show ?thesis by simp
  next
    case False
    with l have "ms_inv E S vt app env k (u\<lparr>ms_loop := l, ms_served := (if pc l = pc (ms_loop u) then ms_served u else False)\<rparr>)"
      by (intro ms_elsewhere_inv [OF ui assms(2,3)]) (simp_all add: leaves_def)
    with l(2) show ?thesis by simp
  qed
  have "ms_inv E S vt app env k (sv_streams z)"
    using ms_inv_served [OF li, of i True] z l(2) up assms(6) by simp
  moreover have he: "l_has_event (sv_listener z) = l_has_event (sv_listener y)" by (rule listener_hands_on(1) [OF assms(5) h])
  ultimately show "sv_inv E S i vt app env k z" using z l(3) cu cr y(2) by (simp add: sv_inv_def)
  assume m: "has m Ev_Read" "l_handler_alive (sv_listener y)"
  from listener_hands_on(2) [OF assms(5) h m] y(2) cr obtain hs where
    hs: "l_app (sv_listener z) = l_app (sv_listener y) @ hs" "length hs \<le> 50"
      "backlog (l_kernel (sv_listener y)) = hs @ backlog (l_kernel (sv_listener z))"
      "backlog (l_kernel (sv_listener z)) = [] \<or> listener_rearmed (sv_listener y) (sv_listener z)" by blast
  from c hs(1) have c': "connected E S hs (sv_streams y) u ids" by simp
  then have eq: "map (en_handle E) ids = hs" by (simp add: connected_def)
  from c' z l(3,5) have "connected E S hs (sv_streams y) (sv_streams z) ids" by (simp add: connected_def)
  moreover have "length ids \<le> 50" using hs(2) eq by auto
  ultimately show "\<exists>ids.
      backlog (l_kernel (sv_listener y)) = map (en_handle E) ids @ backlog (l_kernel (sv_listener z)) \<and> length ids \<le> 50
      \<and> connected E S (map (en_handle E) ids) (sv_streams y) (sv_streams z) ids
      \<and> (backlog (l_kernel (sv_listener z)) = [] \<or> (i, Ev_Read) \<in> set (pending_ready (ep (ms_loop (sv_streams z)))))"
    using hs(3,4) eq l(6) z by (intro exI [of _ ids]) auto
qed

lemma sv_step_inv:
  assumes "sv_step E S i vt app env backlog accept y z" and "sv_inv E S i vt app env k y"
    and "epoll_ok (en_wake_fd E) (en_calls E)" and "fresh_start E k" and "users E S"
    and "accept_ok backlog accept" and "i \<notin> S" and "en_kind E i = User"
  shows "sv_inv E S i vt app env k z"
  using assms(1)
proof cases
  case (attach_listener l0 l)
  from attach_listener_inv [OF assms(2-4,7,8)] attach_listener(1-5,7,8) show ?thesis
    by (auto simp: sv_inv_def)
next
  case (listen m q)
  show ?thesis by (rule listens_facts(1) [OF assms(2-7) listen(1,2,4)])
next
  case (elsewhere u)
  from ms_step_inv [OF elsewhere(2) _ assms(3-5)] assms(2) elsewhere(1,4) show ?thesis by (auto simp: sv_inv_def)
qed (use assms(2) in \<open>simp_all add: sv_inv_def\<close>)

lemma sv_reach_inv:
  assumes "sv_reach E S i vt app env backlog accept (sv_start k s0) y" and "epoll_ok (en_wake_fd E) (en_calls E)"
    and "fresh_start E k" and "users E S" and "accept_ok backlog accept" and "i \<notin> S" and "en_kind E i = User" and "\<not> l_has_event s0"
  shows "sv_inv E S i vt app env k y"
  using assms(1)
proof (induction rule: sv_reach.induct)
  case start
  have "ms_inv E S vt app env k (ms_start k)" by (rule ms_reach_inv [OF ms_reach.start assms(2-4)])
  with assms(8) show ?case by (simp add: sv_inv_def sv_start_def ms_start_def loop_new_def)
next
  case (move y z)
  from sv_step_inv [OF move(2,3) assms(2-7)] show ?case .
qed

subsection \<open>A run of a server\<close>

text \<open>The loop thread on its way to the listener, with no streams yet.\<close>

fun lone_run :: "'k env \<Rightarrow> nat \<Rightarrow> nat \<Rightarrow> move list \<Rightarrow> 'k loop \<Rightarrow> 'k loop option" where
  "lone_run E i j [] l = Some l"
| "lone_run E i j (m # ms) l =
     (case perform E m l of
        None \<Rightarrow> None
      | Some l' \<Rightarrow>
          if calling (pc l) \<noteq> Some i \<and> created l' = created l \<and> wants l' j = wants l j then lone_run E i j ms l' else None)"

definition lone :: "'k loop \<Rightarrow> ('a, fd list) listener \<Rightarrow> ('k, 'v, 'h, 'a) server" where
  "lone l s = \<lparr>sv_streams = \<lparr>ms_loop = l, ms_stream = Map.empty, ms_served = False\<rparr>, sv_listener = s\<rparr>"

lemma lone_reach:
  "lone_run E i j ms l = Some l' \<Longrightarrow> sv_reach E {j} i vt app env backlog accept y0 (lone l s) \<Longrightarrow>
   sv_reach E {j} i vt app env backlog accept y0 (lone l' s)"
proof (induction ms arbitrary: l)
  case (Cons m ms)
  from Cons.prems(1) obtain u where u: "perform E m l = Some u" "calling (pc l) \<noteq> Some i" "created u = created l"
    "wants u j = wants l j" "lone_run E i j ms u = Some l'" by (auto split: option.splits if_splits)
  let ?y = "sv_streams (lone l s :: ('a, 'b, 'c, 'd) server)"
  have "ms_step E {j} vt app env ?y
      (?y\<lparr>ms_loop := u, ms_served := (if pc u = pc (ms_loop ?y) then ms_served ?y else False)\<rparr>)"
    by (rule ms_step.elsewhere) (use perform_step [OF u(1)] u(3,4) in \<open>simp_all add: lone_def leaves_def at_some_def\<close>)
  then have "ms_step E {j} vt app env ?y (?y\<lparr>ms_loop := u\<rparr>)" by (simp add: lone_def split: if_splits)
  then have "sv_step E {j} i vt app env backlog accept (lone l s) ((lone l s)\<lparr>sv_streams := ?y\<lparr>ms_loop := u\<rparr>\<rparr>)"
    by (rule sv_step.elsewhere) (use u(2,3) in \<open>simp_all add: lone_def listener_due_def\<close>)
  then have "sv_step E {j} i vt app env backlog accept (lone l s) (lone u s)" by (simp add: lone_def)
  from Cons.IH [OF u(5) sv_reach.move [OF Cons.prems(2) this]] show ?case .
qed simp

text \<open>One connection waits, with the descriptor of the handler 3.\<close>

definition one_waiting :: "(fd list, fd list) listener" where
  "one_waiting = \<lparr>l_handler_alive = True, l_has_event = False, l_kernel = [9], l_app = [], l_trace = []\<rparr>"

definition conn_on :: "(script tcp, unit) sbuf" where
  "conn_on = projr (create_for_server True 9 script_a ())"

lemma conn_on_create: "create_for_server True 9 script_a () = Inr conn_on"
  by (simp add: conn_on_def create_for_server_def sb_create_def sb_add_filter_def sb_new_def)

definition attached_listener :: "ek loop" where
  "attached_listener = (projr (attach_begin 2 ((loop_new (ek_start [[], [(8, 1)]]))
     \<lparr>wants := (wants (loop_new (ek_start [[], [(8, 1)]])))(2 := listener_get_events)\<rparr>)))"

lemma called_listener:
  "\<exists>l l2 l3. lone_run demo 2 3 (M_hand_over 2 # replicate 16 M_thread) attached_listener = Some l
     \<and> pc l = Calling 2 1 (Batch []) \<and> running l \<and> \<not> lock_held l \<and> gone l = [] \<and> fresh_handle demo 3 l
     \<and> attach_begin 3 (l\<lparr>wants := (wants l)(3 := m)\<rparr>) = Inr l2 \<and> attach_end demo 3 l2 = Inr l3"
  by (simp add: attached_listener_def replicate_unfold listener_get_events_def loop_eval linux_abi_def events_of_epoll_def ev_defs has_def)


lemma waiting_accepted:
  "listener_handle_events global_config list_accept collect 1 (one_waiting\<lparr>l_has_event := True\<rparr>)
     = Inr (one_waiting\<lparr>l_has_event := True, l_kernel := [], l_app := [9], l_trace := [Ob_new_connection 9]\<rparr>)"
  by (simp add: listener_handle_events_def one_waiting_def collect_def global_config_def has_def Ev_Read_def numeral_eq_Suc)

lemma one_served:
  "\<exists>y z :: (ek, script, unit, fd list) server.
     sv_reach demo {3} 2 tcp_only listener_app (\<lambda>_ _. False) (\<lambda>b. b) list_accept (sv_start (ek_start [[], [(8, 1)]]) one_waiting) y
     \<and> pc (ms_loop (sv_streams y)) = Calling 2 1 (Batch []) \<and> listens demo {3} 2 list_accept 1 y z
     \<and> sv_listener y = one_waiting\<lparr>l_has_event := True\<rparr> \<and> l_kernel (sv_listener z) = []"
proof -
  let ?reach = "sv_reach demo {3} 2 tcp_only listener_app (\<lambda>_ _. False) (\<lambda>b. b) list_accept
    (sv_start (ek_start [[], [(8, 1)]]) one_waiting) :: (ek, script, unit, fd list) server \<Rightarrow> bool"
  let ?s = "one_waiting\<lparr>l_has_event := True\<rparr>"
  let ?y0 = "sv_start (ek_start [[], [(8, 1)]]) one_waiting :: (ek, script, unit, fd list) server"
  have a: "attach_begin 2 ((ms_loop (sv_streams ?y0))\<lparr>wants := (wants (ms_loop (sv_streams ?y0)))(2 := listener_get_events)\<rparr>)
      = Inr attached_listener"
    by (simp add: sv_start_def ms_start_def attached_listener_def attach_begin_def loop_new_def create_event_def Let_def)
  have "?reach \<lparr>sv_streams = (sv_streams ?y0)\<lparr>ms_loop := attached_listener\<rparr>, sv_listener = (sv_listener ?y0)\<lparr>l_has_event := True\<rparr>\<rparr>"
    by (rule sv_reach.move [OF sv_reach.start sv_step.attach_listener [OF _ _ _ _ _ refl a]])
       (simp_all add: sv_start_def ms_start_def loop_new_def running_def fresh_handle_def held_def wake_def ep_new_def one_waiting_def)
  then have r0: "?reach (lone attached_listener ?s)" by (simp add: sv_start_def ms_start_def lone_def)
  from called_listener [of "sb_get_events conn_on"] obtain l l2 l3 where
    l: "lone_run demo 2 3 (M_hand_over 2 # replicate 16 M_thread) attached_listener = Some l" "pc l = Calling 2 1 (Batch [])"
      "running l" "\<not> lock_held l" "gone l = []" "fresh_handle demo 3 l"
      "attach_begin 3 (l\<lparr>wants := (wants l)(3 := sb_get_events conn_on)\<rparr>) = Inr l2" "attach_end demo 3 l2 = Inr l3" by blast
  let ?y = "lone l ?s :: (ek, script, unit, fd list) server"
  let ?u = "(sv_streams ?y)\<lparr>ms_loop := l3, ms_stream := (ms_stream (sv_streams ?y))(3 \<mapsto> conn_on\<lparr>has_event := True\<rparr>)\<rparr>"
  have ac: "accepted demo {3} [9] (sv_streams ?y) ?u"
    by (rule accepted.connection [OF _ _ _ conn_on_create _ _ _ _ _ _ accepted.no_more, where l = l2])
       (use l(3-8) in \<open>simp_all add: lone_def Stream_In_Loop.answers_def del: fresh_handle_def\<close>)
  let ?z = "\<lparr>sv_streams = ?u\<lparr>ms_served := True\<rparr>,
    sv_listener = one_waiting\<lparr>l_has_event := True, l_kernel := [], l_app := [9], l_trace := [Ob_new_connection 9]\<rparr>\<rparr>"
  have "listens demo {3} 2 list_accept 1 ?y ?z"
    unfolding listens_def
    by (rule exI [of _ ?u], rule exI [of _ l3])
       (use ac waiting_accepted in \<open>simp add: lone_def listener_rearmed_def one_waiting_def\<close>)
  moreover have "?reach ?y" by (rule lone_reach [OF l(1) r0])
  ultimately show ?thesis using l(2) by (intro exI [of _ ?y] exI [of _ ?z]) (simp add: lone_def)
qed

subsection \<open>Properties\<close>

text \<open>
  C31: accepting in the loop.  When the loop calls \<open>HandleEvents\<close> of a listener for reading, every connection
  that it takes from the backlog, at most fifty and in their order, becomes a stream of the loop: attached, with
  an event and queued for registration in the order of acceptance; the streams that were there stay as they are,
  and what is left of the backlog is not forgotten, because the listener is marked ready again.
\<close>

theorem server_accepts:
  assumes "sv_reach E S i vt app env backlog accept (sv_start k s0) y"
    and "epoll_ok (en_wake_fd E) (en_calls E)" and "fresh_start E k" and "users E S" and "accept_ok backlog accept"
    and "i \<notin> S" and "en_kind E i = User" and "\<not> l_has_event s0"
    and "pc (ms_loop (sv_streams y)) = Calling i m q" and "listens E S i accept m y z"
    and "has m Ev_Read" and "l_handler_alive (sv_listener y)"
  shows "\<exists>ids. backlog (l_kernel (sv_listener y)) = map (en_handle E) ids @ backlog (l_kernel (sv_listener z))
     \<and> length ids \<le> 50 \<and> set ids \<subseteq> S
     \<and> pending_add (ep (ms_loop (sv_streams z))) = pending_add (ep (ms_loop (sv_streams y))) @ ids
     \<and> (\<forall>j \<in> set ids. j \<in> set (created (ms_loop (sv_streams z))) \<and> (\<exists>s. ms_stream (sv_streams z) j = Some s \<and> has_event s))
     \<and> (\<forall>j s. ms_stream (sv_streams y) j = Some s \<longrightarrow> ms_stream (sv_streams z) j = Some s)
     \<and> (backlog (l_kernel (sv_listener z)) = [] \<or> (i, Ev_Read) \<in> set (pending_ready (ep (ms_loop (sv_streams z)))))"
proof -
  have "running (ms_loop (sv_streams y))" by (simp add: running_def assms(9))
  from listens_facts(3) [OF sv_reach_inv [OF assms(1-8)] assms(2-6) this assms(9-12)] show ?thesis
    unfolding connected_def by blast
qed

theorem server_accepts_witness:
  "\<exists>y z :: (ek, script, unit, fd list) server.
     sv_reach demo {3} 2 tcp_only listener_app (\<lambda>_ _. False) (\<lambda>b. b) list_accept (sv_start (ek_start [[], [(8, 1)]]) one_waiting) y
     \<and> listens demo {3} 2 list_accept 1 y z
     \<and> pending_add (ep (ms_loop (sv_streams z))) = pending_add (ep (ms_loop (sv_streams y))) @ [3]"
proof -
  from one_served obtain y z :: "(ek, script, unit, fd list) server" where
    y: "sv_reach demo {3} 2 tcp_only listener_app (\<lambda>_ _. False) (\<lambda>b. b) list_accept (sv_start (ek_start [[], [(8, 1)]]) one_waiting) y"
      "pc (ms_loop (sv_streams y)) = Calling 2 1 (Batch [])" "listens demo {3} 2 list_accept 1 y z"
      "sv_listener y = one_waiting\<lparr>l_has_event := True\<rparr>" "l_kernel (sv_listener z) = []" by blast
  have "has 1 Ev_Read" "\<not> l_has_event one_waiting" "l_handler_alive (sv_listener y)" "users demo {3}"
    using y(4) by (simp_all add: has_def Ev_Read_def one_waiting_def users_def)
  from server_accepts [OF y(1) demo_ok demo_start this(4) list_accept_ok _ _ this(2) y(2,3) this(1,3)]
  obtain ids where "l_kernel (sv_listener y) = map (en_handle demo) ids @ l_kernel (sv_listener z)" and ids: "set ids \<subseteq> {3}"
    "pending_add (ep (ms_loop (sv_streams z))) = pending_add (ep (ms_loop (sv_streams y))) @ ids" by auto
  with y(4,5) have "[9] = map (en_handle demo) ids" by (simp add: one_waiting_def)
  with ids(1) have "ids = [3]" by (cases ids) auto
  with y(1,3) ids(2) show ?thesis by blast
qed


end
