(* ===== verification/Shared_In_Loop.thy ===== *)
theory Shared_In_Loop
  imports Stream_In_Loop Stream_Concurrency Execute_Instances
begin

text \<open>
  A stream buffer in an event loop that any number of threads write to and close: the steps of its
  \<open>HandleEvents\<close>, of \<open>Write\<close> and of \<open>Close\<close> (\<open>Stream_Threads\<close>, \<open>Stream_Interleaving\<close>) among those of the loop
  (\<open>Event_Loop\<close>), each with the calls on the event that it makes.
\<close>

subsection \<open>The composition\<close>

text \<open>
  The loop, the object whose event is \<open>i\<close> with the threads that use it, and whether the loop thread has
  entered its \<open>HandleEvents\<close> in the call it is in.
\<close>

record ('k, 'w, 'h) crowd =
  cr_loop :: "'k loop"
  cr_stream :: "('w, 'h) shared"
  cr_begun :: bool

abbreviation cr_obj :: "('k, 'w, 'h) crowd \<Rightarrow> ('w, 'h) sbuf" where
  "cr_obj y \<equiv> obj (cr_stream y)"

definition at_entry :: "nat \<Rightarrow> ('k, 'w, 'h) crowd \<Rightarrow> bool" where
  "at_entry i y \<longleftrightarrow> calling (pc (cr_loop y)) = Some i \<and> \<not> cr_begun y"

text \<open>
  The loop thread enters, and takes a step in, \<open>HandleEvents\<close>; the threads take the steps of \<open>thr_step\<close>,
  those that make the event ready on the loop too; the loop goes on, the loop thread only when
  it is not in \<open>HandleEvents\<close> of this object.
\<close>

inductive crowd_step ::
  "'k env \<Rightarrow> nat \<Rightarrow> 'w vtable \<Rightarrow> 'h app \<Rightarrow> ('w \<Rightarrow> 'w \<Rightarrow> bool) \<Rightarrow>
     ('k, 'w, 'h) crowd \<Rightarrow> ('k, 'w, 'h) crowd \<Rightarrow> bool"
  for E i vt app env where
  enter: "at_entry i y \<Longrightarrow> running (cr_loop y) \<Longrightarrow>
    crowd_step E i vt app env y (y\<lparr>cr_stream := jump T_enter (cr_stream y), cr_begun := True\<rparr>)"
| own: "loc (cr_stream y) \<noteq> T_idle \<Longrightarrow> running (cr_loop y) \<Longrightarrow> own_step vt app (cr_stream y) = x \<Longrightarrow> \<forall>e. loc x \<noteq> T_dead e \<Longrightarrow>
    apply_all E i (effects (cr_obj y) (obj x)) (answers i (obj x) (cr_loop y)) = Inr l \<Longrightarrow>
    crowd_step E i vt app env y (y\<lparr>cr_loop := l, cr_stream := x\<rparr>)"
| attach: "running (cr_loop y) \<Longrightarrow> \<not> lock_held (cr_loop y) \<Longrightarrow> i \<notin> set (gone (cr_loop y)) \<Longrightarrow>
    fresh_handle E i (cr_loop y) \<Longrightarrow> attach_begin i (answers i (cr_obj y) (cr_loop y)) = Inr l \<Longrightarrow> \<not> has_event (cr_obj y) \<Longrightarrow>
    crowd_step E i vt app env y (y\<lparr>cr_loop := l, cr_stream := (cr_stream y)\<lparr>obj := (cr_obj y)\<lparr>has_event := True\<rparr>\<rparr>\<rparr>)"
| write_test: "d \<noteq> [] \<Longrightarrow> \<not> should_close (cr_obj y) \<Longrightarrow>
    crowd_step E i vt app env y (y\<lparr>cr_stream := (cr_stream y)\<lparr>tested := d # tested (cr_stream y)\<rparr>\<rparr>)"
| write_push: "d \<in> set (tested (cr_stream y)) \<Longrightarrow>
    crowd_step E i vt app env y (y\<lparr>cr_stream := push d (cr_stream y)\<rparr>)"
| write_ready: "0 < owed_write (cr_stream y) \<Longrightarrow> running (cr_loop y) \<Longrightarrow>
    apply_all E i (effects (cr_obj y) (ready_event Ev_Write (cr_obj y))) (cr_loop y) = Inr l \<Longrightarrow>
    crowd_step E i vt app env y (y\<lparr>cr_loop := l, cr_stream := (cr_stream y)
      \<lparr>obj := ready_event Ev_Write (cr_obj y), owed_write := owed_write (cr_stream y) - 1\<rparr>\<rparr>)"
| close_set: "crowd_step E i vt app env y (y\<lparr>cr_stream := put ((cr_obj y)\<lparr>should_close := True\<rparr>)
      ((cr_stream y)\<lparr>owed_close := owed_close (cr_stream y) + 1\<rparr>)\<rparr>)"
| close_ready: "0 < owed_close (cr_stream y) \<Longrightarrow> running (cr_loop y) \<Longrightarrow>
    apply_all E i (effects (cr_obj y) (ready_event Ev_Close (cr_obj y))) (cr_loop y) = Inr l \<Longrightarrow>
    crowd_step E i vt app env y (y\<lparr>cr_loop := l, cr_stream := (cr_stream y)
      \<lparr>obj := ready_event Ev_Close (cr_obj y), owed_close := owed_close (cr_stream y) - 1\<rparr>\<rparr>)"
| app_gone: "loc (cr_stream y) = T_idle \<or> loc (cr_stream y) = T_enter \<Longrightarrow>
    crowd_step E i vt app env y (y\<lparr>cr_stream := (cr_stream y)\<lparr>obj := (cr_obj y)\<lparr>handler_alive := False\<rparr>\<rparr>\<rparr>)"
| outside: "env (world (cr_obj y)) w \<Longrightarrow>
    crowd_step E i vt app env y (y\<lparr>cr_stream := (cr_stream y)\<lparr>obj := (cr_obj y)\<lparr>world := w\<rparr>\<rparr>\<rparr>)"
| elsewhere: "run_step E (cr_loop y) l \<Longrightarrow>
    \<not> at_entry i y \<and> loc (cr_stream y) = T_idle \<or> pc l = pc (cr_loop y) \<Longrightarrow>
    set (created l) \<inter> {i} = set (created (cr_loop y)) \<inter> {i} \<Longrightarrow> wants l i = wants (cr_loop y) i \<Longrightarrow>
    crowd_step E i vt app env y
      (y\<lparr>cr_loop := l, cr_begun := (if pc l = pc (cr_loop y) then cr_begun y else False)\<rparr>)"

inductive crowd_reach ::
  "'k env \<Rightarrow> nat \<Rightarrow> 'w vtable \<Rightarrow> 'h app \<Rightarrow> ('w \<Rightarrow> 'w \<Rightarrow> bool) \<Rightarrow>
     ('k, 'w, 'h) crowd \<Rightarrow> ('k, 'w, 'h) crowd \<Rightarrow> bool"
  for E i vt app env y0 where
  start: "crowd_reach E i vt app env y0 y0"
| move: "crowd_reach E i vt app env y0 y \<Longrightarrow> crowd_step E i vt app env y z \<Longrightarrow> crowd_reach E i vt app env y0 z"

definition crowd_start :: "'k \<Rightarrow> ('w, 'h) sbuf \<Rightarrow> ('k, 'w, 'h) crowd" where
  "crowd_start k s = \<lparr>cr_loop = loop_new k, cr_stream = shared_start s, cr_begun = False\<rparr>"

subsection \<open>The end of the stream, step by step\<close>

lemma own_keeps:
  assumes "thr_inv x" and "loc x \<noteq> T_connect" and "loc x \<noteq> T_end"
  shows "keeps (obj x) (obj (own_step vt app x))"
proof -
  have inv: "sb_inv (obj x)" "place_ok (loc x) (obj x)" using assms(1) by (simp_all add: thr_inv_def)
  have m: "keeps (obj x) (obj (settle q r x))" if "\<And>t. r = Inr t \<Longrightarrow> mute (obj x) t" for q r
    using that by (auto simp: settle_def mute_def split: sum.splits)
  show ?thesis
  proof (cases "loc x")
    case T_enter
    have "mute (obj x) (close_event (obj x))"
      by (rule mute_same [where xs = "if has_event (obj x) then [Ob_close_event] else []"]) (auto simp: ev_call_trace)
    with T_enter m show ?thesis by (auto simp: own_step_def)
  next
    case (T_read i)
    with inv show ?thesis
      by (auto simp: own_read dest: read_round_step [OF _ inv(1)] split: sum.splits)
  next
    case (T_write c)
    have "mute (obj x) ((obj x)\<lparr>pending_writes := []\<rparr>)" by (rule mute_same [where xs = "[]"]) auto
    with T_write show ?thesis by (simp add: own_step_def mute_def)
  next
    case (T_flush ds c)
    with m show ?thesis by (auto simp: own_step_def dest: mute_flush)
  next
    case (T_down c)
    with m show ?thesis by (auto simp: own_step_def dest: mute_down)
  next
    case T_finalize
    have "mute (obj x) ((obj x)\<lparr>should_close := True\<rparr>)" by (rule mute_same [where xs = "[]"]) auto
    with T_finalize m show ?thesis by (auto simp: own_step_def)
  qed (use assms in \<open>auto simp: own_step_def\<close>)
qed

lemma own_end:
  assumes "loc x = T_end" and "has_event (obj x)"
  shows "obj (own_step vt app x) = obj x \<or> Ob_close_event \<in> set (effects (obj x) (obj (own_step vt app x)))"
proof (cases "finish_eof app (obj x)")
  case (Inl e)
  with assms(1) show ?thesis by (simp add: own_step_def settle_def)
next
  case (Inr t)
  then consider "t = obj x"
    | v where "callback Ob_eof (on_eof app) ((obj x)\<lparr>eof_called := True\<rparr>) = Inr v" "t = close_event v"
    by (auto simp: finish_eof_def bindE_def split: if_splits sum.splits)
  then show ?thesis
  proof cases
    case 1
    with Inr assms(1) show ?thesis by (simp add: own_step_def settle_def)
  next
    case (2 v)
    from callback_evolves [OF 2(1)] 2(2) assms(2) have "Ob_close_event \<in> set (effects (obj x) t)"
      by (auto simp: evolves_def prefix_def effects_def ev_call_trace)
    with Inr assms(1) show ?thesis by (simp add: own_step_def settle_def)
  qed
qed

lemma own_eof:
  assumes "thr_inv x" and "has_event (obj x)" and "eof_called (obj (own_step vt app x))" and "\<not> eof_called (obj x)"
  shows "Ob_close_event \<in> set (effects (obj x) (obj (own_step vt app x)))"
proof (cases "loc x = T_end \<or> loc x = T_connect")
  case False
  with own_keeps [OF assms(1), of vt app] assms(3,4) show ?thesis by (simp add: keeps_def)
next
  case True
  moreover have "loc x \<noteq> T_connect"
  proof
    assume "loc x = T_connect"
    with assms(1,3,4) show False
      by (cases "do_connect vt app (obj x)") (auto simp: own_step_def settle_def thr_inv_def sb_inv_def dest: do_connect_chain)
  qed
  ultimately show ?thesis using own_end [OF _ assms(2), of vt app] assms(3,4) by auto
qed

subsection \<open>It is a run of both parts\<close>

definition crowd_inv ::
  "'k env \<Rightarrow> nat \<Rightarrow> 'w vtable \<Rightarrow> 'h app \<Rightarrow> ('w \<Rightarrow> 'w \<Rightarrow> bool) \<Rightarrow> 'k \<Rightarrow> ('w, 'h) sbuf \<Rightarrow> ('k, 'w, 'h) crowd \<Rightarrow> bool" where
  "crowd_inv E i vt app env k s0 y \<longleftrightarrow>
     run_reach E (loop_new k) (cr_loop y) \<and> thr_reach vt app env (shared_start s0) (cr_stream y)
   \<and> (has_event (cr_obj y) \<longleftrightarrow> i \<in> set (created (cr_loop y)))
   \<and> (has_event (cr_obj y) \<longrightarrow> wants (cr_loop y) i = sb_get_events (cr_obj y))
   \<and> (loc (cr_stream y) \<noteq> T_idle \<longrightarrow> calling (pc (cr_loop y)) = Some i \<and> cr_begun y)
   \<and> (eof_called (cr_obj y) \<longrightarrow> (\<forall>x. pc (cr_loop y) \<noteq> Dead x) \<longrightarrow> i \<in> set (closed (cr_loop y)))"

lemma ready_effects:
  "x \<in> set (effects s (ready_event m s)) \<Longrightarrow> x = Ob_ready m \<and> has_event s"
  by (auto simp: effects_def ev_call_trace split: if_splits)

lemma crowd_inv_ready:
  assumes "crowd_inv E i vt app env k s0 y" and "epoll_ok (en_wake_fd E) (en_calls E)" and "fresh_start E k"
    and "running (cr_loop y)" and "0 \<le> en_handle E i"
  shows "ready_for_calls E i (effects (cr_obj y) (ready_event m (cr_obj y))) (cr_loop y)"
proof (rule calls_ready)
  show "loop_inv E (cr_loop y)" using assms(1,4) reach_running_inv [OF _ assms(2,3)] by (simp add: crowd_inv_def)
qed (use assms in \<open>auto simp: crowd_inv_def dest!: ready_effects\<close>)

lemma same_events: "stream_filters t = stream_filters s \<Longrightarrow> sb_get_events t = sb_get_events s"
  by (simp add: sb_get_events_def top_ix_def)

text \<open>A step of another thread that does not concern the loop, and one that makes the event ready.\<close>

lemma crowd_inv_thread:
  assumes "crowd_inv E i vt app env k s0 y" and "thr_step vt app env (cr_stream y) x" and "loc x = loc (cr_stream y)"
    and "has_event (obj x) = has_event (cr_obj y)" and "stream_filters (obj x) = stream_filters (cr_obj y)"
    and "eof_called (obj x) = eof_called (cr_obj y)"
  shows "crowd_inv E i vt app env k s0 (y\<lparr>cr_stream := x\<rparr>)"
  using assms(1,3,4,6) same_events [OF assms(5)] thr_reach.move [OF _ assms(2)] by (simp add: crowd_inv_def)

lemma crowd_inv_calls:
  assumes "crowd_inv E i vt app env k s0 y" and "epoll_ok (en_wake_fd E) (en_calls E)"
    and "ready_for_calls E i xs (cr_loop y)" and "apply_all E i xs (cr_loop y) = Inr l"
  shows "crowd_inv E i vt app env k s0 (y\<lparr>cr_loop := l\<rparr>)"
proof -
  have "run_reach E (loop_new k) (cr_loop y)" using assms(1) by (simp add: crowd_inv_def)
  from calls_reach [OF assms(2-4) this] assms(1) show ?thesis by (auto simp: crowd_inv_def)
qed

lemma own_not_idle: "(\<forall>e. loc (own_step vt app x) \<noteq> T_dead e) \<Longrightarrow> loc x \<noteq> T_idle \<Longrightarrow> thr_step vt app env x (own_step vt app x)"
  by (rule thr_step.own) (auto simp: own_step_def)

lemma crowd_step_inv:
  assumes "crowd_step E i vt app env y z" and "crowd_inv E i vt app env k s0 y"
    and "epoll_ok (en_wake_fd E) (en_calls E)" and "fresh_start E k" and "0 \<le> en_handle E i" and "en_kind E i = User"
    and "thr_inv (shared_start s0)"
  shows "crowd_inv E i vt app env k s0 z"
proof -
  note inv = assms(2) [unfolded crowd_inv_def]
  from inv have r: "run_reach E (loop_new k) (cr_loop y)" and tr: "thr_reach vt app env (shared_start s0) (cr_stream y)" by simp_all
  note thr = crowd_inv_thread [OF assms(2)]
  from assms(1) show ?thesis
  proof cases
    case enter
    then have "loc (cr_stream y) = T_idle" "calling (pc (cr_loop y)) = Some i" using inv by (auto simp: at_entry_def)
    with enter inv thr_reach.move [OF tr thr_step.event] show ?thesis by (simp add: crowd_inv_def)
  next
    case (own x l)
    from inv own(2) have c: "calling (pc (cr_loop y)) = Some i" "cr_begun y" by simp_all
    note cl = calling_ready [OF r assms(3,4) c(1) own(3) assms(5), of "effects (cr_obj y) (obj x)" "obj x"]
    from calls_reach [OF assms(3) conjunct1 [OF cl] own(6) conjunct2 [OF cl]]
    have l: "run_reach E (loop_new k) l" "created l = created (cr_loop y)" "wants l i = sb_get_events (obj x)"
      "set (closed (cr_loop y)) \<subseteq> set (closed l)" "pc l = pc (cr_loop y)" by simp_all
    have he: "has_event (cr_obj y)" using calling_created [OF reach_running_inv [OF r assms(3,4) own(3)] c(1)] inv by simp
    have "i \<in> set (closed l)" if "eof_called (obj x)"
    proof (cases "eof_called (cr_obj y)")
      case True
      with inv own(3) l(4) show ?thesis by (auto simp: running_def)
    next
      case False
      have "Ob_close_event \<in> set (effects (cr_obj y) (obj x))"
        using own_eof [OF thr_reach_inv [OF tr assms(7)] he _ False, of vt app] own(4) that by simp
      then show ?thesis by (rule apply_all_closes [OF own(6)])
    qed
    moreover have "thr_reach vt app env (shared_start s0) x"
      using thr_reach.move [OF tr own_not_idle] own(2,4,5) by blast
    moreover have "has_event (obj x) = has_event (cr_obj y)"
      using own_evolves [of "cr_stream y" vt app] own(4) by (simp add: evolves_def)
    ultimately show ?thesis using l(1-3,5) c inv own(1) by (simp add: crowd_inv_def)
  next
    case (attach l)
    have "run_reach E (loop_new k) (answers i (cr_obj y) (cr_loop y))"
      by (rule run_reach.move [OF r answers_step [OF attach(2)]])
    moreover have "run_step E (answers i (cr_obj y) (cr_loop y)) l"
      by (rule run_step.user_attach [OF _ _ _ assms(6) _ attach(6)]) (use attach(2-5) in \<open>simp_all add: answers_fresh del: fresh_handle_def\<close>)
    moreover have "created l = created (cr_loop y) @ [i]" "pc l = pc (cr_loop y)" "closed l = closed (cr_loop y)"
      using attach_begin_call [OF attach(6)] by (simp_all add: attach_frame_def)
    moreover have "wants l i = sb_get_events (cr_obj y)"
      using attach(6) by (auto simp: attach_begin_def create_event_def split: if_splits)
    ultimately show ?thesis using run_reach.move attach(1) inv thr_reach.move [OF tr thr_step.attach [OF attach(7)]]
      by (auto simp: crowd_inv_def sb_get_events_def top_ix_def)
  next
    case (write_test d)
    with thr [OF thr_step.write_test [OF write_test(2,3)]] show ?thesis by simp
  next
    case (write_push d)
    with thr [OF thr_step.write_push [OF write_push(2)]] show ?thesis by (simp add: push_def)
  next
    case (write_ready l)
    from crowd_inv_thread [OF crowd_inv_calls [OF assms(2,3) crowd_inv_ready [OF assms(2-4) write_ready(3) assms(5)] write_ready(4)]]
      thr_step.write_ready [OF write_ready(2)] write_ready(1) show ?thesis by simp
  next
    case close_set
    with thr [OF thr_step.close_set] show ?thesis by simp
  next
    case (close_ready l)
    from crowd_inv_thread [OF crowd_inv_calls [OF assms(2,3) crowd_inv_ready [OF assms(2-4) close_ready(3) assms(5)] close_ready(4)]]
      thr_step.close_ready [OF close_ready(2)] close_ready(1) show ?thesis by simp
  next
    case app_gone
    with thr [OF thr_step.gone [OF app_gone(2)]] show ?thesis by simp
  next
    case (outside w)
    with thr [OF thr_step.outside [where env = env, OF outside(2)]] show ?thesis by simp
  next
    case (elsewhere l)
    have g: "set (closed (cr_loop y)) \<subseteq> set (closed l)" if "\<forall>x. pc l \<noteq> Dead x"
      using run_step_grows [OF elsewhere(2) that] by simp
    have "\<forall>x. pc (cr_loop y) \<noteq> Dead x" using run_step_from_alive [OF elsewhere(2)] by (auto simp: running_def)
    with elsewhere inv run_reach.move [OF r elsewhere(2)] g show ?thesis by (auto simp: crowd_inv_def)
  qed
qed

lemma crowd_reach_inv:
  assumes "crowd_reach E i vt app env (crowd_start k s0) y"
    and "epoll_ok (en_wake_fd E) (en_calls E)" and "fresh_start E k" and "0 \<le> en_handle E i" and "en_kind E i = User"
    and "sb_create ha m w h = Inr s0"
  shows "crowd_inv E i vt app env k s0 y"
  using assms(1)
proof (induction rule: crowd_reach.induct)
  case start
  from sb_create_start [OF assms(6)] show ?case
    by (auto simp: crowd_inv_def crowd_start_def shared_start_def loop_new_def intro: run_reach.start thr_reach.start)
next
  case (move y z)
  from crowd_step_inv [OF move(2,3) assms(2-5) shared_start_inv [OF assms(6)]] show ?case .
qed

subsection \<open>Views that wait\<close>

text \<open>Where the loop thread is in \<open>HandleEvents\<close> before it takes the list.\<close>

fun takes_list :: "at \<Rightarrow> bool" where
  "takes_list T_enter = True"
| "takes_list T_branch = True"
| "takes_list (T_read i) = True"
| "takes_list (T_write c) = True"
| "takes_list (T_close c) = True"
| "takes_list q = False"

lemma closed_grows:
  assumes "evolves s t" and "list_ex write_closed (stream_filters s)"
  shows "list_ex write_closed (stream_filters t)"
proof -
  from assms(2) obtain j where j: "j < length (stream_filters s)" "write_closed (stream_filters s ! j)"
    by (auto simp: list_ex_iff in_set_conv_nth)
  with assms(1) have "j < length (stream_filters t)" "write_closed (stream_filters t ! j)"
    by (auto simp: evolves_def filt_le_def)
  then show ?thesis by (auto simp: list_ex_iff)
qed

lemma stays_connected:
  assumes "evolves s t" and "keeps s t" and "\<not> add_filter_allowed s" and "is_connected s" and "stream_filters s \<noteq> []"
  shows "is_connected t"
proof -
  have "length (stream_filters t) = length (stream_filters s)" using assms(2,3) by (simp add: keeps_def)
  with assms(1,4,5) show ?thesis by (auto simp: is_connected_def top_ix_def evolves_def filt_le_def)
qed

lemma top_closed: "stream_filters s \<noteq> [] \<Longrightarrow> write_closed (top_filter s) \<Longrightarrow> list_ex write_closed (stream_filters s)"
  by (auto simp: list_ex_iff top_ix_def)

text \<open>
  One step of the loop thread in \<open>HandleEvents\<close> of a connected object, when it does not close the event.
\<close>

lemma own_takes:
  assumes "thr_inv x" and "takes_list (loc x)" and "is_connected (obj x)" and "has_event (obj x)"
    and "Ob_close_event \<notin> set (effects (obj x) (obj (own_step vt app x)))" and "\<forall>e. loc (own_step vt app x) \<noteq> T_dead e"
  shows "takes_list (loc (own_step vt app x)) \<or> list_ex write_closed (stream_filters (obj (own_step vt app x)))
    \<or> pending_writes (obj (own_step vt app x)) = []"
proof -
  have ne: "stream_filters (obj x) \<noteq> []" using assms(1) sb_inv_chain by (auto simp: thr_inv_def)
  show ?thesis
  proof (cases "loc x")
    case T_enter
    with assms(4,5) show ?thesis by (auto simp: own_step_def settle_def effects_def ev_call_trace)
  next
    case T_branch
    with assms(3) show ?thesis by (auto simp: own_step_def)
  next
    case (T_read i)
    with assms(6) show ?thesis by (auto simp: own_read split: sum.splits)
  next
    case (T_write c)
    with top_closed [OF ne] show ?thesis by (auto simp: own_step_def)
  next
    case (T_close c)
    then show ?thesis by (auto simp: own_step_def list_all_iff list_ex_iff)
  qed (use assms(2) in simp_all)
qed

lemma own_connected:
  assumes "thr_inv x" and "is_connected (obj x)" and "loc x \<noteq> T_connect" and "has_event (obj x)"
    and "Ob_close_event \<notin> set (effects (obj x) (obj (own_step vt app x)))"
  shows "is_connected (obj (own_step vt app x)) \<and> loc (own_step vt app x) \<noteq> T_connect"
proof -
  have inv: "sb_inv (obj x)" using assms(1) by (simp add: thr_inv_def)
  have "is_connected (obj (own_step vt app x))"
  proof (cases "loc x = T_end")
    case True
    with own_end [OF True assms(4), of vt app] assms(2,5) show ?thesis by simp
  next
    case False
    from own_keeps [OF assms(1,3) False] sb_inv_chain [OF inv] inv assms(2) show ?thesis
      by (intro stays_connected [OF own_evolves]) (simp_all add: sb_inv_def)
  qed
  moreover have "loc (own_step vt app x) \<noteq> T_connect"
  proof (cases "loc x")
    case (T_read i)
    then show ?thesis by (auto simp: own_read split: sum.splits)
  next
    case (T_write c)
    then show ?thesis by (cases c) (auto simp: own_step_def)
  next
    case (T_flush ds c)
    then show ?thesis by (cases c) (auto simp: own_step_def settle_def split: sum.splits)
  next
    case (T_down c)
    then show ?thesis by (cases c) (auto simp: own_step_def settle_def split: sum.splits)
  qed (use assms(2,3) in \<open>auto simp: own_step_def settle_def split: sum.splits\<close>)
  ultimately show ?thesis by simp
qed

subsection \<open>No write is lost\<close>

text \<open>
  The event has come out of the queue of additions and the object is connected.  A list that is not empty
  is announced: a \<open>Write\<close> is about to make the event ready, a ready event is queued or in hand, the loop
  thread is at the handler before it takes the list, or a filter is closed for writing.
\<close>

definition settled :: "nat \<Rightarrow> ('k, 'w, 'h) crowd \<Rightarrow> bool" where
  "settled i y \<longleftrightarrow> has_event (cr_obj y) \<and> i \<notin># incoming (cr_loop y) \<and> is_connected (cr_obj y) \<and> loc (cr_stream y) \<noteq> T_connect"

definition rings :: "nat \<Rightarrow> 'k loop \<Rightarrow> bool" where
  "rings i l \<longleftrightarrow> (i, Ev_Write) \<in> set (pending_ready (ep l)) \<union> set (readying_of (pc l))"

definition announced :: "nat \<Rightarrow> ('k, 'w, 'h) crowd \<Rightarrow> bool" where
  "announced i y \<longleftrightarrow> 0 < owed_write (cr_stream y) \<or> rings i (cr_loop y) \<or> at_entry i y \<or> takes_list (loc (cr_stream y))
     \<or> list_ex write_closed (stream_filters (cr_obj y))"

lemma apply_all_rings:
  "apply_all E i xs l = Inr l' \<Longrightarrow> Ob_ready Ev_Write \<in> set xs \<or> rings i l \<Longrightarrow> rings i l'"
proof (induction xs arbitrary: l)
  case (Cons x xs)
  then obtain u where u: "apply_obs E i x l = Inr u" "apply_all E i xs u = Inr l'" by auto
  have "rings i u" if "x = Ob_ready Ev_Write"
    using u(1) that by (auto simp: rings_def el_ready_def on_ep_def ep_ready_def add_element_def ep_wakeup_def Let_def
        split: sum.splits if_splits prod.splits option.splits)
  moreover have "rings i l \<Longrightarrow> rings i u" using apply_obs_frame [OF u(1)] by (auto simp: rings_def call_frame_def)
  ultimately show ?case using Cons.IH [OF u(2)] Cons.prems(2) by auto
qed simp

lemma stays_out:
  assumes "run_step E s t" and "\<forall>x. pc t \<noteq> Dead x" and "i \<in> set (created s)" and "i \<notin># incoming s"
  shows "i \<notin># incoming t"
  using assms(1,2)
proof (cases rule: run_step_kinds)
  case thread
  with loop_step_grows [of E s] assms(2,4) show ?thesis by auto
qed (use assms(3,4) in \<open>auto simp: attach_frame_def call_frame_def\<close>)

lemma answers_incoming: "incoming (answers i s l) = incoming l"
  by (simp add: incoming_def answers_def)

lemma own_owed: "owed_write (own_step vt app x) = owed_write x"
  by (cases "loc x") (auto simp: own_step_def settle_def split: sum.splits)

lemma own_announced:
  assumes "thr_inv x" and "loc x \<noteq> T_idle" and "has_event (obj x)" and "is_connected (obj x)"
    and "Ob_close_event \<notin> set (effects (obj x) (obj (own_step vt app x)))" and "\<forall>e. loc (own_step vt app x) \<noteq> T_dead e"
    and "pending_writes (obj (own_step vt app x)) \<noteq> []"
  shows "takes_list (loc (own_step vt app x)) \<or> list_ex write_closed (stream_filters (obj (own_step vt app x)))
    \<or> pending_writes (obj x) \<noteq> [] \<and> \<not> takes_list (loc x)
    \<or> Ob_ready Ev_Write \<in> set (effects (obj x) (obj (own_step vt app x)))"
proof (cases "takes_list (loc x)")
  case True
  from own_takes [OF assms(1) True assms(4,3,5,6)] assms(7) show ?thesis by blast
next
  case False
  with own_rung [of x vt app] assms(3,7) show ?thesis by (auto simp: rung_def effects_def)
qed

lemma announced_step:
  assumes "crowd_step E i vt app env y z" and "crowd_inv E i vt app env k s0 y" and "thr_inv (cr_stream y)"
    and "epoll_ok (en_wake_fd E) (en_calls E)" and "fresh_start E k" and "0 \<le> en_handle E i"
    and "settled i y" and "pending_writes (cr_obj y) \<noteq> [] \<longrightarrow> announced i y"
    and "\<forall>x. pc (cr_loop z) \<noteq> Dead x" and "i \<notin> set (closed (cr_loop z))" and "i \<notin> set (gone (cr_loop z))"
  shows "settled i z \<and> (pending_writes (cr_obj z) \<noteq> [] \<longrightarrow> announced i z)"
proof -
  note inv = assms(2) [unfolded crowd_inv_def]
  note st = assms(7) [unfolded settled_def]
  have cr: "i \<in> set (created (cr_loop y))" using inv st by simp
  from assms(1) show ?thesis
  proof cases
    case enter
    with st show ?thesis by (simp add: settled_def announced_def)
  next
    case (own x l)
    note fr = apply_all_frame [OF own(6)]
    have nc: "Ob_close_event \<notin> set (effects (cr_obj y) (obj x))" using apply_all_closes [OF own(6)] assms(10) own(1) by auto
    note x = own(4) [symmetric]
    have "is_connected (obj x) \<and> loc x \<noteq> T_connect"
      unfolding x by (rule own_connected [OF assms(3)]) (use st nc x in simp_all)
    moreover have "has_event (obj x)" using own_evolves [of "cr_stream y" vt app] st x by (simp add: evolves_def)
    ultimately have "settled i z" using st fr own(1) by (simp add: settled_def call_frame_def answers_incoming)
    moreover have "announced i z" if p: "pending_writes (cr_obj z) \<noteq> []"
    proof -
      have "\<not> at_entry i y" using inv own(2) by (simp add: at_entry_def)
      moreover have "takes_list (loc x) \<or> list_ex write_closed (stream_filters (obj x))
          \<or> pending_writes (cr_obj y) \<noteq> [] \<and> \<not> takes_list (loc (cr_stream y))
          \<or> Ob_ready Ev_Write \<in> set (effects (cr_obj y) (obj x))"
        unfolding x by (rule own_announced [OF assms(3) own(2)]) (use st nc x p own(1,5) in simp_all)
      moreover have "list_ex write_closed (stream_filters (cr_obj y)) \<Longrightarrow> list_ex write_closed (stream_filters (obj x))"
        unfolding x by (rule closed_grows [OF own_evolves])
      moreover have "owed_write x = owed_write (cr_stream y)" unfolding x by (rule own_owed)
      moreover have "Ob_ready Ev_Write \<in> set (effects (cr_obj y) (obj x)) \<or> rings i (cr_loop y) \<Longrightarrow> rings i l"
        by (rule apply_all_rings [OF own(6)]) (simp add: rings_def)
      ultimately show ?thesis using assms(8) own(1) by (auto simp: announced_def)
    qed
    ultimately show ?thesis by simp
  next
    case attach
    with st show ?thesis by simp
  next
    case (write_test d)
    with st assms(8) show ?thesis by (auto simp: settled_def announced_def at_entry_def)
  next
    case (write_push d)
    with st assms(8) show ?thesis by (auto simp: settled_def announced_def at_entry_def push_def is_connected_def top_ix_def)
  next
    case (write_ready l)
    have "Ob_ready Ev_Write \<in> set (effects (cr_obj y) (ready_event Ev_Write (cr_obj y)))"
      using st by (simp add: effects_def ev_call_trace)
    with apply_all_rings [OF write_ready(4)] apply_all_frame [OF write_ready(4)] st write_ready(1) show ?thesis
      by (simp add: settled_def announced_def call_frame_def is_connected_def top_ix_def)
  next
    case close_set
    with st assms(8) show ?thesis by (auto simp: settled_def announced_def at_entry_def is_connected_def top_ix_def)
  next
    case (close_ready l)
    note fr = apply_all_frame [OF close_ready(4)]
    have "rings i (cr_loop y) \<Longrightarrow> rings i l" using apply_all_rings [OF close_ready(4)] by simp
    with fr st close_ready(1) assms(8) show ?thesis
      by (auto simp: settled_def announced_def at_entry_def call_frame_def is_connected_def top_ix_def)
  next
    case app_gone
    with st assms(8) show ?thesis by (auto simp: settled_def announced_def at_entry_def is_connected_def top_ix_def)
  next
    case (outside w)
    with st assms(8) show ?thesis by (auto simp: settled_def announced_def at_entry_def is_connected_def top_ix_def)
  next
    case (elsewhere l)
    have al: "\<forall>x. pc l \<noteq> Dead x" "i \<notin> set (closed l)" "i \<notin> set (gone l)" using assms(9-11) elsewhere(1) by simp_all
    have iv: "loop_inv E (cr_loop y)"
      using reach_running_inv [OF _ assms(4,5) run_step_from_alive [OF elsewhere(2)]] inv by simp
    have "i \<notin># incoming l" using stays_out [OF elsewhere(2) al(1) cr] st by simp
    then have "settled i z" using st elsewhere(1) by (simp add: settled_def)
    moreover have "rings i l \<or> calling (pc l) = Some i \<and> pc l \<noteq> pc (cr_loop y)" if "rings i (cr_loop y)"
    proof -
      have "ready_coming (history (cr_loop y)) (i, Ev_Write) (cr_loop y)"
        using that by (auto simp: ready_coming_def rings_def)
      from coming_step [OF elsewhere(2) iv al(1) this cr _ assms(6) al(2,3)] st obtain ys where
        "history l = history (cr_loop y) @ ys" "rings i l \<or> L_call i Ev_Write \<in> set ys"
        by (auto simp: ready_coming_def rings_def)
      with new_call_entered [OF iv elsewhere(2) al(1)] show ?thesis by blast
    qed
    moreover have "announced i y \<Longrightarrow> 0 < owed_write (cr_stream y) \<or> rings i (cr_loop y)
        \<or> (at_entry i y \<or> takes_list (loc (cr_stream y))) \<and> pc l = pc (cr_loop y)
        \<or> list_ex write_closed (stream_filters (cr_obj y))"
      using elsewhere(3) by (auto simp: announced_def)
    ultimately show ?thesis using assms(8) elsewhere(1) by (auto simp: announced_def at_entry_def)
  qed
qed

lemma crowd_step_running:
  assumes "crowd_step E i vt app env y z" and "\<forall>x. pc (cr_loop z) \<noteq> Dead x"
  shows "(\<forall>x. pc (cr_loop y) \<noteq> Dead x) \<and> set (closed (cr_loop y)) \<subseteq> set (closed (cr_loop z))
    \<and> set (gone (cr_loop y)) \<subseteq> set (gone (cr_loop z))"
  using assms
proof cases
  case (own x l)
  with apply_all_frame [OF own(6)] assms(2) show ?thesis by (simp add: call_frame_def)
next
  case (attach l)
  with attach_begin_call [OF attach(6)] assms(2) show ?thesis by (simp add: attach_frame_def)
next
  case (write_ready l)
  with apply_all_frame [OF write_ready(4)] assms(2) show ?thesis by (simp add: call_frame_def)
next
  case (close_ready l)
  with apply_all_frame [OF close_ready(4)] assms(2) show ?thesis by (simp add: call_frame_def)
next
  case (elsewhere l)
  with run_step_grows [OF elsewhere(2)] run_step_from_alive [OF elsewhere(2)] assms(2) show ?thesis
    by (auto simp: running_def)
qed (use assms(2) in simp_all)

lemma announced_reach:
  assumes "crowd_reach E i vt app env (crowd_start k s0) y"
    and "epoll_ok (en_wake_fd E) (en_calls E)" and "fresh_start E k" and "0 \<le> en_handle E i" and "en_kind E i = User"
    and "sb_create ha m w h = Inr s0" and "settled i y"
    and "pending_writes (cr_obj y) = [] \<or> rings i (cr_loop y)"
    and "crowd_reach E i vt app env y z"
    and "\<forall>x. pc (cr_loop z) \<noteq> Dead x" and "i \<notin> set (closed (cr_loop z))" and "i \<notin> set (gone (cr_loop z))"
  shows "crowd_reach E i vt app env (crowd_start k s0) z \<and> settled i z \<and> (pending_writes (cr_obj z) \<noteq> [] \<longrightarrow> announced i z)"
  using assms(9-12)
proof (induction rule: crowd_reach.induct)
  case start
  with assms(1,7,8) show ?case by (auto simp: announced_def)
next
  case (move u v)
  from crowd_step_running [OF move(2) move.prems(1)] move.IH move.prems
  have IH: "crowd_reach E i vt app env (crowd_start k s0) u" "settled i u" "pending_writes (cr_obj u) \<noteq> [] \<longrightarrow> announced i u"
    by blast+
  note iv = crowd_reach_inv [OF IH(1) assms(2-6)]
  then have "thr_reach vt app env (shared_start s0) (cr_stream u)" by (simp add: crowd_inv_def)
  then have "thr_inv (cr_stream u)" by (rule thr_reach_inv [OF _ shared_start_inv [OF assms(6)]])
  from announced_step [OF move(2) iv this assms(2-4) IH(2,3) move.prems] crowd_reach.move [OF IH(1) move(2)] show ?case by blast
qed

subsection \<open>A run with threads\<close>

datatype crowd_move = C_thread | C_hand_over | C_attach | C_enter | C_own | C_test bytes | C_push bytes | C_ready

fun crowd_do ::
  "'k env \<Rightarrow> nat \<Rightarrow> 'w vtable \<Rightarrow> 'h app \<Rightarrow> crowd_move \<Rightarrow> ('k, 'w, 'h) crowd \<Rightarrow> ('k, 'w, 'h) crowd option" where
  "crowd_do E i vt app C_thread y =
     (let l = loop_step E (cr_loop y)
      in if running (cr_loop y) \<and> \<not> lock_held (cr_loop y) \<and> \<not> at_entry i y \<and> loc (cr_stream y) = T_idle
           \<and> created l = created (cr_loop y) \<and> wants l i = wants (cr_loop y) i
         then Some (y\<lparr>cr_loop := l, cr_begun := (if pc l = pc (cr_loop y) then cr_begun y else False)\<rparr>) else None)"
| "crowd_do E i vt app C_hand_over y =
     (case attach_end E i (cr_loop y) of
        Inl x \<Rightarrow> None
      | Inr l \<Rightarrow>
          if running (cr_loop y) \<and> i \<in> set (attaching (cr_loop y)) \<and> pc l = pc (cr_loop y)
           \<and> created l = created (cr_loop y) \<and> wants l i = wants (cr_loop y) i
          then Some (y\<lparr>cr_loop := l\<rparr>) else None)"
| "crowd_do E i vt app C_attach y =
     (case attach_begin i (answers i (cr_obj y) (cr_loop y)) of
        Inl x \<Rightarrow> None
      | Inr l \<Rightarrow>
          if running (cr_loop y) \<and> \<not> lock_held (cr_loop y) \<and> i \<notin> set (gone (cr_loop y))
           \<and> fresh_handle E i (cr_loop y) \<and> \<not> has_event (cr_obj y)
          then Some (y\<lparr>cr_loop := l, cr_stream := (cr_stream y)\<lparr>obj := (cr_obj y)\<lparr>has_event := True\<rparr>\<rparr>\<rparr>) else None)"
| "crowd_do E i vt app C_enter y =
     (if at_entry i y \<and> running (cr_loop y)
      then Some (y\<lparr>cr_stream := jump T_enter (cr_stream y), cr_begun := True\<rparr>) else None)"
| "crowd_do E i vt app C_own y =
     (let x = own_step vt app (cr_stream y)
      in case apply_all E i (effects (cr_obj y) (obj x)) (answers i (obj x) (cr_loop y)) of
           Inl e \<Rightarrow> None
         | Inr l \<Rightarrow>
             if loc (cr_stream y) \<noteq> T_idle \<and> running (cr_loop y) \<and> (case loc x of T_dead e \<Rightarrow> False | _ \<Rightarrow> True)
             then Some (y\<lparr>cr_loop := l, cr_stream := x\<rparr>) else None)"
| "crowd_do E i vt app (C_test d) y =
     (if d \<noteq> [] \<and> \<not> should_close (cr_obj y)
      then Some (y\<lparr>cr_stream := (cr_stream y)\<lparr>tested := d # tested (cr_stream y)\<rparr>\<rparr>) else None)"
| "crowd_do E i vt app (C_push d) y =
     (if d \<in> set (tested (cr_stream y)) then Some (y\<lparr>cr_stream := push d (cr_stream y)\<rparr>) else None)"
| "crowd_do E i vt app C_ready y =
     (case apply_all E i (effects (cr_obj y) (ready_event Ev_Write (cr_obj y))) (cr_loop y) of
        Inl e \<Rightarrow> None
      | Inr l \<Rightarrow>
          if 0 < owed_write (cr_stream y) \<and> running (cr_loop y)
          then Some (y\<lparr>cr_loop := l, cr_stream := (cr_stream y)
            \<lparr>obj := ready_event Ev_Write (cr_obj y), owed_write := owed_write (cr_stream y) - 1\<rparr>\<rparr>) else None)"

lemma crowd_do_step:
  assumes "crowd_do E i vt app m y = Some z"
  shows "crowd_step E i vt app env y z"
proof (cases m)
  case C_thread
  with assms have m: "\<not> at_entry i y" "loc (cr_stream y) = T_idle" "running (cr_loop y)" "\<not> lock_held (cr_loop y)"
    "created (loop_step E (cr_loop y)) = created (cr_loop y)" "wants (loop_step E (cr_loop y)) i = wants (cr_loop y) i"
    "z = y\<lparr>cr_loop := loop_step E (cr_loop y),
       cr_begun := (if pc (loop_step E (cr_loop y)) = pc (cr_loop y) then cr_begun y else False)\<rparr>"
    by (simp_all only: crowd_do.simps Let_def split: if_splits, simp_all)
  have "run_step E (cr_loop y) (loop_step E (cr_loop y))" by (rule run_step.thread [OF m(3,4)])
  from crowd_step.elsewhere [OF this, of i vt app env] m show ?thesis by simp
next
  case C_hand_over
  with assms obtain l where m: "attach_end E i (cr_loop y) = Inr l" "running (cr_loop y)" "i \<in> set (attaching (cr_loop y))"
    "pc l = pc (cr_loop y)" "created l = created (cr_loop y)" "wants l i = wants (cr_loop y) i" "z = y\<lparr>cr_loop := l\<rparr>"
    by (auto split: if_splits sum.splits)
  have "run_step E (cr_loop y) l" by (rule run_step.hand_over [OF m(2,3,1)])
  from crowd_step.elsewhere [OF this, of i vt app env] m show ?thesis by simp
next
  case C_attach
  with assms show ?thesis
    by (auto split: if_splits sum.splits simp del: fresh_handle_def intro: crowd_step.attach)
next
  case C_own
  with assms obtain l where m: "loc (cr_stream y) \<noteq> T_idle" "running (cr_loop y)"
    "\<forall>e. loc (own_step vt app (cr_stream y)) \<noteq> T_dead e"
    "apply_all E i (effects (cr_obj y) (obj (own_step vt app (cr_stream y))))
       (answers i (obj (own_step vt app (cr_stream y))) (cr_loop y)) = Inr l"
    "z = y\<lparr>cr_loop := l, cr_stream := own_step vt app (cr_stream y)\<rparr>"
    by (auto simp: Let_def split: sum.splits if_splits at.splits)
  show ?thesis unfolding m(5) by (rule crowd_step.own [OF m(1,2) refl m(3,4)])
next
  case C_ready
  with assms obtain l where m: "0 < owed_write (cr_stream y)" "running (cr_loop y)"
    "apply_all E i (effects (cr_obj y) (ready_event Ev_Write (cr_obj y))) (cr_loop y) = Inr l"
    "z = y\<lparr>cr_loop := l, cr_stream := (cr_stream y)
       \<lparr>obj := ready_event Ev_Write (cr_obj y), owed_write := owed_write (cr_stream y) - 1\<rparr>\<rparr>"
    by (auto split: sum.splits if_splits)
  show ?thesis unfolding m(4) by (rule crowd_step.write_ready [OF m(1-3)])
qed (use assms in \<open>auto split: if_splits intro: crowd_step.intros\<close>)

fun crowd_run ::
  "'k env \<Rightarrow> nat \<Rightarrow> 'w vtable \<Rightarrow> 'h app \<Rightarrow> crowd_move list \<Rightarrow> ('k, 'w, 'h) crowd \<Rightarrow> ('k, 'w, 'h) crowd option" where
  "crowd_run E i vt app [] y = Some y"
| "crowd_run E i vt app (m # ms) y = Option.bind (crowd_do E i vt app m y) (crowd_run E i vt app ms)"

lemma crowd_run_reach:
  "crowd_reach E i vt app env y0 y \<Longrightarrow> crowd_run E i vt app ms y = Some z \<Longrightarrow> crowd_reach E i vt app env y0 z"
proof (induction ms arbitrary: y)
  case (Cons m ms)
  then obtain u where "crowd_do E i vt app m y = Some u" "crowd_run E i vt app ms u = Some z" by (auto simp: bind_eq_Some_conv)
  with Cons.IH [OF crowd_reach.move [OF Cons.prems(1) crowd_do_step]] show ?case by blast
qed simp

text \<open>
  A client is attached and connects, and the loop waits; then one thread writes, and a second one before
  the first has made the event ready.
\<close>

definition crowd_client :: "(ek, script tcp, unit) crowd" where
  "crowd_client = crowd_start (ek_start [[], [(8, 4)]]) (sy_stream client_start)"

definition crowd_waiting :: "crowd_move list" where
  "crowd_waiting = [C_attach, C_hand_over] @ replicate 16 C_thread @ [C_enter] @ replicate 5 C_own @ replicate 3 C_thread"

definition two_writes :: "crowd_move list" where
  "two_writes = [C_test [7], C_test [8], C_push [7], C_push [8], C_ready]"

lemmas crowd_eval = system_eval thread_eval crowd_client_def crowd_start_def at_entry_def

lemma crowd_waits:
  "\<exists>y. crowd_run demo 2 tcp_only listener_app crowd_waiting crowd_client = Some y \<and> pc (cr_loop y) = Waiting
     \<and> settled 2 y \<and> pending_writes (cr_obj y) = []"
  by (simp add: crowd_waiting_def crowd_eval settled_def incoming_def is_connected_def top_ix_def)

lemma crowd_written:
  "\<exists>y z. crowd_run demo 2 tcp_only listener_app crowd_waiting crowd_client = Some y \<and> settled 2 y \<and> pending_writes (cr_obj y) = []
     \<and> crowd_run demo 2 tcp_only listener_app two_writes y = Some z \<and> pc (cr_loop z) = Waiting \<and> open_handler demo 2 (cr_loop z)
     \<and> pending_writes (cr_obj z) = [[7], [8]] \<and> owed_write (cr_stream z) = 0
     \<and> \<not> list_ex write_closed (stream_filters (cr_obj z)) \<and> fits demo (cr_loop z) \<and> orderly demo (cr_loop z)"
  by (simp add: crowd_waiting_def two_writes_def crowd_eval settled_def incoming_def is_connected_def top_ix_def open_handler_def
      fits_def orderly_def)

lemma crowd_client_reach:
  "crowd_run demo 2 tcp_only listener_app ms crowd_client = Some y \<Longrightarrow>
   crowd_reach demo 2 tcp_only listener_app (\<lambda>_ _. False) (crowd_start (ek_start [[], [(8, 4)]]) (sy_stream client_start)) y"
proof -
  assume "crowd_run demo 2 tcp_only listener_app ms crowd_client = Some y"
  from crowd_run_reach [OF crowd_reach.start this] show ?thesis by (simp add: crowd_client_def)
qed

text \<open>
  Why the start has to be settled: a write before the connection.  A view is pushed and its event made ready while the client
  is connecting, and the loop thread calls \<open>HandleEvents\<close> for it; \<open>DoConnect\<close> uses up the call: it finds the
  connection made, lets the event be modified, and \<open>DoWrite\<close> is not reached.  The view stays
  in the list with nothing queued; only the modified registration lets the kernel report the descriptor again.
\<close>

definition early_write :: "crowd_move list" where
  "early_write = [C_attach, C_hand_over] @ replicate 14 C_thread @ [C_test [7], C_push [7], C_ready] @ replicate 10 C_thread
     @ [C_enter] @ replicate 5 C_own @ replicate 4 C_thread"

definition early_client :: "(ek, script tcp, unit) crowd" where
  "early_client = crowd_start (ek_start []) (sy_stream client_start)"

lemma early_write_consumed:
  "\<exists>y. crowd_run demo 2 tcp_only listener_app early_write early_client = Some y \<and> pc (cr_loop y) = Waiting
     \<and> is_connected (cr_obj y) \<and> pending_writes (cr_obj y) = [[7]] \<and> pending_ready (ep (cr_loop y)) = [] \<and> loc (cr_stream y) = T_idle
     \<and> owed_write (cr_stream y) = 0 \<and> history (cr_loop y) = [L_call 2 Ev_Write]
     \<and> Ob_modify_event \<in> set (trace (cr_obj y))"
  by (simp add: early_write_def early_client_def crowd_eval is_connected_def top_ix_def)

subsection \<open>Properties\<close>

text \<open>
  C10: a shared stream buffer in an event loop.  In every interleaving of the loop thread, also inside
  \<open>HandleEvents\<close>, with the threads that write, close and attach, the loop and the stream are each in a state that they can
  reach alone; the stream has an event exactly when the loop has created it; the loop thread is in \<open>HandleEvents\<close>
  only during a call of this handler; and the event is closed once \<open>HandleEOF\<close> has been called.
\<close>

theorem shared_in_loop_refines:
  assumes "crowd_reach E i vt app env (crowd_start k s0) y"
    and "epoll_ok (en_wake_fd E) (en_calls E)" and "fresh_start E k" and "0 \<le> en_handle E i" and "en_kind E i = User"
    and "sb_create ha m w h = Inr s0"
  shows "run_reach E (loop_new k) (cr_loop y) \<and> thr_reach vt app env (shared_start s0) (cr_stream y)
    \<and> (has_event (cr_obj y) \<longleftrightarrow> i \<in> set (created (cr_loop y)))
    \<and> (has_event (cr_obj y) \<longrightarrow> wants (cr_loop y) i = sb_get_events (cr_obj y))
    \<and> (loc (cr_stream y) \<noteq> T_idle \<longrightarrow> calling (pc (cr_loop y)) = Some i)
    \<and> (eof_called (cr_obj y) \<longrightarrow> (\<forall>x. pc (cr_loop y) \<noteq> Dead x) \<longrightarrow> i \<in> set (closed (cr_loop y)))"
  using crowd_reach_inv [OF assms] by (simp add: crowd_inv_def)

theorem shared_in_loop_refines_witness:
  "\<exists>y :: (ek, script tcp, unit) crowd. pending_writes (cr_obj y) = [[7], [8]]
     \<and> run_reach demo (loop_new (ek_start [[], [(8, 4)]])) (cr_loop y)
     \<and> thr_reach tcp_only listener_app (\<lambda>_ _. False) (shared_start (sy_stream client_start)) (cr_stream y)"
proof -
  from crowd_written obtain y z where y: "crowd_run demo 2 tcp_only listener_app crowd_waiting crowd_client = Some y"
    "crowd_run demo 2 tcp_only listener_app two_writes y = Some z" "pending_writes (cr_obj z) = [[7], [8]]" by blast
  from shared_in_loop_refines [OF crowd_run_reach [OF crowd_client_reach [OF y(1)] y(2)] demo_ok demo_start demo_user client_create] y(3)
  show ?thesis by (intro exI [of _ z]) simp
qed

text \<open>
  C8: no write is lost between the threads and the loop.  Start at a reachable state in which the stream is connected, its event has
  been taken from the additions, and the list is empty or its write event is queued.  In every interleaving from there: while views wait in \<open>pending_writes_\<close> of an open stream, a \<open>Write\<close>
  is about to make the event ready, the write event is queued in the loop or in the hands of the loop thread, the
  loop thread is calling the handler and has not yet taken the list, or a filter is closed for writing.
\<close>

theorem no_write_lost:
  assumes "crowd_reach E i vt app env (crowd_start k s0) y"
    and "epoll_ok (en_wake_fd E) (en_calls E)" and "fresh_start E k" and "0 \<le> en_handle E i" and "en_kind E i = User"
    and "sb_create ha m w h = Inr s0" and "settled i y"
    and "pending_writes (cr_obj y) = [] \<or> rings i (cr_loop y)"
    and "crowd_reach E i vt app env y z"
    and "\<forall>x. pc (cr_loop z) \<noteq> Dead x" and "i \<notin> set (closed (cr_loop z))" and "i \<notin> set (gone (cr_loop z))"
    and "pending_writes (cr_obj z) \<noteq> []"
  shows "0 < owed_write (cr_stream z)
    \<or> (i, Ev_Write) \<in> set (pending_ready (ep (cr_loop z))) \<or> (i, Ev_Write) \<in> set (readying_of (pc (cr_loop z)))
    \<or> calling (pc (cr_loop z)) = Some i \<and> (\<not> cr_begun z \<or> takes_list (loc (cr_stream z)))
    \<or> list_ex write_closed (stream_filters (cr_obj z))"
proof -
  from announced_reach [OF assms(1-12)] assms(13) have z: "crowd_reach E i vt app env (crowd_start k s0) z" "announced i z" by blast+
  from crowd_reach_inv [OF z(1) assms(2-6)] have "loc (cr_stream z) \<noteq> T_idle \<longrightarrow> calling (pc (cr_loop z)) = Some i"
    by (simp add: crowd_inv_def)
  then have "takes_list (loc (cr_stream z)) \<Longrightarrow> calling (pc (cr_loop z)) = Some i" by (cases "loc (cr_stream z)") simp_all
  with z(2) show ?thesis by (auto simp: announced_def rings_def at_entry_def)
qed

theorem no_write_lost_witness:
  "\<exists>y z. crowd_run demo 2 tcp_only listener_app two_writes y = Some z \<and> pending_writes (cr_obj z) = [[7], [8]]
     \<and> (2, Ev_Write) \<in> set (pending_ready (ep (cr_loop z)))"
proof -
  from crowd_written obtain y z where y: "crowd_run demo 2 tcp_only listener_app crowd_waiting crowd_client = Some y"
    "crowd_run demo 2 tcp_only listener_app two_writes y = Some z" "pending_writes (cr_obj z) = [[7], [8]]" "settled 2 y"
    "pending_writes (cr_obj y) = []" "pc (cr_loop z) = Waiting" "open_handler demo 2 (cr_loop z)" "owed_write (cr_stream z) = 0"
    "\<not> list_ex write_closed (stream_filters (cr_obj z))" by blast
  from no_write_lost [OF crowd_client_reach [OF y(1)] demo_ok demo_start demo_user client_create y(4) _
      crowd_run_reach [OF crowd_reach.start y(2)]] y show ?thesis by (auto simp: open_handler_def)
qed

text \<open>
  C9: views that wait reach the stream.  In the same runs (from a connected stream whose event is out of the additions, with an
  empty list or its write event queued), let the loop thread wait, no \<open>Write\<close> be half-way,
  no filter be closed for writing, no removal be queued of an event in the middle of its \<open>Attach\<close>, and at most 31 other
  descriptors be ready, on a kernel that reports everything that fits.  Then the loop thread calls \<open>HandleEvents\<close> of an open
  stream with views in \<open>pending_writes_\<close> with the write event in finitely many of its own steps.
\<close>

theorem waiting_views_served:
  assumes "crowd_reach E i vt app env (crowd_start k s0) y"
    and "epoll_ok (en_wake_fd E) (en_calls E)" and "fresh_start E k" and "0 \<le> en_handle E i" and "en_kind E i = User"
    and "sb_create ha m w h = Inr s0" and "settled i y"
    and "pending_writes (cr_obj y) = [] \<or> rings i (cr_loop y)"
    and "crowd_reach E i vt app env y z"
    and "efd_drains (en_calls E)" and "reports_fitting (en_wake_fd E) (en_calls E)"
    and "pc (cr_loop z) = Waiting" and "open_handler E i (cr_loop z)" and "fits E (cr_loop z)" and "orderly E (cr_loop z)"
    and "pending_writes (cr_obj z) \<noteq> []" and "owed_write (cr_stream z) = 0"
    and "\<not> list_ex write_closed (stream_filters (cr_obj z))"
  shows "\<exists>n ys. history ((loop_step E ^^ n) (cr_loop z)) = history (cr_loop z) @ ys \<and> L_call i Ev_Write \<in> set ys"
proof -
  have "\<forall>x. pc (cr_loop z) \<noteq> Dead x" "i \<notin> set (closed (cr_loop z))" "i \<notin> set (gone (cr_loop z))"
    using assms(12,13) by (simp_all add: open_handler_def)
  from announced_reach [OF assms(1-9) this] assms(16)
  have z: "crowd_reach E i vt app env (crowd_start k s0) z" "settled i z" "announced i z" by blast+
  from crowd_reach_inv [OF z(1) assms(2-6)] assms(12) have r: "run_reach E (loop_new k) (cr_loop z)" "loc (cr_stream z) = T_idle"
    by (auto simp: crowd_inv_def)
  have iv: "loop_inv E (cr_loop z)" by (rule reach_running_inv [OF r(1) assms(2,3)]) (simp add: running_def assms(12))
  from z(3) r(2) assms(12,17,18) have q: "(i, Ev_Write) \<in> set (pending_ready (ep (cr_loop z)))"
    by (auto simp: announced_def rings_def at_entry_def)
  then have "ep_due (en_calls E) (ep (cr_loop z))" using loop_invD(4) [OF iv] assms(12) by (auto simp: attended_def)
  note hear = fitting_hears [OF assms(11,14) this]
  have "i \<notin> set (pending_add (ep (cr_loop z)))" using z(2) by (auto simp: settled_def incoming_def)
  from ready_arrives [OF assms(2,10) iv assms(15,12) hear q assms(13) this] show ?thesis .
qed

theorem waiting_views_served_witness:
  "\<exists>y z n ys. crowd_run demo 2 tcp_only listener_app two_writes y = Some z \<and> pending_writes (cr_obj z) = [[7], [8]]
     \<and> history ((loop_step demo ^^ n) (cr_loop z)) = history (cr_loop z) @ ys \<and> L_call 2 Ev_Write \<in> set ys"
proof -
  from crowd_written obtain y z where y: "crowd_run demo 2 tcp_only listener_app crowd_waiting crowd_client = Some y"
    "crowd_run demo 2 tcp_only listener_app two_writes y = Some z" "pending_writes (cr_obj z) = [[7], [8]]" "settled 2 y"
    "pending_writes (cr_obj y) = []" "pc (cr_loop z) = Waiting" "open_handler demo 2 (cr_loop z)" "owed_write (cr_stream z) = 0"
    "\<not> list_ex write_closed (stream_filters (cr_obj z))" "fits demo (cr_loop z)" "orderly demo (cr_loop z)" by blast
  from waiting_views_served [OF crowd_client_reach [OF y(1)] demo_ok demo_start demo_user client_create y(4) _
      crowd_run_reach [OF crowd_reach.start y(2)] scripted_drains scripted_fitting y(6,7,10,11) _ y(8,9)] y(3,5) obtain n ys where
    "history ((loop_step demo ^^ n) (cr_loop z)) = history (cr_loop z) @ ys" "L_call 2 Ev_Write \<in> set ys" by auto
  with y(2,3) show ?thesis by blast
qed

end
