(* ===== verification/Spec2Isabelle.thy ===== *)
theory Spec2Isabelle
  imports
    Ael_Prelude
    Data_View
    Event_Masks
    Handles
    Stream_Listener
    Timer_Handler
    Filter_Base
    Tcp_Filter
    Scripted_Kernel
    Stream_Buffer
    Stream_Buffer_Facts
    Stream_Buffer_Io
    Stream_Buffer_Run
    Stream_Buffer_Close
    Stream_Threads
    Stream_Interleaving
    Stream_Shared_Bytes
    Stream_Concurrency
    Epoll
    Event_Loop
    Loop_Invariants
    Scripted_Loop
    Loop_Safety
    Loop_Progress
    Loop_Ready
    Stream_In_Loop
    Loop_Stop
    Loop_Order
    Execute_Instances
    Log_Text
    Event_Ids
    Handler_Law
    Ping_Pong
    Loop_Dispatch
    Timers_In_Loop
    Samples_Execute
    Streams_In_Loop
    Server_In_Loop
    Shared_In_Loop
begin

text \<open>
  A verification of libael, an asynchronous event library for Linux in C++ (\<open>src/include\<close>,
  \<open>src/lib\<close>).

  The program.  An \<open>EventLoop\<close> (\<open>event_loop.h\<close>) owns a thread that waits in an \<open>EPoll\<close>
  (\<open>epoll.cc\<close>) and calls the \<open>EventHandler\<close>s that are attached to it, each through an \<open>Event\<close>
  (\<open>event.h\<close>).  Handlers are the \<open>StreamBuffer\<close>s, which read and write a connection through a chain
  of filters whose bottom is the TCP filter, the \<open>StreamListener\<close>s, which accept connections, the
  timers, and the functions given to \<open>ExecuteOnce\<close>.  Other threads talk to the loop thread through
  three queues of the EPoll and a wakeup descriptor.

  Theories, in the order of their imports.

  \<^item> \<open>Ael_Prelude\<close>: bytes, error numbers, exceptions as values, the log levels and sink of \<open>log.h\<close>,
    the values of \<open>config.cc\<close>.
  \<^item> \<open>Data_View\<close>: \<open>DataView\<close> over a memory of blocks: views, saved copies, slices, destruction.
  \<^item> \<open>Event_Masks\<close>: class \<open>Events\<close> and its translation to and from epoll masks.
  \<^item> \<open>Handles\<close>: the descriptor factories of \<open>handle.cc\<close> and what they leave open.
  \<^item> \<open>Stream_Listener\<close>, \<open>Timer_Handler\<close>: the handlers of these names.
  \<^item> \<open>Filter_Base\<close>, \<open>Tcp_Filter\<close>: \<open>StreamBufferFilter\<close> over its virtual functions (a record of
    functions), with the interfaces of a channel to the socket (locales \<open>out_channel\<close> and
    \<open>in_channel\<close>), and the TCP filter that provides them.
  \<^item> \<open>Stream_Buffer\<close>: \<open>StreamBuffer\<close>; \<open>Stream_Buffer_Facts\<close> and \<open>Stream_Buffer_Io\<close> hold the lemmas on
    its operations, \<open>Stream_Buffer_Run\<close> the invariants of its reachable states, \<open>Stream_Buffer_Close\<close>
    how streams end.  \<open>Scripted_Kernel\<close> is a socket to evaluate runs with.
  \<^item> \<open>Stream_Threads\<close>: \<open>HandleEvents\<close> of a stream buffer cut into the steps that other threads can
    observe (\<open>at_step\<close>: the lock of the handler, each test and the setting of \<open>should_close_\<close>, the swap of
    \<open>pending_writes_\<close>, each round of the read loop), and that together they are the function
    \<open>handle_events\<close>; \<open>Stream_Interleaving\<close>: these steps among those of \<open>Write\<close> (test, push under the lock,
    ready) and \<open>Close\<close> (set, ready) of any number of other threads (\<open>thr_step\<close>), with the invariant;
    \<open>Stream_Shared_Bytes\<close>: the bytes; \<open>Stream_Concurrency\<close>: what follows.
  \<^item> \<open>Epoll\<close>, \<open>Event_Loop\<close>: the queues, the table and the operations of the EPoll, with the interface
    of a queue that wakes its consumer (locale \<open>waking_queue\<close>); \<open>EventLoop\<close> and \<open>Event\<close>, the loop
    thread as a machine of atomic steps (\<open>loop_step\<close>, one per critical section, system call or call
    of a handler), and all interleavings with callers (\<open>run_step\<close>).  The calls of other threads are cut
    where they leave a lock: \<open>Attach\<close> after the creation of the event, \<open>Close\<close> after its erasure from
    \<open>events_\<close>, \<open>Stop\<close> after the flag; the loop thread waits for a \<open>Close\<close> that another thread is doing.
  \<^item> \<open>Loop_Invariants\<close>: the invariant of the event loop; \<open>Scripted_Loop\<close>: an epoll to evaluate runs
    with; \<open>Loop_Safety\<close>, \<open>Loop_Progress\<close> and \<open>Loop_Ready\<close>: what follows.
  \<^item> \<open>Stream_In_Loop\<close>: a stream buffer attached to an event loop, its calls on the event carried out on
    the loop and its \<open>HandleEvents\<close> run by the loop thread; every run of it is a run of both parts.
    \<open>Streams_In_Loop\<close>: any number of them in one loop, each of which runs as if it were alone there;
    \<open>Server_In_Loop\<close>: beside them a listener whose handler attaches a stream for every connection it
    accepts, as the server of \<open>samples/ping_pong\<close> does (\<open>accepted\<close> is its \<open>HandleNewConnection\<close>); a call
    of it that throws ends the loop thread and is left out.
    \<open>Shared_In_Loop\<close>: one stream buffer whose \<open>HandleEvents\<close> the loop thread runs in the steps of \<open>Stream_Threads\<close>,
    among the steps of \<open>Write\<close> and \<open>Close\<close> of other threads and all those of the loop (\<open>crowd_step\<close>).
  \<^item> \<open>Loop_Stop\<close>: \<open>Stop\<close> returns; \<open>Loop_Order\<close>: the order in which the loop thread serves what was
    handed to it, and the well-formedness of its state; \<open>Loop_Dispatch\<close>: what \<open>epoll_wait\<close> reports is
    delivered.
  \<^item> \<open>Execute_Instances\<close>: the objects that the functions of \<open>ExecuteOnce\<close> are bound to, destroyed by any
    thread between the steps of \<open>HandleEvents\<close> (\<open>execute_turn\<close>: the lock of the object, the test of what it yielded, the
    beginning and the end of the call), with a record of whether the object was alive in the call; the loop of the other
    theories is that one with objects that stay alive.
  \<^item> \<open>Timers_In_Loop\<close>: any number of timers in an event loop.  The loop thread handles an event of a timer in
    steps (\<open>hand_step\<close>: the one test of \<open>canceled_\<close>, the read with the lock of the instance, each call of the function, the
    \<open>Cancel\<close> at the end), any thread cancels between them, and a \<open>Cancel\<close> is the setting of \<open>canceled_\<close> and then the closing
    of the event.
  \<^item> \<open>Log_Text\<close>: the \<open>operator<<\<close> of the classes and the line of a log message, with readers for them;
    \<open>Event_Ids\<close>: the counter that gives handlers and events their ids.
  \<^item> \<open>Handler_Law\<close>: the interface between a stream buffer and the callbacks of its application (locale
    \<open>handler_law\<close>: what the callbacks keep, every run keeps); \<open>Ping_Pong\<close>: the client and the server of
    \<open>samples/ping_pong\<close> as such applications, and the two ends of one connection.
  \<^item> \<open>Samples_Execute\<close>: the \<open>main\<close> of \<open>samples/execute_once\<close> and \<open>samples/execute_interval\<close> as programs that
    run beside the loop thread (\<open>once_step\<close>, \<open>interval_step\<close>).

  How state corresponds.  A class is a record with its fields; a smart pointer that may be empty is
  an option or a flag; a \<open>weak_ptr\<close> is a flag that says whether it still locks (\<open>gone\<close>, \<open>alive\<close>).
  What an object does to the outside is recorded: \<open>trace\<close>, \<open>l_trace\<close>, \<open>tm_trace\<close>, \<open>history\<close>.
  Exceptions are left results.  Integers that can overflow are words; the descriptor and the length
  of a view are \<open>int\<close>, with the narrowing of \<open>size()\<close> written out.

  The system.  Sockets, epoll, eventfd, timerfd and address parsing are parameters (records of
  functions on an abstract kernel state); what the theorems need of them is named and is documented
  behaviour (\<open>socket_ok\<close>, \<open>epoll_ok\<close>, \<open>net_ok\<close>, \<open>accept_ok\<close>, \<open>abi_ok\<close>, \<open>efd_drains\<close>, \<open>reports_fitting\<close>), and each has an
  instance that is evaluated.  \<open>epoll_ok\<close> is about runs in which no call of epoll or of the eventfd fails (a signal makes
  \<open>epoll_wait\<close> fail); what a failing call does to the loop thread is in \<open>Loop_Safety\<close>.
  \<open>epoll_wait\<close> has an array of 32 entries: \<open>reports_fitting\<close> says that it reports the wakeup descriptor if fewer than 32 others are ready
  (\<open>fits\<close>), and the theorems that need a wakeup to be heard assume that at the wait.  Only the theorem on \<open>execute_once\<close>, whose loop
  has no other descriptor, uses the stronger \<open>reports_wakeup\<close>.  \<open>orderly\<close> says that no removal is ahead of its addition.

  Bounds.  The read loop has no bound in the code and is a partial function, so its result is an
  option: that it returns is a theorem with the condition it needs, and that it does not return is
  one too.  No other definition uses fuel.

  What the theorems show.  Stream buffers, also while several threads write and close: no byte is
  lost, repeated or reordered in either direction, the callbacks follow a protocol, closing sends
  what was accepted before it; alone, closing completes, and output that the kernel took in part waits for the next
  \<open>Write\<close> or \<open>Close\<close>.  Event
  loop: no wakeup is lost under any interleaving, its state is well-formed, handlers are not called
  after the removal of their event, \<open>ExecuteOnce\<close> runs exactly once and in the order of the calls,
  skipped only when its object is gone and never on a destroyed one, descriptors are closed neither early nor late.
  As long as no removal is ahead of its addition: ready events of an open handler that has been added
  arrive, as does what the kernel reports, \<open>Stop\<close> returns, runs what was handed over before, and removes every
  event; these say how the loop thread goes on alone, with other threads at rest.  The exceptions of the loop thread itself are listed with the calls they
  come from; with calls that succeed only ''event not found'' is left, when a removal has overtaken its addition, and a function that attaches a
  timer and cancels it makes that happen.  Together: once a stream is connected and its event is added, with nothing in its list or the
  write event queued, no view that a thread has pushed is left without a wakeup, and the waiting loop thread goes on to call
  the stream; a view that was pushed before the connection can be left (\<open>early_write_consumed\<close>).  The calls of a stream or a
  timer on its event never throw; the end of a stream closes its event; timers fire; a timer that was cancelled runs at most for what the loop
  thread has already begun to handle.  The samples do what they print, in every interleaving, except that a ping or pong that
  arrives in pieces is missed, and that \<open>Print1\<close> can still run behind the \<open>Cancel\<close> of \<open>main\<close>.  The smaller components are
  specified branch by branch.

  Ghosts.  \<open>swap_mark\<close> and \<open>close_mark\<close> of a shared stream buffer are positions in its trace that only
  the theorems read; the traces are ghosts too.

  Not modelled: writing the log to the console and the clocks (\<open>log.cc\<close>, \<open>elapsed.h\<close>); what other threads
  do during one callback of the application, which is one step; exceptions of the handlers, which leave the loop thread
  and end the process; races on \<open>shared_ptr\<close>s themselves (a
  handler stays alive while \<open>HandleEvents\<close> holds it); in the compositions of many streams the steps of threads inside the operations of a stream,
  which are whole there; the tests and the build files.
\<close>

end
